(* ===== verification/Prelude.thy ===== *)
theory Prelude
  imports Main "HOL-Library.Word" "HOL-Library.Signed_Division"
begin

text \<open>
  Shared vocabulary of the development.

  \<^item> The program targets i386 (\<^verbatim>\<open>core/setjmp.S\<close> saves the i386 registers and
    \<^verbatim>\<open>spawn_task\<close> casts pointers to \<^verbatim>\<open>unsigned int\<close>), so \<^verbatim>\<open>int\<close>,
    \<^verbatim>\<open>unsigned int\<close>, \<^verbatim>\<open>long\<close>, \<^verbatim>\<open>size_t\<close>, \<^verbatim>\<open>clock_t\<close> and pointers are
    32 bits wide: \<open>u32\<close>.  Signed readings of such a word use \<open>sint\<close>, \<open><s\<close> and \<open>sdiv\<close>.
    Signed values on which the code only compares and counts are kept as \<^typ>\<open>int\<close>.
  \<^item> Undefined behaviour of C that the code can reach (a NULL or dangling pointer is
    followed, an array is read past its end, an integer is divided by zero, the code raises
    SIGSEGV on purpose) is a value of the error type \<open>cerr\<close>; a definition that can reach it
    returns a value of \<open>'a res\<close>.
\<close>

section \<open>Machine integers and faults\<close>

type_synonym u32 = "32 word"
type_synonym u8 = "8 word"

datatype cerr =
    NullDeref      \<comment> \<open>a field of the NULL pointer is read or written\<close>
  | UseAfterFree   \<comment> \<open>a field of a freed object is read or written\<close>
  | OutOfBounds    \<comment> \<open>an array is indexed outside its bounds\<close>
  | DivByZero      \<comment> \<open>an integer division by zero\<close>
  | BadShift       \<comment> \<open>an integer is shifted by a negative amount or by its width or more\<close>
  | RaisedSegv     \<comment> \<open>the code calls \<open>raise (SIGSEGV)\<close>\<close>
  | NoReturn       \<comment> \<open>a loop over a corrupted list never comes to its end\<close>

type_synonym 'a res = "cerr + 'a"

named_theorems fault_simps \<open>rewriting of the fault monad\<close>

definition andThen :: "'e + 'a \<Rightarrow> ('a \<Rightarrow> 'e + 'b) \<Rightarrow> 'e + 'b" where
  "andThen m f = (case m of Inl e \<Rightarrow> Inl e | Inr x \<Rightarrow> f x)"

lemma andThen_Inl [simp, fault_simps]: "andThen (Inl e) f = Inl e"
  by (simp add: andThen_def)

lemma andThen_Inr [simp, fault_simps]: "andThen (Inr x) f = f x"
  by (simp add: andThen_def)

lemma andThen_eq_Inr [fault_simps]:
  "andThen m f = Inr y \<longleftrightarrow> (\<exists>x. m = Inr x \<and> f x = Inr y)"
  by (cases m) auto

lemma andThen_eq_Inl [fault_simps]:
  "andThen m f = Inl e \<longleftrightarrow> m = Inl e \<or> (\<exists>x. m = Inr x \<and> f x = Inl e)"
  by (cases m) auto

lemma andThen_assoc: "andThen (andThen m f) g = andThen m (\<lambda>x. andThen (f x) g)"
  by (cases m) auto

lemma andThen_cong [fundef_cong]:
  "m = m' \<Longrightarrow> (\<And>x. m' = Inr x \<Longrightarrow> f x = f' x) \<Longrightarrow> andThen m f = andThen m' f'"
  by (cases m') auto

text \<open>The result of a loop along pointers: \<^term>\<open>None\<close> is not returning.\<close>

definition returned :: "'a res option \<Rightarrow> 'a res" where
  "returned r = (case r of None \<Rightarrow> Inl NoReturn | Some x \<Rightarrow> x)"

text \<open>
  Following a pointer into a typed store: \<^term>\<open>None\<close> is NULL, an address the store does
  not hold is a freed object.
\<close>

definition deref :: "('p \<Rightarrow> 'a option) \<Rightarrow> 'p option \<Rightarrow> 'a res" where
  "deref m q = (case q of None \<Rightarrow> Inl NullDeref
                | Some p \<Rightarrow> (case m p of None \<Rightarrow> Inl UseAfterFree | Some x \<Rightarrow> Inr x))"

lemma deref_simps [simp, fault_simps]:
  "deref m None = Inl NullDeref"
  "m p = None \<Longrightarrow> deref m (Some p) = Inl UseAfterFree"
  "m p = Some x \<Longrightarrow> deref m (Some p) = Inr x"
  by (simp_all add: deref_def)

lemma deref_eq_Inr [fault_simps]:
  "deref m q = Inr x \<longleftrightarrow> (\<exists>p. q = Some p \<and> m p = Some x)"
  by (auto simp: deref_def split: option.splits)

text \<open>C's division of two \<^verbatim>\<open>int\<close> values: truncating, on the signed readings.\<close>

definition int_div :: "u32 \<Rightarrow> u32 \<Rightarrow> u32" where
  "int_div a b = word_of_int (sint a sdiv sint b)"

section \<open>Lists\<close>

lemma remove1_middle [simp]: "x \<notin> set xs \<Longrightarrow> remove1 x (xs @ x # ys) = xs @ ys"
  by (simp add: remove1_append)

lemma distinct_splitE:
  assumes "x \<in> set zs" and "distinct zs"
  obtains xs ys where "zs = xs @ x # ys" and "x \<notin> set xs" and "x \<notin> set ys"
proof -
  from assms(1) obtain xs ys where "zs = xs @ x # ys"
    by (auto dest: split_list)
  with assms(2) that show thesis by auto
qed

lemma last_notin_butlast [simp]: "distinct xs \<Longrightarrow> xs \<noteq> [] \<Longrightarrow> last xs \<notin> set (butlast xs)"
  by (cases xs rule: rev_cases) auto

lemma hd_notin_tl [simp]: "distinct xs \<Longrightarrow> xs \<noteq> [] \<Longrightarrow> hd xs \<notin> set (tl xs)"
  by (cases xs) auto

lemma sum_lengths_upd:
  fixes f :: "nat \<Rightarrow> 'a list"
  assumes "w < m"
  shows "(\<Sum>v<m. length ((f(w := xs)) v)) + length (f w) = (\<Sum>v<m. length (f v)) + length xs"
proof -
  have "(\<Sum>v<m. length (g v)) = length (g w) + (\<Sum>v\<in>{..<m} - {w}. length (g v))" for g :: "nat \<Rightarrow> 'a list"
    using assms by (intro sum.remove) auto
  moreover have "(\<Sum>v\<in>{..<m} - {w}. length ((f(w := xs)) v)) = (\<Sum>v\<in>{..<m} - {w}. length (f v))"
    by (rule sum.cong) auto
  ultimately show ?thesis by simp
qed

end
