(* ===== verification/Klist.thy ===== *)
theory Klist
  imports Prelude
begin

text \<open>
  The circular doubly linked lists of \<^verbatim>\<open>cmn/list.h\<close>.

  A heap of \<^verbatim>\<open>struct list_head\<close> objects is the record \<open>lheap\<close>: the two pointer fields
  as functions of the address.  Every routine of the header is a definition that performs the
  same assignments in the same order.  The second half proves what the routines do to the lists
  the heap represents: \<open>dlist h a xs\<close> says that the list with head \<open>a\<close> consists of the nodes
  \<open>xs\<close>, and \<open>lists_rep h H f\<close> that the heads \<open>H\<close> carry the pairwise disjoint lists \<open>f\<close>.
\<close>

section \<open>The routines of list.h\<close>

record 'a lheap =
  lnext :: "'a \<Rightarrow> 'a"
  lprev :: "'a \<Rightarrow> 'a"

definition set_next :: "'a \<Rightarrow> 'a \<Rightarrow> 'a lheap \<Rightarrow> 'a lheap" where
  "set_next a b h = h\<lparr>lnext := (lnext h)(a := b)\<rparr>"

definition set_prev :: "'a \<Rightarrow> 'a \<Rightarrow> 'a lheap \<Rightarrow> 'a lheap" where
  "set_prev a b h = h\<lparr>lprev := (lprev h)(a := b)\<rparr>"

definition INIT_LIST_HEAD :: "'a \<Rightarrow> 'a lheap \<Rightarrow> 'a lheap" where
  "INIT_LIST_HEAD l h = set_prev l l (set_next l l h)"

text \<open>\<^verbatim>\<open>__list_add (new, prev, next)\<close>: the four assignments, in order.\<close>

definition raw_list_add :: "'a \<Rightarrow> 'a \<Rightarrow> 'a \<Rightarrow> 'a lheap \<Rightarrow> 'a lheap" where
  "raw_list_add new prv nxt h =
     (let h1 = set_prev nxt new h;
          h2 = set_next new nxt h1;
          h3 = set_prev new prv h2
      in set_next prv new h3)"

definition list_add :: "'a \<Rightarrow> 'a \<Rightarrow> 'a lheap \<Rightarrow> 'a lheap" where
  "list_add new head h = raw_list_add new head (lnext h head) h"

definition list_add_tail :: "'a \<Rightarrow> 'a \<Rightarrow> 'a lheap \<Rightarrow> 'a lheap" where
  "list_add_tail new head h = raw_list_add new (lprev h head) head h"

definition raw_list_del :: "'a \<Rightarrow> 'a \<Rightarrow> 'a lheap \<Rightarrow> 'a lheap" where
  "raw_list_del prv nxt h = set_next prv nxt (set_prev nxt prv h)"

definition list_del :: "'a \<Rightarrow> 'a lheap \<Rightarrow> 'a lheap" where
  "list_del entry h = raw_list_del (lprev h entry) (lnext h entry) h"

definition list_replace :: "'a \<Rightarrow> 'a \<Rightarrow> 'a lheap \<Rightarrow> 'a lheap" where
  "list_replace old new h =
     (let h1 = set_next new (lnext h old) h;
          h2 = set_prev (lnext h1 new) new h1;
          h3 = set_prev new (lprev h2 old) h2
      in set_next (lprev h3 new) new h3)"

definition list_replace_init :: "'a \<Rightarrow> 'a \<Rightarrow> 'a lheap \<Rightarrow> 'a lheap" where
  "list_replace_init old new h = INIT_LIST_HEAD old (list_replace old new h)"

definition list_del_init :: "'a \<Rightarrow> 'a lheap \<Rightarrow> 'a lheap" where
  "list_del_init entry h =
     INIT_LIST_HEAD entry (raw_list_del (lprev h entry) (lnext h entry) h)"

definition list_move :: "'a \<Rightarrow> 'a \<Rightarrow> 'a lheap \<Rightarrow> 'a lheap" where
  "list_move l head h = list_add l head (raw_list_del (lprev h l) (lnext h l) h)"

definition list_move_tail :: "'a \<Rightarrow> 'a \<Rightarrow> 'a lheap \<Rightarrow> 'a lheap" where
  "list_move_tail l head h = list_add_tail l head (raw_list_del (lprev h l) (lnext h l) h)"

definition list_is_last :: "'a \<Rightarrow> 'a \<Rightarrow> 'a lheap \<Rightarrow> bool" where
  "list_is_last l head h = (lnext h l = head)"

definition list_empty :: "'a \<Rightarrow> 'a lheap \<Rightarrow> bool" where
  "list_empty head h = (lnext h head = head)"

definition list_empty_careful :: "'a \<Rightarrow> 'a lheap \<Rightarrow> bool" where
  "list_empty_careful head h =
     (let nxt = lnext h head in nxt = head \<and> nxt = lprev h head)"

definition list_is_singular :: "'a \<Rightarrow> 'a lheap \<Rightarrow> bool" where
  "list_is_singular head h = (\<not> list_empty head h \<and> lnext h head = lprev h head)"

definition raw_list_cut_position :: "'a \<Rightarrow> 'a \<Rightarrow> 'a \<Rightarrow> 'a lheap \<Rightarrow> 'a lheap" where
  "raw_list_cut_position l head entry h =
     (let new_first = lnext h entry;
          h1 = set_next l (lnext h head) h;
          h2 = set_prev (lnext h1 l) l h1;
          h3 = set_prev l entry h2;
          h4 = set_next entry l h3;
          h5 = set_next head new_first h4
      in set_prev new_first head h5)"

definition list_cut_position :: "'a \<Rightarrow> 'a \<Rightarrow> 'a \<Rightarrow> 'a lheap \<Rightarrow> 'a lheap" where
  "list_cut_position l head entry h =
     (if list_empty head h then h
      else if list_is_singular head h \<and> (lnext h head \<noteq> entry \<and> head \<noteq> entry) then h
      else if entry = head then INIT_LIST_HEAD l h
      else raw_list_cut_position l head entry h)"

definition raw_list_splice :: "'a \<Rightarrow> 'a \<Rightarrow> 'a \<Rightarrow> 'a lheap \<Rightarrow> 'a lheap" where
  "raw_list_splice l prv nxt h =
     (let first = lnext h l;
          lst = lprev h l;
          h1 = set_prev first prv h;
          h2 = set_next prv first h1;
          h3 = set_next lst nxt h2
      in set_prev nxt lst h3)"

definition list_splice :: "'a \<Rightarrow> 'a \<Rightarrow> 'a lheap \<Rightarrow> 'a lheap" where
  "list_splice l head h =
     (if \<not> list_empty l h then raw_list_splice l head (lnext h head) h else h)"

definition list_splice_tail :: "'a \<Rightarrow> 'a \<Rightarrow> 'a lheap \<Rightarrow> 'a lheap" where
  "list_splice_tail l head h =
     (if \<not> list_empty l h then raw_list_splice l (lprev h head) head h else h)"

definition list_splice_init :: "'a \<Rightarrow> 'a \<Rightarrow> 'a lheap \<Rightarrow> 'a lheap" where
  "list_splice_init l head h =
     (if \<not> list_empty l h
      then INIT_LIST_HEAD l (raw_list_splice l head (lnext h head) h) else h)"

definition list_splice_tail_init :: "'a \<Rightarrow> 'a \<Rightarrow> 'a lheap \<Rightarrow> 'a lheap" where
  "list_splice_tail_init l head h =
     (if \<not> list_empty l h
      then INIT_LIST_HEAD l (raw_list_splice l (lprev h head) head h) else h)"

text \<open>
  \<^verbatim>\<open>list_first_entry\<close> is the node after the head.  The cursor of \<^verbatim>\<open>list_for_each (pos, head)\<close>
  runs from there until it is back at the head; \<open>nodes_from h head pos\<close> is the sequence of
  cursors the loop body sees, \<^term>\<open>None\<close> when the loop does not end.
\<close>

definition list_first_entry :: "'a \<Rightarrow> 'a lheap \<Rightarrow> 'a" where
  "list_first_entry head h = lnext h head"

partial_function (option) nodes_from :: "'a lheap \<Rightarrow> 'a \<Rightarrow> 'a \<Rightarrow> 'a list option" where
  [code]: "nodes_from h head pos =
     (if pos = head then Some []
      else Option.bind (nodes_from h head (lnext h pos)) (\<lambda>xs. Some (pos # xs)))"

definition list_for_each :: "'a \<Rightarrow> 'a lheap \<Rightarrow> 'a list option" where
  "list_for_each head h = nodes_from h head (lnext h head)"


section \<open>Representation of lists\<close>

text \<open>
  \<open>lseg h a xs b\<close>: following \<^term>\<open>lnext h\<close> from \<open>a\<close> passes through \<open>xs\<close> and arrives at
  \<open>b\<close>, and the \<^term>\<open>lprev h\<close> fields mirror the way.
\<close>

fun lseg :: "'a lheap \<Rightarrow> 'a \<Rightarrow> 'a list \<Rightarrow> 'a \<Rightarrow> bool" where
  "lseg h a [] b = (lnext h a = b \<and> lprev h b = a)"
| "lseg h a (x # xs) b = (lnext h a = x \<and> lprev h x = a \<and> lseg h x xs b)"

definition dlist :: "'a lheap \<Rightarrow> 'a \<Rightarrow> 'a list \<Rightarrow> bool" where
  "dlist h a xs \<longleftrightarrow> lseg h a xs a \<and> distinct (a # xs)"

definition lists_rep :: "'a set \<Rightarrow> 'a lheap \<Rightarrow> ('a \<Rightarrow> 'a list) \<Rightarrow> bool" where
  "lists_rep H h f \<longleftrightarrow>
     (\<forall>a\<in>H. dlist h a (f a) \<and> set (f a) \<inter> H = {} \<and>
        (\<forall>b\<in>H. b \<noteq> a \<longrightarrow> set (f a) \<inter> set (f b) = {}))"

named_theorems link_simps \<open>reading a link field after the assignments of a list.h routine\<close>

lemma link_reads [link_simps]:
  "lnext (set_next a b h) = (lnext h)(a := b)"
  "lprev (set_next a b h) = lprev h"
  "lprev (set_prev a b h) = (lprev h)(a := b)"
  "lnext (set_prev a b h) = lnext h"
  by (simp_all add: set_next_def set_prev_def)

lemma lseg_append [simp]:
  "lseg h a (xs @ y # ys) b \<longleftrightarrow> lseg h a xs y \<and> lseg h y ys b"
  by (induction xs arbitrary: a) auto

lemma lseg_set_next [simp]:
  "u \<noteq> a \<Longrightarrow> u \<notin> set xs \<Longrightarrow> lseg (set_next u v h) a xs b \<longleftrightarrow> lseg h a xs b"
  by (induction xs arbitrary: a) (auto simp: link_simps)

lemma lseg_set_prev [simp]:
  "u \<noteq> b \<Longrightarrow> u \<notin> set xs \<Longrightarrow> lseg (set_prev u v h) a xs b \<longleftrightarrow> lseg h a xs b"
  by (induction xs arbitrary: a) (auto simp: link_simps)

lemma lseg_next: "lseg h a xs b \<Longrightarrow> lnext h a = (case xs of [] \<Rightarrow> b | x # _ \<Rightarrow> x)"
  by (cases xs) auto

lemma lseg_prev: "lseg h a xs b \<Longrightarrow> lprev h b = (if xs = [] then a else last xs)"
  by (induction xs arbitrary: a) auto

text \<open>A segment depends only on the links inside it.\<close>

lemma lseg_cong:
  assumes "\<And>u. u \<in> set (a # xs) \<Longrightarrow> lnext h' u = lnext h u"
    and "\<And>u. u \<in> set (b # xs) \<Longrightarrow> lprev h' u = lprev h u"
  shows "lseg h' a xs b \<longleftrightarrow> lseg h a xs b"
  using assms by (induction xs arbitrary: a) auto

lemma dlist_nextE:
  assumes "dlist h a xs"
  shows "lnext h a = (case xs of [] \<Rightarrow> a | x # _ \<Rightarrow> x)"
    and "lprev h a = (if xs = [] then a else last xs)"
  using assms by (auto simp: dlist_def lseg_next lseg_prev)

lemma dlist_unique: "dlist h a xs \<Longrightarrow> dlist h a ys \<Longrightarrow> xs = ys"
proof -
  have *: "lseg h c xs a \<Longrightarrow> lseg h c ys a \<Longrightarrow> a \<notin> set xs \<Longrightarrow> a \<notin> set ys \<Longrightarrow> xs = ys" for c
  proof (induction xs arbitrary: ys c)
    case Nil
    then show ?case by (cases ys) auto
  next
    case (Cons x xs)
    then show ?case by (cases ys) auto
  qed
  assume "dlist h a xs" "dlist h a ys"
  with * show ?thesis by (auto simp: dlist_def)
qed

section \<open>What the routines do to one list\<close>

lemma INIT_LIST_HEAD_dlist: "dlist (INIT_LIST_HEAD a h) a []"
  by (simp add: INIT_LIST_HEAD_def dlist_def link_simps)

text \<open>
  Inserting \<open>x\<close> between two neighbours of a segment, and unlinking a node of a segment.  The
  neighbours are read off the links, so the two facts cover insertion and removal anywhere.
\<close>

lemma raw_list_add_lseg:
  assumes "lseg h a (xs @ ys) b" and "distinct (xs @ ys)"
    and "a \<notin> set (xs @ ys)" and "b \<notin> set (xs @ ys)" and "x \<notin> set (a # b # xs @ ys)"
  shows "lseg (raw_list_add x (if xs = [] then a else last xs)
                 (if ys = [] then b else hd ys) h) a (xs @ x # ys) b"
proof (cases xs rule: rev_cases)
  case Nil
  with assms show ?thesis
    by (cases ys) (auto simp: raw_list_add_def Let_def link_simps)
next
  case (snoc us p)
  with assms show ?thesis
    by (cases ys) (auto simp: raw_list_add_def Let_def link_simps)
qed

lemma raw_list_del_lseg:
  assumes "lseg h a (xs @ x # ys) b" and "distinct (xs @ x # ys)"
    and "a \<notin> set (xs @ x # ys)" and "b \<notin> set (xs @ x # ys)"
  shows "lseg (raw_list_del (lprev h x) (lnext h x) h) a (xs @ ys) b"
proof (cases xs rule: rev_cases)
  case Nil
  with assms show ?thesis
    by (cases ys) (auto simp: raw_list_del_def link_simps)
next
  case (snoc us p)
  with assms show ?thesis
    by (cases ys) (auto simp: raw_list_del_def link_simps)
qed

lemma list_add_dlist:
  assumes "dlist h a xs" and "x \<noteq> a" and "x \<notin> set xs"
  shows "dlist (list_add x a h) a (x # xs)"
proof -
  have "(if xs = [] then a else hd xs) = lnext h a"
    using dlist_nextE(1) [OF assms(1)] by (cases xs) auto
  with raw_list_add_lseg [of h a "[]" xs a x] assms show ?thesis
    by (auto simp: dlist_def list_add_def)
qed

lemma list_add_tail_dlist:
  assumes "dlist h a xs" and "x \<noteq> a" and "x \<notin> set xs"
  shows "dlist (list_add_tail x a h) a (xs @ [x])"
proof -
  have "(if xs = [] then a else last xs) = lprev h a"
    using dlist_nextE(2) [OF assms(1)] by simp
  with raw_list_add_lseg [of h a xs "[]" a x] assms show ?thesis
    by (auto simp: dlist_def list_add_tail_def)
qed

lemma list_del_dlist:
  assumes "dlist h a xs" and "x \<in> set xs"
  shows "dlist (list_del x h) a (remove1 x xs)"
proof -
  from assms have d: "distinct xs" by (simp add: dlist_def)
  obtain us vs where xs: "xs = us @ x # vs" and "x \<notin> set us"
    using distinct_splitE [OF assms(2) d] by metis
  with raw_list_del_lseg [of h a us x vs a] assms show ?thesis
    by (auto simp: dlist_def list_del_def)
qed

text \<open>
  \<^verbatim>\<open>wake_io_task\<close> deletes an entry twice.  The second \<^verbatim>\<open>list_del\<close> of an entry nobody has
  relinked changes nothing, and neither does deleting an entry that points to itself.
\<close>

lemma list_del_idem: "list_del x (list_del x h) = list_del x h"
  by (auto simp: list_del_def raw_list_del_def set_next_def set_prev_def fun_eq_iff)

lemma list_del_self: "lnext h x = x \<Longrightarrow> lprev h x = x \<Longrightarrow> list_del x h = h"
  by (simp add: list_del_def raw_list_del_def set_next_def set_prev_def fun_upd_idem)

lemma list_empty_dlist: "dlist h a xs \<Longrightarrow> list_empty a h \<longleftrightarrow> xs = []"
  using dlist_nextE(1) [of h a xs]
  by (cases xs) (auto simp: list_empty_def dlist_def)

lemma list_first_entry_dlist: "dlist h a xs \<Longrightarrow> xs \<noteq> [] \<Longrightarrow> list_first_entry a h = hd xs"
  using dlist_nextE(1) [of h a xs] by (cases xs) (auto simp: list_first_entry_def)

lemma list_is_singular_dlist: "dlist h a xs \<Longrightarrow> list_is_singular a h \<longleftrightarrow> length xs = 1"
proof -
  assume d: "dlist h a xs"
  then have "distinct xs" by (simp add: dlist_def)
  have "xs \<noteq> [] \<Longrightarrow> lnext h a = hd xs" and "xs \<noteq> [] \<Longrightarrow> lprev h a = last xs"
    using dlist_nextE [OF d] by (auto split: list.splits)
  with \<open>distinct xs\<close> list_empty_dlist [OF d] show ?thesis
    by (cases xs; cases "tl xs") (auto simp: list_is_singular_def)
qed

lemma list_is_last_dlist:
  assumes "dlist h a xs" and "x \<in> set xs"
  shows "list_is_last x a h \<longleftrightarrow> x = last xs"
proof -
  from assms have d: "distinct xs" by (simp add: dlist_def)
  obtain us vs where xs: "xs = us @ x # vs" and "x \<notin> set vs"
    using distinct_splitE [OF assms(2) d] by metis
  with assms show ?thesis
    by (cases vs) (auto simp: list_is_last_def dlist_def)
qed

text \<open>The loop of \<^verbatim>\<open>list_for_each\<close> ends and visits exactly the nodes of the list, in order.\<close>

lemma nodes_from_lseg:
  "lseg h a xs b \<Longrightarrow> b \<notin> set xs \<Longrightarrow> nodes_from h b (lnext h a) = Some xs"
proof (induction xs arbitrary: a)
  case Nil
  then show ?case by (simp add: nodes_from.simps [of h b b])
next
  case (Cons x xs)
  then have "nodes_from h b (lnext h x) = Some xs" by simp
  with Cons.prems show ?case
    by (subst nodes_from.simps) auto
qed

lemma list_for_each_dlist: "dlist h a xs \<Longrightarrow> list_for_each a h = Some xs"
  by (simp add: list_for_each_def dlist_def nodes_from_lseg)


section \<open>Several lists on one heap\<close>

text \<open>
  A routine writes only links of the list it works on and of the node it inserts: the other
  lists of the heap stay as they are.
\<close>

lemma lseg_neighbours:
  assumes "lseg h a xs b" and "x \<in> set xs"
  shows "lprev h x \<in> set (a # xs)" and "lnext h x \<in> set (b # xs)"
proof -
  obtain us vs where xs: "xs = us @ x # vs"
    using assms(2) by (auto dest: split_list)
  with assms(1) have "lseg h a us x" and "lseg h x vs b" by auto
  then show "lprev h x \<in> set (a # xs)" and "lnext h x \<in> set (b # xs)"
    using xs lseg_prev [of h a us x] lseg_next [of h x vs b]
    by (auto split: list.splits if_splits)
qed

lemma dlist_other:
  assumes "dlist h b ys"
    and "\<And>u. u \<in> set (b # ys) \<Longrightarrow> lnext h' u = lnext h u \<and> lprev h' u = lprev h u"
  shows "dlist h' b ys"
  using assms lseg_cong [of b ys h' h b] by (auto simp: dlist_def)

lemma list_add_links:
  assumes "u \<noteq> x" and "u \<noteq> a" and "u \<noteq> lnext h a"
  shows "lnext (list_add x a h) u = lnext h u \<and> lprev (list_add x a h) u = lprev h u"
  using assms by (simp add: list_add_def raw_list_add_def Let_def link_simps)

lemma list_add_tail_links:
  assumes "u \<noteq> x" and "u \<noteq> a" and "u \<noteq> lprev h a"
  shows "lnext (list_add_tail x a h) u = lnext h u \<and> lprev (list_add_tail x a h) u = lprev h u"
  using assms by (simp add: list_add_tail_def raw_list_add_def Let_def link_simps)

lemma list_del_links:
  assumes "u \<noteq> lnext h x" and "u \<noteq> lprev h x"
  shows "lnext (list_del x h) u = lnext h u \<and> lprev (list_del x h) u = lprev h u"
  using assms by (simp add: list_del_def raw_list_del_def link_simps)

lemma dlist_head_links:
  assumes "dlist h a xs"
  shows "lnext h a \<in> set (a # xs)" and "lprev h a \<in> set (a # xs)"
  using dlist_nextE [OF assms] by (auto split: list.splits if_splits)

lemma lists_repD:
  assumes "lists_rep H h f" and "a \<in> H"
  shows "dlist h a (f a)" and "set (f a) \<inter> H = {}"
    and "b \<in> H \<Longrightarrow> b \<noteq> a \<Longrightarrow> set (f a) \<inter> set (f b) = {}"
  using assms by (auto simp: lists_rep_def)

text \<open>
  The frame rule: an update that turns the list of \<open>a\<close> into \<open>ys\<close>, uses no node of another list
  and writes no link outside \<open>a\<close>, its old and its new nodes.
\<close>

lemma lists_rep_update:
  assumes rep: "lists_rep H h f" and a: "a \<in> H" and new: "dlist h' a ys"
    and fresh: "\<And>b. b \<in> H \<Longrightarrow> b \<noteq> a \<Longrightarrow> set ys \<inter> set (b # f b) = {}"
    and heads: "set ys \<inter> H = {}"
    and frame: "\<And>u. u \<notin> set (a # f a @ ys) \<Longrightarrow>
                  lnext h' u = lnext h u \<and> lprev h' u = lprev h u"
  shows "lists_rep H h' (f(a := ys))"
proof -
  have "dlist h' b (f b)" if "b \<in> H" "b \<noteq> a" for b
  proof (rule dlist_other [OF lists_repD(1) [OF rep that(1)]])
    fix u assume u: "u \<in> set (b # f b)"
    have "u \<notin> set (a # f a @ ys)"
      using u that a lists_repD [OF rep that(1)] lists_repD(2,3) [OF rep a] fresh [OF that]
      by auto
    then show "lnext h' u = lnext h u \<and> lprev h' u = lprev h u" by (rule frame)
  qed
  then have *: "dlist h' b ((f(a := ys)) b)" if "b \<in> H" for b
    using new that by simp
  have **: "set ((f(a := ys)) b) \<inter> H = {}" if "b \<in> H" for b
    using heads lists_repD(2) [OF rep that] by simp
  have "set ((f(a := ys)) b) \<inter> set ((f(a := ys)) c) = {}"
    if "b \<in> H" "c \<in> H" "c \<noteq> b" for b c
  proof (cases "a = b \<or> a = c")
    case True
    with that fresh [of b] fresh [of c] show ?thesis by auto
  next
    case False
    with that lists_repD(3) [OF rep that(1,2)] show ?thesis by auto
  qed
  with * ** show ?thesis by (simp add: lists_rep_def)
qed

lemma lists_rep_add:
  assumes rep: "lists_rep H h f" and a: "a \<in> H" and x: "x \<notin> H"
    and free: "\<And>b. b \<in> H \<Longrightarrow> x \<notin> set (f b)"
  shows "lists_rep H (list_add x a h) (f(a := x # f a))"
proof (rule lists_rep_update [OF rep a])
  note d = lists_repD(1) [OF rep a]
  show "dlist (list_add x a h) a (x # f a)"
    using a x free [OF a] by (intro list_add_dlist [OF d]) auto
  show "set (x # f a) \<inter> set (b # f b) = {}" if "b \<in> H" "b \<noteq> a" for b
    using that a x free [OF that(1)] lists_repD [OF rep a] by auto
  show "set (x # f a) \<inter> H = {}"
    using x lists_repD(2) [OF rep a] by auto
  show "lnext (list_add x a h) u = lnext h u \<and> lprev (list_add x a h) u = lprev h u"
    if "u \<notin> set (a # f a @ x # f a)" for u
    using that dlist_head_links [OF d] by (intro list_add_links) auto
qed

lemma lists_rep_add_tail:
  assumes rep: "lists_rep H h f" and a: "a \<in> H" and x: "x \<notin> H"
    and free: "\<And>b. b \<in> H \<Longrightarrow> x \<notin> set (f b)"
  shows "lists_rep H (list_add_tail x a h) (f(a := f a @ [x]))"
proof (rule lists_rep_update [OF rep a])
  note d = lists_repD(1) [OF rep a]
  show "dlist (list_add_tail x a h) a (f a @ [x])"
    using a x free [OF a] by (intro list_add_tail_dlist [OF d]) auto
  show "set (f a @ [x]) \<inter> set (b # f b) = {}" if "b \<in> H" "b \<noteq> a" for b
    using that a x free [OF that(1)] lists_repD [OF rep a] by auto
  show "set (f a @ [x]) \<inter> H = {}"
    using x lists_repD(2) [OF rep a] by auto
  show "lnext (list_add_tail x a h) u = lnext h u \<and> lprev (list_add_tail x a h) u = lprev h u"
    if "u \<notin> set (a # f a @ f a @ [x])" for u
    using that dlist_head_links [OF d] by (intro list_add_tail_links) auto
qed

lemma lists_rep_del:
  assumes rep: "lists_rep H h f" and a: "a \<in> H" and x: "x \<in> set (f a)"
  shows "lists_rep H (list_del x h) (f(a := remove1 x (f a)))"
proof (rule lists_rep_update [OF rep a])
  note d = lists_repD(1) [OF rep a]
  show "dlist (list_del x h) a (remove1 x (f a))"
    using list_del_dlist [OF d x] .
  show "set (remove1 x (f a)) \<inter> set (b # f b) = {}" if "b \<in> H" "b \<noteq> a" for b
    using that lists_repD [OF rep a] set_remove1_subset [of x "f a"] by fastforce
  show "set (remove1 x (f a)) \<inter> H = {}"
    using lists_repD(2) [OF rep a] set_remove1_subset [of x "f a"] by blast
  show "lnext (list_del x h) u = lnext h u \<and> lprev (list_del x h) u = lprev h u"
    if "u \<notin> set (a # f a @ remove1 x (f a))" for u
    using that d lseg_neighbours [OF _ x, of h a a]
    by (intro list_del_links) (auto simp: dlist_def)
qed

text \<open>Nodes that are on none of the lists keep their links.\<close>

lemma lists_rep_outside:
  assumes rep: "lists_rep H h f" and a: "a \<in> H"
    and v: "v \<notin> H" "\<And>b. b \<in> H \<Longrightarrow> v \<notin> set (f b)"
  shows "v \<noteq> x \<Longrightarrow> lnext (list_add x a h) v = lnext h v \<and> lprev (list_add x a h) v = lprev h v"
    and "v \<noteq> x \<Longrightarrow> lnext (list_add_tail x a h) v = lnext h v \<and>
                    lprev (list_add_tail x a h) v = lprev h v"
    and "x \<in> set (f a) \<Longrightarrow> lnext (list_del x h) v = lnext h v \<and> lprev (list_del x h) v = lprev h v"
proof -
  note d = lists_repD(1) [OF rep a]
  have out: "v \<notin> set (a # f a)" using v a by auto
  show "lnext (list_add x a h) v = lnext h v \<and> lprev (list_add x a h) v = lprev h v" if "v \<noteq> x"
    using out dlist_head_links [OF d] that by (intro list_add_links) auto
  show "lnext (list_add_tail x a h) v = lnext h v \<and> lprev (list_add_tail x a h) v = lprev h v"
    if "v \<noteq> x"
    using out dlist_head_links [OF d] that by (intro list_add_tail_links) auto
  show "lnext (list_del x h) v = lnext h v \<and> lprev (list_del x h) v = lprev h v"
    if "x \<in> set (f a)"
    using out lseg_neighbours [OF _ that, of h a a] d
    by (intro list_del_links) (auto simp: dlist_def)
qed

lemma lists_rep_cong: "(\<And>a. a \<in> H \<Longrightarrow> f a = g a) \<Longrightarrow> lists_rep H h f \<longleftrightarrow> lists_rep H h g"
  by (simp add: lists_rep_def)

lemma lists_rep_init:
  assumes rep: "lists_rep (H - {a}) h f" and "\<And>b. b \<in> H - {a} \<Longrightarrow> a \<notin> set (f b)"
  shows "lists_rep (insert a H) (INIT_LIST_HEAD a h) (f(a := []))"
proof -
  have "dlist (INIT_LIST_HEAD a h) b (f b)" if "b \<in> H - {a}" for b
    using that assms(2) [OF that]
    by (intro dlist_other [OF lists_repD(1) [OF rep that]])
      (auto simp: INIT_LIST_HEAD_def link_simps)
  moreover have "dlist (INIT_LIST_HEAD a h) a []" by (rule INIT_LIST_HEAD_dlist)
  ultimately have "dlist (INIT_LIST_HEAD a h) b ((f(a := [])) b)" if "b \<in> insert a H" for b
    using that by auto
  moreover have "set ((f(a := [])) b) \<inter> insert a H = {}" if "b \<in> insert a H" for b
    using that assms(2) [of b] lists_repD(2) [OF rep, of b] by auto
  moreover have "set ((f(a := [])) b) \<inter> set ((f(a := [])) c) = {}"
    if "b \<in> insert a H" "c \<in> insert a H" "c \<noteq> b" for b c
    using that lists_repD(3) [OF rep, of b c] by auto
  ultimately show ?thesis by (simp add: lists_rep_def)
qed


section \<open>The remaining routines of the header\<close>

lemma list_del_init_dlist:
  assumes "dlist h a xs" and "x \<in> set xs"
  shows "dlist (list_del_init x h) a (remove1 x xs)" and "dlist (list_del_init x h) x []"
proof -
  from assms have "x \<notin> set (remove1 x xs)" and "x \<noteq> a" by (auto simp: dlist_def)
  then show "dlist (list_del_init x h) a (remove1 x xs)"
    unfolding list_del_init_def
    by (intro dlist_other [OF list_del_dlist [OF assms, unfolded list_del_def]])
      (auto simp: INIT_LIST_HEAD_def link_simps)
  show "dlist (list_del_init x h) x []"
    by (simp add: list_del_init_def INIT_LIST_HEAD_dlist)
qed

lemma list_move_tail_dlist:
  assumes "dlist h a xs" and "x \<in> set xs"
  shows "dlist (list_move_tail x a h) a (remove1 x xs @ [x])"
  using list_add_tail_dlist [OF list_del_dlist [OF assms], of x] assms
  by (auto simp: list_move_tail_def list_del_def dlist_def)

lemma list_move_dlist:
  assumes "dlist h a xs" and "x \<in> set xs"
  shows "dlist (list_move x a h) a (x # remove1 x xs)"
  using list_add_dlist [OF list_del_dlist [OF assms], of x] assms
  by (auto simp: list_move_def list_del_def dlist_def)

text \<open>
  For the routines that cut and join whole segments, a segment is a chain of linked neighbours,
  which splits at any point into two chains and the link between them.
\<close>

abbreviation linked :: "'a lheap \<Rightarrow> 'a \<Rightarrow> 'a \<Rightarrow> bool" where
  "linked h u v \<equiv> lnext h u = v \<and> lprev h v = u"

lemma lseg_chain: "lseg h a xs b \<longleftrightarrow> successively (linked h) (a # xs @ [b])"
  by (induction xs arbitrary: a) auto

lemma chain_frame:
  assumes "successively (linked h) us"
    and "\<And>u. u \<in> set (butlast us) \<Longrightarrow> lnext h' u = lnext h u"
    and "\<And>u. u \<in> set (tl us) \<Longrightarrow> lprev h' u = lprev h u"
  shows "successively (linked h') us"
  using assms
proof (induction us rule: induct_list012)
  case (3 x y zs)
  have "successively (linked h') (y # zs)"
    using "3.prems" by (intro "3.IH"(2)) (auto split: if_splits)
  with "3.prems" show ?case by auto
qed auto

lemma chain_join:
  assumes "successively P us" and "successively P vs" and "us \<noteq> []" and "vs \<noteq> []"
    and "P (last us) (hd vs)"
  shows "successively P (us @ vs)"
  using assms by (simp add: successively_append_iff)

lemma list_replace_dlist:
  assumes d: "dlist h a (xs @ old # ys)" and new: "new \<notin> set (a # xs @ old # ys)"
  shows "dlist (list_replace old new h) a (xs @ new # ys)"
proof -
  let ?us = "a # xs" and ?vs = "ys @ [a]" and ?h = "list_replace old new h"
  have dist: "distinct (a # xs @ old # ys)" using d by (simp add: dlist_def)
  have c: "successively (linked h) (?us @ old # ?vs)"
    using d by (simp add: dlist_def lseg_chain)
  then have us: "successively (linked h) ?us" and vs: "successively (linked h) ?vs"
    and p: "lprev h old = last ?us" and n: "lnext h old = hd ?vs"
    by (auto simp: successively_append_iff successively_Cons)
  have old: "hd ?vs \<noteq> old" "last ?us \<noteq> new" "hd ?vs \<noteq> new"
    using dist new by (auto simp: hd_append)
  have h': "?h = set_next (last ?us) new (set_prev new (last ?us)
              (set_prev (hd ?vs) new (set_next new (hd ?vs) h)))"
    using old dist new by (simp add: list_replace_def Let_def link_simps p n)
  have "successively (linked ?h) ?us"
    using dist new by (intro chain_frame [OF us])
      (auto simp: h' link_simps hd_append dest: in_set_butlastD)
  moreover have "last ?us \<notin> set ys"
    using dist last_in_set [of xs] by (auto simp: disjoint_iff)
  then have "successively (linked ?h) ?vs"
    using dist new by (intro chain_frame [OF vs])
      (auto simp: h' link_simps hd_append butlast_append tl_append split: list.splits)
  moreover have "linked ?h (last ?us) new" and "linked ?h new (hd ?vs)"
    using old dist new by (auto simp: h' link_simps)
  ultimately have "successively (linked ?h) (?us @ new # ?vs)"
    by (auto simp: successively_append_iff successively_Cons)
  then show ?thesis
    using dist new by (auto simp: dlist_def lseg_chain)
qed

text \<open>Splicing a non-empty list between two neighbours.\<close>

lemma raw_list_splice_chain:
  assumes us: "successively (linked h) us" and vs: "successively (linked h) vs"
    and zs: "dlist h l zs" and ne: "us \<noteq> []" "vs \<noteq> []" "zs \<noteq> []"
    and dist: "distinct us" "distinct vs" "hd vs \<notin> set (tl us)" "last us \<notin> set (butlast vs)"
    and disj: "set (l # zs) \<inter> set (us @ vs) = {}"
  shows "successively (linked (raw_list_splice l (last us) (hd vs) h)) (us @ zs @ vs)"
proof -
  let ?h = "raw_list_splice l (last us) (hd vs) h"
  have dz: "distinct zs" using zs by (auto simp: dlist_def)
  have z: "successively (linked h) zs"
    using zs by (auto simp: dlist_def lseg_chain successively_append_iff successively_Cons)
  have ends: "lnext h l = hd zs" "lprev h l = last zs"
    using dlist_nextE [OF zs] ne(3) by (auto split: list.splits)
  have nin: "last zs \<notin> set (us @ vs)" "hd zs \<notin> set (us @ vs)"
    "last us \<notin> set zs" "hd vs \<notin> set zs"
    using disj ne last_in_set hd_in_set by (fastforce simp: disjoint_iff)+
  have neq: "hd zs \<noteq> hd vs" "last us \<noteq> last zs"
    using nin ne by auto
  have sub: "u \<in> set (butlast ws) \<Longrightarrow> u \<in> set ws" "u \<in> set (tl ws) \<Longrightarrow> u \<in> set ws" for u ws
    by (auto dest: in_set_butlastD) (cases ws; simp)
  have h': "?h = set_prev (hd vs) (last zs) (set_next (last zs) (hd vs)
              (set_next (last us) (hd zs) (set_prev (hd zs) (last us) h)))"
    by (simp add: raw_list_splice_def Let_def ends)
  have "successively (linked ?h) us"
    using nin dist ne by (intro chain_frame [OF us]) (auto simp: h' link_simps dest: sub)
  moreover have "successively (linked ?h) zs"
    using nin dz ne by (intro chain_frame [OF z]) (auto simp: h' link_simps dest: sub)
  moreover have "successively (linked ?h) vs"
    using nin dist ne by (intro chain_frame [OF vs]) (auto simp: h' link_simps dest: sub)
  moreover have "linked ?h (last us) (hd zs)" "linked ?h (last zs) (hd vs)"
    using neq by (auto simp: h' link_simps)
  ultimately show ?thesis
    using ne by (simp add: successively_append_iff)
qed

lemma list_splice_dlist:
  assumes a: "dlist h a xs" and l: "dlist h l zs" and disj: "set (l # zs) \<inter> set (a # xs) = {}"
  shows "dlist (list_splice l a h) a (zs @ xs)"
proof (cases "zs = []")
  case True
  with list_empty_dlist [OF l] a show ?thesis by (simp add: list_splice_def)
next
  case False
  have hd: "lnext h a = hd (xs @ [a])"
    using dlist_nextE(1) [OF a] by (auto split: list.splits)
  have "successively (linked (raw_list_splice l (last [a]) (hd (xs @ [a])) h)) ([a] @ zs @ xs @ [a])"
    using a False disj
    by (intro raw_list_splice_chain [OF _ _ l])
      (auto simp: dlist_def lseg_chain successively_append_iff successively_Cons)
  with a l False disj list_empty_dlist [OF l] show ?thesis
    by (auto simp: list_splice_def hd dlist_def lseg_chain)
qed

lemma list_splice_tail_dlist:
  assumes a: "dlist h a xs" and l: "dlist h l zs" and disj: "set (l # zs) \<inter> set (a # xs) = {}"
  shows "dlist (list_splice_tail l a h) a (xs @ zs)"
proof (cases "zs = []")
  case True
  with list_empty_dlist [OF l] a show ?thesis by (simp add: list_splice_tail_def)
next
  case False
  have last: "lprev h a = last (a # xs)"
    using dlist_nextE(2) [OF a] by auto
  have "successively (linked (raw_list_splice l (last (a # xs)) (hd [a]) h)) ((a # xs) @ zs @ [a])"
    using a False disj
    by (intro raw_list_splice_chain [OF _ _ l])
      (auto simp: dlist_def lseg_chain successively_append_iff successively_Cons)
  with a l False disj list_empty_dlist [OF l] show ?thesis
    by (auto simp: list_splice_tail_def last dlist_def lseg_chain)
qed

lemma INIT_LIST_HEAD_other:
  "dlist h a xs \<Longrightarrow> l \<notin> set (a # xs) \<Longrightarrow> dlist (INIT_LIST_HEAD l h) a xs"
  by (rule dlist_other) (auto simp: INIT_LIST_HEAD_def link_simps)

lemma fold_INIT_links:
  "lnext (fold (\<lambda>i. INIT_LIST_HEAD (F i)) xs h) a = (if a \<in> F ` set xs then a else lnext h a)"
  "lprev (fold (\<lambda>i. INIT_LIST_HEAD (F i)) xs h) a = (if a \<in> F ` set xs then a else lprev h a)"
  by (induction xs arbitrary: h) (auto simp: INIT_LIST_HEAD_def link_simps)

lemma list_splice_init_dlist:
  assumes "dlist h a xs" and "dlist h l zs" and "set (l # zs) \<inter> set (a # xs) = {}"
  shows "dlist (list_splice_init l a h) a (zs @ xs) \<and> dlist (list_splice_init l a h) l []"
proof (cases "zs = []")
  case True
  with assms list_empty_dlist [OF assms(2)] show ?thesis by (simp add: list_splice_init_def)
next
  case False
  then have "list_splice_init l a h = INIT_LIST_HEAD l (list_splice l a h)"
    using list_empty_dlist [OF assms(2)] by (simp add: list_splice_init_def list_splice_def)
  with list_splice_dlist [OF assms] assms show ?thesis
    by (auto intro!: INIT_LIST_HEAD_other INIT_LIST_HEAD_dlist simp: dlist_def [of h l])
qed

lemma list_splice_tail_init_dlist:
  assumes "dlist h a xs" and "dlist h l zs" and "set (l # zs) \<inter> set (a # xs) = {}"
  shows "dlist (list_splice_tail_init l a h) a (xs @ zs) \<and>
         dlist (list_splice_tail_init l a h) l []"
proof (cases "zs = []")
  case True
  with assms list_empty_dlist [OF assms(2)] show ?thesis by (simp add: list_splice_tail_init_def)
next
  case False
  then have "list_splice_tail_init l a h = INIT_LIST_HEAD l (list_splice_tail l a h)"
    using list_empty_dlist [OF assms(2)]
    by (simp add: list_splice_tail_init_def list_splice_tail_def)
  with list_splice_tail_dlist [OF assms] assms show ?thesis
    by (auto intro!: INIT_LIST_HEAD_other INIT_LIST_HEAD_dlist simp: dlist_def [of h l])
qed

lemma list_cut_position_dlist:
  assumes d: "dlist h a (us @ ys)" and ne: "us \<noteq> []" and l: "l \<notin> set (a # us @ ys)"
  shows "dlist (list_cut_position l a (last us) h) l us \<and>
         dlist (list_cut_position l a (last us) h) a ys"
proof -
  define vs where "vs = ys @ [a]"
  let ?e = "last us" and ?h = "raw_list_cut_position l a (last us) h"
  have dist: "distinct us" "distinct vs" "a \<notin> set us" "set us \<inter> set vs = {}" "l \<notin> set (us @ vs)"
    using d l by (auto simp: dlist_def vs_def)
  have vs': "vs \<noteq> []" "last vs = a" by (auto simp: vs_def)
  have c: "successively (linked h) ([a] @ us @ vs)"
    using d by (simp add: dlist_def lseg_chain vs_def)
  have us: "successively (linked h) us" and vs: "successively (linked h) vs"
    and n: "lnext h ?e = hd vs" and f: "lnext h a = hd us"
    using c ne vs' unfolding successively_append_iff by auto
  have "?e \<noteq> a" using dist ne last_in_set by metis
  then have cut: "list_cut_position l a ?e h = ?h"
    using ne list_empty_dlist [OF d] list_is_singular_dlist [OF d] f
    by (cases us) (auto simp: list_cut_position_def)
  have h': "?h = set_prev (hd vs) a (set_next a (hd vs) (set_next ?e l (set_prev l ?e
              (set_prev (hd us) l (set_next l (hd us) h)))))"
    by (simp add: raw_list_cut_position_def Let_def link_simps n f)
  have nin: "hd us \<notin> set vs" "hd vs \<notin> set us" "?e \<notin> set vs" "hd us \<noteq> l" "hd vs \<noteq> l" "?e \<noteq> l"
    "a \<noteq> l" "a \<notin> set (butlast vs)"
    using dist ne vs' hd_in_set [of us] hd_in_set [of vs] last_in_set [of us] last_in_set [of vs]
      last_notin_butlast [of vs] by (auto simp: disjoint_iff)
  have neq: "hd us \<noteq> hd vs" using nin(2) ne by (metis hd_in_set)
  have sub: "u \<in> set (butlast ws) \<Longrightarrow> u \<in> set ws" "u \<in> set (tl ws) \<Longrightarrow> u \<in> set ws" for u ws
    by (auto dest: in_set_butlastD) (cases ws; simp)
  have "successively (linked ?h) us"
    using nin dist ne by (intro chain_frame [OF us]) (auto simp: h' link_simps dest: sub)
  moreover have "successively (linked ?h) vs"
    using nin dist vs' by (intro chain_frame [OF vs]) (auto simp: h' link_simps dest: sub)
  moreover have "linked ?h l (hd us)" "linked ?h ?e l" "linked ?h a (hd vs)"
    using nin neq \<open>?e \<noteq> a\<close> by (auto simp: h' link_simps)
  ultimately have "successively (linked ?h) ([l] @ us @ [l])" "successively (linked ?h) ([a] @ vs)"
    using ne vs' unfolding successively_append_iff by auto
  then show ?thesis
    using dist d l unfolding cut by (auto simp: dlist_def lseg_chain vs_def)
qed

section \<open>The interface the other components use\<close>

text \<open>
  What a client of \<^verbatim>\<open>list.h\<close> relies on: \<open>rep h f\<close> reads the heap as one list per head, and
  the five routines act on these lists.  The facts below are the queue disciplines of the
  clients: rotating an entry within a list, and moving it from one list to another without
  saying which list it is on.
\<close>

locale list_queues =
  fixes heads :: "'a set" and rep :: "'h \<Rightarrow> ('a \<Rightarrow> 'a list) \<Rightarrow> bool"
    and add add_tail :: "'a \<Rightarrow> 'a \<Rightarrow> 'h \<Rightarrow> 'h" and del :: "'a \<Rightarrow> 'h \<Rightarrow> 'h"
    and is_empty :: "'a \<Rightarrow> 'h \<Rightarrow> bool" and first :: "'a \<Rightarrow> 'h \<Rightarrow> 'a"
  assumes rep_add: "rep h f \<Longrightarrow> a \<in> heads \<Longrightarrow> x \<notin> heads \<Longrightarrow> (\<And>b. b \<in> heads \<Longrightarrow> x \<notin> set (f b)) \<Longrightarrow>
            rep (add x a h) (f(a := x # f a))"
    and rep_add_tail: "rep h f \<Longrightarrow> a \<in> heads \<Longrightarrow> x \<notin> heads \<Longrightarrow> (\<And>b. b \<in> heads \<Longrightarrow> x \<notin> set (f b)) \<Longrightarrow>
            rep (add_tail x a h) (f(a := f a @ [x]))"
    and rep_del: "rep h f \<Longrightarrow> a \<in> heads \<Longrightarrow> x \<in> set (f a) \<Longrightarrow>
            rep (del x h) (f(a := remove1 x (f a)))"
    and rep_empty: "rep h f \<Longrightarrow> a \<in> heads \<Longrightarrow> is_empty a h \<longleftrightarrow> f a = []"
    and rep_first: "rep h f \<Longrightarrow> a \<in> heads \<Longrightarrow> f a \<noteq> [] \<Longrightarrow> first a h = hd (f a)"
    and rep_distinct: "rep h f \<Longrightarrow> a \<in> heads \<Longrightarrow> distinct (f a)"
    and rep_disjoint: "rep h f \<Longrightarrow> a \<in> heads \<Longrightarrow> b \<in> heads \<Longrightarrow> x \<in> set (f a) \<Longrightarrow> x \<in> set (f b) \<Longrightarrow> a = b"
    and rep_node: "rep h f \<Longrightarrow> a \<in> heads \<Longrightarrow> x \<in> set (f a) \<Longrightarrow> x \<notin> heads"
begin

lemma removed_free:
  assumes "rep h f" and "a \<in> heads" and "x \<in> set (f a)" and "b \<in> heads"
  shows "x \<notin> set ((f(a := remove1 x (f a))) b)"
proof (cases "b = a")
  case True
  with rep_distinct [OF assms(1,2)] show ?thesis by simp
next
  case False
  with rep_disjoint [OF assms(1,2,4,3)] show ?thesis by auto
qed

lemma move_tail:
  assumes "rep h f" and "a \<in> heads" and "x \<in> set (f a)" and "b \<in> heads"
  shows "rep (add_tail x b (del x h))
           (let g = f(a := remove1 x (f a)) in g(b := g b @ [x]))"
  unfolding Let_def
  by (rule rep_add_tail [OF rep_del [OF assms(1-3)] assms(4)])
    (use assms rep_node [OF assms(1-3)] removed_free [OF assms(1-3)] in blast)+

lemma move_front:
  assumes "rep h f" and "a \<in> heads" and "x \<in> set (f a)" and "b \<in> heads"
  shows "rep (add x b (del x h)) (let g = f(a := remove1 x (f a)) in g(b := x # g b))"
  unfolding Let_def
  by (rule rep_add [OF rep_del [OF assms(1-3)] assms(4)])
    (use assms rep_node [OF assms(1-3)] removed_free [OF assms(1-3)] in blast)+

lemma rotate:
  assumes "rep h f" and "a \<in> heads" and "f a = x # xs"
  shows "rep (add_tail x a (del x h)) (f(a := xs @ [x]))"
  using move_tail [OF assms(1,2) _ assms(2), of x] assms(3) by (simp add: Let_def)

end

interpretation kl: list_queues H "lists_rep H" list_add list_add_tail list_del list_empty
    list_first_entry for H :: "'a set"
proof
  fix h f a b x
  assume rep: "lists_rep H h f" and a: "a \<in> H"
  note d = lists_repD(1) [OF rep a]
  show "list_empty a h \<longleftrightarrow> f a = []" by (rule list_empty_dlist [OF d])
  show "f a \<noteq> [] \<Longrightarrow> list_first_entry a h = hd (f a)" by (rule list_first_entry_dlist [OF d])
  show "distinct (f a)" using d by (simp add: dlist_def)
  show "x \<in> set (f a) \<Longrightarrow> lists_rep H (list_del x h) (f(a := remove1 x (f a)))"
    by (rule lists_rep_del [OF rep a])
  show "b \<in> H \<Longrightarrow> x \<in> set (f a) \<Longrightarrow> x \<in> set (f b) \<Longrightarrow> a = b"
    using lists_repD(3) [OF rep a] by blast
  show "x \<in> set (f a) \<Longrightarrow> x \<notin> H" using lists_repD(2) [OF rep a] by blast
qed (rule lists_rep_add lists_rep_add_tail; assumption)+

end
