(* ===== verification/SchedState.thy ===== *)
theory SchedState
  imports Klist
begin

text \<open>
  The data of the user-level scheduler: the structures of \<^verbatim>\<open>cmn/sched_sfs.h\<close> and the
  global variables of \<^verbatim>\<open>core/sched.c\<close>, \<^verbatim>\<open>core/thread_lib.c\<close> and
  \<^verbatim>\<open>core/iostream.c\<close> as one record \<open>sched\<close>.

  Tasks live in a store from addresses to \<^verbatim>\<open>struct tsk\<close>; an address the store does not hold
  has been freed.  The queue link \<^verbatim>\<open>hd\<close> of a task and the queue heads are nodes of one list
  heap (theory Klist), because the code unlinks a task with \<^verbatim>\<open>list_del (&p->hd)\<close> without
  knowing which queue it is on.  Registers and stacks are not modelled: a context switch is the
  change of \<^verbatim>\<open>current\<close>.
\<close>

section \<open>Tasks\<close>

definition MAX_PRIO :: nat where "MAX_PRIO = 20"
definition MAX_FDS :: nat where "MAX_FDS = 16"

definition DEFAULT_TIME_SLICE :: u32 where "DEFAULT_TIME_SLICE = 60"

datatype tsk_state = TASK_INIT | TASK_RUNNING | TASK_RUNNABLE | TASK_STOPPED
  | TASK_INTERRUPTIBLE | TASK_UNINTERRUPTIBLE | TASK_DEBUG

text \<open>The nodes of the list heap: the heads of the queues and the \<^verbatim>\<open>hd\<close> link of a task.\<close>

datatype laddr = RqHd nat | WqHd | IoHd nat | LockHd nat | TskHd nat

text \<open>
  \<open>sig_hd\<close> is the task's list of registered handlers, newest first: signal number and function
  pointer.
\<close>

record tsk =
  taskname :: string
  tid :: int
  onrq :: int
  stksize :: int
  currt :: u32
  trt :: u32
  stime :: u32
  state :: tsk_state
  tslice :: u32
  cpuusage :: u32
  prio :: int
  swct :: u32
  needsched :: bool
  signals :: u32
  sig_pending :: u32
  sig_hd :: "(int \<times> nat option) list"
  event :: u32
  stk_trc_sym :: "string list"
  stick :: u32
  etick :: u32

record attr =
  attr_stksze :: int
  attr_prio :: int
  attr_schedalgo :: int

section \<open>The global state\<close>

record sched =
  tsks :: "nat \<Rightarrow> tsk option"       \<comment> \<open>the store of \<^verbatim>\<open>struct tsk\<close>\<close>
  links :: "laddr lheap"             \<comment> \<open>the list heads of \<open>rq\<close>, \<open>wq\<close>, \<open>io_Q\<close>, locks and tasks\<close>
  nrp :: int                         \<comment> \<open>\<open>rq.nrp\<close>\<close>
  nwp :: int                         \<comment> \<open>\<open>wq.nwp\<close>\<close>
  current :: "nat option"
  idle :: "nat option"
  parent :: "nat option"
  nxt_imm_task :: "nat option"
  tswc :: u32
  jiffies :: u32
  sched_need :: bool
  os_sched_enabled :: bool
  switch_bk :: bool
  im_count :: int
  not_im_count :: int
  task_count :: u32
  taskid :: int                      \<comment> \<open>the static counter of \<open>alloc_tid\<close>\<close>
  alloc_size :: u32
  alrm_blocked :: bool               \<comment> \<open>SIGALRM is in the signal mask of the process\<close>
  sigio_blocked :: bool              \<comment> \<open>SIGIO is in the signal mask of the process\<close>
  reg_signals :: u32                 \<comment> \<open>the static mask of \<open>tm_signal\<close>\<close>

text \<open>
  What one pass through the scheduler takes from outside the program: the two readings of
  \<^verbatim>\<open>times (NULL)\<close>, the symbols \<^verbatim>\<open>backtrace\<close> reports, and the effect of the signal
  handlers the application registered.
\<close>

record env =
  t_stats :: u32
  t_switch :: u32
  bt_syms :: "string list"
  sig_hdl :: "nat \<Rightarrow> int \<Rightarrow> sched \<Rightarrow> sched res"

section \<open>Access to tasks\<close>

definition task :: "nat option \<Rightarrow> sched \<Rightarrow> tsk res" where
  "task q s = deref (tsks s) q"

text \<open>Assigning to fields of the task a pointer points to.\<close>

definition modify :: "nat option \<Rightarrow> (tsk \<Rightarrow> tsk) \<Rightarrow> sched \<Rightarrow> sched res" where
  "modify q g s = (case q of None \<Rightarrow> Inl NullDeref
     | Some p \<Rightarrow> (case tsks s p of None \<Rightarrow> Inl UseAfterFree
                 | Some t \<Rightarrow> Inr (s\<lparr>tsks := (tsks s)(p \<mapsto> g t)\<rparr>)))"

text \<open>The address of \<^verbatim>\<open>rq.hd[prio]\<close> and of \<^verbatim>\<open>io_Q.io_wait_task[fd]\<close>.\<close>

definition rq_hd :: "int \<Rightarrow> laddr res" where
  "rq_hd pr = (if 0 \<le> pr \<and> pr < int MAX_PRIO then Inr (RqHd (nat pr)) else Inl OutOfBounds)"

definition io_hd :: "int \<Rightarrow> laddr res" where
  "io_hd fd = (if 0 \<le> fd \<and> fd < int MAX_FDS then Inr (IoHd (nat fd)) else Inl OutOfBounds)"

text \<open>\<^verbatim>\<open>list_entry (node, struct tsk, hd)\<close>; a queue head is not part of a task.\<close>

fun list_entry :: "laddr \<Rightarrow> nat option" where
  "list_entry (TskHd p) = Some p"
| "list_entry _ = None"

section \<open>Facts about the accessors\<close>

lemma task_Inr [fault_simps]: "task q s = Inr t \<longleftrightarrow> (\<exists>p. q = Some p \<and> tsks s p = Some t)"
  by (simp add: task_def fault_simps)

lemma task_Some [simp]: "tsks s p = Some t \<Longrightarrow> task (Some p) s = Inr t"
  by (simp add: task_def)

lemma modify_Some [simp]:
  "tsks s p = Some t \<Longrightarrow> modify (Some p) g s = Inr (s\<lparr>tsks := (tsks s)(p \<mapsto> g t)\<rparr>)"
  by (simp add: modify_def)

lemma modify_Inr [fault_simps]:
  "modify q g s = Inr s' \<longleftrightarrow>
     (\<exists>p t. q = Some p \<and> tsks s p = Some t \<and> s' = s\<lparr>tsks := (tsks s)(p \<mapsto> g t)\<rparr>)"
  by (auto simp: modify_def split: option.splits)

lemma rq_hd_Inr [fault_simps]:
  "rq_hd pr = Inr a \<longleftrightarrow> 0 \<le> pr \<and> pr < int MAX_PRIO \<and> a = RqHd (nat pr)"
  by (auto simp: rq_hd_def)

lemma rq_hd_ok [simp]: "0 \<le> pr \<Longrightarrow> pr < int MAX_PRIO \<Longrightarrow> rq_hd pr = Inr (RqHd (nat pr))"
  by (simp add: rq_hd_def)

lemma io_hd_ok [simp]: "0 \<le> fd \<Longrightarrow> fd < int MAX_FDS \<Longrightarrow> io_hd fd = Inr (IoHd (nat fd))"
  by (simp add: io_hd_def)

end
