(* ===== verification/Sched.thy ===== *)
theory Sched
  imports SchedState
begin

unbundle bit_operations_syntax

text \<open>
  The scheduler of \<^verbatim>\<open>core/sched.c\<close>, with the wait queues of \<^verbatim>\<open>core/iostream.c\<close> it
  shares its tasks with and the delivery of pending signals (\<^verbatim>\<open>core/interrupt.c\<close>,
  \<^verbatim>\<open>core/thread_lib.c\<close>) that every pass through \<^verbatim>\<open>schedule\<close> starts with.
\<close>

section \<open>Choosing the next task\<close>

definition rm_n_move_task_new_rq :: "nat \<Rightarrow> sched \<Rightarrow> sched res" where
  "rm_n_move_task_new_rq p s =
     andThen (task (Some p) s) (\<lambda>t.
     andThen (rq_hd (prio t)) (\<lambda>head.
       Inr (s\<lparr>links := list_add_tail (TskHd p) head (list_del (TskHd p) (links s))\<rparr>)))"

text \<open>The loop over the priorities: the first entry of the first run queue that is not empty.\<close>

function ready_from :: "nat \<Rightarrow> sched \<Rightarrow> laddr option" where
  "ready_from pr s =
     (if pr < MAX_PRIO
      then if \<not> list_empty (RqHd pr) (links s)
           then Some (list_first_entry (RqHd pr) (links s))
           else ready_from (Suc pr) s
      else None)"
  by pat_completeness auto
termination
  by (relation "measure (\<lambda>(pr, s). MAX_PRIO - pr)") auto

declare ready_from.simps [simp del]

definition next_task_ready_to_run :: "sched \<Rightarrow> (nat option \<times> sched) res" where
  "next_task_ready_to_run s =
     (if nrp s = 0 then Inr (None, s)
      else case ready_from 0 s of
        None \<Rightarrow> Inr (None, s)
      | Some a \<Rightarrow>
          (case list_entry a of
             None \<Rightarrow> Inl OutOfBounds
           | Some p \<Rightarrow>
               if Some p \<noteq> current s
               then andThen (rm_n_move_task_new_rq p s) (\<lambda>s'. Inr (Some p, s'))
               else Inr (Some p, s)))"

definition get_next_eligible_task_to_run :: "sched \<Rightarrow> (nat option \<times> sched) res" where
  "get_next_eligible_task_to_run s =
     (if nrp s = 0 then Inr (idle s, s\<lparr>im_count := im_count s + 1\<rparr>)
      else case nxt_imm_task s of
        Some n \<Rightarrow>
          if current s \<noteq> nxt_imm_task s
          then Inr (Some n, s\<lparr>im_count := im_count s + 1, nxt_imm_task := None\<rparr>)
          else Inr (Some n, s)
      | None \<Rightarrow>
          andThen (next_task_ready_to_run s) (\<lambda>(nxt, s').
            if nxt \<noteq> None then Inr (nxt, s'\<lparr>not_im_count := not_im_count s' + 1\<rparr>)
            else Inr (nxt, s')))"

section \<open>Accounting and time slices\<close>

definition LOAD_THRESHOLD :: u32 where "LOAD_THRESHOLD = 40"
definition DEF_HPT_TSLICE :: u32 where "DEF_HPT_TSLICE = 60"
definition DEF_LOW_TSLICE :: u32 where "DEF_LOW_TSLICE = 30"

text \<open>
  \<^verbatim>\<open>currt\<close> is an \<^verbatim>\<open>int\<close> and \<^verbatim>\<open>tslice\<close> an \<^verbatim>\<open>unsigned int\<close>, so the
  division is unsigned; the result is compared as an \<^verbatim>\<open>int\<close>.
\<close>

definition cpu_usage_of :: "tsk \<Rightarrow> u32" where
  "cpu_usage_of t =
     (if tslice t \<noteq> 0
      then let u = (currt t * 100) div tslice t in if 100 <s u then 100 else u
      else 100)"

definition calc_current_cpu_usage :: "sched \<Rightarrow> sched res" where
  "calc_current_cpu_usage s = modify (current s) (\<lambda>t. t\<lparr>cpuusage := cpu_usage_of t\<rparr>) s"

definition update_stats :: "u32 \<Rightarrow> sched \<Rightarrow> sched res" where
  "update_stats now s =
     andThen (calc_current_cpu_usage (s\<lparr>tswc := tswc s + 1\<rparr>)) (\<lambda>s1.
     modify (current s1)
       (\<lambda>t. t\<lparr>currt := 0, swct := swct t + 1, etick := now, trt := trt t + (now - stick t) * 10\<rparr>) s1)"

definition rq_task_count :: "sched \<Rightarrow> u32" where
  "rq_task_count s = word_of_int (nrp s)"

definition get_load_on_system :: "sched \<Rightarrow> u32 res" where
  "get_load_on_system s =
     (if task_count s = 0 then Inl DivByZero
      else Inr ((rq_task_count s * 100) div task_count s))"

text \<open>The first division is signed, the second one unsigned.\<close>

definition share_load_across_system :: "u32 \<Rightarrow> sched \<Rightarrow> u32 res" where
  "share_load_across_system load s =
     (let load = (if load = 0 then 1 else load);
          share = int_div (1000 * load) 100
      in if rq_task_count s + 1 = 0 then Inl DivByZero
         else Inr (share div (rq_task_count s + 1)))"

definition calculate_time_slice :: "nat option \<Rightarrow> sched \<Rightarrow> sched res" where
  "calculate_time_slice q s =
     (if q = idle s \<or> q = current s then Inr s
      else andThen (get_load_on_system s) (\<lambda>load.
        andThen (if LOAD_THRESHOLD <s load
                 then modify q (\<lambda>t. if LOAD_THRESHOLD <s cpuusage t then t\<lparr>prio := 19\<rparr> else t) s
                 else Inr s) (\<lambda>s1.
        andThen (share_load_across_system load s1) (\<lambda>share.
        modify q (\<lambda>t. t\<lparr>tslice :=
                    share + (if prio t < 5 then DEF_HPT_TSLICE else DEF_LOW_TSLICE)\<rparr>) s1))))"

definition account_task_time_stats :: "u32 \<Rightarrow> sched \<Rightarrow> sched res" where
  "account_task_time_stats now s =
     andThen (modify (current s) (\<lambda>t. t\<lparr>etick := now, currt := (now - stick t) * 10\<rparr>) s) (\<lambda>s1.
     andThen (task (current s1) s1) (\<lambda>t.
       Inr (if tslice t \<le> currt t then s1\<lparr>sched_need := True\<rparr> else s1)))"

definition set_current_task_time_slice :: "u32 \<Rightarrow> sched \<Rightarrow> sched res" where
  "set_current_task_time_slice ts s = modify (current s) (\<lambda>t. t\<lparr>tslice := ts\<rparr>) s"

section \<open>Pending signals\<close>

text \<open>
  \<^verbatim>\<open>invoke_signal_hanlder\<close>: the first registration of the current task for the signal that
  has a handler is called.
\<close>

definition invoke_signal_hanlder :: "env \<Rightarrow> int \<Rightarrow> sched \<Rightarrow> sched res" where
  "invoke_signal_hanlder e signo s =
     andThen (task (current s) s) (\<lambda>t.
       case find (\<lambda>(sg, hdl). sg = signo \<and> hdl \<noteq> None) (sig_hd t) of
         Some (_, Some h) \<Rightarrow> sig_hdl e h signo s
       | _ \<Rightarrow> Inr s)"

lemma drop_bit_1_less: "drop_bit (Suc 0) (r :: u32) \<noteq> 0 \<Longrightarrow> unat (drop_bit (Suc 0) r) < unat r"
proof -
  assume "drop_bit (Suc 0) r \<noteq> 0"
  then have "r \<noteq> 0" by auto
  then have "unat r > 0" by (simp add: unat_gt_0)
  moreover have "unat (drop_bit (Suc 0) r) = unat r div 2"
    using unat_drop_bit_eq [of "Suc 0" r] by (simp add: drop_bit_Suc)
  ultimately show ?thesis by simp
qed

text \<open>
  The loop of \<^verbatim>\<open>process_signal\<close>.  Its test is \<^verbatim>\<open>res && 0x1\<close>, the logical and: it holds
  for every value of \<^verbatim>\<open>res\<close> but 0.
\<close>

function signal_loop :: "env \<Rightarrow> u32 \<Rightarrow> int \<Rightarrow> sched \<Rightarrow> sched res" where
  "signal_loop e r i s =
     andThen (if r \<noteq> 0 then invoke_signal_hanlder e i s else Inr s) (\<lambda>s1.
       if drop_bit 1 r \<noteq> 0 then signal_loop e (drop_bit 1 r) (i + 1) s1 else Inr s1)"
  by pat_completeness auto
termination
  by (relation "measure (\<lambda>(e, r, i, s). unat r)") (auto simp: drop_bit_1_less)

declare signal_loop.simps [simp del]

definition process_signal :: "env \<Rightarrow> nat option \<Rightarrow> sched \<Rightarrow> sched res" where
  "process_signal e q s =
     andThen (task q s) (\<lambda>t.
     andThen (signal_loop e (signals t AND sig_pending t) 1 s) (\<lambda>s1.
     modify q (\<lambda>t. t\<lparr>sig_pending := 0\<rparr>) s1))"

section \<open>The scheduler\<close>

definition collect_stack_trace :: "env \<Rightarrow> nat option \<Rightarrow> sched \<Rightarrow> sched res" where
  "collect_stack_trace e q s = modify q (\<lambda>t. t\<lparr>stk_trc_sym := bt_syms e\<rparr>) s"

definition set_task_state :: "nat option \<Rightarrow> tsk_state \<Rightarrow> sched \<Rightarrow> sched res" where
  "set_task_state q st s = modify q (\<lambda>t. t\<lparr>state := st\<rparr>) s"

text \<open>
  \<^verbatim>\<open>nsetjmp\<close> saves the registers in \<^verbatim>\<open>curr\<close>, \<^verbatim>\<open>nlongjmp\<close> continues \<^verbatim>\<open>next\<close>
  behind its own \<^verbatim>\<open>nsetjmp\<close>.
\<close>

definition context_switch :: "env \<Rightarrow> nat option \<Rightarrow> nat option \<Rightarrow> sched \<Rightarrow> sched res" where
  "context_switch e cur nxt s =
     andThen (task cur s) (\<lambda>_.
     andThen (modify nxt (\<lambda>t. t\<lparr>state := TASK_RUNNING, stick := t_switch e\<rparr>) (s\<lparr>current := nxt\<rparr>))
       (\<lambda>s1. Inr (s1\<lparr>alrm_blocked := False\<rparr>)))"

definition sig_is_pending :: "sched \<Rightarrow> bool res" where
  "sig_is_pending s = andThen (task (current s) s) (\<lambda>t. Inr (signals t AND sig_pending t \<noteq> 0))"

definition schedule :: "env \<Rightarrow> sched \<Rightarrow> sched res" where
  "schedule e s =
     (if os_sched_enabled s then Inr s
      else
        andThen (sig_is_pending s) (\<lambda>pend.
        andThen (if pend then process_signal e (current s) s else Inr s) (\<lambda>s1.
        andThen (get_next_eligible_task_to_run s1) (\<lambda>(etsk, s2).
        let s3 = s2\<lparr>sched_need := False\<rparr> in
        if current s3 \<noteq> etsk then
          andThen (collect_stack_trace e (current s3) s3) (\<lambda>s4.
          andThen (update_stats (t_stats e) s4) (\<lambda>s5.
          andThen (calculate_time_slice etsk s5) (\<lambda>s6.
          andThen (set_task_state (current s6) TASK_INTERRUPTIBLE s6) (\<lambda>s7.
          context_switch e (current s7) etsk s7))))
        else calc_current_cpu_usage s3))))"

definition cpu_yield :: "env \<Rightarrow> sched \<Rightarrow> sched res" where
  "cpu_yield e s = schedule e s"

section \<open>Queues\<close>

text \<open>\<^verbatim>\<open>init_scheduler\<close> counts the priorities down from 19.\<close>

definition init_scheduler :: "sched \<Rightarrow> sched" where
  "init_scheduler s =
     s\<lparr>links := INIT_LIST_HEAD WqHd
                 (fold (\<lambda>pr. INIT_LIST_HEAD (RqHd pr)) (rev [0..<MAX_PRIO]) (links s))\<rparr>"

definition task_find_right_RQ :: "nat \<Rightarrow> sched \<Rightarrow> sched res" where
  "task_find_right_RQ p s =
     andThen (task (Some p) s) (\<lambda>t.
     andThen (rq_hd (prio t)) (\<lambda>head.
     andThen (modify (Some p) (\<lambda>t. t\<lparr>onrq := 1\<rparr>)
                (s\<lparr>links := list_add_tail (TskHd p) head (links s)\<rparr>)) (\<lambda>s1.
       Inr (s1\<lparr>nrp := nrp s1 + 1\<rparr>))))"

definition add_task_to_wait_Q :: "u32 \<Rightarrow> nat option \<Rightarrow> sched \<Rightarrow> sched res" where
  "add_task_to_wait_Q now q s =
     andThen (task q s) (\<lambda>t.
       if onrq t \<noteq> 0 then
         andThen (modify q (\<lambda>t. t\<lparr>state := TASK_INTERRUPTIBLE, onrq := 0, stime := now\<rparr>)
           (s\<lparr>links := list_add_tail (TskHd (the q)) WqHd (list_del (TskHd (the q)) (links s)),
              nrp := nrp s - 1\<rparr>))
           (\<lambda>s1. Inr (s1\<lparr>nwp := nwp s1 + 1\<rparr>))
       else Inr s)"

definition add_current_task_wait_Q :: "u32 \<Rightarrow> sched \<Rightarrow> sched res" where
  "add_current_task_wait_Q now s =
     (if os_sched_enabled s then Inr s else add_task_to_wait_Q now (current s) s)"

text \<open>The cache \<^verbatim>\<open>nxt_imm_task\<close> keeps the woken task with the smallest \<^verbatim>\<open>prio\<close>.\<close>

definition note_imm_task :: "nat \<Rightarrow> sched \<Rightarrow> sched res" where
  "note_imm_task p s =
     (case nxt_imm_task s of
        None \<Rightarrow> Inr (s\<lparr>nxt_imm_task := Some p\<rparr>)
      | Some n \<Rightarrow>
          andThen (task (Some n) s) (\<lambda>tn.
          andThen (task (Some p) s) (\<lambda>tp.
            Inr (if prio tn > prio tp then s\<lparr>nxt_imm_task := Some p\<rparr> else s))))"

definition need_sched_for :: "nat \<Rightarrow> sched \<Rightarrow> sched res" where
  "need_sched_for p s =
     andThen (task (current s) s) (\<lambda>tc.
     andThen (task (Some p) s) (\<lambda>tp.
       Inr (if prio tc > prio tp then s\<lparr>sched_need := True\<rparr> else s)))"

definition wakeup_task :: "u32 \<Rightarrow> nat \<Rightarrow> sched \<Rightarrow> sched res" where
  "wakeup_task now p s =
     andThen (task (Some p) s) (\<lambda>t.
     andThen
       (if onrq t = 0 then
          andThen (rq_hd (prio t)) (\<lambda>head.
          andThen (modify (Some p) (\<lambda>t. t\<lparr>onrq := 1\<rparr>)
            (s\<lparr>links := list_add (TskHd p) head (list_del (TskHd p) (links s))\<rparr>)) (\<lambda>s1.
            Inr (s1\<lparr>nrp := nrp s1 + 1, nwp := nwp s1 - 1\<rparr>)))
        else Inr s) (\<lambda>s2.
     andThen (need_sched_for p s2) (\<lambda>s3.
     andThen (note_imm_task p s3) (\<lambda>s4.
     modify (Some p) (\<lambda>t. t\<lparr>stime := now - stime t\<rparr>) s4))))"

definition wakeup_new_task :: "u32 \<Rightarrow> nat \<Rightarrow> sched \<Rightarrow> sched res" where
  "wakeup_new_task now p s =
     andThen (need_sched_for p s) (\<lambda>s1.
     andThen (task_find_right_RQ p s1) (\<lambda>s2.
     andThen (note_imm_task p s2) (\<lambda>s3.
     modify (Some p) (\<lambda>t. t\<lparr>stime := now\<rparr>) s3)))"

definition set_task_not_rq :: "sched \<Rightarrow> sched res" where
  "set_task_not_rq s =
     andThen (modify (current s) (\<lambda>t. t\<lparr>onrq := 0\<rparr>) s) (\<lambda>s1. Inr (s1\<lparr>nwp := nwp s1 + 1\<rparr>))"

text \<open>
  \<^verbatim>\<open>task_exit\<close> clears the structure before it frees the stack, so \<^verbatim>\<open>free (p->stk)\<close> is
  \<^verbatim>\<open>free (NULL)\<close>; the counters \<^verbatim>\<open>nrp\<close> and \<^verbatim>\<open>nwp\<close> are left alone.
\<close>

definition task_exit :: "nat option \<Rightarrow> sched \<Rightarrow> sched res" where
  "task_exit q s =
     andThen (task q s) (\<lambda>_.
       Inr (s\<lparr>links := list_del (TskHd (the q)) (links s),
              tsks := (tsks s)(the q := None),
              task_count := task_count s - 1\<rparr>))"

section \<open>Waiting for descriptors\<close>

definition init_io :: "sched \<Rightarrow> sched" where
  "init_io s = s\<lparr>links := fold (\<lambda>fd. INIT_LIST_HEAD (IoHd fd)) [0..<MAX_FDS] (links s)\<rparr>"

definition add_task_to_IO_wait_Q :: "nat \<Rightarrow> int \<Rightarrow> sched \<Rightarrow> sched res" where
  "add_task_to_IO_wait_Q p fd s =
     andThen (io_hd fd) (\<lambda>head. Inr (s\<lparr>links := list_add_tail (TskHd p) head (links s)\<rparr>))"

text \<open>\<^verbatim>\<open>wait_on_fd\<close> up to its call of \<^verbatim>\<open>schedule\<close>, and the whole function.\<close>

definition park_on_fd :: "int \<Rightarrow> sched \<Rightarrow> sched res" where
  "park_on_fd fd s =
     andThen (task (current s) s) (\<lambda>_.
     andThen (add_task_to_IO_wait_Q (the (current s)) fd
                (s\<lparr>links := list_del (TskHd (the (current s))) (links s), nrp := nrp s - 1\<rparr>)) (\<lambda>s1.
     modify (current s1) (\<lambda>t. t\<lparr>onrq := 0\<rparr>) (s1\<lparr>nwp := nwp s1 + 1\<rparr>)))"

definition wait_on_fd :: "env \<Rightarrow> int \<Rightarrow> sched \<Rightarrow> sched res" where
  "wait_on_fd e fd s = andThen (park_on_fd fd s) (schedule e)"

text \<open>
  \<^verbatim>\<open>list_for_each_safe (p, n, head)\<close> over the tasks waiting for a descriptor: \<^verbatim>\<open>n\<close> is
  read before the body runs and the next one after it.
\<close>

partial_function (option) wake_loop ::
    "u32 \<Rightarrow> laddr \<Rightarrow> laddr \<Rightarrow> laddr \<Rightarrow> sched \<Rightarrow> sched res option" where
  [code]: "wake_loop now head pos n s =
     (if pos = head then Some (Inr s)
      else case list_entry pos of
        None \<Rightarrow> Some (Inl NullDeref)
      | Some p \<Rightarrow>
          (case wakeup_task now p (s\<lparr>links := list_del (TskHd p) (links s)\<rparr>) of
             Inl err \<Rightarrow> Some (Inl err)
           | Inr s1 \<Rightarrow> wake_loop now head n (lnext (links s1) n) s1))"

definition wake_io_task :: "u32 \<Rightarrow> int \<Rightarrow> sched \<Rightarrow> sched res" where
  "wake_io_task now fd s =
     andThen (io_hd fd) (\<lambda>head.
       if \<not> list_empty head (links s)
       then let pos = lnext (links s) head
            in returned (wake_loop now head pos (lnext (links s) pos) s)
       else Inr s)"

section \<open>Looking tasks up\<close>

fun search_tid :: "int \<Rightarrow> sched \<Rightarrow> laddr list \<Rightarrow> nat option res" where
  "search_tid i s [] = Inr None"
| "search_tid i s (a # as) =
     andThen (task (list_entry a) s) (\<lambda>t.
       if tid t = i then Inr (list_entry a) else search_tid i s as)"

definition search_list :: "int \<Rightarrow> sched \<Rightarrow> laddr \<Rightarrow> nat option res" where
  "search_list i s head =
     (case list_for_each head (links s) of None \<Rightarrow> Inl NoReturn | Some as \<Rightarrow> search_tid i s as)"

text \<open>A loop over an array of lists that stops at the first hit.\<close>

fun search_heads :: "int \<Rightarrow> sched \<Rightarrow> laddr list \<Rightarrow> nat option res" where
  "search_heads i s [] = Inr None"
| "search_heads i s (head # hs) =
     (if \<not> list_empty head (links s)
      then andThen (search_list i s head) (\<lambda>r.
             case r of Some p \<Rightarrow> Inr (Some p) | None \<Rightarrow> search_heads i s hs)
      else search_heads i s hs)"

definition io_wait_task_lookup :: "int \<Rightarrow> sched \<Rightarrow> nat option res" where
  "io_wait_task_lookup i s = search_heads i s (map IoHd [0..<MAX_FDS])"

definition find_task :: "int \<Rightarrow> sched \<Rightarrow> nat option res" where
  "find_task i s =
     andThen (io_wait_task_lookup i s) (\<lambda>r.
       case r of Some p \<Rightarrow> Inr (Some p)
       | None \<Rightarrow>
           andThen (search_list i s WqHd) (\<lambda>r.
             case r of Some p \<Rightarrow> Inr (Some p)
             | None \<Rightarrow> if nrp s \<noteq> 0 then search_heads i s (map RqHd [0..<MAX_PRIO])
                       else Inr None))"

end
