(* ===== verification/SchedInv.thy ===== *)
theory SchedInv
  imports Sched
begin

text \<open>
  The invariant of the scheduler and what its operations do to the queues.

  \<open>sched_inv f u s\<close> reads the list heap of \<open>s\<close> as the queues \<open>f\<close>.  The main task is created
  without an entry function and therefore never linked into a run queue, although it counts as
  runnable; until it blocks for the first time it is the off-queue task \<open>u\<close>.  The counter
  \<^verbatim>\<open>rq.nrp\<close> is the number of queued runnable tasks plus the off-queue one.
\<close>

section \<open>The invariant\<close>

definition queue_heads :: "laddr set" where
  "queue_heads = RqHd ` {..<MAX_PRIO} \<union> {WqHd} \<union> IoHd ` {..<MAX_FDS}"

definition rq_heads :: "laddr set" where
  "rq_heads = RqHd ` {..<MAX_PRIO}"

definition located :: "nat option \<Rightarrow> (laddr \<Rightarrow> laddr list) \<Rightarrow> nat \<Rightarrow> bool" where
  "located u f p \<longleftrightarrow> u = Some p \<or> (\<exists>a\<in>queue_heads. TskHd p \<in> set (f a))"

text \<open>A queued task: allocated, with a valid priority, on a run queue exactly when \<open>onrq\<close>.\<close>

definition queued_ok :: "sched \<Rightarrow> laddr \<Rightarrow> laddr \<Rightarrow> bool" where
  "queued_ok s a x \<longleftrightarrow>
     (\<exists>p t. x = TskHd p \<and> tsks s p = Some t \<and> 0 \<le> prio t \<and> prio t < int MAX_PRIO \<and>
        (onrq t \<noteq> 0 \<longleftrightarrow> a \<in> rq_heads) \<and> idle s \<noteq> Some p)"

definition offq_ok :: "(laddr \<Rightarrow> laddr list) \<Rightarrow> nat option \<Rightarrow> sched \<Rightarrow> bool" where
  "offq_ok f u s \<longleftrightarrow>
     (\<forall>m. u = Some m \<longrightarrow>
        (\<exists>t. tsks s m = Some t \<and> onrq t \<noteq> 0 \<and> 0 \<le> prio t \<and> prio t < int MAX_PRIO) \<and>
        idle s \<noteq> Some m \<and> (\<forall>a\<in>queue_heads. TskHd m \<notin> set (f a)) \<and>
        lnext (links s) (TskHd m) = TskHd m \<and> lprev (links s) (TskHd m) = TskHd m)"

definition queue_total :: "laddr set \<Rightarrow> (laddr \<Rightarrow> laddr list) \<Rightarrow> nat" where
  "queue_total A f = (\<Sum>a\<in>A. length (f a))"

definition sched_inv :: "(laddr \<Rightarrow> laddr list) \<Rightarrow> nat option \<Rightarrow> sched \<Rightarrow> bool" where
  "sched_inv f u s \<longleftrightarrow>
     lists_rep queue_heads (links s) f \<and>
     (\<forall>a\<in>queue_heads. \<forall>x\<in>set (f a). queued_ok s a x) \<and>
     offq_ok f u s \<and>
     (\<forall>p t. tsks s p = Some t \<longrightarrow> idle s \<noteq> Some p \<longrightarrow> located u f p) \<and>
     (\<exists>c. current s = Some c \<and> tsks s c \<noteq> None) \<and>
     (\<exists>i. idle s = Some i \<and> tsks s i \<noteq> None) \<and>
     (\<forall>n. nxt_imm_task s = Some n \<longrightarrow> tsks s n \<noteq> None) \<and>
     nrp s = int (queue_total rq_heads f) + (if u = None then 0 else 1) \<and>
     nwp s = int (queue_total (queue_heads - rq_heads) f) \<and>
     task_count s \<noteq> 0"

lemma heads_simps [simp]:
  "RqHd r \<in> queue_heads \<longleftrightarrow> r < MAX_PRIO" "RqHd r \<in> rq_heads \<longleftrightarrow> r < MAX_PRIO"
  "WqHd \<in> queue_heads" "WqHd \<notin> rq_heads"
  "IoHd fd \<in> queue_heads \<longleftrightarrow> fd < MAX_FDS" "IoHd fd \<notin> rq_heads"
  "TskHd p \<notin> queue_heads" "TskHd p \<notin> rq_heads" "LockHd l \<notin> queue_heads"
  by (auto simp: queue_heads_def rq_heads_def)

lemma rq_heads_subset: "rq_heads \<subseteq> queue_heads"
  by (auto simp: queue_heads_def rq_heads_def)

lemma finite_heads [simp]: "finite queue_heads" "finite rq_heads"
  by (auto simp: queue_heads_def rq_heads_def)

subsection \<open>Reading the invariant\<close>

lemma sched_invD:
  assumes "sched_inv f u s"
  shows "lists_rep queue_heads (links s) f"
    and "a \<in> queue_heads \<Longrightarrow> x \<in> set (f a) \<Longrightarrow> queued_ok s a x"
    and "offq_ok f u s"
    and "tsks s p = Some t \<Longrightarrow> idle s \<noteq> Some p \<Longrightarrow> located u f p"
    and "\<exists>c. current s = Some c \<and> tsks s c \<noteq> None"
    and "\<exists>i. idle s = Some i \<and> tsks s i \<noteq> None"
    and "nxt_imm_task s = Some n \<Longrightarrow> tsks s n \<noteq> None"
    and "nrp s = int (queue_total rq_heads f) + (if u = None then 0 else 1)"
    and "nwp s = int (queue_total (queue_heads - rq_heads) f)"
    and "task_count s \<noteq> 0"
  using assms unfolding sched_inv_def by blast+

lemma sched_inv_located:
  assumes inv: "sched_inv f u s" and a: "a \<in> queue_heads" and x: "TskHd p \<in> set (f a)"
  obtains t where "tsks s p = Some t" and "0 \<le> prio t" and "prio t < int MAX_PRIO"
    and "onrq t \<noteq> 0 \<longleftrightarrow> a \<in> rq_heads" and "idle s \<noteq> Some p"
  using sched_invD(2) [OF inv a x] by (auto simp: queued_ok_def)

text \<open>A runnable task is on a run queue or the off-queue task; a sleeping one is on a wait queue.\<close>

lemma sched_inv_where:
  assumes inv: "sched_inv f u s" and p: "tsks s p = Some t" and "idle s \<noteq> Some p"
  shows "onrq t \<noteq> 0 \<Longrightarrow> u = Some p \<or> (\<exists>a\<in>rq_heads. TskHd p \<in> set (f a))"
    and "onrq t = 0 \<Longrightarrow> u \<noteq> Some p \<and> (\<exists>a\<in>queue_heads - rq_heads. TskHd p \<in> set (f a))"
  using sched_invD(4) [OF inv p assms(3)] sched_invD(3) [OF inv] p sched_inv_located [OF inv]
  unfolding located_def offq_ok_def by (metis DiffI option.inject)+

subsection \<open>Updates the invariant does not see\<close>

lemma sched_inv_tsk_update:
  assumes inv: "sched_inv f u s" and p: "tsks s p = Some t"
    and "onrq t' = onrq t" and "0 \<le> prio t \<Longrightarrow> prio t < int MAX_PRIO \<Longrightarrow> 0 \<le> prio t' \<and> prio t' < int MAX_PRIO"
  shows "sched_inv f u (s\<lparr>tsks := (tsks s)(p \<mapsto> t')\<rparr>)"
proof -
  have "queued_ok (s\<lparr>tsks := (tsks s)(p \<mapsto> t')\<rparr>) a x" if "queued_ok s a x" for a x
    using that assms by (auto simp: queued_ok_def)
  moreover have "offq_ok f u (s\<lparr>tsks := (tsks s)(p \<mapsto> t')\<rparr>)"
    using sched_invD(3) [OF inv] assms by (auto simp: offq_ok_def)
  ultimately show ?thesis
    using inv p unfolding sched_inv_def by auto
qed

lemma sched_inv_frame [simp]:
  "sched_inv f u (s\<lparr>im_count := x\<rparr>) = sched_inv f u s"
  "sched_inv f u (s\<lparr>not_im_count := x\<rparr>) = sched_inv f u s"
  "sched_inv f u (s\<lparr>sched_need := b\<rparr>) = sched_inv f u s"
  "sched_inv f u (s\<lparr>tswc := w\<rparr>) = sched_inv f u s"
  "sched_inv f u (s\<lparr>jiffies := w\<rparr>) = sched_inv f u s"
  "sched_inv f u (s\<lparr>alrm_blocked := b\<rparr>) = sched_inv f u s"
  "sched_inv f u (s\<lparr>sigio_blocked := b\<rparr>) = sched_inv f u s"
  by (simp_all add: sched_inv_def queued_ok_def offq_ok_def)

lemma sched_inv_imm:
  "sched_inv f u s \<Longrightarrow> (\<And>n. q = Some n \<Longrightarrow> tsks s n \<noteq> None) \<Longrightarrow> sched_inv f u (s\<lparr>nxt_imm_task := q\<rparr>)"
  by (simp add: sched_inv_def queued_ok_def offq_ok_def)

lemma sched_inv_current:
  "sched_inv f u s \<Longrightarrow> tsks s c \<noteq> None \<Longrightarrow> sched_inv f u (s\<lparr>current := Some c\<rparr>)"
  by (simp add: sched_inv_def queued_ok_def offq_ok_def)


section \<open>Moving a task between queues\<close>

definition unqueue :: "nat \<Rightarrow> (laddr \<Rightarrow> laddr list) \<Rightarrow> laddr \<Rightarrow> laddr list" where
  "unqueue p f = (\<lambda>a. remove1 (TskHd p) (f a))"

definition enq_tail :: "nat \<Rightarrow> laddr \<Rightarrow> (laddr \<Rightarrow> laddr list) \<Rightarrow> laddr \<Rightarrow> laddr list" where
  "enq_tail p b f = (unqueue p f)(b := unqueue p f b @ [TskHd p])"

definition enq_front :: "nat \<Rightarrow> laddr \<Rightarrow> (laddr \<Rightarrow> laddr list) \<Rightarrow> laddr \<Rightarrow> laddr list" where
  "enq_front p b f = (unqueue p f)(b := TskHd p # unqueue p f b)"

lemma unqueue_rep:
  assumes inv: "sched_inv f u s" and p: "tsks s p = Some t" "idle s \<noteq> Some p"
  shows "lists_rep queue_heads (list_del (TskHd p) (links s)) (unqueue p f)"
    and "a \<in> queue_heads \<Longrightarrow> TskHd p \<notin> set (unqueue p f a)"
    and "u \<noteq> Some p \<Longrightarrow> u = Some m \<Longrightarrow>
          lnext (list_del (TskHd p) (links s)) (TskHd m) = TskHd m \<and>
          lprev (list_del (TskHd p) (links s)) (TskHd m) = TskHd m"
proof -
  note rep = sched_invD(1) [OF inv]
  show "TskHd p \<notin> set (unqueue p f a)" if "a \<in> queue_heads" for a
    using kl.rep_distinct [OF rep that] by (simp add: unqueue_def)
  have "lists_rep queue_heads (list_del (TskHd p) (links s)) (unqueue p f) \<and>
     (u \<noteq> Some p \<longrightarrow> u = Some m \<longrightarrow>
          lnext (list_del (TskHd p) (links s)) (TskHd m) = TskHd m \<and>
          lprev (list_del (TskHd p) (links s)) (TskHd m) = TskHd m)"
  proof (cases "\<exists>a\<in>queue_heads. TskHd p \<in> set (f a)")
    case True
    then obtain a where a: "a \<in> queue_heads" "TskHd p \<in> set (f a)" by blast
    have "unqueue p f b = (f(a := remove1 (TskHd p) (f a))) b" if "b \<in> queue_heads" for b
      using kl.rep_disjoint [OF rep a(1) that a(2)]
      by (cases "TskHd p \<in> set (f b)") (auto simp: unqueue_def remove1_idem)
    with kl.rep_del [OF rep a] lists_rep_outside(3) [OF rep a(1) _ _ a(2), of "TskHd m"]
      sched_invD(3) [OF inv]
    show ?thesis
      by (auto simp: offq_ok_def cong: lists_rep_cong)
  next
    case False
    with sched_invD(4) [OF inv p] have u: "u = Some p" by (simp add: located_def)
    with sched_invD(3) [OF inv] have "list_del (TskHd p) (links s) = links s"
      by (auto simp: offq_ok_def list_del_self)
    moreover have "unqueue p f b = f b" if "b \<in> queue_heads" for b
      using False that by (auto simp: unqueue_def remove1_idem)
    ultimately have "lists_rep queue_heads (list_del (TskHd p) (links s)) (unqueue p f)"
      using rep lists_rep_cong [of queue_heads "unqueue p f" f] by simp
    with u show ?thesis by simp
  qed
  then show "lists_rep queue_heads (list_del (TskHd p) (links s)) (unqueue p f)"
    and "u \<noteq> Some p \<Longrightarrow> u = Some m \<Longrightarrow>
          lnext (list_del (TskHd p) (links s)) (TskHd m) = TskHd m \<and>
          lprev (list_del (TskHd p) (links s)) (TskHd m) = TskHd m"
    by blast+
qed

lemma queue_total_upd:
  assumes "finite A"
  shows "int (queue_total A (f(a := ys))) =
    int (queue_total A f) + (if a \<in> A then int (length ys) - int (length (f a)) else 0)"
proof (cases "a \<in> A")
  case True
  have "(\<Sum>x\<in>A - {a}. length ((f(a := ys)) x)) = (\<Sum>x\<in>A - {a}. length (f x))"
    by (rule sum.cong) auto
  with True assms show ?thesis
    unfolding queue_total_def sum.remove [OF assms True] by simp
next
  case False
  then show ?thesis by (auto simp: queue_total_def intro!: arg_cong [of _ _ int] sum.cong)
qed

lemma queue_total_unqueue:
  assumes rep: "lists_rep queue_heads h f" and A: "A \<subseteq> queue_heads"
  shows "int (queue_total A (unqueue p f)) =
    int (queue_total A f) - (if \<exists>a\<in>A. TskHd p \<in> set (f a) then 1 else 0)"
proof (cases "\<exists>a\<in>A. TskHd p \<in> set (f a)")
  case True
  then obtain a where a: "a \<in> A" "TskHd p \<in> set (f a)" by blast
  have "unqueue p f b = (f(a := remove1 (TskHd p) (f a))) b" if "b \<in> A" for b
    using kl.rep_disjoint [OF rep, of a b "TskHd p"] a that A
    by (cases "TskHd p \<in> set (f b)") (auto simp: unqueue_def remove1_idem)
  then have "queue_total A (unqueue p f) = queue_total A (f(a := remove1 (TskHd p) (f a)))"
    unfolding queue_total_def by (intro sum.cong) auto
  moreover have "int (length (remove1 (TskHd p) (f a))) = int (length (f a)) - 1"
    using length_pos_if_in_set [OF a(2)] a(2) by (simp add: length_remove1 Suc_leI int_ops(6) del: of_nat_diff)
  ultimately show ?thesis
    using True a A finite_subset [OF A] by (simp add: queue_total_upd)
next
  case False
  then have "queue_total A (unqueue p f) = queue_total A f"
    unfolding queue_total_def by (intro sum.cong) (auto simp: unqueue_def remove1_idem)
  with False show ?thesis by simp
qed

text \<open>Inserting an unlinked task at either end of a queue.\<close>

definition enq_at ::
    "(laddr \<Rightarrow> laddr \<Rightarrow> laddr lheap \<Rightarrow> laddr lheap) \<Rightarrow> nat \<Rightarrow> laddr \<Rightarrow> (laddr \<Rightarrow> laddr list) \<Rightarrow>
       (laddr \<Rightarrow> laddr list) \<Rightarrow> bool" where
  "enq_at ins p b f g \<longleftrightarrow>
     (ins = list_add_tail \<and> g = enq_tail p b f) \<or> (ins = list_add \<and> g = enq_front p b f)"

lemma enq_at_intros [intro]:
  "enq_at list_add_tail p b f (enq_tail p b f)" "enq_at list_add p b f (enq_front p b f)"
  by (simp_all add: enq_at_def)

lemma enq_at_set:
  assumes "enq_at ins p b f g"
  shows "set (g a) = (if a = b then insert (TskHd p) (set (unqueue p f a)) else set (unqueue p f a))"
  using assms by (auto simp: enq_at_def enq_tail_def enq_front_def)

lemma unqueue_subset: "x \<in> set (unqueue p f a) \<Longrightarrow> x \<in> set (f a)"
  unfolding unqueue_def by (rule subsetD [OF set_remove1_subset])

lemma enq_at_total:
  assumes "enq_at ins p b f g" and "lists_rep queue_heads h f" and "A \<subseteq> queue_heads"
  shows "int (queue_total A g) = int (queue_total A f)
     - (if \<exists>a\<in>A. TskHd p \<in> set (f a) then 1 else 0) + (if b \<in> A then 1 else 0)"
proof -
  have "\<exists>ys. g = (unqueue p f)(b := ys) \<and> length ys = length (unqueue p f b) + 1"
    using assms(1) by (auto simp: enq_at_def enq_tail_def enq_front_def)
  then obtain ys where "g = (unqueue p f)(b := ys)" and "length ys = length (unqueue p f b) + 1"
    by blast
  then show ?thesis
    using queue_total_upd [of A "unqueue p f" b ys] finite_subset [OF assms(3)]
      queue_total_unqueue [OF assms(2,3), of p] by simp
qed

lemma enq_at_rep:
  assumes inv: "sched_inv f u s" and p: "tsks s p = Some t" "idle s \<noteq> Some p"
    and b: "b \<in> queue_heads" and ins: "enq_at ins p b f g"
  shows "lists_rep queue_heads (ins (TskHd p) b (list_del (TskHd p) (links s))) g"
    and "u = Some m \<Longrightarrow> m \<noteq> p \<Longrightarrow>
       linked (ins (TskHd p) b (list_del (TskHd p) (links s))) (TskHd m) (TskHd m)"
proof -
  note rep = unqueue_rep(1) [OF inv p]
  show "lists_rep queue_heads (ins (TskHd p) b (list_del (TskHd p) (links s))) g"
    using ins kl.rep_add [OF rep b, of "TskHd p"] kl.rep_add_tail [OF rep b, of "TskHd p"]
      unqueue_rep(2) [OF inv p] by (auto simp: enq_at_def enq_tail_def enq_front_def)
  show "linked (ins (TskHd p) b (list_del (TskHd p) (links s))) (TskHd m) (TskHd m)"
    if "u = Some m" "m \<noteq> p"
  proof -
    have out: "c \<in> queue_heads \<Longrightarrow> TskHd m \<notin> set (unqueue p f c)" for c
      using sched_invD(3) [OF inv] that unqueue_subset by (fastforce simp: offq_ok_def)
    show ?thesis
      using ins lists_rep_outside(1,2) [OF rep b _ out, of "TskHd p"] that
        unqueue_rep(3) [OF inv p, of m] by (auto simp: enq_at_def)
  qed
qed

text \<open>
  The step all queue operations are made of: task \<open>p\<close> is unlinked wherever it is and inserted
  into the queue of head \<open>b\<close>, and the two counters follow.
\<close>

lemma sched_inv_requeue:
  assumes inv: "sched_inv f u s" and p: "tsks s p = Some t" "idle s \<noteq> Some p"
    and b: "b \<in> queue_heads"
    and t': "onrq t' \<noteq> 0 \<longleftrightarrow> b \<in> rq_heads" "0 \<le> prio t'" "prio t' < int MAX_PRIO"
    and ins: "enq_at ins p b f g"
  shows "sched_inv g (if u = Some p then None else u)
    (s\<lparr>links := ins (TskHd p) b (list_del (TskHd p) (links s)), tsks := (tsks s)(p \<mapsto> t'),
       nrp := nrp s - (if onrq t \<noteq> 0 then 1 else 0) + (if b \<in> rq_heads then 1 else 0),
       nwp := nwp s - (if onrq t \<noteq> 0 then 0 else 1) + (if b \<in> rq_heads then 0 else 1)\<rparr>)"
    (is "sched_inv g ?u ?s")
proof -
  note free = unqueue_rep(2) [OF inv p] and set_g = enq_at_set [OF ins]
  have "queued_ok ?s a x" if "a \<in> queue_heads" "x \<in> set (g a)" for a x
  proof (cases "x = TskHd p")
    case True
    with that free set_g have "a = b" by (auto split: if_splits)
    with True t' p(2) show ?thesis by (simp add: queued_ok_def)
  next
    case False
    with that set_g have "x \<in> set (f a)" by (auto dest: unqueue_subset split: if_splits)
    with sched_invD(2) [OF inv that(1)] False show ?thesis by (auto simp: queued_ok_def)
  qed
  moreover have "offq_ok g ?u ?s"
    using sched_invD(3) [OF inv] enq_at_rep(2) [OF inv p b ins] set_g
    by (auto simp: offq_ok_def dest: unqueue_subset split: if_splits)
  moreover have "located ?u g q" if "tsks ?s q = Some tq" "idle ?s \<noteq> Some q" for q tq
  proof (cases "q = p")
    case False
    with that sched_invD(4) [OF inv] have "located u f q" by simp
    moreover have "TskHd q \<in> set (f a) \<Longrightarrow> TskHd q \<in> set (g a)" for a
      using False set_g [of a] by (auto simp: unqueue_def)
    ultimately show ?thesis using False unfolding located_def by auto
  qed (use b set_g [of b] in \<open>auto simp: located_def\<close>)
  moreover have inq: "onrq t \<noteq> 0 \<longleftrightarrow> (\<exists>a\<in>rq_heads. TskHd p \<in> set (f a)) \<or> u = Some p"
    "onrq t = 0 \<longleftrightarrow> (\<exists>a\<in>queue_heads - rq_heads. TskHd p \<in> set (f a))"
    "u = Some p \<Longrightarrow> \<not> (\<exists>a\<in>queue_heads. TskHd p \<in> set (f a))"
    using sched_inv_where [OF inv p] sched_inv_located [OF inv] sched_invD(3) [OF inv] p
      rq_heads_subset unfolding offq_ok_def by (metis DiffD1 DiffD2 option.inject subsetD)+
  note tot = enq_at_total [OF ins sched_invD(1) [OF inv]]
  have "nrp ?s = int (queue_total rq_heads g) + (if ?u = None then 0 else 1)"
    using tot [OF rq_heads_subset] rq_heads_subset sched_invD(8) [OF inv] inq by auto
  moreover have "nwp ?s = int (queue_total (queue_heads - rq_heads) g)"
    using tot [of "queue_heads - rq_heads"] sched_invD(9) [OF inv] inq b by auto
  ultimately show ?thesis
    using enq_at_rep(1) [OF inv p b ins] inv unfolding sched_inv_def by auto
qed

end
