(* ===== verification/SchedOps.thy ===== *)
theory SchedOps
  imports SchedInv
begin

text \<open>
  What the operations of the scheduler do, in terms of the queues of theory SchedInv: no
  operation faults in a state that satisfies the invariant, the invariant is kept, and the
  queues change as stated.
\<close>

section \<open>Waiting and waking\<close>

lemma add_task_to_wait_Q_eq:
  assumes "tsks s p = Some t"
  shows "add_task_to_wait_Q now (Some p) s = Inr
    (if onrq t \<noteq> 0 then
       s\<lparr>links := list_add_tail (TskHd p) WqHd (list_del (TskHd p) (links s)),
         tsks := (tsks s)(p \<mapsto> t\<lparr>state := TASK_INTERRUPTIBLE, onrq := 0, stime := now\<rparr>),
         nrp := nrp s - 1, nwp := nwp s + 1\<rparr>
     else s)"
  using assms by (simp add: add_task_to_wait_Q_def)

lemma add_task_to_wait_Q_inv:
  assumes inv: "sched_inv f u s" and p: "tsks s p = Some t" "idle s \<noteq> Some p" and "onrq t \<noteq> 0"
  obtains s' where "add_task_to_wait_Q now (Some p) s = Inr s'"
    and "sched_inv (enq_tail p WqHd f) (if u = Some p then None else u) s'"
    and "current s' = current s" and "nxt_imm_task s' = nxt_imm_task s"
    and "tsks s' = (tsks s)(p \<mapsto> t\<lparr>state := TASK_INTERRUPTIBLE, onrq := 0, stime := now\<rparr>)"
    and "nrp s' = nrp s - 1"
proof
  let ?s = "s\<lparr>links := list_add_tail (TskHd p) WqHd (list_del (TskHd p) (links s)),
         tsks := (tsks s)(p \<mapsto> t\<lparr>state := TASK_INTERRUPTIBLE, onrq := 0, stime := now\<rparr>),
         nrp := nrp s - 1, nwp := nwp s + 1\<rparr>"
  show "add_task_to_wait_Q now (Some p) s = Inr ?s"
    using add_task_to_wait_Q_eq [OF p(1)] assms(4) by simp
  have pr: "0 \<le> prio t" "prio t < int MAX_PRIO"
    using sched_inv_where(1) [OF inv p assms(4)] sched_inv_located [OF inv] p rq_heads_subset
      sched_invD(3) [OF inv] unfolding offq_ok_def by (metis option.inject subsetD)+
  show "sched_inv (enq_tail p WqHd f) (if u = Some p then None else u) ?s"
    using sched_inv_requeue [OF inv p, of WqHd "t\<lparr>state := TASK_INTERRUPTIBLE, onrq := 0, stime := now\<rparr>"]
      pr assms(4) enq_at_intros(1) by simp
qed simp_all

lemma sched_inv_prio:
  assumes inv: "sched_inv f u s" and p: "tsks s p = Some t" "idle s \<noteq> Some p"
  shows "0 \<le> prio t \<and> prio t < int MAX_PRIO"
  using sched_invD(4) [OF inv p] sched_invD(3) [OF inv] sched_inv_located [OF inv, of _ p] p
  unfolding located_def offq_ok_def by (metis option.inject)

text \<open>The tail of \<^verbatim>\<open>wakeup_task\<close> that decides who runs next.\<close>

lemma need_sched_for_eq:
  assumes "sched_inv f u s" and "tsks s p = Some t"
  obtains b where "need_sched_for p s = Inr (s\<lparr>sched_need := b\<rparr>)"
proof -
  obtain c tc where "current s = Some c" "tsks s c = Some tc"
    using sched_invD(5) [OF assms(1)] by auto
  with assms(2) have "need_sched_for p s =
      Inr (s\<lparr>sched_need := (if prio tc > prio t then True else sched_need s)\<rparr>)"
    by (simp add: need_sched_for_def)
  with that show thesis by blast
qed

lemma note_imm_task_eq:
  assumes "sched_inv f u s" and "tsks s p = Some t"
  obtains n where "note_imm_task p s = Inr (s\<lparr>nxt_imm_task := Some n\<rparr>)" and "tsks s n \<noteq> None"
    and "nxt_imm_task s = None \<Longrightarrow> n = p" and "n = p \<or> nxt_imm_task s = Some n"
proof (cases "nxt_imm_task s")
  case None
  with that [of p] assms(2) show thesis by (simp add: note_imm_task_def)
next
  case (Some m)
  with sched_invD(7) [OF assms(1)] obtain tm where "tsks s m = Some tm" by auto
  with Some assms(2) have "note_imm_task p s =
      Inr (s\<lparr>nxt_imm_task := Some (if prio tm > prio t then p else m)\<rparr>)"
    by (simp add: note_imm_task_def)
  with that [of "if prio tm > prio t then p else m"] Some assms(2) \<open>tsks s m = Some tm\<close>
  show thesis by (auto split: if_splits)
qed

lemma wakeup_tail:
  assumes inv: "sched_inv f u s" and p: "tsks s p = Some t"
  obtains s' where
    "andThen (need_sched_for p s) (\<lambda>s3. andThen (note_imm_task p s3)
       (\<lambda>s4. modify (Some p) (\<lambda>t. t\<lparr>stime := k t\<rparr>) s4)) = Inr s'"
    and "sched_inv f u s'" and "tsks s' = (tsks s)(p \<mapsto> t\<lparr>stime := k t\<rparr>)"
    and "current s' = current s" and "nrp s' = nrp s" and "nwp s' = nwp s" and "links s' = links s"
    and "nxt_imm_task s = None \<Longrightarrow> nxt_imm_task s' = Some p"
    and "\<exists>n. nxt_imm_task s' = Some n \<and> (n = p \<or> nxt_imm_task s = Some n)"
    and "idle s' = idle s"
proof -
  obtain b where b: "need_sched_for p s = Inr (s\<lparr>sched_need := b\<rparr>)"
    using need_sched_for_eq [OF inv p] by blast
  have inv1: "sched_inv f u (s\<lparr>sched_need := b\<rparr>)" using inv by simp
  obtain n where n: "note_imm_task p (s\<lparr>sched_need := b\<rparr>) = Inr (s\<lparr>sched_need := b, nxt_imm_task := Some n\<rparr>)"
    "tsks s n \<noteq> None" "nxt_imm_task s = None \<Longrightarrow> n = p" "n = p \<or> nxt_imm_task s = Some n"
    using note_imm_task_eq [OF inv1, of p t] p by auto
  have inv2: "sched_inv f u (s\<lparr>sched_need := b, nxt_imm_task := Some n\<rparr>)"
    using n(2) by (intro sched_inv_imm [OF inv1]) simp
  have "sched_inv f u (s\<lparr>sched_need := b, nxt_imm_task := Some n, tsks := (tsks s)(p \<mapsto> t\<lparr>stime := k t\<rparr>)\<rparr>)"
    using sched_inv_tsk_update [OF inv2, of p t "t\<lparr>stime := k t\<rparr>"] p by simp
  with b n p show thesis
    by (intro that [of "s\<lparr>sched_need := b, nxt_imm_task := Some n, tsks := (tsks s)(p \<mapsto> t\<lparr>stime := k t\<rparr>)\<rparr>"])
      auto
qed

lemma wakeup_task_sleeping:
  assumes inv: "sched_inv f u s" and p: "tsks s p = Some t" "idle s \<noteq> Some p" and "onrq t = 0"
  obtains s' where "wakeup_task now p s = Inr s'"
    and "sched_inv (enq_front p (RqHd (nat (prio t))) f) u s'"
    and "current s' = current s" and "nrp s' = nrp s + 1" and "nwp s' = nwp s - 1"
    and "nxt_imm_task s = None \<Longrightarrow> nxt_imm_task s' = Some p"
    and "tsks s' = (tsks s)(p \<mapsto> t\<lparr>onrq := 1, stime := now - stime t\<rparr>)"
    and "links s' = list_add (TskHd p) (RqHd (nat (prio t))) (list_del (TskHd p) (links s))"
    and "idle s' = idle s"
proof -
  have pr: "0 \<le> prio t" "prio t < int MAX_PRIO" using sched_inv_prio [OF inv p] by auto
  let ?h = "RqHd (nat (prio t))"
  let ?s = "s\<lparr>links := list_add (TskHd p) ?h (list_del (TskHd p) (links s)),
      tsks := (tsks s)(p \<mapsto> t\<lparr>onrq := 1\<rparr>), nrp := nrp s + 1, nwp := nwp s - 1\<rparr>"
  have u: "u \<noteq> Some p" using sched_inv_where(2) [OF inv p assms(4)] by simp
  have inv': "sched_inv (enq_front p ?h f) u ?s"
    using sched_inv_requeue [OF inv p, of ?h "t\<lparr>onrq := 1\<rparr>" list_add "enq_front p ?h f"]
      pr assms(4) u enq_at_intros(2) by simp
  have eq: "wakeup_task now p s = andThen (need_sched_for p ?s) (\<lambda>s3. andThen (note_imm_task p s3)
       (\<lambda>s4. modify (Some p) (\<lambda>t. t\<lparr>stime := now - stime t\<rparr>) s4))"
    using p(1) pr assms(4) by (simp add: wakeup_task_def)
  have tp: "tsks ?s p = Some (t\<lparr>onrq := 1\<rparr>)" by simp
  show thesis
    by (rule wakeup_tail [OF inv' tp, of "\<lambda>t. now - stime t"], rule that, unfold eq, assumption) auto
qed

lemma wakeup_task_runnable:
  assumes inv: "sched_inv f u s" and p: "tsks s p = Some t" and "onrq t \<noteq> 0"
  obtains s' where "wakeup_task now p s = Inr s'" and "sched_inv f u s'"
    and "current s' = current s" and "nrp s' = nrp s" and "links s' = links s"
    and "nxt_imm_task s = None \<Longrightarrow> nxt_imm_task s' = Some p"
proof -
  have "wakeup_task now p s = andThen (need_sched_for p s) (\<lambda>s3. andThen (note_imm_task p s3)
       (\<lambda>s4. modify (Some p) (\<lambda>t. t\<lparr>stime := now - stime t\<rparr>) s4))"
    using p assms(3) by (simp add: wakeup_task_def)
  with wakeup_tail [OF inv p, of "\<lambda>t. now - stime t"] that show thesis by metis
qed

section \<open>Choosing a task\<close>

text \<open>The highest priority with a queued task, and the task the code picks.\<close>

definition top_prio :: "(laddr \<Rightarrow> laddr list) \<Rightarrow> nat option" where
  "top_prio f = find (\<lambda>r. f (RqHd r) \<noteq> []) [0..<MAX_PRIO]"

lemma ready_from_find:
  assumes rep: "lists_rep queue_heads (links s) f"
  shows "ready_from pr s = map_option (\<lambda>r. hd (f (RqHd r))) (find (\<lambda>r. f (RqHd r) \<noteq> []) [pr..<MAX_PRIO])"
proof (induction "MAX_PRIO - pr" arbitrary: pr)
  case 0
  then show ?case by (simp add: ready_from.simps)
next
  case (Suc n)
  then have pr: "pr < MAX_PRIO" and IH: "ready_from (Suc pr) s =
      map_option (\<lambda>r. hd (f (RqHd r))) (find (\<lambda>r. f (RqHd r) \<noteq> []) [Suc pr..<MAX_PRIO])"
    by auto
  have "list_empty (RqHd pr) (links s) \<longleftrightarrow> f (RqHd pr) = []"
    "f (RqHd pr) \<noteq> [] \<Longrightarrow> list_first_entry (RqHd pr) (links s) = hd (f (RqHd pr))"
    using kl.rep_empty [OF rep] kl.rep_first [OF rep] pr by auto
  with pr IH show ?case
    by (simp add: ready_from.simps [of pr] upt_conv_Cons)
qed

lemma top_prio_Some:
  "top_prio f = Some r \<longleftrightarrow> r < MAX_PRIO \<and> f (RqHd r) \<noteq> [] \<and> (\<forall>q<r. f (RqHd q) = [])"
  unfolding top_prio_def find_Some_iff by auto

lemma top_prio_None: "top_prio f = None \<longleftrightarrow> queue_total rq_heads f = 0"
  by (auto simp: top_prio_def find_None_iff queue_total_def rq_heads_def)

text \<open>The task the scheduler picks, and the queues after it has picked it.\<close>

definition pick :: "(laddr \<Rightarrow> laddr list) \<Rightarrow> sched \<Rightarrow> nat option" where
  "pick f s =
     (if nrp s = 0 then idle s
      else case nxt_imm_task s of Some n \<Rightarrow> Some n
      | None \<Rightarrow> (case top_prio f of None \<Rightarrow> None | Some r \<Rightarrow> list_entry (hd (f (RqHd r)))))"

definition queues_after :: "(laddr \<Rightarrow> laddr list) \<Rightarrow> sched \<Rightarrow> laddr \<Rightarrow> laddr list" where
  "queues_after f s =
     (if nrp s = 0 \<or> nxt_imm_task s \<noteq> None then f
      else case pick f s of None \<Rightarrow> f
      | Some p \<Rightarrow> if current s = Some p then f
          else (case tsks s p of None \<Rightarrow> f | Some t \<Rightarrow> enq_tail p (RqHd (nat (prio t))) f))"

text \<open>The fields that choosing a task leaves alone.\<close>

definition same_tasks :: "sched \<Rightarrow> sched \<Rightarrow> bool" where
  "same_tasks s s' \<longleftrightarrow> tsks s' = tsks s \<and> current s' = current s \<and> idle s' = idle s \<and>
     nrp s' = nrp s \<and> nwp s' = nwp s \<and> task_count s' = task_count s \<and>
     os_sched_enabled s' = os_sched_enabled s"

lemma rm_n_move_inv:
  assumes inv: "sched_inv f u s" and r: "r < MAX_PRIO" and p: "TskHd p \<in> set (f (RqHd r))"
    and t: "tsks s p = Some t"
  obtains s' where "rm_n_move_task_new_rq p s = Inr s'" and "same_tasks s s'"
    and "nxt_imm_task s' = nxt_imm_task s" and "sched_inv (enq_tail p (RqHd (nat (prio t))) f) u s'"
proof -
  have q: "0 \<le> prio t" "prio t < int MAX_PRIO" "onrq t \<noteq> 0" "idle s \<noteq> Some p"
    using sched_inv_located [OF inv, of "RqHd r" p] r p t by (auto simp: t)
  have u: "u \<noteq> Some p" using sched_invD(3) [OF inv] r p by (auto simp: offq_ok_def)
  let ?b = "RqHd (nat (prio t))"
  let ?s = "s\<lparr>links := list_add_tail (TskHd p) ?b (list_del (TskHd p) (links s))\<rparr>"
  have "sched_inv (enq_tail p ?b f) u ?s"
    using sched_inv_requeue [OF inv t q(4), of ?b t list_add_tail "enq_tail p ?b f"] q u t
      enq_at_intros(1) by (simp add: fun_upd_idem)
  moreover have "rm_n_move_task_new_rq p s = Inr ?s"
    using t q by (simp add: rm_n_move_task_new_rq_def)
  ultimately show thesis
    by (intro that [of ?s]) (auto simp: same_tasks_def)
qed

lemma next_task_ready_inv:
  assumes inv: "sched_inv f u s" and "nrp s \<noteq> 0" and "nxt_imm_task s = None"
  obtains s' where "next_task_ready_to_run s = Inr (pick f s, s')" and "same_tasks s s'"
    and "nxt_imm_task s' = None" and "sched_inv (queues_after f s) u s'"
proof (cases "top_prio f")
  case None
  with assms ready_from_find [OF sched_invD(1) [OF inv], of 0]
  show thesis
    by (intro that [of s])
      (auto simp: next_task_ready_to_run_def pick_def queues_after_def same_tasks_def top_prio_def)
next
  case (Some r)
  then have r: "r < MAX_PRIO" "f (RqHd r) \<noteq> []" by (auto simp: top_prio_Some)
  then have "hd (f (RqHd r)) \<in> set (f (RqHd r))" and "queued_ok s (RqHd r) (hd (f (RqHd r)))"
    using sched_invD(2) [OF inv, of "RqHd r" "hd (f (RqHd r))"] by simp_all
  then obtain p t where p: "hd (f (RqHd r)) = TskHd p" "TskHd p \<in> set (f (RqHd r))" "tsks s p = Some t"
    unfolding queued_ok_def by metis
  have pick: "pick f s = Some p" using assms Some p by (simp add: pick_def)
  have ready: "ready_from 0 s = Some (TskHd p)"
    using ready_from_find [OF sched_invD(1) [OF inv], of 0] Some p by (simp add: top_prio_def)
  show thesis
  proof (cases "current s = Some p")
    case True
    with assms ready pick show ?thesis
      by (intro that [of s])
        (auto simp: next_task_ready_to_run_def queues_after_def same_tasks_def)
  next
    case False
    obtain s' where "rm_n_move_task_new_rq p s = Inr s'" "same_tasks s s'"
      "nxt_imm_task s' = nxt_imm_task s" "sched_inv (enq_tail p (RqHd (nat (prio t))) f) u s'"
      using rm_n_move_inv [OF inv r(1) p(2,3)] by blast
    with False assms ready pick p show ?thesis
      by (intro that [of s'])
        (auto simp: next_task_ready_to_run_def queues_after_def)
  qed
qed

lemma eligible_inv:
  assumes inv: "sched_inv f u s"
  obtains s' where "get_next_eligible_task_to_run s = Inr (pick f s, s')" and "same_tasks s s'"
    and "nxt_imm_task s' = (if nrp s \<noteq> 0 \<and> nxt_imm_task s \<noteq> current s then None else nxt_imm_task s)"
    and "sched_inv (queues_after f s) u s'"
proof (cases "nrp s = 0 \<or> nxt_imm_task s \<noteq> None")
  case True
  let ?s = "if nrp s = 0 then s\<lparr>im_count := im_count s + 1\<rparr>
            else if current s \<noteq> nxt_imm_task s then s\<lparr>im_count := im_count s + 1, nxt_imm_task := None\<rparr>
            else s"
  have "sched_inv f u (s\<lparr>im_count := im_count s + 1, nxt_imm_task := None\<rparr>)"
    by (rule sched_inv_imm) (simp_all add: inv)
  with True inv show thesis
    by (intro that [of ?s])
      (auto simp: get_next_eligible_task_to_run_def pick_def queues_after_def same_tasks_def)
next
  case False
  then obtain s1 where "next_task_ready_to_run s = Inr (pick f s, s1)" "same_tasks s s1"
    "nxt_imm_task s1 = None" "sched_inv (queues_after f s) u s1"
    using next_task_ready_inv [OF inv] by auto
  with False show thesis
    by (intro that [of "if pick f s \<noteq> None then s1\<lparr>not_im_count := not_im_count s1 + 1\<rparr> else s1"])
      (auto simp: get_next_eligible_task_to_run_def same_tasks_def)
qed

end
