(* ===== verification/SchedRun.thy ===== *)
theory SchedRun
  imports SchedOps
begin

text \<open>
  One pass through \<^verbatim>\<open>schedule\<close>: which task runs next, that the pass cannot fault when a
  task can be picked, and what it leaves unchanged.
\<close>

section \<open>What a pass leaves unchanged\<close>

text \<open>
  A task after a pass: the same task as far as queues, signals, events and identity go.  Only
  the task switched to can have a new priority.
\<close>

definition tsk_kept :: "tsk \<Rightarrow> tsk \<Rightarrow> bool" where
  "tsk_kept t t' \<longleftrightarrow> onrq t' = onrq t \<and> signals t' = signals t \<and> sig_pending t' = sig_pending t \<and>
     sig_hd t' = sig_hd t \<and> tid t' = tid t \<and> event t' = event t \<and>
     (prio t' = prio t \<or> prio t' = 19)"

definition pass_keeps :: "nat option \<Rightarrow> sched \<Rightarrow> sched \<Rightarrow> bool" where
  "pass_keeps q s s' \<longleftrightarrow>
     (\<forall>p. rel_option (\<lambda>t t'. tsk_kept t t' \<and> (Some p \<noteq> q \<longrightarrow> prio t' = prio t)) (tsks s p) (tsks s' p)) \<and>
     nrp s' = nrp s \<and> nwp s' = nwp s \<and> idle s' = idle s \<and> os_sched_enabled s' = os_sched_enabled s \<and> task_count s' = task_count s"

lemma tsk_kept_trans: "tsk_kept t t' \<Longrightarrow> tsk_kept t' t'' \<Longrightarrow> tsk_kept t t''"
  unfolding tsk_kept_def by auto

lemma pass_keeps_refl [simp]: "pass_keeps q s s"
  by (auto simp: pass_keeps_def tsk_kept_def intro: option.rel_refl)

lemma pass_keeps_trans:
  assumes "pass_keeps q s s'" and "pass_keeps q s' s''"
  shows "pass_keeps q s s''"
proof -
  have "rel_option (\<lambda>t t'. tsk_kept t t' \<and> (Some p \<noteq> q \<longrightarrow> prio t' = prio t)) (tsks s p) (tsks s'' p)" for p
  proof -
    have "rel_option (\<lambda>t t'. tsk_kept t t' \<and> (Some p \<noteq> q \<longrightarrow> prio t' = prio t)) (tsks s p) (tsks s' p)"
      "rel_option (\<lambda>t t'. tsk_kept t t' \<and> (Some p \<noteq> q \<longrightarrow> prio t' = prio t)) (tsks s' p) (tsks s'' p)"
      using assms by (simp_all add: pass_keeps_def)
    then show ?thesis
      by (cases "tsks s p"; cases "tsks s' p"; cases "tsks s'' p") (auto intro: tsk_kept_trans)
  qed
  with assms show ?thesis by (simp add: pass_keeps_def)
qed

lemma same_tasks_keeps: "same_tasks s s' \<Longrightarrow> pass_keeps q s s'"
  by (auto simp: same_tasks_def pass_keeps_def tsk_kept_def intro: option.rel_refl)

lemma pass_keepsD:
  assumes "pass_keeps q s s'" and "tsks s p = Some t"
  obtains t' where "tsks s' p = Some t'" and "tsk_kept t t'" and "Some p \<noteq> q \<Longrightarrow> prio t' = prio t"
proof -
  have "rel_option (\<lambda>t t'. tsk_kept t t' \<and> (Some p \<noteq> q \<longrightarrow> prio t' = prio t)) (tsks s p) (tsks s' p)"
    using assms(1) by (simp add: pass_keeps_def)
  with assms(2) that show thesis by (cases "tsks s' p") auto
qed

text \<open>
  A part of a pass: it ends without a fault, keeps the invariant and the kept fields, and leaves
  \<^verbatim>\<open>current\<close> and \<^verbatim>\<open>nxt_imm_task\<close> alone.  Parts compose with \<^const>\<open>andThen\<close>.
\<close>

definition part_ok ::
    "(laddr \<Rightarrow> laddr list) \<Rightarrow> nat option \<Rightarrow> nat option \<Rightarrow> sched \<Rightarrow> sched res \<Rightarrow> bool" where
  "part_ok f u q s r \<longleftrightarrow>
     (\<exists>s'. r = Inr s' \<and> sched_inv f u s' \<and> pass_keeps q s s' \<and>
        current s' = current s \<and> nxt_imm_task s' = nxt_imm_task s)"

lemma part_ok_skip: "sched_inv f u s \<Longrightarrow> part_ok f u q s (Inr s)"
  by (simp add: part_ok_def)

lemma part_ok_bind:
  assumes "part_ok f u q s m"
    and "\<And>s'. sched_inv f u s' \<Longrightarrow> pass_keeps q s s' \<Longrightarrow> current s' = current s \<Longrightarrow>
           nxt_imm_task s' = nxt_imm_task s \<Longrightarrow> part_ok f u q s' (k s')"
  shows "part_ok f u q s (andThen m k)"
proof -
  obtain s1 where s1: "m = Inr s1" "sched_inv f u s1" "pass_keeps q s s1"
    "current s1 = current s" "nxt_imm_task s1 = nxt_imm_task s"
    using assms(1) by (auto simp: part_ok_def)
  with assms(2) [OF s1(2-5)] show ?thesis
    by (auto simp: part_ok_def intro: pass_keeps_trans)
qed

lemma part_ok_modify:
  assumes inv: "sched_inv f u s" and p: "tsks s p = Some t"
    and g: "tsk_kept t (g t)" and q: "prio (g t) \<noteq> prio t \<Longrightarrow> q = Some p"
  shows "part_ok f u q s (modify (Some p) g s)"
proof -
  have "sched_inv f u (s\<lparr>tsks := (tsks s)(p \<mapsto> g t)\<rparr>)"
    using g by (intro sched_inv_tsk_update [OF inv p]) (auto simp: tsk_kept_def MAX_PRIO_def)
  moreover have "pass_keeps q s (s\<lparr>tsks := (tsks s)(p \<mapsto> g t)\<rparr>)"
    using p g q by (auto simp: pass_keeps_def tsk_kept_def option.rel_refl)
  ultimately show ?thesis using p by (auto simp: part_ok_def)
qed

lemma rq_count_Suc:
  assumes "sched_inv f u s" and "nrp s < 2 ^ 31"
  shows "rq_task_count s + 1 \<noteq> 0"
proof
  assume "rq_task_count s + 1 = 0"
  then have "word_of_int (nrp s + 1) = (0 :: u32)" by (simp add: rq_task_count_def)
  then have "2 ^ LENGTH(32) dvd nrp s + 1" by (simp only: word_of_int_eq_0_iff)
  then have "2 ^ 32 dvd nrp s + 1" by simp
  moreover have "0 < nrp s + 1" using sched_invD(8) [OF assms(1)] by simp
  ultimately have "2 ^ 32 \<le> nrp s + 1" by (rule zdvd_imp_le)
  then show False using assms(2) by simp
qed

section \<open>The parts of a pass\<close>

lemma calculate_time_slice_ok:
  assumes inv: "sched_inv f u s" and small: "nrp s < 2 ^ 31" and n: "tsks s n = Some t"
  shows "part_ok f u (Some n) s (calculate_time_slice (Some n) s)"
proof (cases "Some n = idle s \<or> Some n = current s")
  case True
  with inv show ?thesis by (auto simp: calculate_time_slice_def intro: part_ok_skip)
next
  case False
  obtain load where load: "get_load_on_system s = Inr load"
    using sched_invD(10) [OF inv] by (simp add: get_load_on_system_def)
  have "part_ok f u (Some n) s
     (andThen (if LOAD_THRESHOLD <s load
               then modify (Some n) (\<lambda>t. if LOAD_THRESHOLD <s cpuusage t then t\<lparr>prio := 19\<rparr> else t) s
               else Inr s) (\<lambda>s1.
      andThen (share_load_across_system load s1) (\<lambda>share.
      modify (Some n) (\<lambda>t. t\<lparr>tslice :=
                  share + (if prio t < 5 then DEF_HPT_TSLICE else DEF_LOW_TSLICE)\<rparr>) s1)))"
  proof (rule part_ok_bind)
    show "part_ok f u (Some n) s (if LOAD_THRESHOLD <s load
         then modify (Some n) (\<lambda>t. if LOAD_THRESHOLD <s cpuusage t then t\<lparr>prio := 19\<rparr> else t) s
         else Inr s)"
      using inv n by (auto intro!: part_ok_skip part_ok_modify simp: tsk_kept_def simp del: modify_Some)
    fix s1 assume s1: "sched_inv f u s1" "pass_keeps (Some n) s s1"
    then obtain t1 where t1: "tsks s1 n = Some t1" using n by (auto elim: pass_keepsD)
    have "nrp s1 < 2 ^ 31" using s1(2) small by (simp add: pass_keeps_def)
    then obtain share where "share_load_across_system load s1 = Inr share"
      using rq_count_Suc [OF s1(1)] by (simp add: share_load_across_system_def Let_def)
    with s1(1) t1 show "part_ok f u (Some n) s1 (andThen (share_load_across_system load s1) (\<lambda>share.
      modify (Some n) (\<lambda>t. t\<lparr>tslice :=
                  share + (if prio t < 5 then DEF_HPT_TSLICE else DEF_LOW_TSLICE)\<rparr>) s1))"
      by (auto intro!: part_ok_modify simp: tsk_kept_def simp del: modify_Some)
  qed
  then show ?thesis using False load by (simp add: calculate_time_slice_def)
qed

lemma part_ok_current:
  assumes inv: "sched_inv f u s" and "\<And>t. tsk_kept t (g t) \<and> prio (g t) = prio t"
  shows "part_ok f u q s (modify (current s) g s)"
  using sched_invD(5) [OF inv] assms(2)
  by (auto simp del: modify_Some intro!: part_ok_modify [OF inv])

lemma calc_current_cpu_usage_ok:
  "sched_inv f u s \<Longrightarrow> part_ok f u q s (calc_current_cpu_usage s)"
  unfolding calc_current_cpu_usage_def by (rule part_ok_current) (simp_all add: tsk_kept_def)

lemma collect_stack_trace_ok:
  "sched_inv f u s \<Longrightarrow> part_ok f u q s (collect_stack_trace e (current s) s)"
  unfolding collect_stack_trace_def by (rule part_ok_current) (simp_all add: tsk_kept_def)

lemma set_task_state_ok:
  "sched_inv f u s \<Longrightarrow> part_ok f u q s (set_task_state (current s) st s)"
  unfolding set_task_state_def by (rule part_ok_current) (simp_all add: tsk_kept_def)

lemma part_ok_frame:
  assumes "part_ok f u q s0 r" and "same_tasks s s0" and "nxt_imm_task s0 = nxt_imm_task s"
  shows "part_ok f u q s r"
  using assms same_tasks_keeps [OF assms(2)]
  by (auto simp: part_ok_def same_tasks_def intro: pass_keeps_trans)

lemma update_stats_ok:
  assumes inv: "sched_inv f u s"
  shows "part_ok f u q s (update_stats now s)"
proof (rule part_ok_frame)
  show "part_ok f u q (s\<lparr>tswc := tswc s + 1\<rparr>) (update_stats now s)"
    unfolding update_stats_def
    by (rule part_ok_bind [OF calc_current_cpu_usage_ok], simp add: inv, rule part_ok_current)
      (simp_all add: tsk_kept_def)
qed (simp_all add: same_tasks_def)

section \<open>The whole pass\<close>

lemma pick_alive:
  assumes inv: "sched_inv f u s" and n: "pick f s = Some n"
  shows "tsks s n \<noteq> None"
proof (cases "nrp s = 0 \<or> nxt_imm_task s \<noteq> None")
  case True
  with n sched_invD(6) [OF inv] sched_invD(7) [OF inv] show ?thesis
    by (auto simp: pick_def split: if_splits)
next
  case False
  with n obtain r where r: "top_prio f = Some r" "list_entry (hd (f (RqHd r))) = Some n"
    by (auto simp: pick_def split: option.splits)
  then have "queued_ok s (RqHd r) (hd (f (RqHd r)))"
    by (intro sched_invD(2) [OF inv]) (auto simp: top_prio_Some)
  with r(2) show ?thesis by (auto simp: queued_ok_def)
qed

text \<open>Switching away from the running task, up to the change of \<^verbatim>\<open>current\<close>.\<close>

lemma switch_parts_ok:
  assumes inv: "sched_inv f u s" and small: "nrp s < 2 ^ 31" and n: "tsks s n = Some t"
  shows "part_ok f u (Some n) s
     (andThen (collect_stack_trace e (current s) s) (\<lambda>s4.
      andThen (update_stats now s4) (\<lambda>s5.
      andThen (calculate_time_slice (Some n) s5) (\<lambda>s6.
      set_task_state (current s6) TASK_INTERRUPTIBLE s6))))"
proof -
  have time: "part_ok f u (Some n) s' (calculate_time_slice (Some n) s')"
    if "sched_inv f u s'" "pass_keeps (Some n) s1 s'" "pass_keeps (Some n) s s1" for s' s1
  proof -
    have keep: "pass_keeps (Some n) s s'" using that pass_keeps_trans by blast
    obtain t' where "tsks s' n = Some t'" using pass_keepsD [OF keep n] by blast
    with keep small that(1) show ?thesis
      by (intro calculate_time_slice_ok) (auto simp: pass_keeps_def)
  qed
  show ?thesis
    by (intro part_ok_bind collect_stack_trace_ok update_stats_ok set_task_state_ok)
      (use inv time in auto)
qed

lemma context_switch_ok:
  assumes inv: "sched_inv f u s" and n: "tsks s n = Some t"
  obtains s' where "context_switch e (current s) (Some n) s = Inr s'" and "current s' = Some n"
    and "sched_inv f u s'" and "pass_keeps q s s'" and "nxt_imm_task s' = nxt_imm_task s"
proof -
  obtain tc where tc: "task (current s) s = Inr tc"
    using sched_invD(5) [OF inv] by (auto simp: task_Inr)
  have "sched_inv f u (s\<lparr>current := Some n\<rparr>)" using inv n by (simp add: sched_inv_current)
  moreover have "pass_keeps q s (s\<lparr>current := Some n\<rparr>)"
    by (auto simp: pass_keeps_def tsk_kept_def option.rel_refl)
  moreover have "part_ok f u q (s\<lparr>current := Some n\<rparr>) (modify (current (s\<lparr>current := Some n\<rparr>))
      (\<lambda>t. t\<lparr>state := TASK_RUNNING, stick := t_switch e\<rparr>) (s\<lparr>current := Some n\<rparr>))"
    using calculation(1) by (rule part_ok_current) (simp add: tsk_kept_def)
  ultimately obtain s1 where s1: "modify (Some n) (\<lambda>t. t\<lparr>state := TASK_RUNNING, stick := t_switch e\<rparr>)
      (s\<lparr>current := Some n\<rparr>) = Inr s1" "sched_inv f u s1" "pass_keeps q s s1" "current s1 = Some n"
      "nxt_imm_task s1 = nxt_imm_task s"
    unfolding part_ok_def by (auto simp del: modify_Some intro: pass_keeps_trans)
  have "pass_keeps q s (s1\<lparr>alrm_blocked := False\<rparr>)"
    using s1(3) by (simp add: pass_keeps_def)
  with s1 tc show thesis
    by (intro that [of "s1\<lparr>alrm_blocked := False\<rparr>"]) (simp_all add: context_switch_def del: modify_Some)
qed

lemma schedule_inv:
  assumes inv: "sched_inv f u s" and en: "\<not> os_sched_enabled s" and small: "nrp s < 2 ^ 31"
    and sig: "sig_is_pending s = Inr False" and n: "pick f s = Some n"
  obtains s' where "schedule e s = Inr s'" and "current s' = Some n"
    and "sched_inv (queues_after f s) u s'" and "pass_keeps (Some n) s s'"
    and "nxt_imm_task s' = (if nrp s \<noteq> 0 \<and> nxt_imm_task s \<noteq> current s then None else nxt_imm_task s)"
proof -
  let ?f = "queues_after f s"
  obtain s2 where s2: "get_next_eligible_task_to_run s = Inr (Some n, s2)" "same_tasks s s2"
    "nxt_imm_task s2 = (if nrp s \<noteq> 0 \<and> nxt_imm_task s \<noteq> current s then None else nxt_imm_task s)"
    "sched_inv ?f u s2" using eligible_inv [OF inv] n by metis
  let ?s3 = "s2\<lparr>sched_need := False\<rparr>"
  have inv3: "sched_inv ?f u ?s3" using s2(4) by simp
  have keep3: "pass_keeps q s ?s3" for q
    using s2(2) by (intro same_tasks_keeps) (simp add: same_tasks_def)
  have cur3: "current ?s3 = current s" using s2(2) by (simp add: same_tasks_def)
  have n3: "tsks ?s3 n \<noteq> None" using pick_alive [OF inv n] s2(2) by (simp add: same_tasks_def)
  show thesis
  proof (cases "current s = Some n")
    case True
    obtain s' where "calc_current_cpu_usage ?s3 = Inr s'" "sched_inv ?f u s'"
      "pass_keeps (Some n) ?s3 s'" "current s' = current ?s3" "nxt_imm_task s' = nxt_imm_task ?s3"
      using calc_current_cpu_usage_ok [OF inv3] by (auto simp: part_ok_def)
    with True pass_keeps_trans [OF keep3] show thesis
      by (intro that [of s']) (use en sig s2 cur3 in \<open>auto simp: schedule_def\<close>)
  next
    case False
    obtain t where "tsks ?s3 n = Some t" using n3 by blast
    moreover have "nrp ?s3 < 2 ^ 31" using small s2(2) by (simp add: same_tasks_def)
    ultimately obtain s7 where s7: "andThen (collect_stack_trace e (current ?s3) ?s3) (\<lambda>s4.
      andThen (update_stats (t_stats e) s4) (\<lambda>s5. andThen (calculate_time_slice (Some n) s5) (\<lambda>s6.
      set_task_state (current s6) TASK_INTERRUPTIBLE s6))) = Inr s7" "sched_inv ?f u s7"
      "pass_keeps (Some n) ?s3 s7" "current s7 = current ?s3" "nxt_imm_task s7 = nxt_imm_task ?s3"
      using switch_parts_ok [OF inv3] unfolding part_ok_def by blast
    have eq: "schedule e s = context_switch e (current s7) (Some n) s7"
      using False en sig s2(1) s7(1) cur3 by (auto simp: schedule_def andThen_eq_Inr)
    obtain s' where "context_switch e (current s7) (Some n) s7 = Inr s'" "current s' = Some n"
      "sched_inv ?f u s'" "pass_keeps (Some n) s7 s'" "nxt_imm_task s' = nxt_imm_task s7"
      using context_switch_ok [OF s7(2)] \<open>tsks ?s3 n = Some t\<close> s7(3) by (metis pass_keepsD)
    with eq s2 s7 pass_keeps_trans [OF pass_keeps_trans [OF keep3 s7(3)]] show thesis
      by (intro that [of s']) auto
  qed
qed

end
