(* ===== verification/SchedProps.thy ===== *)
theory SchedProps
  imports SchedRun
begin

text \<open>
  Properties of the scheduler: the task a pass switches to, round robin among equals, when a
  pass does not preempt and when it faults.
\<close>

section \<open>Runs of the scheduler\<close>

text \<open>Successive calls of \<^verbatim>\<open>schedule\<close>: the running task after each of them.\<close>

fun passes :: "env list \<Rightarrow> sched \<Rightarrow> nat option list res" where
  "passes [] s = Inr []"
| "passes (e # es) s =
     andThen (schedule e s) (\<lambda>s'. andThen (passes es s') (\<lambda>cs. Inr (current s' # cs)))"

text \<open>No task has a registered signal pending, and the scheduler is the one in charge.\<close>

definition quiet :: "sched \<Rightarrow> bool" where
  "quiet s \<longleftrightarrow> \<not> os_sched_enabled s \<and> nrp s < 2 ^ 31 \<and>
     (\<forall>p t. tsks s p = Some t \<longrightarrow> signals t AND sig_pending t = 0)"

lemma quiet_sig: "sched_inv f u s \<Longrightarrow> quiet s \<Longrightarrow> sig_is_pending s = Inr False"
  using sched_invD(5) by (fastforce simp: quiet_def sig_is_pending_def)

lemma quiet_keeps:
  assumes "quiet s" and "pass_keeps q s s'"
  shows "quiet s'"
proof -
  have "signals t' AND sig_pending t' = 0" if t': "tsks s' p = Some t'" for p t'
  proof -
    have "rel_option tsk_kept (tsks s p) (tsks s' p)"
      using assms(2) by (auto simp: pass_keeps_def intro: option.rel_mono_strong)
    with t' obtain t where "tsks s p = Some t" "tsk_kept t t'"
      by (cases "tsks s p") auto
    with assms(1) show ?thesis by (auto simp: quiet_def tsk_kept_def)
  qed
  with assms show ?thesis by (auto simp: quiet_def pass_keeps_def)
qed

lemma top_pick:
  assumes inv: "sched_inv f u s" and "nxt_imm_task s = None" and r: "top_prio f = Some r"
    and hd: "f (RqHd r) = TskHd p # xs"
  shows "pick f s = Some p" and "nrp s \<noteq> 0"
proof -
  have "queue_total rq_heads f \<noteq> 0" using r top_prio_None [of f] by auto
  then show nz: "nrp s \<noteq> 0" using sched_invD(8) [OF inv] by simp
  show "pick f s = Some p" using nz assms by (simp add: pick_def)
qed

lemma schedule_quiet:
  assumes inv: "sched_inv f u s" and q: "quiet s" and imm: "nxt_imm_task s = None"
    and n: "pick f s = Some n"
  obtains s' where "schedule e s = Inr s'" and "current s' = Some n"
    and "sched_inv (queues_after f s) u s'" and "pass_keeps (Some n) s s'"
    and "nxt_imm_task s' = None" and "quiet s'"
proof (rule schedule_inv [OF inv _ _ quiet_sig [OF inv q] n, of e])
  fix s' assume s': "schedule e s = Inr s'" "current s' = Some n"
    "sched_inv (queues_after f s) u s'" "pass_keeps (Some n) s s'"
    "nxt_imm_task s' = (if nrp s \<noteq> 0 \<and> nxt_imm_task s \<noteq> current s then None else nxt_imm_task s)"
  then have "nxt_imm_task s' = None" using imm by (simp split: if_splits)
  with s' quiet_keeps [OF q s'(4)] show thesis by (intro that [of s'])
qed (use q in \<open>auto simp: quiet_def\<close>)

lemma enq_tail_rotate:
  assumes rep: "lists_rep queue_heads h f" and r: "r < MAX_PRIO" and f: "f (RqHd r) = TskHd p # xs"
  shows "enq_tail p (RqHd r) f (RqHd r) = xs @ [TskHd p]"
    and "a \<in> queue_heads \<Longrightarrow> a \<noteq> RqHd r \<Longrightarrow> enq_tail p (RqHd r) f a = f a"
proof -
  show "enq_tail p (RqHd r) f (RqHd r) = xs @ [TskHd p]"
    by (simp add: enq_tail_def unqueue_def f)
  assume a: "a \<in> queue_heads" "a \<noteq> RqHd r"
  then have "TskHd p \<notin> set (f a)"
    using kl.rep_disjoint [OF rep, of "RqHd r" a "TskHd p"] r f by auto
  with a show "enq_tail p (RqHd r) f a = f a"
    by (simp add: enq_tail_def unqueue_def remove1_idem)
qed

text \<open>One pass when the head of the top queue is not the running task: the queue rotates.\<close>

lemma schedule_rotates:
  assumes inv: "sched_inv f u s" and q: "quiet s" and imm: "nxt_imm_task s = None"
    and r: "top_prio f = Some r" and f: "f (RqHd r) = TskHd p # xs"
    and t: "tsks s p = Some t" "prio t = int r" and cur: "current s \<noteq> Some p"
  obtains s' g where "schedule e s = Inr s'" and "current s' = Some p" and "sched_inv g u s'"
    and "pass_keeps (Some p) s s'" and "nxt_imm_task s' = None"
    and "g (RqHd r) = xs @ [TskHd p]" and "top_prio g = Some r" and "quiet s'"
proof -
  note pk = top_pick [OF inv imm r f]
  have g: "queues_after f s = enq_tail p (RqHd r) f"
    using pk imm cur t by (simp add: queues_after_def)
  have rot: "r < MAX_PRIO" using r by (simp add: top_prio_Some)
  note rots = enq_tail_rotate [OF sched_invD(1) [OF inv] rot f]
  have "top_prio (enq_tail p (RqHd r) f) = Some r"
    using r rots rot by (auto simp: top_prio_Some)
  moreover obtain s' where "schedule e s = Inr s'" "current s' = Some p"
    "sched_inv (queues_after f s) u s'" "pass_keeps (Some p) s s'" "nxt_imm_task s' = None" "quiet s'"
    using schedule_quiet [OF inv q imm pk(1)] by blast
  ultimately show thesis
    using g rots by (intro that [of s' "enq_tail p (RqHd r) f"]) auto
qed

text \<open>When no task can be picked, the pass follows the NULL pointer.\<close>

lemma no_pick_faults:
  assumes inv: "sched_inv f u s" and en: "\<not> os_sched_enabled s" and sig: "sig_is_pending s = Inr False"
    and pick: "pick f s = None"
  shows "schedule e s = Inl NullDeref"
proof -
  have nrp: "nrp s = 1"
  proof -
    have "nrp s \<noteq> 0" using pick sched_invD(6) [OF inv] by (auto simp: pick_def split: if_splits)
    moreover have "top_prio f = None"
    proof (rule ccontr)
      assume "top_prio f \<noteq> None"
      then obtain r where r: "top_prio f = Some r" by blast
      then have "queued_ok s (RqHd r) (hd (f (RqHd r)))"
        by (intro sched_invD(2) [OF inv]) (auto simp: top_prio_Some)
      with r pick \<open>nrp s \<noteq> 0\<close> show False by (auto simp: pick_def queued_ok_def split: option.splits)
    qed
    ultimately show ?thesis
      using sched_invD(8) [OF inv] top_prio_None [of f] by (simp split: if_splits)
  qed
  obtain s2 where s2: "get_next_eligible_task_to_run s = Inr (None, s2)" "same_tasks s s2"
      "sched_inv (queues_after f s) u s2"
    using eligible_inv [OF inv] pick by metis
  let ?s3 = "s2\<lparr>sched_need := False\<rparr>"
  have inv3: "sched_inv (queues_after f s) u ?s3" using s2(3) by simp
  obtain s5 where s5: "andThen (collect_stack_trace e (current ?s3) ?s3) (update_stats (t_stats e)) = Inr s5"
      "sched_inv (queues_after f s) u s5" "pass_keeps None ?s3 s5"
    using part_ok_bind [OF collect_stack_trace_ok [OF inv3, of None e], of "update_stats (t_stats e)"]
      update_stats_ok unfolding part_ok_def by blast
  have "nrp s5 = 1" using s5(3) s2(2) nrp by (simp add: pass_keeps_def same_tasks_def)
  then have ne: "rq_task_count s5 + 1 \<noteq> 0" by (simp add: rq_task_count_def)
  have "calculate_time_slice None s5 = Inl NullDeref"
    using sched_invD(5,6,10) [OF s5(2)] ne
    by (auto simp: calculate_time_slice_def get_load_on_system_def share_load_across_system_def
        Let_def modify_def)
  moreover have "current ?s3 \<noteq> None"
    using sched_invD(5) [OF inv3] by auto
  ultimately show ?thesis
    using s2(1) s5(1) en sig by (auto simp: schedule_def andThen_eq_Inr)
qed

section \<open>Properties\<close>

text \<open>
  C3: a pass through \<^verbatim>\<open>schedule\<close> with no signal pending ends without a fault whenever there
  is a task to pick; the picked task is running afterwards, the queues are those of the
  selection, the invariant holds again, and no task but the picked one changes its priority.
\<close>

theorem schedule_runs_pick:
  assumes "sched_inv f u s" and "\<not> os_sched_enabled s" and "nrp s < 2 ^ 31"
    and "sig_is_pending s = Inr False" and "pick f s = Some n"
  shows "\<exists>s'. schedule e s = Inr s' \<and> current s' = Some n \<and> sched_inv (queues_after f s) u s' \<and>
           pass_keeps (Some n) s s' \<and>
           nxt_imm_task s' = (if nrp s \<noteq> 0 \<and> nxt_imm_task s \<noteq> current s then None else nxt_imm_task s)"
  using schedule_inv [OF assms, of e] by metis

text \<open>
  C14: strict priorities.  When no woken task is cached, a pass runs the first task of the first
  run queue that is not empty; every queued runnable task is on the same or a later queue.
\<close>

theorem schedule_highest_priority:
  assumes "sched_inv f u s" and "quiet s" and "nxt_imm_task s = None"
    and "a \<in> rq_heads" and "f a \<noteq> []"
  shows "\<exists>s' p r. schedule e s = Inr s' \<and> current s' = Some p \<and> r < MAX_PRIO \<and>
           f (RqHd r) \<noteq> [] \<and> hd (f (RqHd r)) = TskHd p \<and>
           (\<forall>k. f (RqHd k) \<noteq> [] \<longrightarrow> k < MAX_PRIO \<longrightarrow> r \<le> k)"
proof -
  have "top_prio f \<noteq> None"
    using assms(4,5) by (auto simp: top_prio_None queue_total_def rq_heads_def)
  then obtain r where r: "top_prio f = Some r" by blast
  then have top: "r < MAX_PRIO" "f (RqHd r) \<noteq> []" "\<forall>q<r. f (RqHd q) = []"
    by (auto simp: top_prio_Some)
  then have "queued_ok s (RqHd r) (hd (f (RqHd r)))"
    by (intro sched_invD(2) [OF assms(1)]) auto
  then obtain p where p: "f (RqHd r) = TskHd p # tl (f (RqHd r))"
    using top(2) unfolding queued_ok_def by (metis list.collapse)
  obtain s' where "schedule e s = Inr s'" "current s' = Some p"
    using schedule_quiet [OF assms(1-3) top_pick(1) [OF assms(1,3) r p]] by blast
  moreover have "hd (f (RqHd r)) = TskHd p" by (subst p) simp
  moreover have "\<forall>k. f (RqHd k) \<noteq> [] \<longrightarrow> k < MAX_PRIO \<longrightarrow> r \<le> k"
    using top(3) not_less by blast
  ultimately show ?thesis using top(1,2) by blast
qed

text \<open>Successive passes take the tasks from the front of the rotating queue.\<close>

lemma passes_rotate:
  assumes "sched_inv f u s" and "quiet s" and "nxt_imm_task s = None"
    and "top_prio f = Some r" and "f (RqHd r) = map TskHd ps @ xs"
    and "\<And>p. p \<in> set ps \<Longrightarrow> \<exists>t. tsks s p = Some t \<and> prio t = int r"
    and "distinct ps" and "ps \<noteq> [] \<Longrightarrow> current s \<noteq> Some (hd ps)" and "length es = length ps"
  shows "passes es s = Inr (map Some ps)"
  using assms
proof (induction ps arbitrary: es s f xs)
  case Nil
  then show ?case by simp
next
  case (Cons p ps)
  then obtain e es' where es: "es = e # es'" "length es' = length ps" by (cases es) auto
  obtain t where t: "tsks s p = Some t" "prio t = int r" using Cons.prems(6) by auto
  have f: "f (RqHd r) = TskHd p # (map TskHd ps @ xs)" using Cons.prems(5) by simp
  obtain s' g where s': "schedule e s = Inr s'" "current s' = Some p" "sched_inv g u s'"
    "pass_keeps (Some p) s s'" "nxt_imm_task s' = None" "g (RqHd r) = (map TskHd ps @ xs) @ [TskHd p]"
    "top_prio g = Some r" "quiet s'"
    using schedule_rotates [OF Cons.prems(1-4) f t, of e] Cons.prems(8) by auto
  have "\<exists>t. tsks s' q = Some t \<and> prio t = int r" if "q \<in> set ps" for q
  proof -
    obtain tq where "tsks s q = Some tq" "prio tq = int r" using Cons.prems(6) \<open>q \<in> set ps\<close> by auto
    moreover have "q \<noteq> p" using Cons.prems(7) \<open>q \<in> set ps\<close> by auto
    ultimately show ?thesis using pass_keepsD [OF s'(4)] by (metis option.inject)
  qed
  then have "passes es' s' = Inr (map Some ps)"
    using Cons.prems(7) s' es by (intro Cons.IH [of g s' "xs @ [TskHd p]"]) (auto dest: hd_in_set)
  with s' es show ?case by simp
qed

text \<open>
  A running task at the head of the top run queue is never preempted by its equals: passes alone
  keep choosing it, however many there are.  (\<^verbatim>\<open>next_task_ready_to_run\<close> rotates a queue only when
  its head is not the running task.)
\<close>

lemma passes_keep_head:
  assumes "sched_inv f u s" and "quiet s" and "nxt_imm_task s = None"
    and "top_prio f = Some r" and "f (RqHd r) = TskHd c # xs" and "current s = Some c"
  shows "passes es s = Inr (replicate (length es) (Some c))"
  using assms
proof (induction es arbitrary: s)
  case Nil
  then show ?case by simp
next
  case (Cons e es)
  note pk = top_pick [OF Cons.prems(1,3,4,5)]
  have after: "queues_after f s = f" using pk Cons.prems by (simp add: queues_after_def)
  obtain s' where s': "schedule e s = Inr s'" "current s' = Some c" "sched_inv f u s'"
      "nxt_imm_task s' = None" "quiet s'"
    using schedule_quiet [OF Cons.prems(1-3) pk(1)] after by metis
  then have "passes es s' = Inr (replicate (length es) (Some c))"
    using Cons.prems by (intro Cons.IH) auto
  with s' show ?case by simp
qed

text \<open>
  C4: who runs among equals.  Let no signal be pending and no woken task be cached, and let \<open>p # ps\<close> be
  the top run queue \<open>r\<close>.  When the running task is not \<open>p\<close> and the tasks of the queue have the priority
  \<open>r\<close>, the next passes run one round robin: each task of the queue exactly once, in its order.  When
  the running task is \<open>p\<close>, the head of the queue, every pass chooses it again, however many there are.
\<close>

theorem schedule_round_robin:
  assumes "sched_inv f u s" and "quiet s" and "nxt_imm_task s = None"
    and "top_prio f = Some r" and "f (RqHd r) = map TskHd (p # ps)"
  shows "(current s \<noteq> Some p \<longrightarrow> (\<forall>q\<in>set (p # ps). \<exists>t. tsks s q = Some t \<and> prio t = int r) \<longrightarrow>
       length es = length (p # ps) \<longrightarrow> passes es s = Inr (map Some (p # ps))) \<and>
     (current s = Some p \<longrightarrow> passes es s = Inr (replicate (length es) (Some p)))"
proof (rule conjI)
  have "r < MAX_PRIO" using assms(4) by (simp add: top_prio_Some)
  then have "distinct (map TskHd (p # ps))"
    using kl.rep_distinct [OF sched_invD(1) [OF assms(1)], of "RqHd r"] assms(5) by simp
  then have "distinct (p # ps)" by (auto simp: distinct_map)
  then show "current s \<noteq> Some p \<longrightarrow> (\<forall>q\<in>set (p # ps). \<exists>t. tsks s q = Some t \<and> prio t = int r) \<longrightarrow>
       length es = length (p # ps) \<longrightarrow> passes es s = Inr (map Some (p # ps))"
    using assms by (auto intro!: passes_rotate [of f u s r "p # ps" "[]", simplified])
  show "current s = Some p \<longrightarrow> passes es s = Inr (replicate (length es) (Some p))"
    using passes_keep_head [OF assms(1-4), of p "map TskHd ps"] assms(5) by simp
qed

text \<open>
  when the main task, which is counted in \<^verbatim>\<open>rq.nrp\<close> but linked into no run queue, is the
  only runnable task, a pass finds no task, and with none cached it follows the NULL pointer
  \<^verbatim>\<open>etsk\<close> in \<^verbatim>\<open>calculate_time_slice\<close> or \<^verbatim>\<open>context_switch\<close>.
\<close>

theorem schedule_unlinked_main_faults:
  assumes "sched_inv f (Some m) s" and "quiet s" and "nxt_imm_task s = None"
    and "queue_total rq_heads f = 0"
  shows "schedule e s = Inl NullDeref"
proof (rule no_pick_faults [OF assms(1)])
  have "nrp s = 1" using sched_invD(8) [OF assms(1)] assms(4) by simp
  then show "pick f s = None" using assms(3,4) top_prio_None [of f] by (simp add: pick_def)
qed (use assms(2) quiet_sig [OF assms(1)] in \<open>auto simp: quiet_def\<close>)

end
