(* ===== verification/ThreadLib.thy ===== *)
theory ThreadLib
  imports SchedProps
begin

unbundle bit_operations_syntax

text \<open>
  The system calls of \<^verbatim>\<open>core/thread_lib.c\<close>, the creation of the idle and the main task
  (\<^verbatim>\<open>core/sched.c\<close>), the scheduler's part of \<^verbatim>\<open>tmlib_init\<close>, and the signal entry
  points of \<^verbatim>\<open>core/interrupt.c\<close>.

  What the allocator does is an argument of the operations that call it: the address
  \<^verbatim>\<open>calloc\<close> returns (\<^term>\<open>None\<close> when it fails) and whether the stack could be allocated.
  A call that blocks is followed up to the point where \<^verbatim>\<open>schedule\<close> has switched away; a
  call with a loop around \<^verbatim>\<open>schedule\<close> is given by one turn of the loop, which the task
  repeats when it runs again.
\<close>

section \<open>Memory accounting and attributes\<close>

text \<open>The accounting of the allocator; \<^verbatim>\<open>tm_calloc\<close> adds the size of one member only.\<close>

definition tm_calloc :: "u32 \<Rightarrow> u32 \<Rightarrow> sched \<Rightarrow> sched" where
  "tm_calloc nmemb sz s = s\<lparr>alloc_size := alloc_size s + sz\<rparr>"

definition tm_malloc :: "u32 \<Rightarrow> sched \<Rightarrow> sched" where
  "tm_malloc sz s = tm_calloc 1 sz s"

definition tm_free :: "u32 \<Rightarrow> sched \<Rightarrow> sched" where
  "tm_free sz s = s\<lparr>alloc_size := alloc_size s - sz\<rparr>"

definition DEFAULT_STACK_SIZE :: int where "DEFAULT_STACK_SIZE = 10 * 1024"

definition thread_attr_init :: "attr \<Rightarrow> attr" where
  "thread_attr_init at = at\<lparr>attr_stksze := DEFAULT_STACK_SIZE, attr_prio := 100, attr_schedalgo := - 1\<rparr>"

definition thread_attr_setstacksize :: "attr \<Rightarrow> int \<Rightarrow> attr" where
  "thread_attr_setstacksize at n = at\<lparr>attr_stksze := n\<rparr>"

definition thread_attr_setschedpolicy :: "attr \<Rightarrow> int \<Rightarrow> attr" where
  "thread_attr_setschedpolicy at alg = at\<lparr>attr_schedalgo := alg\<rparr>"

definition thread_attr_setschedprio :: "attr \<Rightarrow> int \<Rightarrow> attr" where
  "thread_attr_setschedprio at pri = at\<lparr>attr_prio := pri\<rparr>"

section \<open>Creating tasks\<close>

definition alloc_tid :: "sched \<Rightarrow> int \<times> sched" where
  "alloc_tid s = (taskid s + 1, s\<lparr>taskid := taskid s + 1\<rparr>)"

definition MAX_TASK_NAME :: nat where "MAX_TASK_NAME = 10"

definition zero_tsk :: tsk where
  "zero_tsk = \<lparr>taskname = [], tid = 0, onrq = 0, stksize = 0, currt = 0, trt = 0, stime = 0,
     state = TASK_INIT, tslice = 0, cpuusage = 0, prio = 0, swct = 0, needsched = False,
     signals = 0, sig_pending = 0, sig_hd = [], event = 0, stk_trc_sym = [], stick = 0, etick = 0\<rparr>"

text \<open>
  What \<^verbatim>\<open>spawn_task\<close> takes from outside: the time, \<^verbatim>\<open>sizeof (struct tsk)\<close>, the address
  of the new structure and whether \<^verbatim>\<open>malloc\<close> of the stack succeeds.
\<close>

record alloc_env =
  a_now :: u32
  a_sizeof :: u32
  a_new :: "nat option"
  a_stk :: bool

definition new_tsk :: "string \<Rightarrow> attr \<Rightarrow> int \<Rightarrow> tsk" where
  "new_tsk name at i =
     zero_tsk\<lparr>tid := i, needsched := True, prio := attr_prio at, stksize := attr_stksze at,
       tslice := DEFAULT_TIME_SLICE\<rparr>"

definition spawn_task ::
    "alloc_env \<Rightarrow> string \<Rightarrow> attr \<Rightarrow> bool \<Rightarrow> sched \<Rightarrow> (nat option \<times> sched) res" where
  "spawn_task ae name at wrapper s =
     (let s = tm_calloc 1 (a_sizeof ae) s in
      case a_new ae of
        None \<Rightarrow> Inr (None, s)
      | Some p \<Rightarrow>
          let s = s\<lparr>links := INIT_LIST_HEAD (TskHd p) (links s)\<rparr>;
              (i, s) = alloc_tid s;
              s = s\<lparr>tsks := (tsks s)(p \<mapsto> new_tsk name at i)\<rparr>;
              s = tm_malloc (word_of_int (attr_stksze at)) s
          in if \<not> a_stk ae then Inr (None, s\<lparr>tsks := (tsks s)(p := None)\<rparr>)
             else andThen (modify (Some p) (\<lambda>t. t\<lparr>taskname := take MAX_TASK_NAME name\<rparr>) s) (\<lambda>s.
                  if wrapper then
                    if attr_stksze at < 8 then Inl OutOfBounds
                    else andThen (wakeup_new_task (a_now ae) p (s\<lparr>task_count := task_count s + 1\<rparr>))
                           (\<lambda>s'. Inr (Some p, s'))
                  else Inr (Some p, s)))"

definition create_idle_task :: "alloc_env \<Rightarrow> sched \<Rightarrow> sched res" where
  "create_idle_task ae s =
     andThen (spawn_task ae ''IDLE'' \<lparr>attr_stksze = 32 * 1024, attr_prio = 19, attr_schedalgo = 0\<rparr> True s)
       (\<lambda>(q, s). andThen (set_task_state q TASK_INTERRUPTIBLE (s\<lparr>idle := q\<rparr>)) (\<lambda>s.
          Inr (s\<lparr>links := list_del (TskHd (the q)) (links s)\<rparr>)))"

definition create_parent_task :: "alloc_env \<Rightarrow> u32 \<Rightarrow> sched \<Rightarrow> sched res" where
  "create_parent_task ae sticks s =
     andThen (spawn_task ae ''Main'' \<lparr>attr_stksze = 10000, attr_prio = 1, attr_schedalgo = 0\<rparr> False s)
       (\<lambda>(q, s). modify q (\<lambda>t. t\<lparr>stick := sticks, onrq := 1, state := TASK_RUNNING\<rparr>)
                   (s\<lparr>current := q, parent := q\<rparr>))"

text \<open>\<^verbatim>\<open>init_soft_irq\<close> without the list of soft interrupts, which \<open>init_soft_irq\<close> of theory SoftIrq adds.\<close>

definition spawn_softirqd :: "alloc_env \<Rightarrow> sched \<Rightarrow> (nat option \<times> sched) res" where
  "spawn_softirqd ae s =
     spawn_task ae ''SIRQ'' \<lparr>attr_stksze = 20 * 1024, attr_prio = 1, attr_schedalgo = 0\<rparr> True s"

text \<open>The scheduler's part of \<^verbatim>\<open>tmlib_init\<close>, in its order.\<close>

definition sched_boot :: "alloc_env \<Rightarrow> alloc_env \<Rightarrow> alloc_env \<Rightarrow> u32 \<Rightarrow> sched \<Rightarrow> (nat option \<times> sched) res" where
  "sched_boot aem aei aes ticks s =
     andThen (create_parent_task aem ticks (init_scheduler s)) (\<lambda>s.
     andThen (create_idle_task aei s) (\<lambda>s.
     andThen (spawn_softirqd aes s) (\<lambda>(d, s).
       Inr (d, init_io s))))"

section \<open>Ending tasks\<close>

definition kill_task :: "int \<Rightarrow> sched \<Rightarrow> (int \<times> sched) res" where
  "kill_task i s =
     andThen (find_task i s) (\<lambda>q.
       if q = None then Inr (- 1, s)
       else andThen (task_exit q s) (\<lambda>s. Inr (0, s)))"

definition task_cancel :: "int \<Rightarrow> sched \<Rightarrow> (int \<times> sched) res" where
  "task_cancel i s = andThen (kill_task i s) (\<lambda>(_, s). Inr (0, s))"

text \<open>\<^verbatim>\<open>clone_thread\<close> after the entry function of the task has returned.\<close>

definition clone_thread_exit :: "env \<Rightarrow> sched \<Rightarrow> sched res" where
  "clone_thread_exit e s = andThen (task_exit (current s) s) (schedule e)"

section \<open>Blocking and events\<close>

datatype 'a call = Returned 'a | Blocked

definition sleep_forever :: "u32 \<Rightarrow> env \<Rightarrow> sched \<Rightarrow> sched res" where
  "sleep_forever now e s = andThen (add_task_to_wait_Q now (current s) s) (schedule e)"

text \<open>One turn of the loop of \<^verbatim>\<open>wait_for_event\<close>.\<close>

definition wait_for_event :: "u32 \<Rightarrow> env \<Rightarrow> u32 \<Rightarrow> sched \<Rightarrow> (u32 call \<times> sched) res" where
  "wait_for_event now e events s =
     andThen (task (current s) s) (\<lambda>t.
       if event t AND events = 0
       then andThen (add_current_task_wait_Q now s) (\<lambda>s.
            andThen (schedule e s) (\<lambda>s. Inr (Blocked, s)))
       else andThen (modify (current s) (\<lambda>t. t\<lparr>event := 0\<rparr>) s) (\<lambda>s. Inr (Returned (event t), s)))"

definition post_event :: "u32 \<Rightarrow> int \<Rightarrow> u32 \<Rightarrow> sched \<Rightarrow> (int \<times> sched) res" where
  "post_event now i ev s =
     andThen (find_task i s) (\<lambda>q. case q of
       None \<Rightarrow> Inr (- 1, s)
     | Some p \<Rightarrow>
         andThen (modify (Some p) (\<lambda>t. t\<lparr>event := event t OR ev\<rparr>) s) (\<lambda>s.
         andThen (wakeup_task now p s) (\<lambda>s. Inr (0, s))))"

section \<open>Signals\<close>

definition sig_bit :: "int \<Rightarrow> u32 res" where
  "sig_bit signo = (if 1 \<le> signo \<and> signo \<le> 32 then Inr (push_bit (nat (signo - 1)) 1) else Inl BadShift)"

definition set_current_signal_mask :: "u32 \<Rightarrow> sched \<Rightarrow> sched res" where
  "set_current_signal_mask b s = modify (current s) (\<lambda>t. t\<lparr>signals := signals t OR b\<rparr>) s"

definition set_current_signal_pend_mask :: "u32 \<Rightarrow> sched \<Rightarrow> sched res" where
  "set_current_signal_pend_mask b s = modify (current s) (\<lambda>t. t\<lparr>sig_pending := sig_pending t OR b\<rparr>) s"

definition set_idle_signal_mask :: "u32 \<Rightarrow> sched \<Rightarrow> sched res" where
  "set_idle_signal_mask b s = modify (idle s) (\<lambda>t. t\<lparr>signals := signals t OR b\<rparr>) s"

definition sizeof_signal_s :: u32 where "sizeof_signal_s = 16"

definition tm_signal :: "bool \<Rightarrow> int \<Rightarrow> nat option \<Rightarrow> sched \<Rightarrow> (int \<times> sched) res" where
  "tm_signal mem signo handler s =
     andThen (sig_bit signo) (\<lambda>bit_pos.
       let s = tm_malloc sizeof_signal_s s in
       if \<not> mem then Inr (- 1, s)
       else
         andThen (modify (current s) (\<lambda>t. t\<lparr>sig_hd := (signo, handler) # sig_hd t\<rparr>) s) (\<lambda>s.
         andThen (set_current_signal_mask bit_pos s) (\<lambda>s.
         andThen (set_idle_signal_mask bit_pos s) (\<lambda>s.
           Inr (0, if reg_signals s AND bit_pos = 0
                   then s\<lparr>reg_signals := reg_signals s OR bit_pos\<rparr> else s)))))"

definition tm_raise :: "int \<Rightarrow> sched \<Rightarrow> (int \<times> sched) res" where
  "tm_raise sg s = andThen (sig_bit sg) (\<lambda>b.
     andThen (set_current_signal_pend_mask b s) (\<lambda>s. Inr (0, s)))"

text \<open>The masks of the process that the code blocks and unblocks by name.\<close>

definition SIGALRM :: int where "SIGALRM = 14"
definition SIGIO :: int where "SIGIO = 29"

definition set_mask :: "bool \<Rightarrow> int \<Rightarrow> sched \<Rightarrow> sched" where
  "set_mask b signo s =
     (if signo = SIGALRM then s\<lparr>alrm_blocked := b\<rparr>
      else if signo = SIGIO then s\<lparr>sigio_blocked := b\<rparr> else s)"

definition signals_block :: "int \<Rightarrow> sched \<Rightarrow> sched" where "signals_block = set_mask True"
definition signals_unblock :: "int \<Rightarrow> sched \<Rightarrow> sched" where "signals_unblock = set_mask False"

definition generic_sig_handler :: "int \<Rightarrow> sched \<Rightarrow> sched res" where
  "generic_sig_handler sg s =
     andThen (sig_bit sg) (\<lambda>b.
     andThen (set_current_signal_pend_mask b (signals_block sg s)) (\<lambda>s.
       Inr (signals_unblock sg s)))"

text \<open>
  The handler of SIGIO: the descriptor comes with the signal, for a message queue in
  \<^verbatim>\<open>si_value\<close>; asking for the next notification has no effect on the scheduler.
\<close>

datatype io_info = MesgQ int | Fd int

definition io_interrupt :: "u32 \<Rightarrow> int \<Rightarrow> io_info \<Rightarrow> sched \<Rightarrow> sched res" where
  "io_interrupt now si_signo info s =
     (let s = signals_block SIGIO s in
      andThen (if si_signo = SIGIO
               then (case info of MesgQ mqid \<Rightarrow> wake_io_task now mqid s
                     | Fd fd \<Rightarrow> wake_io_task now fd s)
               else Inr s) (\<lambda>s.
        Inr (signals_unblock SIGIO s)))"

text \<open>One turn of the loop of \<^verbatim>\<open>tm_read\<close>; \<open>rval\<close> and \<open>eintr\<close> are what \<^verbatim>\<open>read\<close> returns.\<close>

datatype 'a io_turn = Done 'a | Again | Waited

definition tm_read_turn :: "env \<Rightarrow> int \<Rightarrow> int \<Rightarrow> bool \<Rightarrow> sched \<Rightarrow> (int io_turn \<times> sched) res" where
  "tm_read_turn e fd rval eintr s =
     (if rval \<ge> 0 then Inr (Done rval, s)
      else if rval = - 1 \<and> eintr then Inr (Again, s)
      else andThen (wait_on_fd e fd s) (\<lambda>s. Inr (Waited, s)))"

definition tm_recvfrom_turn :: "env \<Rightarrow> int \<Rightarrow> int \<Rightarrow> bool \<Rightarrow> sched \<Rightarrow> (int io_turn \<times> sched) res" where
  "tm_recvfrom_turn e fd rval eintr s =
     (if rval \<le> 40 \<and> eintr then Inr (Again, s)
      else if rval > 40 then Inr (Done rval, s)
      else andThen (wait_on_fd e fd s) (\<lambda>s. Inr (Waited, s)))"

definition tm_mq_receive_turn :: "env \<Rightarrow> int \<Rightarrow> int \<Rightarrow> sched \<Rightarrow> (int io_turn \<times> sched) res" where
  "tm_mq_receive_turn e mqid rval s =
     (if rval < 0 then andThen (wait_on_fd e mqid s) (\<lambda>s. Inr (Waited, s)) else Inr (Done rval, s))"

text \<open>One turn of the endless loop of the idle task, without its return to OS threads.\<close>

definition idle_turn :: "env \<Rightarrow> sched \<Rightarrow> sched res" where
  "idle_turn e s =
     (if sched_need s
      then andThen (set_task_state (idle s) TASK_INTERRUPTIBLE s) (schedule e)
      else Inr s)"

end
