(* ===== verification/ThreadInv.thy ===== *)
theory ThreadInv
  imports ThreadLib
begin

unbundle bit_operations_syntax

text \<open>
  What the system calls do to the queues: looking tasks up, waiting for and waking on a
  descriptor, creating tasks.
\<close>

lemma sched_inv_frame2 [simp]:
  "sched_inv f u (s\<lparr>alloc_size := w\<rparr>) = sched_inv f u s"
  "sched_inv f u (s\<lparr>taskid := i\<rparr>) = sched_inv f u s"
  "sched_inv f u (s\<lparr>reg_signals := w\<rparr>) = sched_inv f u s"
  "sched_inv f u (s\<lparr>parent := q\<rparr>) = sched_inv f u s"
  by (simp_all add: sched_inv_def queued_ok_def offq_ok_def)

section \<open>Looking tasks up\<close>

definition has_tid :: "int \<Rightarrow> sched \<Rightarrow> laddr \<Rightarrow> bool" where
  "has_tid i s x =
     (case list_entry x of None \<Rightarrow> False
      | Some p \<Rightarrow> (case tsks s p of None \<Rightarrow> False | Some t \<Rightarrow> tid t = i))"

definition tid_in :: "int \<Rightarrow> sched \<Rightarrow> laddr list \<Rightarrow> nat option" where
  "tid_in i s xs = Option.bind (find (has_tid i s) xs) list_entry"

lemma tid_in_Nil [simp]: "tid_in i s [] = None"
  by (simp add: tid_in_def)

lemma tid_in_append: "tid_in i s (xs @ ys) = (case tid_in i s xs of Some p \<Rightarrow> Some p | None \<Rightarrow> tid_in i s ys)"
  by (induction xs) (auto simp: tid_in_def has_tid_def split: option.splits)

lemma tid_in_Some: "tid_in i s xs = Some p \<Longrightarrow> TskHd p \<in> set xs \<and> (\<exists>t. tsks s p = Some t \<and> tid t = i)"
proof (induction xs)
  case (Cons x xs)
  then show ?case
    by (cases x) (auto simp: tid_in_def has_tid_def split: if_splits option.splits)
qed (simp add: tid_in_def)

lemma tid_in_None: "tid_in i s xs = None \<Longrightarrow> TskHd p \<in> set xs \<Longrightarrow> tsks s p = Some t \<Longrightarrow> tid t \<noteq> i"
  by (induction xs) (auto simp: tid_in_def has_tid_def split: if_splits option.splits)

lemma search_tid_ok:
  "(\<And>x. x \<in> set xs \<Longrightarrow> \<exists>p t. x = TskHd p \<and> tsks s p = Some t) \<Longrightarrow> search_tid i s xs = Inr (tid_in i s xs)"
proof (induction xs)
  case (Cons x xs)
  obtain p t where "x = TskHd p" "tsks s p = Some t" using Cons.prems [of x] by auto
  with Cons show ?case by (simp add: tid_in_def has_tid_def)
qed (simp add: tid_in_def)

lemma search_list_ok:
  assumes inv: "sched_inv f u s" and a: "a \<in> queue_heads"
  shows "search_list i s a = Inr (tid_in i s (f a))"
proof -
  have "list_for_each a (links s) = Some (f a)"
    by (rule list_for_each_dlist [OF lists_repD(1) [OF sched_invD(1) [OF inv] a]])
  moreover have "\<exists>p t. x = TskHd p \<and> tsks s p = Some t" if "x \<in> set (f a)" for x
    using sched_invD(2) [OF inv a that] by (auto simp: queued_ok_def)
  ultimately show ?thesis by (simp add: search_list_def search_tid_ok)
qed

lemma search_heads_ok:
  assumes inv: "sched_inv f u s" and "set hs \<subseteq> queue_heads"
  shows "search_heads i s hs = Inr (tid_in i s (concat (map f hs)))"
  using assms(2)
proof (induction hs)
  case (Cons a hs)
  then show ?case
    using kl.rep_empty [OF sched_invD(1) [OF inv], of a] search_list_ok [OF inv, of a i]
    by (auto simp: tid_in_append split: option.splits)
qed (simp add: tid_in_def)

definition search_order :: "laddr list" where
  "search_order = map IoHd [0..<MAX_FDS] @ WqHd # map RqHd [0..<MAX_PRIO]"

lemma set_search_order: "set search_order = queue_heads"
  by (auto simp: search_order_def queue_heads_def)

lemma find_task_eq:
  assumes inv: "sched_inv f u s"
  shows "find_task i s = Inr (tid_in i s (concat (map f search_order)))"
proof -
  have io: "search_heads i s (map IoHd [0..<MAX_FDS]) = Inr (tid_in i s (concat (map f (map IoHd [0..<MAX_FDS]))))"
    and rq: "search_heads i s (map RqHd [0..<MAX_PRIO]) = Inr (tid_in i s (concat (map f (map RqHd [0..<MAX_PRIO]))))"
    by (intro search_heads_ok [OF inv]; auto)+
  have "tid_in i s (concat (map f (map RqHd [0..<MAX_PRIO]))) = None" if "nrp s = 0"
  proof -
    have "queue_total rq_heads f = 0" using sched_invD(8) [OF inv] that by (simp split: if_splits)
    then have "concat (map f (map RqHd [0..<MAX_PRIO])) = []"
      by (auto simp: queue_total_def rq_heads_def)
    then show ?thesis by (simp only: tid_in_Nil)
  qed
  then show ?thesis
    using io rq search_list_ok [OF inv, of WqHd i]
    by (auto simp: find_task_def io_wait_task_lookup_def search_order_def tid_in_append simp del: map_map
        split: option.splits)
qed

section \<open>Waiting for a descriptor\<close>

lemma park_on_fd_inv:
  assumes inv: "sched_inv f u s" and c: "current s = Some c" "tsks s c = Some t" "idle s \<noteq> Some c"
    and "onrq t \<noteq> 0" and fd: "0 \<le> fd" "fd < int MAX_FDS"
  obtains s' where "park_on_fd fd s = Inr s'"
    and "sched_inv (enq_tail c (IoHd (nat fd)) f) (if u = Some c then None else u) s'"
    and "current s' = current s" and "nxt_imm_task s' = nxt_imm_task s" and "nrp s' = nrp s - 1"
    and "tsks s' = (tsks s)(c \<mapsto> t\<lparr>onrq := 0\<rparr>)"
proof -
  let ?b = "IoHd (nat fd)"
  let ?s = "s\<lparr>links := list_add_tail (TskHd c) ?b (list_del (TskHd c) (links s)),
      tsks := (tsks s)(c \<mapsto> t\<lparr>onrq := 0\<rparr>), nrp := nrp s - 1, nwp := nwp s + 1\<rparr>"
  have pr: "0 \<le> prio t" "prio t < int MAX_PRIO" using sched_inv_prio [OF inv c(2,3)] by auto
  have b: "?b \<in> queue_heads" using fd by (simp add: nat_less_iff)
  have "sched_inv (enq_tail c ?b f) (if u = Some c then None else u) ?s"
    using sched_inv_requeue [OF inv c(2,3) b, of "t\<lparr>onrq := 0\<rparr>"] pr assms(5) enq_at_intros(1) by simp
  moreover have "park_on_fd fd s = Inr ?s"
    using c fd by (simp add: park_on_fd_def add_task_to_IO_wait_Q_def)
  ultimately show thesis by (intro that [of ?s]) simp_all
qed

text \<open>Unlinking a sleeping task first does not change what \<^verbatim>\<open>wakeup_task\<close> does.\<close>

lemma wakeup_after_del:
  assumes "tsks s p = Some t" and "onrq t = 0"
  shows "wakeup_task now p (s\<lparr>links := list_del (TskHd p) (links s)\<rparr>) = wakeup_task now p s"
  using assms by (simp add: wakeup_task_def list_del_idem)

lemma wake_loop_ok:
  assumes "sched_inv f u s" and "fd < MAX_FDS" and "f (IoHd fd) = map TskHd ps"
    and "pos = lnext (links s) (IoHd fd)" and "n = lnext (links s) pos"
  shows "\<exists>s' g. wake_loop now (IoHd fd) pos n s = Some (Inr s') \<and> sched_inv g u s' \<and>
     g (IoHd fd) = [] \<and> nrp s' = nrp s + int (length ps) \<and> current s' = current s \<and>
     (\<forall>p\<in>set ps. \<exists>t. tsks s' p = Some t \<and> onrq t \<noteq> 0) \<and> (\<forall>p. p \<notin> set ps \<longrightarrow> tsks s' p = tsks s p)"
  using assms
proof (induction ps arbitrary: f s pos n)
  case Nil
  have "pos = IoHd fd"
    using kl.rep_empty [OF sched_invD(1) [OF Nil.prems(1)], of "IoHd fd"] Nil.prems
    by (simp add: list_empty_def)
  with Nil.prems show ?case by (auto simp: wake_loop.simps)
next
  case (Cons p ps)
  note inv = Cons.prems(1)
  let ?h = "IoHd fd"
  have h: "?h \<in> queue_heads" using Cons.prems(2) by simp
  have d: "dlist (links s) ?h (TskHd p # map TskHd ps)"
    using lists_repD(1) [OF sched_invD(1) [OF inv] h] Cons.prems(3) by simp
  then have pos: "pos = TskHd p" and n: "n = (case map TskHd ps of [] \<Rightarrow> ?h | x # _ \<Rightarrow> x)"
    using Cons.prems(4,5) by (auto simp: dlist_def lseg_next)
  have dist: "distinct (p # ps)" using d by (auto simp: dlist_def distinct_map)
  obtain t where t: "tsks s p = Some t" "idle s \<noteq> Some p" "onrq t = 0"
    using sched_inv_located [OF inv h, of p] Cons.prems(3) by auto
  obtain s1 where s1: "wakeup_task now p s = Inr s1" "sched_inv (enq_front p (RqHd (nat (prio t))) f) u s1"
    "current s1 = current s" "nrp s1 = nrp s + 1"
    "tsks s1 = (tsks s)(p \<mapsto> t\<lparr>onrq := 1, stime := now - stime t\<rparr>)"
    using wakeup_task_sleeping [OF inv t] by metis
  let ?f = "enq_front p (RqHd (nat (prio t))) f"
  have f1: "?f ?h = map TskHd ps" using Cons.prems(3) by (simp add: enq_front_def unqueue_def)
  have d1: "dlist (links s1) ?h (map TskHd ps)"
    using lists_repD(1) [OF sched_invD(1) [OF s1(2)] h] f1 by simp
  then have n1: "n = lnext (links s1) ?h" using n by (auto simp: dlist_def lseg_next)
  have step: "wake_loop now ?h pos n s = wake_loop now ?h n (lnext (links s1) n) s1"
    using s1(1) pos wakeup_after_del [OF t(1,3), of now] by (subst wake_loop.simps) simp
  obtain s' g where s': "wake_loop now ?h n (lnext (links s1) n) s1 = Some (Inr s')"
    "sched_inv g u s'" "g ?h = []" "nrp s' = nrp s1 + int (length ps)" "current s' = current s1"
    "\<forall>p\<in>set ps. \<exists>t. tsks s' p = Some t \<and> onrq t \<noteq> 0" "\<forall>p. p \<notin> set ps \<longrightarrow> tsks s' p = tsks s1 p"
    using Cons.IH [OF s1(2) Cons.prems(2) f1 n1 refl] by blast
  show ?case
    using step s' s1 dist by (intro exI [of _ s'] exI [of _ g]) auto
qed

lemma wake_io_task_ok:
  assumes inv: "sched_inv f u s" and fd: "0 \<le> fd" "fd < int MAX_FDS"
    and ps: "f (IoHd (nat fd)) = map TskHd ps"
  shows "\<exists>s' g. wake_io_task now fd s = Inr s' \<and> sched_inv g u s' \<and> g (IoHd (nat fd)) = [] \<and>
     nrp s' = nrp s + int (length ps) \<and> current s' = current s \<and>
     (\<forall>p\<in>set ps. \<exists>t. tsks s' p = Some t \<and> onrq t \<noteq> 0) \<and> (\<forall>p. p \<notin> set ps \<longrightarrow> tsks s' p = tsks s p)"
proof (cases "ps = []")
  case True
  then have "list_empty (IoHd (nat fd)) (links s)"
    using kl.rep_empty [OF sched_invD(1) [OF inv], of "IoHd (nat fd)"] ps fd by (simp add: nat_less_iff)
  with True fd inv ps show ?thesis by (auto simp: wake_io_task_def)
next
  case False
  then have "\<not> list_empty (IoHd (nat fd)) (links s)"
    using kl.rep_empty [OF sched_invD(1) [OF inv], of "IoHd (nat fd)"] ps fd by (simp add: nat_less_iff)
  then have "wake_io_task now fd s = returned (wake_loop now (IoHd (nat fd)) (lnext (links s) (IoHd (nat fd)))
      (lnext (links s) (lnext (links s) (IoHd (nat fd)))) s)"
    using fd by (simp add: wake_io_task_def Let_def)
  moreover have "nat fd < MAX_FDS" using fd by (simp add: nat_less_iff)
  ultimately show ?thesis
    using wake_loop_ok [OF inv _ ps refl refl, of now] by (auto simp: returned_def)
qed

section \<open>Creating tasks\<close>

text \<open>A freshly allocated task that is not linked yet, and its first wakeup.\<close>

lemma unlocated:
  assumes "sched_inv f u s" and "tsks s p = None" and "a \<in> queue_heads"
  shows "TskHd p \<notin> set (f a)" and "u \<noteq> Some p"
  using assms sched_inv_located [of f u s a p] sched_invD(3) [OF assms(1)] by (auto simp: offq_ok_def)

lemma lists_rep_frame:
  assumes rep: "lists_rep H h f" and "x \<notin> H" and "\<And>a. a \<in> H \<Longrightarrow> x \<notin> set (f a)"
  shows "lists_rep H (INIT_LIST_HEAD x h) f"
proof -
  have "dlist (INIT_LIST_HEAD x h) a (f a)" if "a \<in> H" for a
    using that assms(2) assms(3) [of a]
    by (intro dlist_other [OF lists_repD(1) [OF rep that]])
      (auto simp: INIT_LIST_HEAD_def link_simps)
  with rep show ?thesis by (simp add: lists_rep_def)
qed

lemma spawn_rep:
  assumes inv: "sched_inv f u s" and p: "tsks s p = None" and r: "r < MAX_PRIO"
    and h: "h = list_add_tail (TskHd p) (RqHd r) (INIT_LIST_HEAD (TskHd p) (links s))"
  shows "lists_rep queue_heads h (f(RqHd r := f (RqHd r) @ [TskHd p]))"
    and "u = Some m \<Longrightarrow> linked h (TskHd m) (TskHd m)"
proof -
  note out = unlocated [OF inv p]
  have rep: "lists_rep queue_heads (INIT_LIST_HEAD (TskHd p) (links s)) f"
    using out by (intro lists_rep_frame sched_invD(1) [OF inv]) auto
  then show "lists_rep queue_heads h (f(RqHd r := f (RqHd r) @ [TskHd p]))"
    unfolding h using r out by (intro kl.rep_add_tail) auto
  assume u: "u = Some m"
  then have "\<And>a. a \<in> queue_heads \<Longrightarrow> TskHd m \<notin> set (f a)" "linked (links s) (TskHd m) (TskHd m)" "m \<noteq> p"
    using sched_invD(3) [OF inv] out(2) [of WqHd] by (auto simp: offq_ok_def)
  then show "linked h (TskHd m) (TskHd m)"
    unfolding h using lists_rep_outside(2) [OF rep, of "RqHd r" "TskHd m"] r
    by (auto simp: INIT_LIST_HEAD_def link_simps)
qed

text \<open>\<^verbatim>\<open>task_find_right_RQ\<close> for a task that has just been allocated.\<close>

lemma sched_inv_spawned:
  assumes inv: "sched_inv f u s" and p: "tsks s p = None"
    and t: "0 \<le> prio t" "prio t < int MAX_PRIO" "onrq t \<noteq> 0" and k: "k \<noteq> 0"
  shows "sched_inv (f(RqHd (nat (prio t)) := f (RqHd (nat (prio t))) @ [TskHd p])) u
     (s\<lparr>links := list_add_tail (TskHd p) (RqHd (nat (prio t))) (INIT_LIST_HEAD (TskHd p) (links s)),
        tsks := (tsks s)(p \<mapsto> t), nrp := nrp s + 1, task_count := k\<rparr>)" (is "sched_inv ?g u ?s")
proof -
  let ?a = "RqHd (nat (prio t))"
  have r: "nat (prio t) < MAX_PRIO" using t by (simp add: nat_less_iff)
  have idle: "idle s \<noteq> Some p" using sched_invD(6) [OF inv] p by auto
  note rep = spawn_rep [OF inv p r refl] and out = unlocated [OF inv p]
  have "queued_ok ?s a x" if "a \<in> queue_heads" "x \<in> set (?g a)" for a x
  proof (cases "x = TskHd p")
    case True
    then have "a = ?a" using that out(1) by (auto split: if_splits)
    with True t r idle show ?thesis by (simp add: queued_ok_def)
  next
    case False
    then have "x \<in> set (f a)" using that(2) by (auto split: if_splits)
    from sched_invD(2) [OF inv that(1) this] False show ?thesis by (auto simp: queued_ok_def)
  qed
  moreover have "offq_ok ?g u ?s"
    using sched_invD(3) [OF inv] rep(2) out(2) [of WqHd] r by (auto simp: offq_ok_def)
  moreover have "located u ?g q" if "tsks ?s q = Some t'" "idle s \<noteq> Some q" for q t'
    using sched_invD(4) [OF inv, of q] that r by (auto simp: located_def split: if_splits)
  moreover have "int (queue_total rq_heads ?g) = int (queue_total rq_heads f) + 1"
    "queue_total (queue_heads - rq_heads) ?g = queue_total (queue_heads - rq_heads) f"
    using queue_total_upd [of rq_heads f ?a "f ?a @ [TskHd p]"] r
      queue_total_upd [of "queue_heads - rq_heads" f ?a "f ?a @ [TskHd p]"] by simp_all
  ultimately show ?thesis
    using inv rep(1) p k unfolding sched_inv_def by auto
qed

lemma wakeup_new_task_eq:
  assumes c: "current s = Some c" "tsks s c = Some tc" and p: "tsks s p = Some t"
    and pr: "0 \<le> prio t" "prio t < int MAX_PRIO"
  shows "wakeup_new_task now p s =
    (let b = (if prio tc > prio t then True else sched_need s);
         s1 = s\<lparr>sched_need := b, links := list_add_tail (TskHd p) (RqHd (nat (prio t))) (links s),
                tsks := (tsks s)(p \<mapsto> t\<lparr>onrq := 1\<rparr>), nrp := nrp s + 1\<rparr>
     in andThen (note_imm_task p s1) (\<lambda>s3. modify (Some p) (\<lambda>t. t\<lparr>stime := now\<rparr>) s3))"
  using assms by (auto simp: wakeup_new_task_def need_sched_for_def task_find_right_RQ_def Let_def)

lemma spawn_task_inv:
  assumes inv: "sched_inv f u s" and ae: "a_new ae = Some p" "a_stk ae" and p: "tsks s p = None"
    and at: "0 \<le> attr_prio at" "attr_prio at < int MAX_PRIO" "8 \<le> attr_stksze at"
    and k: "task_count s + 1 \<noteq> 0"
  shows "\<exists>s' t. spawn_task ae name at True s = Inr (Some p, s') \<and>
     sched_inv (f(RqHd (nat (attr_prio at)) := f (RqHd (nat (attr_prio at))) @ [TskHd p])) u s' \<and>
     tsks s' = (tsks s)(p \<mapsto> t) \<and> tid t = taskid s + 1 \<and> prio t = attr_prio at \<and> onrq t = 1 \<and>
     taskname t = take MAX_TASK_NAME name \<and> sig_pending t = 0 \<and>
     current s' = current s \<and> taskid s' = taskid s + 1 \<and> nrp s' = nrp s + 1 \<and>
     os_sched_enabled s' = os_sched_enabled s \<and> idle s' = idle s"
proof -
  let ?t = "(new_tsk name at (taskid s + 1))\<lparr>taskname := take MAX_TASK_NAME name\<rparr>"
  let ?a = "RqHd (nat (attr_prio at))"
  let ?g = "f(?a := f ?a @ [TskHd p])"
  obtain c tc where c: "current s = Some c" "tsks s c = Some tc" "c \<noteq> p"
    using sched_invD(5) [OF inv] p by (metis not_None_eq)
  define s0 where "s0 = s\<lparr>alloc_size := alloc_size s + a_sizeof ae + word_of_int (attr_stksze at),
     taskid := taskid s + 1, sched_need := (if prio tc > attr_prio at then True else sched_need s)\<rparr>"
  define s1 where "s1 = s0\<lparr>links := list_add_tail (TskHd p) ?a (INIT_LIST_HEAD (TskHd p) (links s)),
     tsks := (tsks s)(p \<mapsto> ?t\<lparr>onrq := 1\<rparr>), nrp := nrp s + 1, task_count := task_count s + 1\<rparr>"
  have "sched_inv f u s0" using inv by (simp add: s0_def)
  then have "sched_inv ?g u s1"
    using sched_inv_spawned [of f u s0 p "?t\<lparr>onrq := 1\<rparr>" "task_count s + 1"] p at k
    by (simp add: s1_def s0_def new_tsk_def zero_tsk_def)
  moreover have t1: "tsks s1 p = Some (?t\<lparr>onrq := 1\<rparr>)" by (simp add: s1_def)
  ultimately obtain n where n: "note_imm_task p s1 = Inr (s1\<lparr>nxt_imm_task := Some n\<rparr>)"
    "sched_inv ?g u (s1\<lparr>nxt_imm_task := Some n\<rparr>)"
    using note_imm_task_eq [of ?g u s1 p] sched_inv_imm [of ?g u s1] by (metis option.inject)
  let ?s = "s\<lparr>links := INIT_LIST_HEAD (TskHd p) (links s), taskid := taskid s + 1,
      alloc_size := alloc_size s0, tsks := (tsks s)(p \<mapsto> ?t), task_count := task_count s + 1\<rparr>"
  have "spawn_task ae name at True s = andThen (wakeup_new_task (a_now ae) p ?s) (\<lambda>s'. Inr (Some p, s'))"
    using ae at
    by (simp add: spawn_task_def tm_calloc_def tm_malloc_def alloc_tid_def s0_def Let_def)
  also have "wakeup_new_task (a_now ae) p ?s =
      andThen (note_imm_task p s1) (\<lambda>s3. modify (Some p) (\<lambda>t. t\<lparr>stime := a_now ae\<rparr>) s3)"
    using c at unfolding Let_def s1_def s0_def
    by (subst wakeup_new_task_eq [of _ c tc _ ?t]) (auto simp: new_tsk_def Let_def
        intro!: arg_cong2 [of _ _ _ _ andThen] arg_cong2 [of _ _ _ _ note_imm_task] sched.equality)
  finally have eq: "spawn_task ae name at True s = Inr (Some p, s1\<lparr>nxt_imm_task := Some n,
      tsks := (tsks s)(p \<mapsto> ?t\<lparr>onrq := 1, stime := a_now ae\<rparr>)\<rparr>)"
    using n(1) t1 by (simp add: s1_def)
  have "sched_inv ?g u (s1\<lparr>nxt_imm_task := Some n, tsks := (tsks s)(p \<mapsto> ?t\<lparr>onrq := 1, stime := a_now ae\<rparr>)\<rparr>)"
    using sched_inv_tsk_update [OF n(2), of p "?t\<lparr>onrq := 1\<rparr>" "?t\<lparr>onrq := 1, stime := a_now ae\<rparr>"] t1
    by (simp add: s1_def)
  with eq show ?thesis by (auto simp: s1_def s0_def new_tsk_def zero_tsk_def)
qed

section \<open>Start-up\<close>

definition boot_queues :: "nat \<Rightarrow> laddr \<Rightarrow> laddr list" where
  "boot_queues d = (\<lambda>a. if a = RqHd 1 then [TskHd d] else [])"

text \<open>The list heap after start-up: the tasks \<open>m\<close> and \<open>i\<close> are unlinked, \<open>d\<close> is on run queue 1.\<close>

definition boot_links :: "nat \<Rightarrow> nat \<Rightarrow> nat \<Rightarrow> laddr lheap \<Rightarrow> laddr lheap" where
  "boot_links m i d h0 =
     (let h = fold (\<lambda>pr. INIT_LIST_HEAD (RqHd pr)) (rev [0..<MAX_PRIO]) h0;
          h = INIT_LIST_HEAD (TskHd m) (INIT_LIST_HEAD WqHd h);
          h = list_add_tail (TskHd i) (RqHd 19) (INIT_LIST_HEAD (TskHd i) h);
          h = list_add_tail (TskHd d) (RqHd 1) (INIT_LIST_HEAD (TskHd d) (list_del (TskHd i) h))
      in fold (\<lambda>fd. INIT_LIST_HEAD (IoHd fd)) [0..<MAX_FDS] h)"

lemma boot_links_ok:
  assumes "m \<noteq> i" and "m \<noteq> d" and "i \<noteq> d"
  shows "lists_rep queue_heads (boot_links m i d h) (boot_queues d)"
    and "linked (boot_links m i d h) (TskHd m) (TskHd m)"
proof -
  note d = boot_links_def Let_def fold_INIT_links list_add_tail_def raw_list_add_def
    list_del_def raw_list_del_def INIT_LIST_HEAD_def link_simps MAX_PRIO_def
  show "linked (boot_links m i d h) (TskHd m) (TskHd m)"
    using assms by (simp add: d image_iff)
  have "dlist (boot_links m i d h) a (boot_queues d a)" if "a \<in> queue_heads" for a
    using that assms
    by (auto simp: queue_heads_def boot_queues_def dlist_def d image_iff)
  then show "lists_rep queue_heads (boot_links m i d h) (boot_queues d)"
    by (auto simp: lists_rep_def boot_queues_def split: if_splits)
qed

text \<open>The globals before \<^verbatim>\<open>main\<close>: zero, with whatever the list heads of the program hold.\<close>

definition static_sched :: "laddr lheap \<Rightarrow> sched" where
  "static_sched h =
     \<lparr>tsks = (\<lambda>_. None), links = h, nrp = 0, nwp = 0, current = None, idle = None, parent = None,
      nxt_imm_task = None, tswc = 0, jiffies = 0, sched_need = False, os_sched_enabled = False,
      switch_bk = False, im_count = 0, not_im_count = 0, task_count = 0, taskid = 0, alloc_size = 0,
      alrm_blocked = False, sigio_blocked = False, reg_signals = 0\<rparr>"

definition boot_ok :: "alloc_env \<Rightarrow> alloc_env \<Rightarrow> alloc_env \<Rightarrow> nat \<Rightarrow> nat \<Rightarrow> nat \<Rightarrow> bool" where
  "boot_ok aem aei aes m i d \<longleftrightarrow>
     a_new aem = Some m \<and> a_new aei = Some i \<and> a_new aes = Some d \<and> m \<noteq> i \<and> m \<noteq> d \<and> i \<noteq> d \<and>
     a_stk aem \<and> a_stk aei \<and> a_stk aes"

definition boot_tasks :: "alloc_env \<Rightarrow> alloc_env \<Rightarrow> u32 \<Rightarrow> nat \<Rightarrow> nat \<Rightarrow> nat \<Rightarrow> nat \<Rightarrow> tsk option" where
  "boot_tasks aei aes ticks m i d =
     [m \<mapsto> zero_tsk\<lparr>taskname := ''Main'', tid := 1, needsched := True, prio := 1, stksize := 10000,
              tslice := 60, stick := ticks, onrq := 1, state := TASK_RUNNING\<rparr>,
      i \<mapsto> zero_tsk\<lparr>taskname := ''IDLE'', tid := 2, needsched := True, prio := 19, stksize := 32 * 1024,
              tslice := 60, onrq := 1, stime := a_now aei, state := TASK_INTERRUPTIBLE\<rparr>,
      d \<mapsto> zero_tsk\<lparr>taskname := ''SIRQ'', tid := 3, needsched := True, prio := 1, stksize := 20 * 1024,
              tslice := 60, onrq := 1, stime := a_now aes\<rparr>]"

lemma sched_boot_eq:
  assumes "boot_ok aem aei aes m i d"
  shows "\<exists>s'. sched_boot aem aei aes ticks (static_sched h) = Inr (Some d, s') \<and>
     links s' = boot_links m i d h \<and> tsks s' = boot_tasks aei aes ticks m i d \<and>
     nrp s' = 2 \<and> nwp s' = 0 \<and> current s' = Some m \<and> idle s' = Some i \<and>
     nxt_imm_task s' = Some d \<and> task_count s' = 2 \<and> os_sched_enabled s' = False \<and> taskid s' = 3 \<and> parent s' = Some m"
proof -
  note defs = create_parent_task_def create_idle_task_def spawn_softirqd_def spawn_task_def
    tm_calloc_def tm_malloc_def alloc_tid_def new_tsk_def zero_tsk_def wakeup_new_task_def
    need_sched_for_def task_find_right_RQ_def note_imm_task_def set_task_state_def Let_def
    MAX_TASK_NAME_def DEFAULT_TIME_SLICE_def MAX_PRIO_def
  show ?thesis
    using assms
    by (simp add: boot_ok_def sched_boot_def static_sched_def init_scheduler_def init_io_def
        boot_links_def boot_tasks_def defs fun_upd_twist fun_upd_def fun_eq_iff)
qed

end
