(* ===== verification/ThreadProps.thy ===== *)
theory ThreadProps
  imports ThreadInv
begin

unbundle bit_operations_syntax

text \<open>
  Properties of start-up, task creation, lookup, waiting and waking, and the invariant of every
  state the calls lead to from start-up.
\<close>

section \<open>Start-up\<close>

lemma boot_total:
  "queue_total rq_heads (boot_queues d) = 1" "queue_total (queue_heads - rq_heads) (boot_queues d) = 0"
proof -
  have "queue_total rq_heads (boot_queues d) = (\<Sum>a\<in>rq_heads. if a = RqHd 1 then 1 else 0)"
    unfolding queue_total_def by (intro sum.cong) (auto simp: boot_queues_def)
  then show "queue_total rq_heads (boot_queues d) = 1" by (simp add: MAX_PRIO_def)
  have "boot_queues d a = []" if "a \<notin> rq_heads" for a
    using that by (auto simp: boot_queues_def MAX_PRIO_def)
  then show "queue_total (queue_heads - rq_heads) (boot_queues d) = 0"
    by (simp add: queue_total_def)
qed

lemma boot_inv:
  assumes "m \<noteq> i" "m \<noteq> d" "i \<noteq> d" and "links s = boot_links m i d h"
    and "tsks s = boot_tasks aei aes ticks m i d" and "nrp s = 2" "nwp s = 0" "current s = Some m"
    "idle s = Some i" "nxt_imm_task s = Some d" "task_count s = 2"
  shows "sched_inv (boot_queues d) (Some m) s"
proof -
  note links = boot_links_ok [OF assms(1-3), of h]
  have q: "queued_ok s a x" if "x \<in> set (boot_queues d a)" for a x
    using that assms
    by (auto simp: boot_queues_def queued_ok_def boot_tasks_def zero_tsk_def MAX_PRIO_def split: if_splits)
  have o: "offq_ok (boot_queues d) (Some m) s"
    using assms links(2) by (auto simp: offq_ok_def boot_tasks_def boot_queues_def zero_tsk_def MAX_PRIO_def)
  have "located (Some m) (boot_queues d) p" if "tsks s p = Some t" "idle s \<noteq> Some p" for p t
    using that assms by (auto simp: located_def boot_tasks_def boot_queues_def MAX_PRIO_def split: if_splits)
  with q o links(1) assms show ?thesis
    by (simp add: sched_inv_def boot_total) (simp add: boot_tasks_def)
qed

lemma boot_quiet:
  assumes "tsks s = boot_tasks aei aes ticks m i d" and "nrp s = 2" and "os_sched_enabled s = False"
  shows "quiet s"
  using assms by (simp add: quiet_def boot_tasks_def zero_tsk_def)

text \<open>
  start-up.  When the three allocations succeed, the scheduler's part of
  \<^verbatim>\<open>tmlib_init\<close> ends in a state that satisfies the invariant: the main task runs and is on no
  queue, the soft interrupt task is on run queue 1 and next to run, the idle task is unlinked.
\<close>

theorem sched_boot_establishes_inv:
  assumes "boot_ok aem aei aes m i d"
  shows "\<exists>s'. sched_boot aem aei aes ticks (static_sched h) = Inr (Some d, s') \<and>
     sched_inv (boot_queues d) (Some m) s' \<and> quiet s' \<and>
     current s' = Some m \<and> idle s' = Some i \<and> nxt_imm_task s' = Some d"
proof -
  obtain s' where s': "sched_boot aem aei aes ticks (static_sched h) = Inr (Some d, s')"
     "links s' = boot_links m i d h" "tsks s' = boot_tasks aei aes ticks m i d"
     "nrp s' = 2" "nwp s' = 0" "current s' = Some m" "idle s' = Some i"
     "nxt_imm_task s' = Some d" "task_count s' = 2" "os_sched_enabled s' = False"
    using sched_boot_eq [OF assms, of ticks h] by blast
  moreover have "m \<noteq> i" "m \<noteq> d" "i \<noteq> d" using assms by (auto simp: boot_ok_def)
  ultimately show ?thesis using boot_inv [of m i d s' h aei aes ticks] boot_quiet by blast
qed

section \<open>Concrete states\<close>

definition demo_env :: "nat \<Rightarrow> alloc_env" where
  "demo_env p = \<lparr>a_now = 0, a_sizeof = 400, a_new = Some p, a_stk = True\<rparr>"

definition demo_boot :: "(nat option \<times> sched) res" where
  "demo_boot = sched_boot (demo_env 0) (demo_env 1) (demo_env 2) 0
     (static_sched \<lparr>lnext = (\<lambda>a. a), lprev = (\<lambda>a. a)\<rparr>)"

theorem sched_boot_establishes_inv_witness:
  "boot_ok (demo_env 0) (demo_env 1) (demo_env 2) 0 1 2 \<and>
   (\<exists>s'. demo_boot = Inr (Some 2, s') \<and> sched_inv (boot_queues 2) (Some 0) s' \<and> nxt_imm_task s' = Some 2)"
proof -
  have ok: "boot_ok (demo_env 0) (demo_env 1) (demo_env 2) 0 1 2" by (simp add: boot_ok_def demo_env_def)
  then show ?thesis
    using sched_boot_establishes_inv [OF ok, of 0 "\<lparr>lnext = (\<lambda>a. a), lprev = (\<lambda>a. a)\<rparr>"]
    unfolding demo_boot_def by blast
qed

lemma demo_state:
  obtains s where "demo_boot = Inr (Some 2, s)" and "sched_inv (boot_queues 2) (Some 0) s" and "quiet s"
    and "current s = Some 0" and "idle s = Some 1" and "nxt_imm_task s = Some 2"
    and "tsks s = boot_tasks (demo_env 1) (demo_env 2) 0 0 1 2" and "task_count s = 2" and "nrp s = 2"
    and "taskid s = 3" and "parent s = Some 0" and "os_sched_enabled s = False"
proof -
  have ok: "boot_ok (demo_env 0) (demo_env 1) (demo_env 2) 0 1 2"
    by (simp add: boot_ok_def demo_env_def)
  then obtain s where s: "demo_boot = Inr (Some 2, s)"
     "links s = boot_links 0 1 2 \<lparr>lnext = (\<lambda>a. a), lprev = (\<lambda>a. a)\<rparr>"
     "tsks s = boot_tasks (demo_env 1) (demo_env 2) 0 0 1 2" "nrp s = 2" "nwp s = 0" "current s = Some 0"
     "idle s = Some 1" "nxt_imm_task s = Some 2" "task_count s = 2" "os_sched_enabled s = False"
     "taskid s = 3" "parent s = Some 0"
    using sched_boot_eq [OF ok, of 0 "\<lparr>lnext = (\<lambda>a. a), lprev = (\<lambda>a. a)\<rparr>"] unfolding demo_boot_def by blast
  then have "sched_inv (boot_queues 2) (Some 0) s" by (intro boot_inv) simp_all
  moreover have "quiet s" using s by (intro boot_quiet)
  ultimately show thesis using s by (intro that [of s])
qed

text \<open>The same with no woken task cached, and with a second task of the same priority.\<close>

lemma demo_idle_cache:
  obtains s where "sched_inv (boot_queues 2) (Some 0) s" and "quiet s" and "current s = Some 0"
    and "nxt_imm_task s = None" and "idle s = Some 1"
    and "tsks s = boot_tasks (demo_env 1) (demo_env 2) 0 0 1 2" and "task_count s = 2" and "nrp s = 2"
proof -
  obtain s where s: "sched_inv (boot_queues 2) (Some 0) s" "quiet s"
    "current s = Some 0" "idle s = Some 1"
    "tsks s = boot_tasks (demo_env 1) (demo_env 2) 0 0 1 2" "task_count s = 2" "nrp s = 2"
    using demo_state by blast
  then have "sched_inv (boot_queues 2) (Some 0) (s\<lparr>nxt_imm_task := None\<rparr>)" by (intro sched_inv_imm) simp_all
  with s show thesis by (intro that [of "s\<lparr>nxt_imm_task := None\<rparr>"]) (simp_all add: quiet_def)
qed

lemma boot_top: "top_prio (boot_queues d) = Some 1"
  by (simp add: top_prio_Some boot_queues_def MAX_PRIO_def)


definition demo_e :: env where
  "demo_e = \<lparr>t_stats = 100, t_switch = 100, bt_syms = [], sig_hdl = (\<lambda>h i s. Inr s)\<rparr>"

section \<open>Witnesses for the scheduler's properties\<close>

theorem schedule_runs_pick_witness:
  "\<exists>f u s n s'. sched_inv f u s \<and> \<not> os_sched_enabled s \<and> nrp s < 2 ^ 31 \<and> sig_is_pending s = Inr False \<and>
     pick f s = Some n \<and> schedule demo_e s = Inr s' \<and> current s' = Some n"
proof -
  obtain s where s: "sched_inv (boot_queues 2) (Some 0) s" "quiet s" "nxt_imm_task s = Some 2" "nrp s = 2"
    using demo_state by blast
  have h: "\<not> os_sched_enabled s" "nrp s < 2 ^ 31" "sig_is_pending s = Inr False" "pick (boot_queues 2) s = Some 2"
    using s quiet_sig [OF s(1,2)] by (auto simp: quiet_def pick_def)
  show ?thesis using schedule_runs_pick [OF s(1) h, of demo_e] s(1) h by blast
qed

theorem schedule_highest_priority_witness:
  "\<exists>f u s a s'. sched_inv f u s \<and> quiet s \<and> nxt_imm_task s = None \<and> a \<in> rq_heads \<and> f a \<noteq> [] \<and>
     schedule demo_e s = Inr s'"
proof -
  obtain s where s: "sched_inv (boot_queues 2) (Some 0) s" "quiet s" "nxt_imm_task s = None"
    using demo_idle_cache by blast
  have a: "RqHd 1 \<in> rq_heads" "boot_queues 2 (RqHd 1) \<noteq> []"
    by (simp_all add: boot_queues_def MAX_PRIO_def)
  show ?thesis using schedule_highest_priority [OF s a, of demo_e] s a by blast
qed

lemma demo_two:
  obtains f s where "sched_inv f (Some 0) s" and "quiet s" and "nxt_imm_task s = None" and "current s = Some 0"
    and "top_prio f = Some 1" and "f (RqHd 1) = map TskHd [2, 3]"
    and "\<forall>q\<in>set [2, 3]. \<exists>t. tsks s q = Some t \<and> prio t = int 1"
proof -
  obtain s where s: "sched_inv (boot_queues 2) (Some 0) s" "quiet s" "current s = Some 0" "task_count s = 2"
    "tsks s = boot_tasks (demo_env 1) (demo_env 2) 0 0 1 2" "nrp s = 2"
    using demo_state by blast
  let ?at = "\<lparr>attr_stksze = 4096, attr_prio = 1, attr_schedalgo = 0\<rparr>"
  let ?f = "(boot_queues 2)(RqHd 1 := [TskHd 2, TskHd 3])"
  have "\<exists>s' t. sched_inv ?f (Some 0) s' \<and> tsks s' = (tsks s)(3 \<mapsto> t) \<and> prio t = 1 \<and>
     sig_pending t = 0 \<and> current s' = Some 0 \<and> nrp s' = 3 \<and> os_sched_enabled s' = os_sched_enabled s"
    using spawn_task_inv [OF s(1), of "demo_env 3" 3 ?at "''T''"] s(3-6)
    by (auto simp: demo_env_def MAX_PRIO_def boot_tasks_def boot_queues_def fun_upd_def)
  then obtain s' t where s': "sched_inv ?f (Some 0) s'" "tsks s' = (tsks s)(3 \<mapsto> t)" "prio t = 1"
    "sig_pending t = 0" "current s' = Some 0" "nrp s' = 3" "os_sched_enabled s' = os_sched_enabled s"
    by blast
  have q: "quiet (s'\<lparr>nxt_imm_task := None\<rparr>)" using s(2) s' by (simp add: quiet_def)
  have t: "top_prio ?f = Some 1" by (simp add: top_prio_Some boot_queues_def MAX_PRIO_def)
  show thesis
    by (rule that [OF sched_inv_imm [OF s'(1)] q])
      (use s' s(5) t in \<open>simp_all add: boot_tasks_def zero_tsk_def\<close>)
qed

theorem schedule_round_robin_witness:
  "\<exists>f s. sched_inv f (Some 0) s \<and> f (RqHd 1) = map TskHd [2, 3] \<and>
     passes [demo_e, demo_e] s = Inr [Some 2, Some 3] \<and>
     sched_inv f (Some 0) (s\<lparr>current := Some 2\<rparr>) \<and>
     passes [demo_e, demo_e, demo_e] (s\<lparr>current := Some 2\<rparr>) = Inr [Some 2, Some 2, Some 2]"
proof -
  obtain f s where s: "sched_inv f (Some 0) s" "quiet s" "nxt_imm_task s = None" "top_prio f = Some 1"
    "f (RqHd 1) = map TskHd [2, 3]" "\<forall>q\<in>set [2, 3]. \<exists>t. tsks s q = Some t \<and> prio t = int 1"
    and c: "current s = Some 0" using demo_two by blast
  have rr: "passes [demo_e, demo_e] s = Inr [Some 2, Some 3]"
    using schedule_round_robin [OF s(1-5), of "[demo_e, demo_e]"] s(6) c by simp
  have inv: "sched_inv f (Some 0) (s\<lparr>current := Some 2\<rparr>)" using s by (intro sched_inv_current) auto
  have h: "quiet (s\<lparr>current := Some 2\<rparr>)" "nxt_imm_task (s\<lparr>current := Some 2\<rparr>) = None"
    using s(2,3) by (simp_all add: quiet_def)
  have "passes [demo_e, demo_e, demo_e] (s\<lparr>current := Some 2\<rparr>) = Inr [Some 2, Some 2, Some 2]"
    using schedule_round_robin [OF inv h s(4,5), of "[demo_e, demo_e, demo_e]"] by (simp add: numeral_3_eq_3)
  with rr inv s(1,5) show ?thesis by blast
qed

theorem schedule_unlinked_main_faults_witness:
  "\<exists>f s. sched_inv f (Some 0) s \<and> quiet s \<and> nxt_imm_task s = None \<and> schedule demo_e s = Inl NullDeref"
proof -
  obtain s where s: "sched_inv (boot_queues 2) (Some 0) s" "quiet s" "nxt_imm_task s = None" "idle s = Some 1"
    "tsks s = boot_tasks (demo_env 1) (demo_env 2) 0 0 1 2" "nrp s = 2"
    using demo_idle_cache by blast
  let ?t = "the (tsks s 2)"
  have p: "tsks s 2 = Some ?t" "idle s \<noteq> Some 2" "onrq ?t \<noteq> 0"
    using s(4,5) by (simp_all add: boot_tasks_def zero_tsk_def)
  obtain s' where s': "add_task_to_wait_Q 5 (Some 2) s = Inr s'" "sched_inv (enq_tail 2 WqHd (boot_queues 2)) (Some 0) s'"
    "nxt_imm_task s' = None"
    "tsks s' = (tsks s)(2 \<mapsto> ?t\<lparr>state := TASK_INTERRUPTIBLE, onrq := 0, stime := 5\<rparr>)" "nrp s' = 1"
    using add_task_to_wait_Q_inv [OF s(1) p, of 5] s(3,6) by auto
  have "os_sched_enabled s' = os_sched_enabled s"
    using s'(1) add_task_to_wait_Q_eq [OF p(1), of 5] p(3) by auto
  then have q: "quiet s'" using s(2,5) s' p(1) by (simp add: quiet_def boot_tasks_def zero_tsk_def)
  have "int (queue_total rq_heads (enq_tail 2 WqHd (boot_queues 2))) = 0"
    using sched_invD(8) [OF s'(2)] s'(5) by simp
  with schedule_unlinked_main_faults [OF s'(2) q s'(3)] s'(2,3) q show ?thesis by auto
qed

section \<open>Creating and looking up tasks\<close>

text \<open>
  \<^verbatim>\<open>spawn_task\<close> with a valid priority and stack size links exactly one new task, at the
  end of the run queue of its priority, with the next task id and the name cut to 10 characters;
  no other task changes and the invariant holds again.
\<close>

theorem spawn_task_queues_task:
  assumes "sched_inv f u s" and "a_new ae = Some p" and "a_stk ae" and "tsks s p = None"
    and "0 \<le> attr_prio at" and "attr_prio at < int MAX_PRIO" and "8 \<le> attr_stksze at"
    and "task_count s + 1 \<noteq> 0"
  shows "\<exists>s' t. spawn_task ae name at True s = Inr (Some p, s') \<and>
     sched_inv (f(RqHd (nat (attr_prio at)) := f (RqHd (nat (attr_prio at))) @ [TskHd p])) u s' \<and>
     tsks s' = (tsks s)(p \<mapsto> t) \<and> tid t = taskid s + 1 \<and> prio t = attr_prio at \<and> onrq t = 1 \<and>
     taskname t = take MAX_TASK_NAME name \<and> current s' = current s \<and> taskid s' = taskid s + 1 \<and>
     nrp s' = nrp s + 1"
  using spawn_task_inv [OF assms, of name] by blast

theorem spawn_task_queues_task_witness:
  "\<exists>s s'. sched_inv (boot_queues 2) (Some 0) s \<and>
     spawn_task (demo_env 3) ''worker-thread'' \<lparr>attr_stksze = 4096, attr_prio = 7, attr_schedalgo = 0\<rparr> True s
       = Inr (Some 3, s') \<and> sched_inv ((boot_queues 2)(RqHd 7 := [TskHd 3])) (Some 0) s'"
proof -
  obtain s where s: "sched_inv (boot_queues 2) (Some 0) s" "task_count s = 2"
    "tsks s = boot_tasks (demo_env 1) (demo_env 2) 0 0 1 2" using demo_state by blast
  have "\<exists>s'. spawn_task (demo_env 3) ''worker-thread'' \<lparr>attr_stksze = 4096, attr_prio = 7, attr_schedalgo = 0\<rparr> True s
       = Inr (Some 3, s') \<and> sched_inv ((boot_queues 2)(RqHd 7 := [TskHd 3])) (Some 0) s'"
    using spawn_task_queues_task [OF s(1), of "demo_env 3" 3 "\<lparr>attr_stksze = 4096, attr_prio = 7, attr_schedalgo = 0\<rparr>"
        "''worker-thread''"] s(2,3)
    by (auto simp: demo_env_def MAX_PRIO_def boot_tasks_def boot_queues_def fun_upd_def)
  with s(1) show ?thesis by blast
qed

text \<open>
  the attributes \<^verbatim>\<open>thread_attr_init\<close> leaves behind cannot be used as they are: their
  priority 100 is outside the 20 run queues, and \<^verbatim>\<open>spawn_task\<close> links the new task into
  \<^verbatim>\<open>rq.hd[100]\<close>.
\<close>

theorem spawn_task_default_attr_out_of_bounds:
  assumes "sched_inv f u s" and "a_new ae = Some p" and "a_stk ae" and "tsks s p = None"
  shows "spawn_task ae name (thread_attr_init at) True s = Inl OutOfBounds"
proof -
  obtain c where "current s = Some c" "tsks s c \<noteq> None" using sched_invD(5) [OF assms(1)] by blast
  then obtain tc where "current s = Some c" "tsks s c = Some tc" "c \<noteq> p"
    using assms(4) by (metis not_None_eq)
  with assms(2,3) show ?thesis
    by (simp add: spawn_task_def thread_attr_init_def DEFAULT_STACK_SIZE_def tm_calloc_def tm_malloc_def
        alloc_tid_def new_tsk_def wakeup_new_task_def need_sched_for_def task_find_right_RQ_def
        rq_hd_def MAX_PRIO_def Let_def)
qed

theorem spawn_task_default_attr_out_of_bounds_witness:
  "\<exists>s. sched_inv (boot_queues 2) (Some 0) s \<and>
     spawn_task (demo_env 3) ''T'' (thread_attr_init \<lparr>attr_stksze = 0, attr_prio = 0, attr_schedalgo = 0\<rparr>) True s
       = Inl OutOfBounds"
proof -
  obtain s where s: "sched_inv (boot_queues 2) (Some 0) s"
    "tsks s = boot_tasks (demo_env 1) (demo_env 2) 0 0 1 2" using demo_state by blast
  have "tsks s 3 = None" using s(2) by (simp add: boot_tasks_def)
  with spawn_task_default_attr_out_of_bounds [OF s(1), of "demo_env 3" 3] s(1) show ?thesis
    by (auto simp: demo_env_def)
qed

text \<open>
  \<^verbatim>\<open>find_task\<close> is exact on the queues: it returns a queued task with the id when there
  is one and NULL otherwise, and it never faults.
\<close>

theorem find_task_correct:
  assumes "sched_inv f u s"
  shows "\<exists>r. find_task i s = Inr r \<and>
     (\<forall>p. r = Some p \<longrightarrow> (\<exists>a\<in>queue_heads. TskHd p \<in> set (f a)) \<and> (\<exists>t. tsks s p = Some t \<and> tid t = i)) \<and>
     (r = None \<longrightarrow> (\<forall>a\<in>queue_heads. \<forall>p t. TskHd p \<in> set (f a) \<longrightarrow> tsks s p = Some t \<longrightarrow> tid t \<noteq> i))"
proof (rule exI [of _ "tid_in i s (concat (map f search_order))"], intro conjI allI impI ballI)
  let ?xs = "concat (map f search_order)"
  have set: "set ?xs = (\<Union>a\<in>queue_heads. set (f a))" by (simp add: set_search_order)
  show "find_task i s = Inr (tid_in i s ?xs)" by (rule find_task_eq [OF assms])
  show "\<exists>a\<in>queue_heads. TskHd p \<in> set (f a)" and "\<exists>t. tsks s p = Some t \<and> tid t = i"
    if "tid_in i s ?xs = Some p" for p
    using tid_in_Some [OF that] set by blast+
  show "tid t \<noteq> i" if "tid_in i s ?xs = None" "a \<in> queue_heads" "TskHd p \<in> set (f a)" "tsks s p = Some t"
    for a p t
    using tid_in_None [OF that(1) _ that(4)] set that(2,3) by blast
qed

theorem find_task_correct_witness:
  "\<exists>f s r. sched_inv f (Some 0) s \<and> f (RqHd 1) = [TskHd 2] \<and> find_task 3 s = Inr r"
proof -
  obtain s where s: "sched_inv (boot_queues 2) (Some 0) s" using demo_state by blast
  have "boot_queues 2 (RqHd 1) = [TskHd 2]" by (simp add: boot_queues_def)
  with find_task_correct [OF s, of 3] s show ?thesis by blast
qed

section \<open>Waiting and waking\<close>

text \<open>
  C23: a runnable task that goes to sleep on the wait queue and is woken again is back at the
  front of the run queue of its priority; both counters are what they were, no other task
  changes, and if no other wakeup is pending it is the next to run.
\<close>

theorem sleep_wake_roundtrip:
  assumes inv: "sched_inv f u s" and p: "tsks s p = Some t" "idle s \<noteq> Some p" "onrq t \<noteq> 0"
  shows "\<exists>s1 s2 g. add_task_to_wait_Q now (Some p) s = Inr s1 \<and> wakeup_task now' p s1 = Inr s2 \<and>
     sched_inv g (if u = Some p then None else u) s2 \<and> hd (g (RqHd (nat (prio t)))) = TskHd p \<and>
     nrp s2 = nrp s \<and> nwp s2 = nwp s \<and> (\<forall>q. q \<noteq> p \<longrightarrow> tsks s2 q = tsks s q) \<and>
     (\<exists>t'. tsks s2 p = Some t' \<and> onrq t' = 1 \<and> stime t' = now' - now) \<and>
     (nxt_imm_task s = None \<longrightarrow> nxt_imm_task s2 = Some p)"
proof -
  let ?u = "if u = Some p then None else u"
  obtain s1 where s1: "add_task_to_wait_Q now (Some p) s = Inr s1" "sched_inv (enq_tail p WqHd f) ?u s1"
    "nxt_imm_task s1 = nxt_imm_task s" "nrp s1 = nrp s - 1"
    "tsks s1 = (tsks s)(p \<mapsto> t\<lparr>state := TASK_INTERRUPTIBLE, onrq := 0, stime := now\<rparr>)"
    using add_task_to_wait_Q_inv [OF inv p, of now] by metis
  have extra: "nwp s1 = nwp s + 1" "idle s1 = idle s"
    using s1(1) add_task_to_wait_Q_eq [OF p(1), of now] p(3) by auto
  let ?t = "t\<lparr>state := TASK_INTERRUPTIBLE, onrq := 0, stime := now\<rparr>"
  have t1: "tsks s1 p = Some ?t" "idle s1 \<noteq> Some p" "onrq ?t = 0" using s1(5) extra p(2) by simp_all
  obtain s2 where s2: "wakeup_task now' p s1 = Inr s2"
    "sched_inv (enq_front p (RqHd (nat (prio ?t))) (enq_tail p WqHd f)) ?u s2"
    "nrp s2 = nrp s1 + 1" "nwp s2 = nwp s1 - 1" "nxt_imm_task s1 = None \<Longrightarrow> nxt_imm_task s2 = Some p"
    "tsks s2 = (tsks s1)(p \<mapsto> ?t\<lparr>onrq := 1, stime := now' - stime ?t\<rparr>)"
    using wakeup_task_sleeping [OF s1(2) t1, of now'] by metis
  have "hd (enq_front p (RqHd (nat (prio t))) (enq_tail p WqHd f) (RqHd (nat (prio t)))) = TskHd p"
    by (simp add: enq_front_def)
  with s1 s2 extra show ?thesis by auto
qed

theorem sleep_wake_roundtrip_witness:
  "\<exists>s s1 s2. sched_inv (boot_queues 2) (Some 0) s \<and> add_task_to_wait_Q 5 (Some 2) s = Inr s1 \<and>
     wakeup_task 9 2 s1 = Inr s2 \<and> nrp s2 = nrp s \<and> nwp s2 = nwp s"
proof -
  obtain s where s: "sched_inv (boot_queues 2) (Some 0) s" "idle s = Some 1"
    "tsks s = boot_tasks (demo_env 1) (demo_env 2) 0 0 1 2" using demo_state by blast
  have p: "tsks s 2 = Some (the (tsks s 2))" "idle s \<noteq> Some 2" "onrq (the (tsks s 2)) \<noteq> 0"
    using s(2,3) by (simp_all add: boot_tasks_def zero_tsk_def)
  from sleep_wake_roundtrip [OF s(1) p, of 5 9] s(1) show ?thesis by blast
qed

text \<open>
  the interrupt for a descriptor wakes every task that waits for it: the loop over the
  waiters ends, none of them is left on the wait list, all of them are runnable and counted, and
  the tasks that do not wait for the descriptor are as they were.
\<close>

theorem wake_io_task_wakes_all:
  assumes "sched_inv f u s" and "0 \<le> fd" and "fd < int MAX_FDS" and "f (IoHd (nat fd)) = map TskHd ps"
  shows "\<exists>s' g. wake_io_task now fd s = Inr s' \<and> sched_inv g u s' \<and> g (IoHd (nat fd)) = [] \<and>
     nrp s' = nrp s + int (length ps) \<and>
     (\<forall>p\<in>set ps. \<exists>t. tsks s' p = Some t \<and> onrq t \<noteq> 0) \<and> (\<forall>p. p \<notin> set ps \<longrightarrow> tsks s' p = tsks s p)"
  using wake_io_task_ok [OF assms, of now] by blast

theorem wake_io_task_wakes_all_witness:
  "\<exists>s f s'. sched_inv f None s \<and> f (IoHd 3) = [TskHd 0] \<and> wake_io_task 7 3 s = Inr s' \<and>
     (\<exists>t. tsks s' 0 = Some t \<and> onrq t \<noteq> 0)"
proof -
  obtain s where s: "sched_inv (boot_queues 2) (Some 0) s" "current s = Some 0" "idle s = Some 1"
    "tsks s = boot_tasks (demo_env 1) (demo_env 2) 0 0 1 2" using demo_state by blast
  have p: "tsks s 0 = Some (the (tsks s 0))" "idle s \<noteq> Some 0" "onrq (the (tsks s 0)) \<noteq> 0"
    using s(3,4) by (simp_all add: boot_tasks_def zero_tsk_def)
  obtain s1 where s1: "sched_inv (enq_tail 0 (IoHd (nat 3)) (boot_queues 2)) None s1"
    using park_on_fd_inv [OF s(1,2) p, of 3] by (auto simp: MAX_FDS_def)
  have f: "enq_tail 0 (IoHd (nat 3)) (boot_queues 2) (IoHd (nat 3)) = map TskHd [0]"
    by (simp add: enq_tail_def unqueue_def boot_queues_def)
  from wake_io_task_wakes_all [OF s1 _ _ f, of 7] s1 f show ?thesis by (auto simp: MAX_FDS_def)
qed

section \<open>Faults of the exit paths\<close>

text \<open>
  C29: when the entry function of a task returns, \<^verbatim>\<open>clone_thread\<close> frees the running task and
  then calls \<^verbatim>\<open>schedule\<close>, which reads the signal masks of the freed task.
\<close>

theorem clone_thread_exit_use_after_free:
  assumes "sched_inv f u s" and "\<not> os_sched_enabled s"
  shows "clone_thread_exit e s = Inl UseAfterFree"
proof -
  obtain c t where "current s = Some c" "tsks s c = Some t" using sched_invD(5) [OF assms(1)] by auto
  with assms(2) show ?thesis
    by (simp add: clone_thread_exit_def task_exit_def schedule_def sig_is_pending_def task_def)
qed

theorem clone_thread_exit_use_after_free_witness:
  "\<exists>s. sched_inv (boot_queues 2) (Some 0) s \<and> clone_thread_exit demo_e s = Inl UseAfterFree"
proof -
  obtain s where s: "sched_inv (boot_queues 2) (Some 0) s" "quiet s" using demo_state by blast
  then have "\<not> os_sched_enabled s" by (simp add: quiet_def)
  with clone_thread_exit_use_after_free [OF s(1)] s(1) show ?thesis by blast
qed

text \<open>
  cancelling a runnable task unlinks and frees it but leaves \<^verbatim>\<open>rq.nrp\<close> as it was, so
  the counter stays one too high for the queues that are left, and the invariant is lost.
\<close>

theorem kill_task_keeps_count:
  assumes inv: "sched_inv f u s" and find: "find_task i s = Inr (Some p)" and t: "tsks s p = Some t" "onrq t \<noteq> 0"
  shows "\<exists>s'. kill_task i s = Inr (0, s') \<and> tsks s' p = None \<and> nrp s' = nrp s \<and>
     lists_rep queue_heads (links s') (unqueue p f) \<and>
     int (queue_total rq_heads (unqueue p f)) + (if u = None then 0 else 1) = nrp s' - 1"
proof -
  have "tid_in i s (concat (map f search_order)) = Some p" using find find_task_eq [OF inv] by simp
  then obtain a where a: "a \<in> queue_heads" "TskHd p \<in> set (f a)"
    using tid_in_Some [of i s "concat (map f search_order)" p] by (auto simp: set_search_order)
  then have rq: "a \<in> rq_heads" "idle s \<noteq> Some p"
    using sched_inv_located [OF inv a] t by (metis option.inject)+
  have "kill_task i s = Inr (0, s\<lparr>links := list_del (TskHd p) (links s), tsks := (tsks s)(p := None),
      task_count := task_count s - 1\<rparr>)"
    using find t by (simp add: kill_task_def task_exit_def)
  moreover have "int (queue_total rq_heads (unqueue p f)) = int (queue_total rq_heads f) - 1"
    using queue_total_unqueue [OF sched_invD(1) [OF inv] rq_heads_subset, of p] rq(1) a(2) by auto
  ultimately show ?thesis
    using unqueue_rep(1) [OF inv t(1) rq(2)] sched_invD(8) [OF inv] by simp
qed

theorem kill_task_keeps_count_witness:
  "\<exists>s s'. sched_inv (boot_queues 2) (Some 0) s \<and> kill_task 3 s = Inr (0, s') \<and> tsks s' 2 = None \<and> nrp s' = nrp s"
proof -
  obtain s where s: "sched_inv (boot_queues 2) (Some 0) s"
    "tsks s = boot_tasks (demo_env 1) (demo_env 2) 0 0 1 2" using demo_state by blast
  have t: "tsks s 2 = Some (the (tsks s 2))" "onrq (the (tsks s 2)) \<noteq> 0" "tid (the (tsks s 2)) = 3"
    using s(2) by (simp_all add: boot_tasks_def zero_tsk_def)
  have "concat (map (boot_queues 2) search_order) = [TskHd 2]"
    by (simp add: search_order_def boot_queues_def MAX_FDS_def MAX_PRIO_def upt_rec)
  then have "find_task 3 s = Inr (Some 2)"
    using find_task_eq [OF s(1), of 3] s(2)
    by (simp add: tid_in_def has_tid_def boot_tasks_def zero_tsk_def)
  with kill_task_keeps_count [OF s(1) _ t(1,2)] s(1) show ?thesis by blast
qed

end
