(* ===== verification/Kernel.thy ===== *)
theory Kernel
  imports ThreadProps
begin

unbundle bit_operations_syntax

text \<open>
  The scheduler as a state machine: the calls of the running task, the interrupts and the
  wakeups by the timers as steps, each of which keeps the invariant.  Cancelling tasks, which makes
  the counters drift, and passes that deliver signals are added in theory KernelRun.
\<close>

section \<open>Signals\<close>

text \<open>The signal numbers whose handlers the loop of \<^verbatim>\<open>process_signal\<close> invokes.\<close>

fun invoke_all :: "env \<Rightarrow> int list \<Rightarrow> sched \<Rightarrow> sched res" where
  "invoke_all e [] s = Inr s"
| "invoke_all e (i # is) s = andThen (invoke_signal_hanlder e i s) (invoke_all e is)"

text \<open>The number of turns: the position of the highest bit that is set, counted from 1.\<close>

function width :: "u32 \<Rightarrow> nat" where
  "width r = (if r = 0 then 0 else Suc (width (drop_bit 1 r)))"
  by pat_completeness auto
termination
proof (relation "measure unat")
  fix r :: u32 assume "r \<noteq> 0"
  then have "unat r > 0" by (simp add: unat_gt_0)
  moreover have "unat (drop_bit 1 r) = unat r div 2"
    using unat_drop_bit_eq [of 1 r] by (simp add: drop_bit_Suc)
  ultimately show "(drop_bit 1 r, r) \<in> measure unat" by simp
qed simp

declare width.simps [simp del]

lemma width_0 [simp]: "width 0 = 0"
  by (simp add: width.simps)

lemma signal_loop_eq:
  "signal_loop e r i s = invoke_all e (map (\<lambda>k. i + int k) [0..<width r]) s"
proof (induction e r i s rule: signal_loop.induct)
  case (1 e r i s)
  show ?case
  proof (cases "r = 0")
    case True
    then show ?thesis by (simp add: signal_loop.simps)
  next
    case False
    let ?r = "drop_bit 1 r"
    have "map (\<lambda>k. i + int k) [0..<width r] = i # map (\<lambda>k. i + 1 + int k) [0..<width ?r]"
      using False by (simp add: width.simps [of r] upt_rec [of 0] map_Suc_upt [symmetric] del: upt_Suc)
    moreover have "signal_loop e r i s = andThen (invoke_signal_hanlder e i s)
        (invoke_all e (map (\<lambda>k. i + 1 + int k) [0..<width ?r]))"
      using False 1 by (cases "?r = 0"; cases "invoke_signal_hanlder e i s") (simp_all add: signal_loop.simps [of e r])
    ultimately show ?thesis by simp
  qed
qed

text \<open>
  C28: delivery of pending signals.  \<^verbatim>\<open>process_signal\<close> invokes the handlers of all signals
  from 1 up to the highest one that is registered and pending, not only of those that are
  pending (its test is \<^verbatim>\<open>res && 0x1\<close>), in increasing order, and then clears the pending mask.
\<close>

theorem process_signal_invokes_all_below:
  assumes "tsks s p = Some t"
  shows "process_signal e (Some p) s =
     andThen (invoke_all e (map (\<lambda>k. 1 + int k) [0..<width (signals t AND sig_pending t)]) s)
       (\<lambda>s1. modify (Some p) (\<lambda>t. t\<lparr>sig_pending := 0\<rparr>) s1)"
  using assms by (simp add: process_signal_def signal_loop_eq)

definition demo_sig :: sched where
  "demo_sig = (static_sched \<lparr>lnext = (\<lambda>a. a), lprev = (\<lambda>a. a)\<rparr>)
     \<lparr>tsks := [0 \<mapsto> zero_tsk\<lparr>signals := 5, sig_pending := 4, sig_hd := [(3, Some 30), (1, Some 10)]\<rparr>],
       current := Some 0\<rparr>"

text \<open>A handler that leaves a trace: it adds the signal to \<^verbatim>\<open>im_count\<close> read in base 10.\<close>

definition trace_e :: env where
  "trace_e = \<lparr>t_stats = 0, t_switch = 0, bt_syms = [],
     sig_hdl = (\<lambda>h i s. Inr (s\<lparr>im_count := 10 * im_count s + i\<rparr>))\<rparr>"

theorem process_signal_invokes_all_below_witness:
  "width (5 AND 4) = 3 \<and>
   (\<exists>s'. process_signal trace_e (Some 0) demo_sig = Inr s' \<and> im_count s' = 13)"
proof -
  have w: "width (5 AND 4) = 3" by (simp add: width.simps drop_bit_Suc numeral_3_eq_3)
  have t: "tsks demo_sig 0 = Some (zero_tsk\<lparr>signals := 5, sig_pending := 4, sig_hd := [(3, Some 30), (1, Some 10)]\<rparr>)"
    by (simp add: demo_sig_def)
  have "\<exists>s'. process_signal trace_e (Some 0) demo_sig = Inr s' \<and> im_count s' = 13"
    unfolding process_signal_invokes_all_below [OF t]
    by (simp add: w [simplified] demo_sig_def static_sched_def trace_e_def invoke_signal_hanlder_def upt_rec zero_tsk_def)
  with w show ?thesis by blast
qed

text \<open>
  the tick asks for a pass exactly when the running task has used up its slice: the flag is
  raised iff the time since the switch, in milliseconds and modulo \<open>2 ^ 32\<close>, is at least the
  slice, both read without sign.
\<close>

theorem account_task_time_stats_slice:
  assumes "current s = Some c" and "tsks s c = Some t"
  shows "account_task_time_stats now s =
     Inr (s\<lparr>tsks := (tsks s)(c \<mapsto> t\<lparr>etick := now, currt := (now - stick t) * 10\<rparr>),
            sched_need := (sched_need s \<or> tslice t \<le> (now - stick t) * 10)\<rparr>)"
  using assms by (auto simp: account_task_time_stats_def)

theorem account_task_time_stats_slice_witness:
  "\<exists>s'. account_task_time_stats 3 (demo_sig\<lparr>tsks := [0 \<mapsto> zero_tsk\<lparr>tslice := 60\<rparr>]\<rparr>) = Inr s' \<and> \<not> sched_need s'"
  by (subst account_task_time_stats_slice [of _ 0 "zero_tsk\<lparr>tslice := 60\<rparr>"])
    (simp_all add: demo_sig_def static_sched_def zero_tsk_def)

section \<open>The calls as steps\<close>

inductive kstep :: "sched \<Rightarrow> sched \<Rightarrow> bool" where
  pass: "\<not> os_sched_enabled s \<Longrightarrow> nrp s < 2 ^ 31 \<Longrightarrow> sig_is_pending s = Inr False \<Longrightarrow>
     schedule e s = Inr s' \<Longrightarrow> kstep s s'"
| spawn: "a_new ae = Some p \<Longrightarrow> a_stk ae \<Longrightarrow> tsks s p = None \<Longrightarrow> 0 \<le> attr_prio at \<Longrightarrow>
     attr_prio at < int MAX_PRIO \<Longrightarrow> 8 \<le> attr_stksze at \<Longrightarrow> task_count s + 1 \<noteq> 0 \<Longrightarrow>
     spawn_task ae name at True s = Inr (q, s') \<Longrightarrow> kstep s s'"
| block: "current s \<noteq> idle s \<Longrightarrow> add_current_task_wait_Q now s = Inr s' \<Longrightarrow> kstep s s'"
| park: "current s = Some c \<Longrightarrow> current s \<noteq> idle s \<Longrightarrow> tsks s c = Some t \<Longrightarrow> onrq t \<noteq> 0 \<Longrightarrow> 0 \<le> fd \<Longrightarrow>
     fd < int MAX_FDS \<Longrightarrow> park_on_fd fd s = Inr s' \<Longrightarrow> kstep s s'"
| wake: "idle s \<noteq> Some p \<Longrightarrow> wakeup_task now p s = Inr s' \<Longrightarrow> kstep s s'"
| io: "0 \<le> fd \<Longrightarrow> fd < int MAX_FDS \<Longrightarrow> io_interrupt now SIGIO (Fd fd) s = Inr s' \<Longrightarrow> kstep s s'"
| post: "post_event now i ev s = Inr (r, s') \<Longrightarrow> kstep s s'"
| signal: "tm_signal mem sg h s = Inr (r, s') \<Longrightarrow> kstep s s'"
| raised: "generic_sig_handler sg s = Inr s' \<Longrightarrow> kstep s s'"
| tick: "account_task_time_stats now s = Inr s' \<Longrightarrow> kstep s s'"
| slice: "set_current_task_time_slice ts s = Inr s' \<Longrightarrow> kstep s s'"

definition kinv :: "sched \<Rightarrow> bool" where
  "kinv s \<longleftrightarrow> (\<exists>f u. sched_inv f u s)"

lemma kinvI: "sched_inv f u s \<Longrightarrow> kinv s"
  by (auto simp: kinv_def)

text \<open>Assigning fields the invariant does not read to a task.\<close>

lemma modify_keeps:
  assumes "sched_inv f u s" and "modify q g s = Inr s'" and "\<And>t. onrq (g t) = onrq t \<and> prio (g t) = prio t"
  shows "sched_inv f u s'"
  using assms(2,3) by (auto simp: modify_Inr intro!: sched_inv_tsk_update [OF assms(1)])

lemma wakeup_task_keeps:
  assumes inv: "sched_inv f u s" and "wakeup_task now p s = Inr s'" and "idle s \<noteq> Some p"
  shows "kinv s'"
proof -
  obtain t where t: "tsks s p = Some t"
    using assms(2) by (auto simp: wakeup_task_def fault_simps)
  show ?thesis
  proof (cases "onrq t = 0")
    case True
    then show ?thesis
      using wakeup_task_sleeping [OF inv t assms(3), of now] assms(2) kinvI by (metis sum.inject(2))
  next
    case False
    then show ?thesis
      using wakeup_task_runnable [OF inv t, of now] assms(2) kinvI by (metis sum.inject(2))
  qed
qed

lemma sched_inv_masks [simp]:
  "sched_inv f u (signals_block sg s) = sched_inv f u s"
  "sched_inv f u (signals_unblock sg s) = sched_inv f u s"
  by (simp_all add: signals_block_def signals_unblock_def set_mask_def)

lemma post_event_keeps:
  assumes "sched_inv f u s" and "post_event now i ev s = Inr (r, s')"
  shows "kinv s'"
proof (cases "tid_in i s (concat (map f search_order))")
  case None
  with assms kinvI show ?thesis by (auto simp: post_event_def find_task_eq [OF assms(1)])
next
  case (Some p)
  then obtain a where a: "a \<in> queue_heads" "TskHd p \<in> set (f a)"
    using tid_in_Some [of i s "concat (map f search_order)" p] by (auto simp: set_search_order)
  then have idle: "idle s \<noteq> Some p" using sched_inv_located [OF assms(1) a] by metis
  obtain s1 where s1: "modify (Some p) (\<lambda>t. t\<lparr>event := event t OR ev\<rparr>) s = Inr s1" "wakeup_task now p s1 = Inr s'"
    using assms(2) Some by (auto simp: post_event_def find_task_eq [OF assms(1)] andThen_eq_Inr)
  have "sched_inv f u s1" by (rule modify_keeps [OF assms(1) s1(1)]) simp
  moreover have "idle s1 = idle s" using s1(1) by (auto simp: modify_Inr)
  ultimately show ?thesis using wakeup_task_keeps [OF _ s1(2)] idle by simp
qed

lemma tm_signal_keeps:
  assumes "sched_inv f u s" and "tm_signal mem sg h s = Inr (r, s')"
  shows "kinv s'"
proof -
  have 0: "sched_inv f u (tm_malloc sizeof_signal_s s)" using assms(1) by (simp add: tm_malloc_def tm_calloc_def)
  show ?thesis
  proof (cases mem)
    case False
    with assms(2) 0 kinvI show ?thesis by (auto simp: tm_signal_def andThen_eq_Inr)
  next
    case True
    then obtain b s1 s2 s3 where 1: "modify (current (tm_malloc sizeof_signal_s s))
        (\<lambda>t. t\<lparr>sig_hd := (sg, h) # sig_hd t\<rparr>) (tm_malloc sizeof_signal_s s) = Inr s1"
      and 2: "set_current_signal_mask b s1 = Inr s2" and 3: "set_idle_signal_mask b s2 = Inr s3"
      and s': "s' = s3 \<or> s' = s3\<lparr>reg_signals := reg_signals s3 OR b\<rparr>"
      using assms(2) by (auto simp: tm_signal_def andThen_eq_Inr Let_def split: if_splits)
    have "sched_inv f u s1" by (rule modify_keeps [OF 0 1]) simp
    then have "sched_inv f u s2" using 2 unfolding set_current_signal_mask_def by (rule modify_keeps) simp
    then have "sched_inv f u s3" using 3 unfolding set_idle_signal_mask_def by (rule modify_keeps) simp
    with s' kinvI show ?thesis by auto
  qed
qed

lemma pass_keeps_inv:
  assumes "sched_inv f u s" and "\<not> os_sched_enabled s" and "nrp s < 2 ^ 31" and "sig_is_pending s = Inr False"
    and "schedule e s = Inr s'"
  shows "kinv s'"
proof (cases "pick f s")
  case None
  with no_pick_faults [OF assms(1,2,4), of e] assms(5) show ?thesis by simp
next
  case (Some n)
  with schedule_inv [OF assms(1-4), of n e] assms(5) kinvI show ?thesis by (metis sum.inject(2))
qed

lemma block_keeps:
  assumes inv: "sched_inv f u s" and "current s \<noteq> idle s" and step: "add_current_task_wait_Q now s = Inr s'"
  shows "kinv s'"
proof -
  obtain c t where c: "current s = Some c" "tsks s c = Some t" using sched_invD(5) [OF inv] by auto
  show ?thesis
  proof (cases "os_sched_enabled s \<or> onrq t = 0")
    case True
    with step c inv kinvI show ?thesis
      by (auto simp: add_current_task_wait_Q_def add_task_to_wait_Q_eq split: if_splits)
  next
    case False
    with add_task_to_wait_Q_inv [OF inv c(2), of now] assms(2) step c(1) kinvI show ?thesis
      by (metis add_current_task_wait_Q_def sum.inject(2))
  qed
qed

lemma io_keeps:
  assumes inv: "sched_inv f u s" and fd: "0 \<le> fd" "fd < int MAX_FDS"
    and step: "io_interrupt now SIGIO (Fd fd) s = Inr s'"
  shows "kinv s'"
proof -
  let ?s = "signals_block SIGIO s"
  have inv1: "sched_inv f u ?s" using inv by simp
  have "\<exists>p. x = TskHd p" if "x \<in> set (f (IoHd (nat fd)))" for x
    using sched_invD(2) [OF inv _ that] fd by (auto simp: queued_ok_def nat_less_iff)
  then obtain ps where "f (IoHd (nat fd)) = map TskHd ps"
    using ex_map_conv [of "f (IoHd (nat fd))" TskHd] by blast
  then obtain s1 g where "wake_io_task now fd ?s = Inr s1" "sched_inv g u s1"
    using wake_io_task_ok [OF inv1 fd, of ps now] by blast
  with step show ?thesis by (auto simp: io_interrupt_def Let_def intro!: kinvI [of g u])
qed

text \<open>Every call keeps the invariant.\<close>

lemma kstep_keeps_inv:
  assumes "kstep s s'" and "kinv s"
  shows "kinv s'"
proof -
  obtain f u where inv: "sched_inv f u s" using assms(2) by (auto simp: kinv_def)
  from assms(1) show ?thesis
  proof cases
    case (pass e)
    with pass_keeps_inv [OF inv] show ?thesis by blast
  next
    case (spawn ae p at name q)
    with spawn_task_inv [OF inv spawn(1-7), of name] kinvI show ?thesis by auto
  next
    case (block now)
    with block_keeps [OF inv] show ?thesis by blast
  next
    case (park c t fd)
    with park_on_fd_inv [OF inv park(1,3) _ park(4-6)] kinvI show ?thesis by (metis sum.inject(2))
  next
    case (wake p now)
    with wakeup_task_keeps [OF inv] show ?thesis by blast
  next
    case (io fd now)
    with io_keeps [OF inv] show ?thesis by blast
  next
    case (post now i ev r)
    with post_event_keeps [OF inv] show ?thesis by blast
  next
    case (signal mem sg h r)
    with tm_signal_keeps [OF inv] show ?thesis by blast
  next
    case (raised sg)
    then obtain b s1 where s1: "set_current_signal_pend_mask b (signals_block sg s) = Inr s1" "s' = signals_unblock sg s1"
      by (auto simp: generic_sig_handler_def andThen_eq_Inr)
    have "sched_inv f u (signals_block sg s)" using inv by simp
    from this s1(1) [unfolded set_current_signal_pend_mask_def]
    have "sched_inv f u s1" by (rule modify_keeps) simp
    with s1(2) kinvI show ?thesis by auto
  next
    case (tick now)
    then obtain s1 where s1: "modify (current s) (\<lambda>t. t\<lparr>etick := now, currt := (now - stick t) * 10\<rparr>) s = Inr s1"
      "s' = s1 \<or> s' = s1\<lparr>sched_need := True\<rparr>"
      by (auto simp: account_task_time_stats_def andThen_eq_Inr split: if_splits)
    have "sched_inv f u s1" by (rule modify_keeps [OF inv s1(1)]) simp
    with s1(2) kinvI show ?thesis by auto
  next
    case (slice ts)
    then have "sched_inv f u s'"
      unfolding set_current_task_time_slice_def by (rule modify_keeps [OF inv]) simp
    with kinvI show ?thesis by blast
  qed
qed

end
