(* ===== verification/Lock.thy ===== *)
theory Lock
  imports Kernel
begin

text \<open>
  The locks of \<^verbatim>\<open>core/lock.c\<close> (the build with the user-level scheduler): \<^verbatim>\<open>lock_t\<close>
  with its queue of waiting tasks, and \<^verbatim>\<open>sync_lock_t\<close>, whose operations return before they
  do anything.
\<close>

section \<open>Data and operations\<close>

text \<open>The queue \<^verbatim>\<open>wq\<close> of lock \<open>l\<close> is the node \<^term>\<open>LockHd l\<close> of the list heap.\<close>

record lock_t =
  lk_owner :: "nat option"
  lk_lock :: int
  lk_prio :: int

definition create_lock :: "nat \<Rightarrow> sched \<Rightarrow> lock_t \<times> sched" where
  "create_lock l s = (\<lparr>lk_owner = None, lk_lock = 0, lk_prio = 0\<rparr>, s\<lparr>links := INIT_LIST_HEAD (LockHd l) (links s)\<rparr>)"

text \<open>The body of the waiting loop of \<^verbatim>\<open>lock\<close> up to \<^verbatim>\<open>schedule\<close>.\<close>

definition lock_park :: "nat \<Rightarrow> sched \<Rightarrow> sched res" where
  "lock_park l s =
     andThen (task (current s) s) (\<lambda>_.
       let n = TskHd (the (current s)) in
       andThen (set_task_not_rq (s\<lparr>links := list_add_tail n (LockHd l) (list_del n (links s))\<rparr>)) (\<lambda>s.
         Inr (signals_block SIGALRM s)))"

text \<open>One turn of \<^verbatim>\<open>lock\<close>: the task waits and is switched away, or it takes the lock.\<close>

definition lock :: "env \<Rightarrow> nat \<Rightarrow> lock_t \<Rightarrow> sched \<Rightarrow> (int call \<times> lock_t \<times> sched) res" where
  "lock e l lk s =
     (if lk_lock lk \<noteq> 0
      then andThen (lock_park l s) (\<lambda>s. andThen (schedule e s) (\<lambda>s. Inr (Blocked, lk, s)))
      else let lk = lk\<lparr>lk_lock := lk_lock lk + 1\<rparr> in
           if lk_lock lk > 1 then Inl RaisedSegv
           else Inr (Returned 0, lk\<lparr>lk_owner := current s\<rparr>, s))"

definition unlock :: "u32 \<Rightarrow> nat \<Rightarrow> lock_t \<Rightarrow> sched \<Rightarrow> (int \<times> lock_t \<times> sched) res" where
  "unlock now l lk s =
     (if lk_owner lk \<noteq> current s then Inr (- 1, lk, s)
      else let lk = lk\<lparr>lk_lock := lk_lock lk - 1\<rparr> in
           if lk_lock lk < 0 then Inl RaisedSegv
           else let lk = lk\<lparr>lk_owner := None\<rparr> in
             if \<not> list_empty (LockHd l) (links s)
             then (case list_entry (list_first_entry (LockHd l) (links s)) of
                     None \<Rightarrow> Inl NullDeref
                   | Some p \<Rightarrow> andThen (wakeup_task now p s) (\<lambda>s. Inr (0, lk, s)))
             else Inr (0, lk, s))"

record sync_lock_t =
  sl_lock :: int
  sl_prio :: int

definition create_sync_lock :: "nat \<Rightarrow> sched \<Rightarrow> sync_lock_t \<times> sched" where
  "create_sync_lock l s = (\<lparr>sl_lock = 0, sl_prio = 0\<rparr>, s\<lparr>links := INIT_LIST_HEAD (LockHd l) (links s)\<rparr>)"

text \<open>Both begin with \<^verbatim>\<open>return 0\<close>; the code behind it is never run.\<close>

definition sync_lock :: "sync_lock_t \<Rightarrow> sched \<Rightarrow> int \<times> sync_lock_t \<times> sched" where
  "sync_lock sl s = (0, sl, s)"

definition sync_unlock :: "sync_lock_t \<Rightarrow> sched \<Rightarrow> int \<times> sync_lock_t \<times> sched" where
  "sync_unlock sl s = (0, sl, s)"

section \<open>The state of a lock\<close>

definition lock_ok :: "lock_t \<Rightarrow> bool" where
  "lock_ok lk \<longleftrightarrow> (lk_lock lk = 0 \<and> lk_owner lk = None) \<or> (lk_lock lk = 1 \<and> lk_owner lk \<noteq> None)"

text \<open>
  What happens to one lock while tasks run: the running task calls \<^verbatim>\<open>lock\<close> or
  \<^verbatim>\<open>unlock\<close>, or anything else happens that does not touch the lock.
\<close>

datatype lock_ev = Grant nat | Release nat | Refused nat | Wait nat | Else

inductive lstep :: "nat \<Rightarrow> lock_t \<times> sched \<Rightarrow> lock_ev \<Rightarrow> lock_t \<times> sched \<Rightarrow> bool" for l where
  grant: "current s = Some c \<Longrightarrow> lock e l lk s = Inr (Returned r, lk', s') \<Longrightarrow> lstep l (lk, s) (Grant c) (lk', s')"
| wait: "current s = Some c \<Longrightarrow> lock e l lk s = Inr (Blocked, lk', s') \<Longrightarrow> lstep l (lk, s) (Wait c) (lk', s')"
| release: "current s = Some c \<Longrightarrow> unlock now l lk s = Inr (0, lk', s') \<Longrightarrow> lstep l (lk, s) (Release c) (lk', s')"
| refused: "current s = Some c \<Longrightarrow> unlock now l lk s = Inr (- 1, lk', s') \<Longrightarrow> lstep l (lk, s) (Refused c) (lk', s')"
| other: "lstep l (lk, s) Else (lk, s')"

inductive lrun :: "nat \<Rightarrow> lock_t \<times> sched \<Rightarrow> lock_ev list \<Rightarrow> lock_t \<times> sched \<Rightarrow> bool" for l where
  stop: "lrun l x [] x"
| more: "lstep l x ev y \<Longrightarrow> lrun l y evs z \<Longrightarrow> lrun l x (ev # evs) z"

inductive_cases lstepE: "lstep l x ev y"

text \<open>A run respects mutual exclusion: grants and releases alternate, a release is the holder's.\<close>

fun exclusive :: "nat option \<Rightarrow> lock_ev list \<Rightarrow> bool" where
  "exclusive h [] = True"
| "exclusive h (Grant c # evs) = (h = None \<and> exclusive (Some c) evs)"
| "exclusive h (Release c # evs) = (h = Some c \<and> exclusive None evs)"
| "exclusive h (Refused c # evs) = (h \<noteq> Some c \<and> exclusive h evs)"
| "exclusive h (Wait c # evs) = (h \<noteq> None \<and> exclusive h evs)"
| "exclusive h (Else # evs) = exclusive h evs"

fun holder_after :: "nat option \<Rightarrow> lock_ev \<Rightarrow> nat option" where
  "holder_after h (Grant c) = Some c"
| "holder_after h (Release c) = None"
| "holder_after h _ = h"

lemma exclusive_Cons: "exclusive h (ev # evs) \<longleftrightarrow> exclusive h [ev] \<and> exclusive (holder_after h ev) evs"
  by (cases ev) auto

lemma lock_cases:
  assumes "lock_ok lk" and "lock e l lk s = Inr (r, lk', s')"
  shows "(r = Returned 0 \<and> lk_owner lk = None \<and> lk_owner lk' = current s \<and> lk_lock lk' = 1 \<and> s' = s) \<or>
         (r = Blocked \<and> lk_owner lk \<noteq> None \<and> lk' = lk)"
  using assms by (auto simp: lock_def lock_ok_def Let_def andThen_eq_Inr split: if_splits)

lemma unlock_cases:
  assumes "lock_ok lk" and "unlock now l lk s = Inr (r, lk', s')"
  shows "(r = - 1 \<and> lk_owner lk \<noteq> current s \<and> lk' = lk \<and> s' = s) \<or>
         (r = 0 \<and> lk_owner lk = current s \<and> lk_owner lk' = None \<and> lk_lock lk' = lk_lock lk - 1)"
  using assms
  by (auto simp: unlock_def lock_ok_def Let_def andThen_eq_Inr split: if_splits option.splits)

lemma lstep_keeps:
  assumes "lstep l x ev y" and "lock_ok (fst x)"
  shows "lock_ok (fst y) \<and> exclusive (lk_owner (fst x)) [ev] \<and> lk_owner (fst y) = holder_after (lk_owner (fst x)) ev"
  using assms
proof cases
  case (grant s c e lk r lk' s')
  with lock_cases [of lk e l s "Returned r" lk' s'] assms(2) show ?thesis by (auto simp: lock_ok_def)
next
  case (wait s c e lk lk' s')
  with lock_cases [of lk e l s Blocked lk' s'] assms(2) show ?thesis by (auto simp: lock_ok_def)
next
  case (release s c now lk lk' s')
  with unlock_cases [of lk now l s 0 lk' s'] assms(2) show ?thesis by (auto simp: lock_ok_def)
next
  case (refused s c now lk lk' s')
  with unlock_cases [of lk now l s "- 1" lk' s'] assms(2) show ?thesis by (auto simp: lock_ok_def)
qed auto

lemma lrun_exclusive:
  "lrun l x evs y \<Longrightarrow> lock_ok (fst x) \<Longrightarrow> exclusive (lk_owner (fst x)) evs \<and> lock_ok (fst y)"
proof (induction rule: lrun.induct)
  case (more x ev y evs z)
  note k = lstep_keeps [OF more.hyps(1) more.prems]
  with more.IH show ?case by (subst exclusive_Cons) simp
qed simp

section \<open>Properties\<close>

text \<open>
  C16: mutual exclusion.  From \<^verbatim>\<open>create_lock\<close> on, whatever the tasks do in whatever order, the
  lock is granted only while nobody holds it, only its holder can release it, a task waits only
  while it is held, and it never counts beyond 1.
\<close>

theorem lock_mutual_exclusion:
  assumes "lrun l (create_lock l s) evs (lk, s')"
  shows "exclusive None evs \<and> lock_ok lk"
  using lrun_exclusive [OF assms] by (simp add: create_lock_def lock_ok_def)

theorem lock_mutual_exclusion_witness:
  "lrun 7 (create_lock 7 demo_sig) [Grant 0, Release 0] (create_lock 7 demo_sig) \<and>
   exclusive None [Grant 0, Release 0]"
proof -
  let ?s = "snd (create_lock 7 demo_sig)" and ?k = "fst (create_lock 7 demo_sig)"
  have c: "current ?s = Some 0" by (simp add: create_lock_def demo_sig_def)
  let ?k1 = "?k\<lparr>lk_lock := 1, lk_owner := Some 0\<rparr>"
  have 1: "lock demo_e 7 ?k ?s = Inr (Returned 0, ?k1, ?s)"
    using c by (simp add: lock_def create_lock_def)
  have 2: "unlock 0 7 ?k1 ?s = Inr (0, ?k, ?s)"
    using c by (simp add: unlock_def create_lock_def list_empty_def INIT_LIST_HEAD_def link_simps)
  have run: "lrun 7 (create_lock 7 demo_sig) [Grant 0, Release 0] (create_lock 7 demo_sig)"
    using lrun.more [OF lstep.grant [OF c 1] lrun.more [OF lstep.release [OF c 2] lrun.stop]] by simp
  with lock_mutual_exclusion [of 7 demo_sig "[Grant 0, Release 0]" ?k ?s] show ?thesis by simp
qed

text \<open>
  neither call raises SIGSEGV on a lock that is free or held once, and an uncontended
  \<^verbatim>\<open>lock\<close> followed by \<^verbatim>\<open>unlock\<close> of the same task leaves lock and scheduler as they were.
\<close>

theorem lock_unlock_roundtrip:
  assumes "lk_lock lk = 0" and "lk_owner lk = None" and "list_empty (LockHd l) (links s)"
  shows "\<exists>lk1. lock e l lk s = Inr (Returned 0, lk1, s) \<and> lk_owner lk1 = current s \<and>
     unlock now l lk1 s = Inr (0, lk, s)"
  using assms by (simp add: lock_def unlock_def)

theorem lock_unlock_roundtrip_witness:
  "\<exists>lk1. lock demo_e 7 (fst (create_lock 7 demo_sig)) (snd (create_lock 7 demo_sig)) =
      Inr (Returned 0, lk1, snd (create_lock 7 demo_sig)) \<and> lk_owner lk1 = Some 0"
  using lock_unlock_roundtrip [of "fst (create_lock 7 demo_sig)" 7 "snd (create_lock 7 demo_sig)" demo_e 0]
  by (auto simp: create_lock_def list_empty_def INIT_LIST_HEAD_def link_simps demo_sig_def)

text \<open>
  a task that has to wait for a lock leaves its run queue, and \<^verbatim>\<open>onrq\<close> is cleared, but
  \<^verbatim>\<open>rq.nrp\<close> is not decremented (while \<^verbatim>\<open>wakeup_task\<close> will increment it): the counter is
  one above the number of runnable tasks from then on.
\<close>

theorem lock_contended_drifts:
  assumes inv: "sched_inv f u s" and c: "current s = Some c" "tsks s c = Some t" "idle s \<noteq> Some c" "onrq t \<noteq> 0"
  shows "\<exists>s'. lock_park l s = Inr s' \<and> nrp s' = nrp s \<and> nwp s' = nwp s + 1 \<and>
     (\<exists>t'. tsks s' c = Some t' \<and> onrq t' = 0) \<and>
     int (queue_total rq_heads (unqueue c f)) + (if u = None \<or> u = Some c then 0 else 1) = nrp s' - 1"
proof -
  let ?s = "s\<lparr>links := list_add_tail (TskHd c) (LockHd l) (list_del (TskHd c) (links s))\<rparr>"
  have "int (queue_total rq_heads (unqueue c f)) + (if u = None \<or> u = Some c then 0 else 1) = nrp s - 1"
  proof (cases "u = Some c")
    case True
    then have "\<not> (\<exists>a\<in>rq_heads. TskHd c \<in> set (f a))"
      using sched_invD(3) [OF inv] rq_heads_subset by (auto simp: offq_ok_def)
    with True show ?thesis
      using queue_total_unqueue [OF sched_invD(1) [OF inv] rq_heads_subset, of c] sched_invD(8) [OF inv] by simp
  next
    case False
    with sched_inv_where(1) [OF inv c(2-4)] have "\<exists>a\<in>rq_heads. TskHd c \<in> set (f a)" by simp
    with False show ?thesis
      using queue_total_unqueue [OF sched_invD(1) [OF inv] rq_heads_subset, of c] sched_invD(8) [OF inv] by auto
  qed
  with c show ?thesis
    by (simp add: lock_park_def set_task_not_rq_def signals_block_def set_mask_def SIGALRM_def Let_def)
qed

theorem lock_contended_drifts_witness:
  "\<exists>s s'. sched_inv (boot_queues 2) (Some 0) s \<and> lock_park 7 s = Inr s' \<and> nrp s' = nrp s \<and> nwp s' = nwp s + 1"
proof -
  obtain s where s: "sched_inv (boot_queues 2) (Some 0) s" "current s = Some 0" "idle s = Some 1"
    "tsks s = boot_tasks (demo_env 1) (demo_env 2) 0 0 1 2" using demo_state by blast
  have p: "tsks s 0 = Some (the (tsks s 0))" "idle s \<noteq> Some 0" "onrq (the (tsks s 0)) \<noteq> 0"
    using s(3,4) by (simp_all add: boot_tasks_def zero_tsk_def)
  from lock_contended_drifts [OF s(1,2) p, of 7] s(1) show ?thesis by blast
qed

end
