(* ===== verification/Semaphore.thy ===== *)
theory Semaphore
  imports ThreadLib
begin

text \<open>
  The locks of the build without \<^verbatim>\<open>SFS_WANTED\<close> (the second half of \<^verbatim>\<open>core/lock.c\<close>): semaphores of
  the operating system, used by threads that run at the same time.  \<^verbatim>\<open>sem_wait\<close> and \<^verbatim>\<open>sem_post\<close>
  are atomic; the result of \<^verbatim>\<open>sem_init\<close> and whether a wait was interrupted are arguments.
\<close>

section \<open>The operations\<close>

record sem_lock = sem_value :: nat

text \<open>\<open>slock\<close> is the address, \<^term>\<open>None\<close> is NULL.\<close>

definition create_sync_lock_sem :: "int \<Rightarrow> sem_lock option \<Rightarrow> int \<times> sem_lock option" where
  "create_sync_lock_sem r slock =
     (case slock of None \<Rightarrow> (- 1, None)
      | Some l \<Rightarrow> if r < 0 then (- 1, Some l) else (0, Some (l\<lparr>sem_value := 1\<rparr>)))"

text \<open>One call of \<^verbatim>\<open>sem_wait\<close> in the loop of \<^verbatim>\<open>sync_lock\<close>.\<close>

definition sync_lock_sem :: "bool \<Rightarrow> sem_lock \<Rightarrow> int io_turn \<times> sem_lock" where
  "sync_lock_sem interrupted l =
     (if interrupted then (Again, l)
      else if sem_value l = 0 then (Waited, l)
      else (Done 0, l\<lparr>sem_value := sem_value l - 1\<rparr>))"

text \<open>\<open>SEM_VALUE_MAX\<close> is the largest value; \<^verbatim>\<open>sem_post\<close> fails there.\<close>

definition SEM_VALUE_MAX :: nat where "SEM_VALUE_MAX = 2147483647"

definition sync_unlock_sem :: "sem_lock \<Rightarrow> int \<times> sem_lock" where
  "sync_unlock_sem l =
     (if sem_value l = SEM_VALUE_MAX then (- 1, l) else (0, l\<lparr>sem_value := sem_value l + 1\<rparr>))"

section \<open>Threads that use a lock\<close>

text \<open>
  The state is the lock and the threads that are between their \<^verbatim>\<open>sync_lock\<close> and their
  \<^verbatim>\<open>sync_unlock\<close>; threads call \<^verbatim>\<open>sync_unlock\<close> there only.
\<close>

inductive sem_step :: "sem_lock \<times> nat set \<Rightarrow> sem_lock \<times> nat set \<Rightarrow> bool" where
  enter: "t \<notin> H \<Longrightarrow> sync_lock_sem b l = (Done r, l') \<Longrightarrow> sem_step (l, H) (l', insert t H)"
| retry: "t \<notin> H \<Longrightarrow> sync_lock_sem b l = (Again, l') \<Longrightarrow> sem_step (l, H) (l', H)"
| wait: "t \<notin> H \<Longrightarrow> sync_lock_sem b l = (Waited, l') \<Longrightarrow> sem_step (l, H) (l', H)"
| leave: "t \<in> H \<Longrightarrow> sync_unlock_sem l = (r, l') \<Longrightarrow> sem_step (l, H) (l', H - {t})"

inductive_cases sem_stepE: "sem_step (l, H) (l', H')"

definition sem_inv :: "sem_lock \<times> nat set \<Rightarrow> bool" where
  "sem_inv s \<longleftrightarrow> finite (snd s) \<and> card (snd s) + sem_value (fst s) = 1"

lemma sem_step_inv:
  assumes "sem_step s s'" and "sem_inv s"
  shows "sem_inv s'"
  using assms
proof (induction rule: sem_step.induct)
  case (enter t H b l r l')
  then have v: "sem_value l \<noteq> 0" "l' = l\<lparr>sem_value := sem_value l - 1\<rparr>" by (auto simp: sync_lock_sem_def split: if_splits)
  have s: "finite H" "card H + sem_value l = 1" using enter.prems by (simp_all add: sem_inv_def)
  have "card H = 0" "sem_value l = 1" using s(2) v(1) by linarith+
  then show ?case using v(2) s(1) card_0_eq [of H] by (simp add: sem_inv_def)
next
  case (leave t H l r l')
  then have "0 < card H" by (auto simp: sem_inv_def card_gt_0_iff)
  with leave have "card H = 1" "sem_value l = 0" by (auto simp: sem_inv_def)
  with leave show ?case by (auto simp: sem_inv_def sync_unlock_sem_def SEM_VALUE_MAX_def)
qed (auto simp: sem_inv_def sync_lock_sem_def split: if_splits)

lemma sem_reach_inv: "sem_step\<^sup>*\<^sup>* s s' \<Longrightarrow> sem_inv s \<Longrightarrow> sem_inv s'"
  by (induction rule: rtranclp_induct) (auto intro: sem_step_inv)

text \<open>
  C17: a created lock of the build on threads of the operating system is held by one thread at most,
  in every interleaving of lock and unlock calls and whatever waits are interrupted; and a thread
  gets it at once exactly when nobody holds it.
\<close>

theorem sem_lock_mutual_exclusion:
  assumes "create_sync_lock_sem 0 (Some l0) = (0, Some l)" and "sem_step\<^sup>*\<^sup>* (l, {}) (l', H)"
  shows "card H \<le> 1 \<and> (fst (sync_lock_sem False l') = Done 0 \<longleftrightarrow> H = {})"
proof -
  have "sem_inv (l, {})" using assms(1) by (auto simp: create_sync_lock_sem_def sem_inv_def)
  from sem_reach_inv [OF assms(2) this] have "finite H" "card H + sem_value l' = 1" by (simp_all add: sem_inv_def)
  moreover from this have "H = {} \<longleftrightarrow> sem_value l' \<noteq> 0" using card_0_eq [of H] by linarith
  ultimately show ?thesis by (simp add: sync_lock_sem_def)
qed

theorem sem_lock_mutual_exclusion_witness:
  "\<exists>l' H. sem_step\<^sup>*\<^sup>* (\<lparr>sem_value = 1\<rparr>, {}) (l', H) \<and> H = {5} \<and> card H \<le> 1 \<and> fst (sync_lock_sem False l') \<noteq> Done 0"
proof -
  have c: "create_sync_lock_sem 0 (Some \<lparr>sem_value = 0\<rparr>) = (0, Some \<lparr>sem_value = 1\<rparr>)" by (simp add: create_sync_lock_sem_def)
  have "sync_lock_sem False \<lparr>sem_value = 1\<rparr> = (Done 0, \<lparr>sem_value = 0\<rparr>)" by (simp add: sync_lock_sem_def)
  then have "sem_step\<^sup>*\<^sup>* (\<lparr>sem_value = 1\<rparr>, {}) (\<lparr>sem_value = 0\<rparr>, {5})" using sem_step.enter [of 5 "{}"] by blast
  from sem_lock_mutual_exclusion [OF c this] this show ?thesis by (auto intro!: exI [of _ "\<lparr>sem_value = 0\<rparr>"])
qed

end
