(* ===== verification/Mempool.thy ===== *)
theory Mempool
  imports Klist
begin

text \<open>
  The memory pools of \<^verbatim>\<open>mem/mem_main.c\<close>: fixed-size blocks cut from one area, an array with
  the address of every free block, and the list \<^verbatim>\<open>hd_mcb\<close> of the pools' control blocks.
  What \<^verbatim>\<open>calloc\<close> returns is an argument (address 0 or \<^term>\<open>None\<close> is NULL).
\<close>

section \<open>Data\<close>

text \<open>An entry 0 of \<open>addr_blks\<close> is a block in use.  The name passed at creation is not stored.\<close>

record mem_info =
  saddr :: u32
  eaddr :: u32
  addr_blks :: "u32 list option"
  memid :: int
  nblks :: int
  useblks :: int
  fblks :: int
  msize :: u32

datatype maddr = McbHd | Mcb nat

record mempool =
  mcbs :: "nat \<Rightarrow> mem_info option"
  mlinks :: "maddr lheap"
  mcb_i :: int                    \<comment> \<open>the static counter of \<^verbatim>\<open>get_next_free_mcb\<close>\<close>

record mem_env =
  me_mcb :: "nat option"          \<comment> \<open>the address of the new control block\<close>
  me_area :: u32                  \<comment> \<open>the address of the blocks\<close>
  me_blks :: bool                 \<comment> \<open>whether the array of addresses could be allocated\<close>

section \<open>Operations\<close>

definition mem_init :: "mempool \<Rightarrow> mempool" where
  "mem_init m = m\<lparr>mlinks := INIT_LIST_HEAD McbHd (mlinks m)\<rparr>"

definition MACHINE_ALIGNEMENT :: u32 where "MACHINE_ALIGNEMENT = 4"

text \<open>
  The size of the area: \<^verbatim>\<open>align += MACHINE_ALIGNEMENT - align\<close> makes \<^verbatim>\<open>align\<close> the
  machine alignment itself.
\<close>

definition pool_bytes :: "u32 \<Rightarrow> int \<Rightarrow> u32" where
  "pool_bytes sz n_blks =
     (let bytes = sz * word_of_int n_blks;
          align = bytes mod MACHINE_ALIGNEMENT
      in if align \<noteq> 0 then let align = align + (MACHINE_ALIGNEMENT - align) in bytes + align
         else bytes)"

definition COMPUTE_ADDR_BLOCK :: "u32 \<Rightarrow> nat \<Rightarrow> u32 \<Rightarrow> u32" where
  "COMPUTE_ADDR_BLOCK sa cnt sz = sa + of_nat cnt * sz"

definition build_free_mem_blk_list :: "bool \<Rightarrow> mem_info \<Rightarrow> mem_info" where
  "build_free_mem_blk_list ok p =
     (if \<not> ok then p
      else p\<lparr>addr_blks := Some (map (\<lambda>i. COMPUTE_ADDR_BLOCK (saddr p) i (msize p)) [0..<nat (nblks p)])\<rparr>)"

definition get_next_free_mcb :: "mem_env \<Rightarrow> mempool \<Rightarrow> (nat \<times> int) option \<times> mempool" where
  "get_next_free_mcb me m =
     (case me_mcb me of None \<Rightarrow> (None, m)
      | Some a \<Rightarrow> (Some (a, mcb_i m + 1), m\<lparr>mcb_i := mcb_i m + 1\<rparr>))"

definition add_to_mcb :: "nat \<Rightarrow> mempool \<Rightarrow> mempool" where
  "add_to_mcb a m = m\<lparr>mlinks := list_add_tail (Mcb a) McbHd (mlinks m)\<rparr>"

definition mem_pool_create :: "mem_env \<Rightarrow> u32 \<Rightarrow> int \<Rightarrow> mempool \<Rightarrow> int \<times> mempool" where
  "mem_pool_create me sz n_blks m =
     (let bytes = pool_bytes sz n_blks in
      case get_next_free_mcb me m of
        (None, m) \<Rightarrow> (- 1, m)
      | (Some (a, i), m) \<Rightarrow>
          let mcb = \<lparr>saddr = 0, eaddr = 0, addr_blks = None, memid = i, nblks = n_blks, useblks = 0,
                     fblks = n_blks, msize = sz\<rparr>;
              m = m\<lparr>mlinks := INIT_LIST_HEAD (Mcb a) (mlinks m)\<rparr>
          in if me_area me = 0 then (- 1, m\<lparr>mcbs := (mcbs m)(a \<mapsto> mcb)\<rparr>)
             else let mcb = mcb\<lparr>saddr := me_area me, eaddr := me_area me + bytes\<rparr>;
                      mcb = build_free_mem_blk_list (me_blks me) mcb
                  in (i, add_to_mcb a (m\<lparr>mcbs := (mcbs m)(a \<mapsto> mcb)\<rparr>)))"

text \<open>The walk over the control blocks.\<close>

fun search_mcb :: "int \<Rightarrow> mempool \<Rightarrow> maddr list \<Rightarrow> nat option res" where
  "search_mcb i m [] = Inr None"
| "search_mcb i m (McbHd # as) = Inl NullDeref"
| "search_mcb i m (Mcb a # as) =
     (case mcbs m a of None \<Rightarrow> Inl UseAfterFree
      | Some p \<Rightarrow> if memid p = i then Inr (Some a) else search_mcb i m as)"

definition get_mem_info :: "int \<Rightarrow> mempool \<Rightarrow> nat option res" where
  "get_mem_info i m =
     (case list_for_each McbHd (mlinks m) of None \<Rightarrow> Inl NoReturn | Some as \<Rightarrow> search_mcb i m as)"

text \<open>The control block is freed but stays on the list.\<close>

definition mem_pool_delete :: "int \<Rightarrow> mempool \<Rightarrow> (int \<times> mempool) res" where
  "mem_pool_delete i m =
     andThen (get_mem_info i m) (\<lambda>r. case r of
       None \<Rightarrow> Inr (- 1, m)
     | Some a \<Rightarrow> Inr (0, m\<lparr>mcbs := (mcbs m)(a := None)\<rparr>))"

function scan_blks :: "u32 list option \<Rightarrow> nat \<Rightarrow> nat \<Rightarrow> nat option res" where
  "scan_blks bl n i =
     (if i < n
      then (case bl of None \<Rightarrow> Inl NullDeref
            | Some xs \<Rightarrow> if length xs \<le> i then Inl OutOfBounds
                         else if xs ! i = 0 then scan_blks bl n (i + 1) else Inr (Some i))
      else Inr None)"
  by pat_completeness auto
termination by (relation "measure (\<lambda>(bl, n, i). n - i)") auto

declare scan_blks.simps [simp del]

text \<open>\<^verbatim>\<open>alloc_block\<close> and \<^verbatim>\<open>free_blk\<close> on the control block they have found.\<close>

definition alloc_from :: "mem_info \<Rightarrow> (u32 \<times> mem_info) res" where
  "alloc_from p =
     (if fblks p = 0 then Inr (0, p)
      else andThen (scan_blks (addr_blks p) (nat (nblks p)) 0) (\<lambda>r. case r of
             None \<Rightarrow> Inr (0, p)
           | Some i \<Rightarrow> let xs = the (addr_blks p) in
               Inr (xs ! i, p\<lparr>addr_blks := Some (xs[i := 0]), fblks := fblks p - 1, useblks := useblks p + 1\<rparr>)))"

definition in_range :: "u32 \<Rightarrow> u32 \<Rightarrow> u32 \<Rightarrow> u32 \<Rightarrow> bool" where
  "in_range st en sz v \<longleftrightarrow> v \<ge> st \<and> v + sz \<le> en"

definition free_to :: "u32 \<Rightarrow> mem_info \<Rightarrow> (int \<times> mem_info) res" where
  "free_to addr p =
     (if \<not> in_range (saddr p) (eaddr p) (msize p) addr then Inr (- 1, p)
      else let offset = addr - saddr p in
        if msize p = 0 then Inl DivByZero
        else if offset mod msize p \<noteq> 0 then Inr (- 1, p)
        else let idx = unat (offset div msize p) in
          case addr_blks p of None \<Rightarrow> Inl NullDeref
          | Some xs \<Rightarrow>
              if length xs \<le> idx then Inl OutOfBounds
              else if xs ! idx = 0
              then Inr (0, p\<lparr>addr_blks := Some (xs[idx := addr]), fblks := fblks p + 1, useblks := useblks p - 1\<rparr>)
              else Inr (- 1, p))"

definition alloc_block :: "int \<Rightarrow> mempool \<Rightarrow> (u32 \<times> mempool) res" where
  "alloc_block i m =
     andThen (get_mem_info i m) (\<lambda>q.
     andThen (deref (mcbs m) q) (\<lambda>p.
     andThen (alloc_from p) (\<lambda>(a, p').
       Inr (a, m\<lparr>mcbs := (mcbs m)(the q \<mapsto> p')\<rparr>))))"

definition free_blk :: "int \<Rightarrow> u32 \<Rightarrow> mempool \<Rightarrow> (int \<times> mempool) res" where
  "free_blk i addr m =
     andThen (get_mem_info i m) (\<lambda>q.
       if q = None then Inr (- 1, m)
       else andThen (deref (mcbs m) q) (\<lambda>p.
            andThen (free_to addr p) (\<lambda>(r, p').
              Inr (r, m\<lparr>mcbs := (mcbs m)(the q \<mapsto> p')\<rparr>))))"

section \<open>The invariant of a pool\<close>

text \<open>The blocks fit below the end of the address space, and the array lists the free ones.\<close>

definition area_ok :: "mem_info \<Rightarrow> bool" where
  "area_ok p \<longleftrightarrow> 0 < nblks p \<and> msize p \<noteq> 0 \<and> saddr p \<noteq> 0 \<and>
     unat (saddr p) + nat (nblks p) * unat (msize p) + 4 < 2 ^ 32 \<and>
     eaddr p = saddr p + pool_bytes (msize p) (nblks p)"

definition blk :: "mem_info \<Rightarrow> nat \<Rightarrow> u32" where
  "blk p i = COMPUTE_ADDR_BLOCK (saddr p) i (msize p)"

definition pool_ok :: "mem_info \<Rightarrow> u32 list \<Rightarrow> bool" where
  "pool_ok p xs \<longleftrightarrow> area_ok p \<and> addr_blks p = Some xs \<and> length xs = nat (nblks p) \<and>
     (\<forall>i<length xs. xs ! i = 0 \<or> xs ! i = blk p i) \<and>
     fblks p = int (length (filter (\<lambda>a. a \<noteq> 0) xs)) \<and> useblks p = nblks p - fblks p"

lemma area_okD:
  assumes "area_ok p"
  shows "0 < unat (msize p)" and "0 < unat (saddr p)"
    and "unat (saddr p) + nat (nblks p) * unat (msize p) + 4 < 2 ^ 32"
  using assms by (auto simp: area_ok_def unat_eq_zero intro!: Nat.gr0I)

lemma blk_unat:
  assumes "area_ok p" and "i < nat (nblks p)"
  shows "unat (blk p i) = unat (saddr p) + i * unat (msize p)"
proof -
  have le: "i * unat (msize p) \<le> nat (nblks p) * unat (msize p)" using assms(2) by simp
  then have lt: "unat (saddr p) + i * unat (msize p) < 2 ^ 32" using area_okD(3) [OF assms(1)] by linarith
  have "i \<le> i * unat (msize p)" using area_okD(1) [OF assms(1)] by simp
  then have "i < 2 ^ 32" using lt by linarith
  then have i: "unat (of_nat i :: u32) = i" by (simp add: unat_of_nat take_bit_nat_eq_self)
  have "unat (of_nat i :: u32) * unat (msize p) < 2 ^ LENGTH(32)" using lt i by simp
  then have prod: "unat (of_nat i * msize p) = i * unat (msize p)"
    using i by (simp add: unat_mult_lem [THEN iffD1])
  then have "unat (saddr p) + unat (of_nat i * msize p) < 2 ^ LENGTH(32)" using lt by simp
  then have "unat (saddr p + of_nat i * msize p) = unat (saddr p) + unat (of_nat i * msize p)"
    by (rule unat_add_lem [THEN iffD1])
  then show ?thesis by (simp add: blk_def COMPUTE_ADDR_BLOCK_def prod)
qed

lemma blk_inj:
  assumes "area_ok p" and "i < nat (nblks p)" and "j < nat (nblks p)" and "blk p i = blk p j"
  shows "i = j"
proof -
  have "unat (saddr p) + i * unat (msize p) = unat (saddr p) + j * unat (msize p)"
    using blk_unat [OF assms(1,2)] blk_unat [OF assms(1,3)] assms(4) by metis
  then show ?thesis using area_okD(1) [OF assms(1)] by auto
qed

lemma blk_nonzero: "area_ok p \<Longrightarrow> i < nat (nblks p) \<Longrightarrow> blk p i \<noteq> 0"
proof
  assume a: "area_ok p" "i < nat (nblks p)" "blk p i = 0"
  then have "unat (saddr p) = 0" using blk_unat [OF a(1,2)] by simp
  with area_okD(2) [OF a(1)] show False by simp
qed

text \<open>The end of the area leaves room for every block and at most 4 bytes more.\<close>

lemma pool_bytes_eq: "pool_bytes sz n = sz * word_of_int n + (if (sz * word_of_int n) mod 4 = 0 then 0 else 4)"
  by (simp add: pool_bytes_def MACHINE_ALIGNEMENT_def Let_def)

lemma blk_end:
  assumes "area_ok p"
  shows "unat (blk p (nat (nblks p))) = unat (saddr p) + nat (nblks p) * unat (msize p)"
    and "blk p (nat (nblks p)) = saddr p + msize p * word_of_int (nblks p)"
proof -
  let ?n = "nat (nblks p)" and ?z = "unat (msize p)"
  note lt = area_okD(3) [OF assms]
  have "?n \<le> ?n * ?z" using area_okD(1) [OF assms] by simp
  then have "?n < 2 ^ 32" using lt by linarith
  then have un: "unat (of_nat ?n :: u32) = ?n" by (simp only: unat_of_nat take_bit_nat_eq_self) simp
  have "unat (of_nat ?n :: u32) * unat (msize p) < 2 ^ LENGTH(32)" using lt un by simp
  then have prod: "unat (of_nat ?n * msize p) = ?n * ?z"
    using un by (simp add: unat_mult_lem [THEN iffD1])
  then have "unat (saddr p) + unat (of_nat ?n * msize p) < 2 ^ LENGTH(32)" using lt by simp
  then have "unat (saddr p + of_nat ?n * msize p) = unat (saddr p) + unat (of_nat ?n * msize p)"
    by (rule unat_add_lem [THEN iffD1])
  then show "unat (blk p ?n) = unat (saddr p) + ?n * ?z" by (simp add: blk_def COMPUTE_ADDR_BLOCK_def prod)
  have "nblks p = int ?n" using assms by (simp add: area_ok_def)
  then have "(word_of_int (nblks p) :: u32) = of_nat ?n" by (metis of_int_of_nat_eq)
  then show "blk p ?n = saddr p + msize p * word_of_int (nblks p)"
    by (simp add: blk_def COMPUTE_ADDR_BLOCK_def mult.commute)
qed

lemma eaddr_unpadded:
  assumes "area_ok p" and "(msize p * word_of_int (nblks p)) mod 4 = 0"
  shows "unat (eaddr p) = unat (saddr p) + nat (nblks p) * unat (msize p)"
proof -
  have "eaddr p = blk p (nat (nblks p))"
    using assms blk_end(2) [OF assms(1)] by (simp add: area_ok_def pool_bytes_eq)
  then show ?thesis using blk_end(1) [OF assms(1)] by simp
qed

lemma eaddr_padded:
  assumes "area_ok p" and "(msize p * word_of_int (nblks p)) mod 4 \<noteq> 0"
  shows "unat (eaddr p) = unat (saddr p) + nat (nblks p) * unat (msize p) + 4"
proof -
  have e: "eaddr p = blk p (nat (nblks p)) + 4"
    using assms blk_end(2) [OF assms(1)] by (simp add: area_ok_def pool_bytes_eq)
  have "unat (blk p (nat (nblks p))) + unat (4 :: u32) < 2 ^ LENGTH(32)"
    using blk_end(1) [OF assms(1)] area_okD(3) [OF assms(1)] by simp
  then have "unat (blk p (nat (nblks p)) + 4) = unat (blk p (nat (nblks p))) + unat (4 :: u32)"
    by (rule unat_add_lem [THEN iffD1])
  with e blk_end(1) [OF assms(1)] show ?thesis by simp
qed

lemma eaddr_unat:
  assumes "area_ok p"
  shows "unat (saddr p) + nat (nblks p) * unat (msize p) \<le> unat (eaddr p)"
  using eaddr_padded [OF assms] eaddr_unpadded [OF assms] by linarith

lemma blk_in_range:
  assumes "area_ok p" and "i < nat (nblks p)"
  shows "in_range (saddr p) (eaddr p) (msize p) (blk p i)"
    and "(blk p i - saddr p) mod msize p = 0"
    and "unat ((blk p i - saddr p) div msize p) = i"
proof -
  let ?z = "unat (msize p)"
  note u = blk_unat [OF assms] and lt = area_okD(3) [OF assms(1)]
  have "(i + 1) * ?z \<le> nat (nblks p) * ?z" using assms(2) by (intro mult_right_mono) auto
  then have step: "unat (saddr p) + i * ?z + ?z \<le> unat (saddr p) + nat (nblks p) * ?z" by simp
  have le: "saddr p \<le> blk p i" using u by (simp add: word_le_nat_alt)
  have "unat (blk p i) + ?z < 2 ^ LENGTH(32)" using u step lt by simp
  then have "unat (blk p i + msize p) = unat (saddr p) + i * ?z + ?z"
    using u by (simp add: unat_add_lem [THEN iffD1])
  then have "blk p i + msize p \<le> eaddr p"
    using step eaddr_unat [OF assms(1)] by (simp add: word_le_nat_alt)
  with le show "in_range (saddr p) (eaddr p) (msize p) (blk p i)" by (simp add: in_range_def)
  have off: "unat (blk p i - saddr p) = i * ?z" using u le by (simp add: unat_sub)
  show "(blk p i - saddr p) mod msize p = 0"
    by (rule word_unat_eq_iff [THEN iffD2]) (simp add: unat_mod_distrib off)
  show "unat ((blk p i - saddr p) div msize p) = i"
    using area_okD(1) [OF assms(1)] by (simp add: unat_div_distrib off)
qed


section \<open>Allocating and freeing\<close>

lemma scan_blks_eq:
  assumes "length xs = n"
  shows "scan_blks (Some xs) n i = Inr (find (\<lambda>k. xs ! k \<noteq> 0) [i..<n])"
  using assms
proof (induction "Some xs" n i rule: scan_blks.induct)
  case (1 n i)
  then show ?case
    by (cases "i < n") (auto simp: scan_blks.simps [of _ n i] upt_conv_Cons)
qed

lemma filter_upd:
  assumes "i < length xs"
  shows "int (length (filter P (xs[i := v]))) =
     int (length (filter P xs)) - (if P (xs ! i) then 1 else 0) + (if P v then 1 else 0)"
proof -
  have "xs = take i xs @ xs ! i # drop (Suc i) xs" using assms by (rule id_take_nth_drop)
  then have "length (filter P xs) = length (filter P (take i xs @ xs ! i # drop (Suc i) xs))" by simp
  then show ?thesis using assms by (simp add: upd_conv_take_nth_drop)
qed

definition pool_free :: "u32 list \<Rightarrow> nat set" where
  "pool_free xs = {i. i < length xs \<and> xs ! i \<noteq> 0}"

lemma pool_free_empty: "pool_ok p xs \<Longrightarrow> fblks p = 0 \<longleftrightarrow> pool_free xs = {}"
  by (auto simp: pool_ok_def pool_free_def filter_empty_conv in_set_conv_nth) (metis nth_mem)

lemma area_ok_frame [simp]: "area_ok (p\<lparr>addr_blks := b, fblks := x, useblks := y\<rparr>) = area_ok p"
  by (simp add: area_ok_def)

lemma blk_frame [simp]: "blk (p\<lparr>addr_blks := b, fblks := x, useblks := y\<rparr>) = blk p"
  by (simp add: blk_def fun_eq_iff)

text \<open>Allocation takes the first free block.\<close>

lemma pool_find:
  assumes "pool_free xs \<noteq> {}"
  obtains i where "find (\<lambda>k. xs ! k \<noteq> 0) [0..<length xs] = Some i" and "i \<in> pool_free xs"
proof -
  obtain k where "k < length xs" "xs ! k \<noteq> 0" using assms by (auto simp: pool_free_def)
  then have "find (\<lambda>k. xs ! k \<noteq> 0) [0..<length xs] \<noteq> None" by (auto simp: find_None_iff)
  then obtain i where "find (\<lambda>k. xs ! k \<noteq> 0) [0..<length xs] = Some i" by auto
  with that show thesis by (auto simp: find_Some_iff pool_free_def)
qed

lemma alloc_from_find:
  assumes ok: "pool_ok p xs" and i: "find (\<lambda>k. xs ! k \<noteq> 0) [0..<length xs] = Some i"
  shows "alloc_from p =
       Inr (blk p i, p\<lparr>addr_blks := Some (xs[i := 0]), fblks := fblks p - 1, useblks := useblks p + 1\<rparr>)"
    and "pool_ok (p\<lparr>addr_blks := Some (xs[i := 0]), fblks := fblks p - 1, useblks := useblks p + 1\<rparr>) (xs[i := 0])"
proof -
  have ix: "i < length xs" "xs ! i \<noteq> 0" using i by (auto simp: find_Some_iff)
  have len: "length xs = nat (nblks p)" and bl: "addr_blks p = Some xs" and b: "xs ! i = blk p i"
    using ok ix by (auto simp: pool_ok_def)
  have "fblks p \<noteq> 0" using pool_free_empty [OF ok] ix by (auto simp: pool_free_def)
  then show "alloc_from p =
       Inr (blk p i, p\<lparr>addr_blks := Some (xs[i := 0]), fblks := fblks p - 1, useblks := useblks p + 1\<rparr>)"
    using bl len i b scan_blks_eq [of xs "nat (nblks p)" 0] by (simp add: alloc_from_def Let_def)
  show "pool_ok (p\<lparr>addr_blks := Some (xs[i := 0]), fblks := fblks p - 1, useblks := useblks p + 1\<rparr>) (xs[i := 0])"
    using ok ix filter_upd [OF ix(1), of "\<lambda>a. a \<noteq> 0" 0] by (auto simp: pool_ok_def nth_list_update)
qed

lemma alloc_from_full: "pool_ok p xs \<Longrightarrow> pool_free xs = {} \<Longrightarrow> alloc_from p = Inr (0, p)"
  using pool_free_empty by (simp add: alloc_from_def)

lemma free_to_ok:
  assumes ok: "pool_ok p xs" and i: "i < length xs"
  shows "free_to (blk p i) p =
     (if i \<in> pool_free xs then Inr (- 1, p)
      else Inr (0, p\<lparr>addr_blks := Some (xs[i := blk p i]), fblks := fblks p + 1, useblks := useblks p - 1\<rparr>))"
    and "i \<notin> pool_free xs \<Longrightarrow>
      pool_ok (p\<lparr>addr_blks := Some (xs[i := blk p i]), fblks := fblks p + 1, useblks := useblks p - 1\<rparr>) (xs[i := blk p i])"
proof -
  have a: "area_ok p" and n: "i < nat (nblks p)" and bl: "addr_blks p = Some xs"
    using ok i by (auto simp: pool_ok_def)
  note r = blk_in_range [OF a n]
  have "msize p \<noteq> 0" using a by (simp add: area_ok_def)
  then show "free_to (blk p i) p =
     (if i \<in> pool_free xs then Inr (- 1, p)
      else Inr (0, p\<lparr>addr_blks := Some (xs[i := blk p i]), fblks := fblks p + 1, useblks := useblks p - 1\<rparr>))"
    using r i bl by (simp add: free_to_def pool_free_def Let_def)
  assume "i \<notin> pool_free xs"
  then show "pool_ok (p\<lparr>addr_blks := Some (xs[i := blk p i]), fblks := fblks p + 1, useblks := useblks p - 1\<rparr>) (xs[i := blk p i])"
    using ok i blk_nonzero [OF a n] filter_upd [OF i, of "\<lambda>a. a \<noteq> 0" "blk p i"]
    by (auto simp: pool_ok_def pool_free_def nth_list_update)
qed

section \<open>The interface of a pool\<close>

text \<open>
  What a client relies on: a state has a finite set of handles that are free; allocation hands
  out one of them, or none when there is none; freeing puts a handle that is out back.
\<close>

locale block_pool =
  fixes ok :: "'s \<Rightarrow> bool" and handles :: "'s \<Rightarrow> 'a set" and free_of :: "'s \<Rightarrow> 'a set"
    and alloc :: "'s \<Rightarrow> ('a option \<times> 's) option" and free :: "'a \<Rightarrow> 's \<Rightarrow> 's option"
  assumes fin: "ok s \<Longrightarrow> finite (handles s) \<and> free_of s \<subseteq> handles s"
    and alloc_none: "ok s \<Longrightarrow> free_of s = {} \<Longrightarrow> alloc s = Some (None, s)"
    and alloc_some: "ok s \<Longrightarrow> free_of s \<noteq> {} \<Longrightarrow>
       \<exists>a s'. alloc s = Some (Some a, s') \<and> a \<in> free_of s \<and> ok s' \<and> handles s' = handles s \<and>
         free_of s' = free_of s - {a}"
    and free_some: "ok s \<Longrightarrow> a \<in> handles s - free_of s \<Longrightarrow>
       \<exists>s'. free a s = Some s' \<and> ok s' \<and> handles s' = handles s \<and> free_of s' = insert a (free_of s)"
begin

lemma alloc_free_inverse:
  assumes "ok s" and "alloc s = Some (Some a, s1)"
  shows "\<exists>s2. free a s1 = Some s2 \<and> ok s2 \<and> free_of s2 = free_of s"
proof -
  have "free_of s \<noteq> {}" using assms alloc_none by auto
  then have s1: "a \<in> free_of s" "ok s1" "handles s1 = handles s" "free_of s1 = free_of s - {a}"
    using alloc_some [OF assms(1)] assms(2) by auto
  then have "a \<in> handles s1 - free_of s1" using fin [OF assms(1)] by auto
  from free_some [OF s1(2) this] s1 show ?thesis by (auto simp: insert_absorb)
qed

text \<open>Handles that are out are never handed out again before they are freed.\<close>

lemma alloc_fresh:
  assumes "ok s" and "alloc s = Some (Some a, s1)" and "out \<subseteq> handles s - free_of s"
  shows "a \<notin> out \<and> insert a out \<subseteq> handles s1 - free_of s1 \<and> ok s1"
proof -
  have "free_of s \<noteq> {}" using assms alloc_none by auto
  then have "a \<in> free_of s" "ok s1" "handles s1 = handles s" "free_of s1 = free_of s - {a}"
    using alloc_some [OF assms(1)] assms(2) by auto
  with assms(3) fin [OF assms(1)] show ?thesis by auto
qed

lemma capacity:
  assumes "ok s" and "out = handles s - free_of s"
  shows "(\<exists>a s1. alloc s = Some (Some a, s1)) \<longleftrightarrow> card out < card (handles s)"
proof -
  have "card out = card (handles s) - card (free_of s)"
    using assms(2) fin [OF assms(1)] by (metis card_Diff_subset finite_subset)
  moreover have "card (free_of s) \<le> card (handles s)" "card (free_of s) = 0 \<longleftrightarrow> free_of s = {}"
    using fin [OF assms(1)] by (auto simp: card_mono finite_subset)
  ultimately have "card out < card (handles s) \<longleftrightarrow> free_of s \<noteq> {}" by auto
  with alloc_none [OF assms(1)] alloc_some [OF assms(1)] show ?thesis by auto
qed

end

text \<open>The pool on one control block: handles are the addresses of its blocks.\<close>

definition ctl_ok :: "mem_info \<Rightarrow> bool" where
  "ctl_ok p \<longleftrightarrow> pool_ok p (the (addr_blks p))"

definition ctl_handles :: "mem_info \<Rightarrow> u32 set" where
  "ctl_handles p = blk p ` {..<nat (nblks p)}"

lemma card_handles: "ctl_ok p \<Longrightarrow> card (ctl_handles p) = nat (nblks p)"
  using blk_inj [of p] by (simp add: ctl_handles_def card_image inj_on_def ctl_ok_def pool_ok_def)

definition ctl_free :: "mem_info \<Rightarrow> u32 set" where
  "ctl_free p = blk p ` pool_free (the (addr_blks p))"

definition ctl_alloc :: "mem_info \<Rightarrow> (u32 option \<times> mem_info) option" where
  "ctl_alloc p = (case alloc_from p of Inl _ \<Rightarrow> None
     | Inr (a, p') \<Rightarrow> Some (if a = 0 then None else Some a, p'))"

definition ctl_release :: "u32 \<Rightarrow> mem_info \<Rightarrow> mem_info option" where
  "ctl_release a p = (case free_to a p of Inr (r, p') \<Rightarrow> if r = 0 then Some p' else None | Inl _ \<Rightarrow> None)"

interpretation ctl: block_pool ctl_ok ctl_handles ctl_free ctl_alloc ctl_release
proof (unfold_locales, goal_cases)
  case (1 p)
  then show ?case by (auto simp: ctl_ok_def ctl_handles_def ctl_free_def pool_free_def pool_ok_def)
next
  case (2 p)
  then have "alloc_from p = Inr (0, p)"
    by (intro alloc_from_full [of p "the (addr_blks p)"]) (auto simp: ctl_ok_def ctl_free_def)
  then show ?case by (simp add: ctl_alloc_def)
next
  case (3 p)
  let ?xs = "the (addr_blks p)"
  have ok: "pool_ok p ?xs" and ne: "pool_free ?xs \<noteq> {}" using 3 by (auto simp: ctl_ok_def ctl_free_def)
  obtain i where fi: "find (\<lambda>k. ?xs ! k \<noteq> 0) [0..<length ?xs] = Some i" and "i \<in> pool_free ?xs"
    using pool_find [OF ne] by blast
  let ?p = "p\<lparr>addr_blks := Some (?xs[i := 0]), fblks := fblks p - 1, useblks := useblks p + 1\<rparr>"
  note i = alloc_from_find(1) [OF ok fi] \<open>i \<in> pool_free ?xs\<close> alloc_from_find(2) [OF ok fi]
  have a: "area_ok p" and lt: "\<And>j. j \<in> pool_free ?xs \<Longrightarrow> j < nat (nblks p)"
    using ok by (auto simp: pool_ok_def pool_free_def)
  have nz: "blk p i \<noteq> 0" using blk_nonzero [OF a] lt i(2) by blast
  have "pool_free (?xs[i := 0]) = pool_free ?xs - {i}"
    using i(2) by (auto simp: pool_free_def nth_list_update split: if_splits)
  moreover have "blk p ` (pool_free ?xs - {i}) = blk p ` pool_free ?xs - {blk p i}"
    using blk_inj [OF a] lt i(2) by blast
  ultimately have "ctl_free ?p = ctl_free p - {blk p i}" by (simp add: ctl_free_def)
  moreover have "ctl_ok ?p" using i(3) by (simp add: ctl_ok_def)
  moreover have "ctl_handles ?p = ctl_handles p" by (simp add: ctl_handles_def)
  ultimately show ?case using i(1,2) nz by (auto simp: ctl_alloc_def ctl_free_def)
next
  case (4 p b)
  let ?xs = "the (addr_blks p)"
  have ok: "pool_ok p ?xs" using 4 by (simp add: ctl_ok_def)
  obtain i where i: "b = blk p i" "i < length ?xs" "i \<notin> pool_free ?xs"
    using 4(2) ok by (auto simp: ctl_handles_def ctl_free_def pool_ok_def)
  let ?p = "p\<lparr>addr_blks := Some (?xs[i := blk p i]), fblks := fblks p + 1, useblks := useblks p - 1\<rparr>"
  note f = free_to_ok [OF ok i(2)]
  have "blk p i \<noteq> 0" using ok i(2) by (intro blk_nonzero) (auto simp: pool_ok_def)
  then have "pool_free (?xs[i := blk p i]) = insert i (pool_free ?xs)"
    using i(2) by (auto simp: pool_free_def nth_list_update)
  then have "ctl_free ?p = insert b (ctl_free p)" using i(1) by (simp add: ctl_free_def)
  moreover have "ctl_ok ?p" using f(2) [OF i(3)] by (simp add: ctl_ok_def)
  ultimately show ?case using f(1) i by (auto simp: ctl_release_def ctl_handles_def)
qed


section \<open>The list of pools\<close>

definition mcbs_ok :: "mempool \<Rightarrow> nat list \<Rightarrow> bool" where
  "mcbs_ok m as \<longleftrightarrow> dlist (mlinks m) McbHd (map Mcb as) \<and> distinct as \<and>
     (\<forall>a\<in>set as. \<exists>p. mcbs m a = Some p \<and> memid p \<le> mcb_i m) \<and>
     (\<forall>a\<in>set as. \<forall>b\<in>set as. memid (the (mcbs m a)) = memid (the (mcbs m b)) \<longrightarrow> a = b)"

lemma search_mcb_eq:
  "(\<And>a. a \<in> set as \<Longrightarrow> mcbs m a \<noteq> None) \<Longrightarrow>
     search_mcb i m (map Mcb as) = Inr (find (\<lambda>a. memid (the (mcbs m a)) = i) as)"
proof (induction as)
  case (Cons a as)
  obtain p where "mcbs m a = Some p" using Cons.prems [of a] by auto
  with Cons show ?case by simp
qed simp

lemma get_mem_info_eq:
  assumes "mcbs_ok m as"
  shows "get_mem_info i m = Inr (find (\<lambda>a. memid (the (mcbs m a)) = i) as)"
proof -
  have "list_for_each McbHd (mlinks m) = Some (map Mcb as)"
    using assms by (intro list_for_each_dlist) (simp add: mcbs_ok_def)
  moreover have "\<And>a. a \<in> set as \<Longrightarrow> mcbs m a \<noteq> None" using assms by (auto simp: mcbs_ok_def)
  ultimately show ?thesis by (simp add: get_mem_info_def search_mcb_eq)
qed

lemma get_mem_info_found:
  assumes ok: "mcbs_ok m as" and a: "a \<in> set as" "mcbs m a = Some p"
  shows "get_mem_info (memid p) m = Inr (Some a)"
proof -
  have "\<exists>b. find (\<lambda>a. memid (the (mcbs m a)) = memid p) as = Some b \<and> b \<in> set as \<and> memid (the (mcbs m b)) = memid p"
    using a by (induction as) auto
  then obtain b where b: "find (\<lambda>a. memid (the (mcbs m a)) = memid p) as = Some b" "b \<in> set as"
    "memid (the (mcbs m b)) = memid (the (mcbs m a))" using a(2) by auto
  moreover have "b = a" using ok a(1) b(2,3) by (auto simp: mcbs_ok_def)
  ultimately show ?thesis using get_mem_info_eq [OF ok] by simp
qed

text \<open>Changing a control block but not its id.\<close>

lemma mcbs_ok_update:
  assumes "mcbs_ok m as" and "mcbs m a = Some p" and "memid p' = memid p"
  shows "mcbs_ok (m\<lparr>mcbs := (mcbs m)(a \<mapsto> p')\<rparr>) as"
proof -
  have "memid (the (((mcbs m)(a \<mapsto> p')) x)) = memid (the (mcbs m x))" for x using assms(2,3) by simp
  moreover have "\<exists>q. ((mcbs m)(a \<mapsto> p')) x = Some q \<and> memid q \<le> mcb_i m"
    if "\<exists>q. mcbs m x = Some q \<and> memid q \<le> mcb_i m" for x
    using that assms(2,3) by auto
  ultimately show ?thesis using assms(1) unfolding mcbs_ok_def by simp
qed

text \<open>Linking a new control block with the next id.\<close>

lemma mcbs_ok_add:
  assumes m: "mcbs_ok m as" and a: "a \<notin> set as" and "memid p = mcb_i m + 1"
    and m': "mcb_i m' = mcb_i m + 1" "mcbs m' = (mcbs m)(a \<mapsto> p)"
      "mlinks m' = list_add_tail (Mcb a) McbHd (INIT_LIST_HEAD (Mcb a) (mlinks m))"
  shows "mcbs_ok m' (as @ [a])"
proof -
  have old: "b \<noteq> a \<and> mcbs m' b = mcbs m b \<and> memid (the (mcbs m b)) \<le> mcb_i m" if "b \<in> set as" for b
    using that m a m'(2) by (auto simp: mcbs_ok_def)
  have "dlist (INIT_LIST_HEAD (Mcb a) (mlinks m)) McbHd (map Mcb as)"
  proof (rule dlist_other)
    show "dlist (mlinks m) McbHd (map Mcb as)" using m by (simp add: mcbs_ok_def)
  qed (use a in \<open>auto simp: INIT_LIST_HEAD_def link_simps\<close>)
  then have "dlist (list_add_tail (Mcb a) McbHd (INIT_LIST_HEAD (Mcb a) (mlinks m))) McbHd (map Mcb as @ [Mcb a])"
    by (rule list_add_tail_dlist) (use a in auto)
  then have "dlist (mlinks m') McbHd (map Mcb (as @ [a]))" by (simp only: m'(3) map_append list.map)
  moreover have "\<exists>q. mcbs m' b = Some q \<and> memid q \<le> mcb_i m'" if "b \<in> set (as @ [a])" for b
    using that m m' old assms(3) by (fastforce simp: mcbs_ok_def)
  moreover have "b = c" if "b \<in> set (as @ [a])" "c \<in> set (as @ [a])" "memid (the (mcbs m' b)) = memid (the (mcbs m' c))" for b c
  proof (cases "b = a \<or> c = a")
    case True
    with that old m'(2) assms(3) show ?thesis by fastforce
  next
    case False
    with that old m show ?thesis by (auto simp: mcbs_ok_def)
  qed
  ultimately show ?thesis using m a by (simp add: mcbs_ok_def)
qed

section \<open>Properties\<close>

lemma mem_pool_create_lemma:
  assumes "mcbs_ok m as" and "me_mcb me = Some a" and "a \<notin> set as" and "me_area me \<noteq> 0" and "me_blks me"
    and "0 < n" and "sz \<noteq> 0" and "unat (me_area me) + nat n * unat sz + 4 < 2 ^ 32"
  shows "\<exists>i m' p. mem_pool_create me sz n m = (i, m') \<and> mcbs_ok m' (as @ [a]) \<and> mcbs m' a = Some p \<and>
     memid p = i \<and> i = mcb_i m + 1 \<and> ctl_ok p \<and> ctl_free p = ctl_handles p \<and>
     card (ctl_handles p) = nat n \<and> fblks p = n \<and> useblks p = 0 \<and> nblks p = n \<and> msize p = sz"
proof -
  let ?xs = "map (\<lambda>i. COMPUTE_ADDR_BLOCK (me_area me) i sz) [0..<nat n]"
  let ?p = "\<lparr>saddr = me_area me, eaddr = me_area me + pool_bytes sz n, addr_blks = Some ?xs, memid = mcb_i m + 1,
     nblks = n, useblks = 0, fblks = n, msize = sz\<rparr>"
  let ?m = "m\<lparr>mcb_i := mcb_i m + 1, mlinks := list_add_tail (Mcb a) McbHd (INIT_LIST_HEAD (Mcb a) (mlinks m)),
     mcbs := (mcbs m)(a \<mapsto> ?p)\<rparr>"
  have eq: "mem_pool_create me sz n m = (mcb_i m + 1, ?m)"
    using assms(2,4,5) by (simp add: mem_pool_create_def get_next_free_mcb_def build_free_mem_blk_list_def
        add_to_mcb_def Let_def)
  have area: "area_ok ?p" using assms(4,6-8) by (simp add: area_ok_def)
  have nz: "?xs ! i = blk ?p i" "blk ?p i \<noteq> 0" if "i < nat n" for i
    using that blk_nonzero [OF area, of i] by (simp_all add: blk_def)
  have all: "filter (\<lambda>a. a \<noteq> 0) ?xs = ?xs"
    using nz by (intro filter_True) (auto simp: blk_def)
  have ok: "pool_ok ?p ?xs" unfolding pool_ok_def all using area assms(6) by (auto simp: blk_def)
  have free: "pool_free ?xs = {..<nat n}" using nz by (auto simp: pool_free_def)
  have "inj_on (blk ?p) {..<nat n}" using blk_inj [OF area] by (auto intro!: inj_onI)
  then have card: "card (ctl_handles ?p) = nat n" by (simp add: ctl_handles_def card_image)
  have "mcbs_ok ?m (as @ [a])" by (rule mcbs_ok_add [OF assms(1,3), of ?p]) simp_all
  with eq ok free card show ?thesis
    by (auto simp: ctl_ok_def ctl_free_def ctl_handles_def)
qed

text \<open>
  creating a pool whose blocks fit into the address space links a new control block at the
  end of the list under an id no pool has, with every block free and none in use.
\<close>

theorem mem_pool_create_ok:
  assumes "mcbs_ok m as" and "me_mcb me = Some a" and "a \<notin> set as" and "me_area me \<noteq> 0" and "me_blks me"
    and "0 < n" and "sz \<noteq> 0" and "unat (me_area me) + nat n * unat sz + 4 < 2 ^ 32"
  shows "\<exists>i m' p. mem_pool_create me sz n m = (i, m') \<and> mcbs_ok m' (as @ [a]) \<and> mcbs m' a = Some p \<and>
     memid p = i \<and> i = mcb_i m + 1 \<and> ctl_ok p \<and> ctl_free p = ctl_handles p \<and>
     card (ctl_handles p) = nat n \<and> fblks p = n \<and> useblks p = 0"
  using mem_pool_create_lemma [OF assms] by blast

text \<open>The two calls on a linked control block.\<close>

lemma alloc_block_eq:
  assumes "mcbs_ok m as" and "a \<in> set as" and "mcbs m a = Some p"
  shows "alloc_block (memid p) m = andThen (alloc_from p) (\<lambda>(b, p'). Inr (b, m\<lparr>mcbs := (mcbs m)(a \<mapsto> p')\<rparr>))"
  using get_mem_info_found [OF assms] assms(3) by (simp add: alloc_block_def)

lemma free_blk_eq:
  assumes "mcbs_ok m as" and "a \<in> set as" and "mcbs m a = Some p"
  shows "free_blk (memid p) b m = andThen (free_to b p) (\<lambda>(r, p'). Inr (r, m\<lparr>mcbs := (mcbs m)(a \<mapsto> p')\<rparr>))"
  using get_mem_info_found [OF assms] assms(3) by (simp add: free_blk_def)

lemma alloc_from_ctl:
  assumes ok: "ctl_ok p" and "fblks p \<noteq> 0"
  obtains b p' where "alloc_from p = Inr (b, p')" and "b \<noteq> 0" and "b \<in> ctl_free p" and "ctl_ok p'"
    and "ctl_handles p' = ctl_handles p" and "ctl_free p' = ctl_free p - {b}" and "memid p' = memid p"
    and "nblks p' = nblks p" and "msize p' = msize p"
proof -
  let ?xs = "the (addr_blks p)"
  have pk: "pool_ok p ?xs" using ok by (simp add: ctl_ok_def)
  then have ne: "pool_free ?xs \<noteq> {}" using pool_free_empty [OF pk] assms(2) by simp
  then have "ctl_free p \<noteq> {}" by (simp add: ctl_free_def)
  then obtain b p' where b: "ctl_alloc p = Some (Some b, p')" "b \<in> ctl_free p" "ctl_ok p'"
    "ctl_handles p' = ctl_handles p" "ctl_free p' = ctl_free p - {b}" using ctl.alloc_some [OF ok] by blast
  have eq: "alloc_from p = Inr (b, p')" "b \<noteq> 0"
    using b(1) by (auto simp: ctl_alloc_def split: sum.splits prod.splits if_splits)
  obtain i where "find (\<lambda>k. ?xs ! k \<noteq> 0) [0..<length ?xs] = Some i" using pool_find [OF ne] by blast
  then have "memid p' = memid p" "nblks p' = nblks p" "msize p' = msize p" using alloc_from_find(1) [OF pk] eq(1) by auto
  with eq b that show thesis by blast
qed

lemma free_to_ctl:
  assumes ok: "ctl_ok p" and "b \<in> ctl_handles p - ctl_free p"
  obtains p' where "free_to b p = Inr (0, p')" and "ctl_ok p'" and "ctl_handles p' = ctl_handles p"
    and "ctl_free p' = insert b (ctl_free p)" and "memid p' = memid p" and "nblks p' = nblks p"
    and "msize p' = msize p"
proof -
  obtain p' where p': "ctl_release b p = Some p'" "ctl_ok p'" "ctl_handles p' = ctl_handles p"
    "ctl_free p' = insert b (ctl_free p)" using ctl.free_some [OF assms] by blast
  then have "free_to b p = Inr (0, p')"
    by (auto simp: ctl_release_def split: sum.splits prod.splits if_splits)
  moreover from this have "memid p' = memid p" "nblks p' = nblks p" "msize p' = msize p"
    by (auto simp: free_to_def Let_def split: if_splits option.splits)
  ultimately show thesis using p' that by blast
qed

text \<open>
  C22: \<^verbatim>\<open>alloc_block\<close> on a pool with a free block hands out a block of the pool that nobody
  holds, whatever blocks are out; on a pool with none it returns NULL and changes nothing.
\<close>

theorem alloc_block_fresh:
  assumes m: "mcbs_ok m as" and a: "a \<in> set as" "mcbs m a = Some p" and ok: "ctl_ok p"
    and out: "out = ctl_handles p - ctl_free p"
  shows "(fblks p \<noteq> 0 \<longrightarrow> (\<exists>b p'. alloc_block (memid p) m = Inr (b, m\<lparr>mcbs := (mcbs m)(a \<mapsto> p')\<rparr>) \<and>
             b \<noteq> 0 \<and> b \<in> ctl_handles p \<and> b \<notin> out \<and> ctl_ok p' \<and> insert b out = ctl_handles p' - ctl_free p' \<and>
             mcbs_ok (m\<lparr>mcbs := (mcbs m)(a \<mapsto> p')\<rparr>) as)) \<and>
         (fblks p = 0 \<longrightarrow> alloc_block (memid p) m = Inr (0, m))"
proof (cases "fblks p = 0")
  case True
  then have "alloc_from p = Inr (0, p)" by (simp add: alloc_from_def)
  with True alloc_block_eq [OF m a] a(2) show ?thesis by (simp add: fun_upd_idem)
next
  case False
  then obtain b p' where b: "alloc_from p = Inr (b, p')" "b \<noteq> 0" "b \<in> ctl_free p" "ctl_ok p'"
    "ctl_handles p' = ctl_handles p" "ctl_free p' = ctl_free p - {b}" "memid p' = memid p"
    using alloc_from_ctl [OF ok] by metis
  then have "mcbs_ok (m\<lparr>mcbs := (mcbs m)(a \<mapsto> p')\<rparr>) as" using mcbs_ok_update [OF m a(2)] by simp
  moreover have "b \<in> ctl_handles p" using b(3) ctl.fin [OF ok] by blast
  ultimately show ?thesis using False alloc_block_eq [OF m a] b out by auto
qed

lemma alloc_from_free_to:
  assumes "ctl_ok p" and "fblks p \<noteq> 0"
  shows "\<exists>b p1. alloc_from p = Inr (b, p1) \<and> free_to b p1 = Inr (0, p) \<and> free_to b p = Inr (- 1, p)"
proof -
  let ?xs = "the (addr_blks p)"
  have pk: "pool_ok p ?xs" using assms(1) by (simp add: ctl_ok_def)
  then have ne: "pool_free ?xs \<noteq> {}" using pool_free_empty [OF pk] assms(2) by simp
  have bl: "addr_blks p = Some ?xs" using pk by (auto simp: pool_ok_def)
  obtain i where fi: "find (\<lambda>k. ?xs ! k \<noteq> 0) [0..<length ?xs] = Some i" and "i \<in> pool_free ?xs"
    using pool_find [OF ne] by blast
  then have i: "i < length ?xs" "?xs ! i \<noteq> 0" by (auto simp: pool_free_def)
  then have b: "?xs ! i = blk p i" using pk by (auto simp: pool_ok_def)
  note al = alloc_from_find(1) [OF pk fi]
  let ?p1 = "p\<lparr>addr_blks := Some (?xs[i := 0]), fblks := fblks p - 1, useblks := useblks p + 1\<rparr>"
  have "pool_ok ?p1 (?xs[i := 0])" by (rule alloc_from_find(2) [OF pk fi])
  note f = free_to_ok(1) [OF this, of i]
  have "?xs[i := 0, i := blk p i] = ?xs" using b by (metis list_update_id list_update_overwrite)
  then have "?p1\<lparr>addr_blks := Some (?xs[i := 0, i := blk p i]), fblks := fblks ?p1 + 1, useblks := useblks ?p1 - 1\<rparr> = p"
    using bl by (intro mem_info.equality) simp_all
  moreover have "i \<notin> pool_free (?xs[i := 0])" "i < length (?xs[i := 0])" using i(1) by (simp_all add: pool_free_def)
  ultimately have "free_to (blk p i) ?p1 = Inr (0, p)" using f by simp
  moreover have "free_to (blk p i) p = Inr (- 1, p)"
    using free_to_ok(1) [OF pk i(1)] i by (simp add: pool_free_def)
  ultimately show ?thesis using al by blast
qed

text \<open>
  C21: a block that \<^verbatim>\<open>alloc_block\<close> just took from a pool with a free block can be given back by
  \<^verbatim>\<open>free_blk\<close>, and the state of all pools is then exactly what it was, counters included; giving it
  back a second time is refused without effect.
\<close>

theorem alloc_free_roundtrip:
  assumes m: "mcbs_ok m as" and a: "a \<in> set as" "mcbs m a = Some p" and "ctl_ok p" and "fblks p \<noteq> 0"
  shows "\<exists>b m1. alloc_block (memid p) m = Inr (b, m1) \<and> b \<noteq> 0 \<and> free_blk (memid p) b m1 = Inr (0, m) \<and>
     free_blk (memid p) b m = Inr (- 1, m)"
proof -
  obtain b p1 where b: "alloc_from p = Inr (b, p1)" "free_to b p1 = Inr (0, p)" "free_to b p = Inr (- 1, p)"
    using alloc_from_free_to [OF assms(4,5)] by blast
  have b1: "b \<noteq> 0" "memid p1 = memid p" using alloc_from_ctl [OF assms(4,5)] b(1) by (metis Inr_inject prod.inject)+
  let ?m = "m\<lparr>mcbs := (mcbs m)(a \<mapsto> p1)\<rparr>"
  have "mcbs_ok ?m as" using mcbs_ok_update [OF m a(2)] b1(2) by simp
  from free_blk_eq [OF this a(1), of p1 b] b(2) b1(2) a(2) have "free_blk (memid p) b ?m = Inr (0, m)"
    by (simp add: fun_upd_idem)
  moreover have "free_blk (memid p) b m = Inr (- 1, m)" using free_blk_eq [OF m a] b(3) a(2) by (simp add: fun_upd_idem)
  ultimately show ?thesis using alloc_block_eq [OF m a] b(1) b1(1) by auto
qed

text \<open>
  the rounding of \<^verbatim>\<open>mem_pool_create\<close> does not align anything: whatever the request, the
  size of the area has the same remainder modulo the machine alignment as before.
\<close>

theorem pool_bytes_not_aligned:
  "pool_bytes sz n mod MACHINE_ALIGNEMENT = (sz * word_of_int n) mod MACHINE_ALIGNEMENT"
proof -
  have m: "unat ((x :: u32) mod 4) = unat x mod 4" for x by (simp add: unat_mod_distrib)
  have "unat (x + 4) mod 4 = unat x mod 4" for x :: u32
    by (simp add: unat_word_ariths take_bit_eq_mod mod_mod_cancel)
  then have "(x + 4) mod 4 = x mod 4" for x :: u32
    by (simp add: word_unat_eq_iff m)
  then show ?thesis by (simp add: pool_bytes_eq MACHINE_ALIGNEMENT_def)
qed

lemma free_to_foreign:
  assumes ok: "ctl_ok p" and "addr \<notin> ctl_handles p" and pad: "(msize p * word_of_int (nblks p)) mod 4 = 0"
    and wrap: "unat addr + unat (msize p) < 2 ^ 32"
  shows "free_to addr p = Inr (- 1, p)"
proof (cases "in_range (saddr p) (eaddr p) (msize p) addr \<and> (addr - saddr p) mod msize p = 0")
  case False
  have "msize p \<noteq> 0" using ok by (simp add: ctl_ok_def pool_ok_def area_ok_def)
  with False show ?thesis by (auto simp: free_to_def Let_def)
next
  case True
  let ?z = "unat (msize p)" and ?n = "nat (nblks p)"
  have a: "area_ok p" using ok by (simp add: ctl_ok_def pool_ok_def)
  define i where "i = unat (addr - saddr p) div ?z"
  have le: "saddr p \<le> addr" using True by (simp add: in_range_def)
  then have off: "unat (addr - saddr p) = unat addr - unat (saddr p)" by (rule unat_sub)
  have "unat (addr - saddr p) mod ?z = 0" using True by (metis unat_mod_distrib unsigned_0)
  then have iz: "i * ?z = unat addr - unat (saddr p)"
    using off unfolding i_def by (metis add.right_neutral div_mult_mod_eq)
  then have addr: "unat addr = unat (saddr p) + i * ?z" using le by (simp add: word_le_nat_alt)
  have "unat (addr + msize p) = unat addr + ?z" using wrap by (simp add: unat_add_lem [THEN iffD1])
  then have "unat addr + ?z \<le> unat (eaddr p)" using True by (simp add: in_range_def word_le_nat_alt)
  moreover have "unat (eaddr p) = unat (saddr p) + ?n * ?z" using eaddr_unpadded [OF a pad] .
  ultimately have "(i + 1) * ?z \<le> ?n * ?z" using addr by simp
  then have n: "i < ?n" using area_okD(1) [OF a] by (metis Suc_eq_plus1 Suc_le_eq mult_le_cancel2)
  then have "blk p i = addr" using blk_unat [OF a n] addr by (simp add: word_unat_eq_iff)
  with n assms(2) show ?thesis by (auto simp: ctl_handles_def)
qed

text \<open>
  C27: \<^verbatim>\<open>free_blk\<close> takes back only blocks of the pool: when the area of the pool has no padding
  (the blocks together are a multiple of four bytes) and the end of the block does not wrap around the
  address space, any address that is not a block of the pool is refused and nothing changes.
\<close>

theorem free_rejects_foreign:
  assumes "mcbs_ok m as" and "a \<in> set as" and "mcbs m a = Some p" and "ctl_ok p" and "addr \<notin> ctl_handles p"
    and "(msize p * word_of_int (nblks p)) mod 4 = 0" and "unat addr + unat (msize p) < 2 ^ 32"
  shows "free_blk (memid p) addr m = Inr (- 1, m)"
  using free_blk_eq [OF assms(1-3)] free_to_foreign [OF assms(4-7)] assms(3) by (simp add: fun_upd_idem)

text \<open>
  the padding is within the range \<^verbatim>\<open>free_blk\<close> accepts.  When the size of the area had
  to be "aligned" and a block is at most 4 bytes long, the address right behind the last block
  makes \<^verbatim>\<open>free_blk\<close> read \<^verbatim>\<open>addr_blks\<close> past its end.
\<close>

theorem free_padding_out_of_bounds:
  assumes ok: "ctl_ok p" and pad: "(msize p * word_of_int (nblks p)) mod 4 \<noteq> 0" and small: "unat (msize p) \<le> 4"
  shows "free_to (blk p (nat (nblks p))) p = Inl OutOfBounds"
proof -
  let ?z = "unat (msize p)" and ?n = "nat (nblks p)"
  have a: "area_ok p" and bl: "addr_blks p = Some (the (addr_blks p))" and len: "length (the (addr_blks p)) = ?n"
    using ok by (auto simp: ctl_ok_def pool_ok_def)
  note e = eaddr_padded [OF a pad]
  have u: "unat (blk p ?n) = unat (saddr p) + ?n * ?z" by (rule blk_end(1) [OF a])
  have le: "saddr p \<le> blk p ?n" using u by (simp add: word_le_nat_alt)
  have "unat (blk p ?n) + ?z < 2 ^ LENGTH(32)" using u small area_okD(3) [OF a] by simp
  then have "unat (blk p ?n + msize p) = unat (blk p ?n) + ?z" by (simp add: unat_add_lem [THEN iffD1])
  then have "blk p ?n + msize p \<le> eaddr p" using e u small by (simp add: word_le_nat_alt)
  moreover have off: "unat (blk p ?n - saddr p) = ?n * ?z" using u le by (simp add: unat_sub)
  have "(blk p ?n - saddr p) mod msize p = 0"
    by (rule word_unat_eq_iff [THEN iffD2]) (simp add: unat_mod_distrib off)
  moreover have "unat ((blk p ?n - saddr p) div msize p) = ?n"
    using area_okD(1) [OF a] by (simp add: unat_div_distrib off)
  moreover have "msize p \<noteq> 0" using a by (simp add: area_ok_def)
  moreover obtain xs where "addr_blks p = Some xs" "length xs = ?n" using bl len by metis
  ultimately show ?thesis using le by (simp add: free_to_def in_range_def Let_def)
qed

text \<open>
  deleting a pool frees its control block but leaves it on the list: afterwards every lookup
  that does not find its pool before the deleted one reads freed memory.
\<close>

theorem mem_pool_delete_dangles:
  assumes m: "mcbs_ok m (xs @ a # ys)" and p: "mcbs m a = Some p"
    and j: "\<forall>b\<in>set xs. memid (the (mcbs m b)) \<noteq> j"
  shows "\<exists>m'. mem_pool_delete (memid p) m = Inr (0, m') \<and> get_mem_info j m' = Inl UseAfterFree"
proof -
  let ?m = "m\<lparr>mcbs := (mcbs m)(a := None)\<rparr>"
  have "get_mem_info (memid p) m = Inr (Some a)" using get_mem_info_found [OF m _ p] by simp
  then have del: "mem_pool_delete (memid p) m = Inr (0, ?m)" by (simp add: mem_pool_delete_def)
  have each: "list_for_each McbHd (mlinks m) = Some (map Mcb (xs @ a # ys))"
    using m by (intro list_for_each_dlist) (simp add: mcbs_ok_def)
  have out: "a \<notin> set xs" "\<forall>b\<in>set xs. \<exists>q. mcbs m b = Some q" using m by (auto simp: mcbs_ok_def)
  then have "search_mcb j ?m (map Mcb xs @ zs) = search_mcb j ?m zs" for zs
    using j by (induction xs) auto
  then have "search_mcb j ?m (map Mcb (xs @ a # ys)) = Inl UseAfterFree" by simp
  with del each show ?thesis by (simp add: get_mem_info_def)
qed

section \<open>Witnesses\<close>

definition demo_pools :: mempool where
  "demo_pools = mem_init \<lparr>mcbs = (\<lambda>_. None), mlinks = \<lparr>lnext = (\<lambda>a. a), lprev = (\<lambda>a. a)\<rparr>, mcb_i = 0\<rparr>"

definition demo_me :: mem_env where
  "demo_me = \<lparr>me_mcb = Some 5, me_area = 4096, me_blks = True\<rparr>"

lemma demo_pools_ok: "mcbs_ok demo_pools []"
  by (simp add: mcbs_ok_def demo_pools_def mem_init_def INIT_LIST_HEAD_dlist)

theorem mem_pool_create_ok_witness:
  "\<exists>m' p. mem_pool_create demo_me 8 3 demo_pools = (1, m') \<and> mcbs_ok m' [5] \<and> mcbs m' 5 = Some p \<and> ctl_ok p \<and> fblks p = 3"
  using mem_pool_create_ok [OF demo_pools_ok, of demo_me 5 3 8]
  by (auto simp: demo_me_def demo_pools_def mem_init_def)

definition demo_ctl :: "u32 \<Rightarrow> int \<Rightarrow> mem_info" where
  "demo_ctl sz n = the (mcbs (snd (mem_pool_create demo_me sz n demo_pools)) 5)"

lemma demo_ctl_ok:
  assumes "0 < n" and "sz \<noteq> 0" and "4096 + nat n * unat sz + 4 < 2 ^ 32"
  shows "mcbs_ok (snd (mem_pool_create demo_me sz n demo_pools)) [5]"
    and "mcbs (snd (mem_pool_create demo_me sz n demo_pools)) 5 = Some (demo_ctl sz n)"
    and "ctl_ok (demo_ctl sz n)" and "fblks (demo_ctl sz n) = n"
    and "memid (demo_ctl sz n) = 1"
proof -
  define x where "x = mem_pool_create demo_me sz n demo_pools"
  have "\<exists>i m' p. x = (i, m') \<and> mcbs_ok m' [5] \<and> mcbs m' 5 = Some p \<and> ctl_ok p \<and> fblks p = n \<and> memid p = 1"
    using mem_pool_create_lemma [OF demo_pools_ok, of demo_me 5 n sz] assms
    by (auto simp: demo_me_def demo_pools_def mem_init_def x_def)
  then show "mcbs_ok (snd (mem_pool_create demo_me sz n demo_pools)) [5]"
    "mcbs (snd (mem_pool_create demo_me sz n demo_pools)) 5 = Some (demo_ctl sz n)"
    "ctl_ok (demo_ctl sz n)" "fblks (demo_ctl sz n) = n" "memid (demo_ctl sz n) = 1"
    unfolding demo_ctl_def x_def by auto
qed

theorem alloc_block_fresh_witness:
  "\<exists>b p'. alloc_block 1 (snd (mem_pool_create demo_me 8 3 demo_pools)) =
      Inr (b, (snd (mem_pool_create demo_me 8 3 demo_pools))
        \<lparr>mcbs := (mcbs (snd (mem_pool_create demo_me 8 3 demo_pools)))(5 \<mapsto> p')\<rparr>) \<and> b \<noteq> 0 \<and> ctl_ok p'"
proof -
  have h: "0 < (3 :: int)" "(8 :: u32) \<noteq> 0" "4096 + nat 3 * unat (8 :: u32) + 4 < 2 ^ 32" by simp_all
  note d = demo_ctl_ok [OF h]
  show ?thesis using alloc_block_fresh [OF d(1) _ d(2,3) refl] d(4,5) by auto
qed

theorem alloc_free_roundtrip_witness:
  "\<exists>b m1. alloc_block 1 (snd (mem_pool_create demo_me 8 3 demo_pools)) = Inr (b, m1) \<and>
     free_blk 1 b m1 = Inr (0, snd (mem_pool_create demo_me 8 3 demo_pools))"
proof -
  have h: "0 < (3 :: int)" "(8 :: u32) \<noteq> 0" "4096 + nat 3 * unat (8 :: u32) + 4 < 2 ^ 32" by simp_all
  note d = demo_ctl_ok [OF h]
  show ?thesis using alloc_free_roundtrip [OF d(1) _ d(2,3)] d(4,5) by auto
qed

lemma demo_ctl_fields: "msize (demo_ctl sz n) = sz" "nblks (demo_ctl sz n) = n" "saddr (demo_ctl sz n) = 4096"
  by (simp_all add: demo_ctl_def mem_pool_create_def get_next_free_mcb_def demo_me_def
      build_free_mem_blk_list_def add_to_mcb_def Let_def)

theorem free_rejects_foreign_witness:
  "free_blk 1 4100 (snd (mem_pool_create demo_me 8 3 demo_pools)) = Inr (- 1, snd (mem_pool_create demo_me 8 3 demo_pools))"
proof -
  have h: "0 < (3 :: int)" "(8 :: u32) \<noteq> 0" "4096 + nat 3 * unat (8 :: u32) + 4 < 2 ^ 32" by simp_all
  note d = demo_ctl_ok [OF h]
  have "(4100 :: u32) \<notin> ctl_handles (demo_ctl 8 3)"
    by (auto simp: ctl_handles_def demo_ctl_fields blk_def COMPUTE_ADDR_BLOCK_def numeral_3_eq_3 lessThan_Suc)
  then show ?thesis using free_rejects_foreign [OF d(1) _ d(2,3), of 4100] d(5) by (simp add: demo_ctl_fields)
qed

theorem free_padding_out_of_bounds_witness: "free_to 4101 (demo_ctl 1 5) = Inl OutOfBounds"
proof -
  have h: "0 < (5 :: int)" "(1 :: u32) \<noteq> 0" "4096 + nat 5 * unat (1 :: u32) + 4 < 2 ^ 32" by simp_all
  show ?thesis using free_padding_out_of_bounds [OF demo_ctl_ok(3) [OF h]]
    by (simp add: demo_ctl_fields blk_def COMPUTE_ADDR_BLOCK_def)
qed

theorem mem_pool_delete_dangles_witness:
  "\<exists>m'. mem_pool_delete 1 (snd (mem_pool_create demo_me 8 3 demo_pools)) = Inr (0, m') \<and>
     get_mem_info 1 m' = Inl UseAfterFree"
proof -
  have h: "0 < (3 :: int)" "(8 :: u32) \<noteq> 0" "4096 + nat 3 * unat (8 :: u32) + 4 < 2 ^ 32" by simp_all
  note d = demo_ctl_ok [OF h]
  show ?thesis
    using mem_pool_delete_dangles [of "snd (mem_pool_create demo_me 8 3 demo_pools)" "[]" 5 "[]" "demo_ctl 8 3" 1]
      d(1,2,5) by simp
qed

end
