(* ===== verification/MsgQueue.thy ===== *)
theory MsgQueue
  imports Mempool
begin

text \<open>
  The message queues of \<^verbatim>\<open>core/msg_queue.c\<close> in the build without the user-level scheduler
  (the other build hands the calls to POSIX message queues).  The descriptor of a queued message
  is a block of the queue's memory pool, linked into the list of the queue.

  The calls run under the mutex of the queue, so each is one step; \<^verbatim>\<open>msg_rcv\<close> on an empty
  queue waits for the condition variable and looks again.
\<close>

section \<open>Data and operations\<close>

definition MAX_MSG_Q :: nat where "MAX_MSG_Q = 10"
definition MAX_Q_NAME :: nat where "MAX_Q_NAME = 8"

datatype mq_flags = MQ_FREE | MQ_ACTIVE

record Q =
  q_name :: string
  max_msg :: int
  q_size :: int
  mpool_id :: int
  q_flags :: mq_flags

text \<open>The nodes of the lists: \<^verbatim>\<open>Queue[i].msg_list\<close> and the \<^verbatim>\<open>next\<close> of a \<^verbatim>\<open>struct msg\<close>.\<close>

datatype qaddr = QHd nat | MsgAt u32

record mqs =
  Queue :: "Q list"
  qlinks :: "qaddr lheap"
  msg_at :: "u32 \<Rightarrow> nat"
  pools :: mempool

definition sizeof_msg :: u32 where "sizeof_msg = 12"

definition free_Q :: "Q \<Rightarrow> Q" where
  "free_Q q = q\<lparr>q_name := [], max_msg := 0, q_size := 0, mpool_id := - 1, q_flags := MQ_FREE\<rparr>"

definition msg_Q_init :: "mqs \<Rightarrow> mqs" where
  "msg_Q_init q = q\<lparr>Queue := map free_Q (Queue q),
     qlinks := fold (\<lambda>i. INIT_LIST_HEAD (QHd i)) (rev [0..<MAX_MSG_Q]) (qlinks q)\<rparr>"

text \<open>The loop counts down from the end of the array.\<close>

fun get_qid_below :: "nat \<Rightarrow> Q list \<Rightarrow> int" where
  "get_qid_below 0 qs = - 1"
| "get_qid_below (Suc i) qs = (if q_flags (qs ! i) = MQ_FREE then int i else get_qid_below i qs)"

definition get_qid :: "mqs \<Rightarrow> int" where
  "get_qid q = get_qid_below MAX_MSG_Q (Queue q)"

text \<open>
  The arguments of \<^verbatim>\<open>mem_pool_create\<close> are a size of \<^verbatim>\<open>maxmsg * sizeof (struct msg)\<close>
  and a count of \<^verbatim>\<open>sizeof (struct msg)\<close> blocks.  \<^verbatim>\<open>memcpy\<close> reads \<^verbatim>\<open>MAX_Q_NAME\<close> bytes of the
  name, past the end of a shorter one.
\<close>

definition msg_create_Q :: "mem_env \<Rightarrow> string \<Rightarrow> int \<Rightarrow> int \<Rightarrow> mqs \<Rightarrow> (int \<times> mqs) res" where
  "msg_create_Q me name maxmsg sz q =
     (let qid = get_qid q in
      if qid < 0 then Inr (- 1, q)
      else case mem_pool_create me (word_of_int maxmsg * sizeof_msg) (uint sizeof_msg) (pools q) of
        (pid, m) \<Rightarrow>
          let q = q\<lparr>pools := m, Queue := (Queue q)[nat qid := (Queue q ! nat qid)\<lparr>mpool_id := pid\<rparr>]\<rparr> in
          if pid < 0 then Inr (- 1, q)
          else if length name + 1 < MAX_Q_NAME then Inl OutOfBounds
          else Inr (qid, q\<lparr>Queue := (Queue q)[nat qid := (Queue q ! nat qid)
                  \<lparr>q_name := take MAX_Q_NAME name, max_msg := maxmsg, q_size := sz, q_flags := MQ_ACTIVE\<rparr>]\<rparr>))"

definition queue_at :: "int \<Rightarrow> mqs \<Rightarrow> Q res" where
  "queue_at qid q = (if 0 \<le> qid \<and> nat qid < length (Queue q) then Inr (Queue q ! nat qid) else Inl OutOfBounds)"

definition msg_send :: "int \<Rightarrow> nat \<Rightarrow> mqs \<Rightarrow> (int \<times> mqs) res" where
  "msg_send qid msg q =
     andThen (queue_at qid q) (\<lambda>Qq.
     andThen (alloc_block (mpool_id Qq) (pools q)) (\<lambda>(p, m).
       let q = q\<lparr>pools := m\<rparr> in
       Inr (0, if p \<noteq> 0
               then q\<lparr>msg_at := (msg_at q)(p := msg),
                      qlinks := list_add_tail (MsgAt p) (QHd (nat qid)) (INIT_LIST_HEAD (MsgAt p) (qlinks q))\<rparr>
               else q)))"

text \<open>One look at the queue: the first message, or \<^term>\<open>None\<close> when the call has to wait.\<close>

definition msg_rcv :: "int \<Rightarrow> mqs \<Rightarrow> (nat option \<times> mqs) res" where
  "msg_rcv qid q =
     andThen (queue_at qid q) (\<lambda>Qq.
       if \<not> list_empty (QHd (nat qid)) (qlinks q)
       then (case list_first_entry (QHd (nat qid)) (qlinks q) of
               QHd _ \<Rightarrow> Inl NullDeref
             | MsgAt p \<Rightarrow>
                 andThen (free_blk (mpool_id Qq) p (pools q)) (\<lambda>(_, m).
                   Inr (Some (msg_at q p), q\<lparr>qlinks := list_del (MsgAt p) (qlinks q), pools := m\<rparr>)))
       else Inr (None, q))"

section \<open>Refinement of a bounded FIFO\<close>

text \<open>The abstract queue: a list of at most \<open>cap\<close> messages; what does not fit is dropped.\<close>

definition spec_send :: "nat \<Rightarrow> nat \<Rightarrow> nat list \<Rightarrow> nat list" where
  "spec_send cap msg ms = (if length ms < cap then ms @ [msg] else ms)"

definition spec_rcv :: "nat list \<Rightarrow> nat option \<times> nat list" where
  "spec_rcv ms = (case ms of [] \<Rightarrow> (None, []) | m # ms' \<Rightarrow> (Some m, ms'))"

text \<open>Queue \<open>k\<close> holds the messages \<open>ms\<close> in the blocks \<open>bs\<close> of its pool, which are exactly those in use.\<close>

definition q_rep :: "nat \<Rightarrow> mqs \<Rightarrow> nat list \<Rightarrow> bool" where
  "q_rep k q ms \<longleftrightarrow>
     (\<exists>as a p bs. k < length (Queue q) \<and> mcbs_ok (pools q) as \<and> a \<in> set as \<and> mcbs (pools q) a = Some p \<and>
        memid p = mpool_id (Queue q ! k) \<and> ctl_ok p \<and> nblks p = 12 \<and>
        dlist (qlinks q) (QHd k) (map MsgAt bs) \<and> ms = map (msg_at q) bs \<and> distinct bs \<and>
        set bs = ctl_handles p - ctl_free p)"

lemma fblks_card:
  assumes "ctl_ok p"
  shows "fblks p = 0 \<longleftrightarrow> card (ctl_handles p - ctl_free p) = card (ctl_handles p)"
proof -
  have "fblks p = 0 \<longleftrightarrow> ctl_free p = {}"
    using pool_free_empty [of p] assms by (simp add: ctl_ok_def ctl_free_def)
  also have "\<dots> \<longleftrightarrow> \<not> (\<exists>a s1. ctl_alloc p = Some (Some a, s1))"
    using ctl.alloc_none [OF assms] ctl.alloc_some [OF assms] by auto
  also have "\<dots> \<longleftrightarrow> card (ctl_handles p - ctl_free p) = card (ctl_handles p)"
    using ctl.capacity [OF assms refl] ctl.fin [OF assms] by (metis Diff_subset card_mono nat_less_le)
  finally show ?thesis .
qed

lemma send_ok:
  assumes "q_rep k q ms"
  obtains q' where "msg_send (int k) msg q = Inr (0, q')" and "q_rep k q' (spec_send 12 msg ms)"
proof -
  obtain as a p bs where r: "k < length (Queue q)" "mcbs_ok (pools q) as" "a \<in> set as" "mcbs (pools q) a = Some p"
    "memid p = mpool_id (Queue q ! k)" "ctl_ok p" "nblks p = 12" "dlist (qlinks q) (QHd k) (map MsgAt bs)"
    "ms = map (msg_at q) bs" "distinct bs" "set bs = ctl_handles p - ctl_free p"
    using assms unfolding q_rep_def by blast
  have at: "queue_at (int k) q = Inr (Queue q ! k)" using r(1) by (simp add: queue_at_def)
  note alloc = alloc_block_eq [OF r(2-4), unfolded r(5)]
  have full: "fblks p = 0 \<longleftrightarrow> length ms = 12"
    using fblks_card [OF r(6)] card_handles [OF r(6)] r(7,9-11) by (metis distinct_card length_map nat_numeral)
  have "length ms = card (set bs)" using r(9,10) by (simp add: distinct_card)
  moreover have "card (set bs) \<le> card (ctl_handles p)" using ctl.fin [OF r(6)] r(11) by (intro card_mono) auto
  ultimately have le: "length ms \<le> 12" using card_handles [OF r(6)] r(7) by simp
  show thesis
  proof (cases "fblks p = 0")
    case True
    then have "msg_send (int k) msg q = Inr (0, q)"
      using at alloc r(4) by (simp add: msg_send_def alloc_from_def fun_upd_idem)
    moreover have "spec_send 12 msg ms = ms" using True full by (simp add: spec_send_def)
    ultimately show thesis using that assms by simp
  next
    case False
    obtain b p' where b: "alloc_from p = Inr (b, p')" "b \<noteq> 0" "b \<in> ctl_free p" "ctl_ok p'"
      "ctl_handles p' = ctl_handles p" "ctl_free p' = ctl_free p - {b}" "memid p' = memid p" "nblks p' = nblks p"
      using alloc_from_ctl [OF r(6) False] by metis
    let ?m = "(pools q)\<lparr>mcbs := (mcbs (pools q))(a \<mapsto> p')\<rparr>"
    let ?q = "q\<lparr>pools := ?m, msg_at := (msg_at q)(b := msg),
       qlinks := list_add_tail (MsgAt b) (QHd k) (INIT_LIST_HEAD (MsgAt b) (qlinks q))\<rparr>"
    have fresh: "b \<notin> set bs" "b \<in> ctl_handles p" using b(3) r(11) ctl.fin [OF r(6)] by auto
    have "dlist (INIT_LIST_HEAD (MsgAt b) (qlinks q)) (QHd k) (map MsgAt bs)"
      by (rule dlist_other [OF r(8)]) (use fresh in \<open>auto simp: INIT_LIST_HEAD_def link_simps\<close>)
    then have "dlist (qlinks ?q) (QHd k) (map MsgAt (bs @ [b]))"
      using list_add_tail_dlist [of "INIT_LIST_HEAD (MsgAt b) (qlinks q)" "QHd k" "map MsgAt bs" "MsgAt b"] fresh by auto
    moreover have "map (msg_at ?q) (bs @ [b]) = ms @ [msg]" using fresh r(9) by auto
    moreover have "set (bs @ [b]) = ctl_handles p' - ctl_free p'" using b(5,6) r(11) fresh by auto
    ultimately have "q_rep k ?q (ms @ [msg])"
      unfolding q_rep_def using r b fresh mcbs_ok_update [OF r(2,4)]
      by (intro exI [of _ as] exI [of _ a] exI [of _ p'] exI [of _ "bs @ [b]"]) simp
    moreover have "msg_send (int k) msg q = Inr (0, ?q)" using at alloc b(1,2) by (simp add: msg_send_def Let_def)
    moreover have "length ms < 12" using False full le by auto
    ultimately show thesis using that by (simp add: spec_send_def)
  qed
qed

lemma rcv_ok:
  assumes "q_rep k q ms"
  obtains q' where "msg_rcv (int k) q = Inr (fst (spec_rcv ms), q')" and "q_rep k q' (snd (spec_rcv ms))"
proof -
  obtain as a p bs where r: "k < length (Queue q)" "mcbs_ok (pools q) as" "a \<in> set as" "mcbs (pools q) a = Some p"
    "memid p = mpool_id (Queue q ! k)" "ctl_ok p" "nblks p = 12" "dlist (qlinks q) (QHd k) (map MsgAt bs)"
    "ms = map (msg_at q) bs" "distinct bs" "set bs = ctl_handles p - ctl_free p"
    using assms unfolding q_rep_def by blast
  have at: "queue_at (int k) q = Inr (Queue q ! k)" using r(1) by (simp add: queue_at_def)
  show thesis
  proof (cases bs)
    case Nil
    then have "msg_rcv (int k) q = Inr (None, q)"
      using at list_empty_dlist [OF r(8)] by (simp add: msg_rcv_def)
    with Nil r(9) that assms show thesis by (simp add: spec_rcv_def)
  next
    case (Cons b bs')
    then have b: "b \<in> ctl_handles p - ctl_free p" using r(11) by auto
    obtain p' where p': "free_to b p = Inr (0, p')" "ctl_ok p'" "ctl_handles p' = ctl_handles p"
      "ctl_free p' = insert b (ctl_free p)" "memid p' = memid p" "nblks p' = nblks p"
      using free_to_ctl [OF r(6) b] by metis
    let ?m = "(pools q)\<lparr>mcbs := (mcbs (pools q))(a \<mapsto> p')\<rparr>"
    let ?q = "q\<lparr>qlinks := list_del (MsgAt b) (qlinks q), pools := ?m\<rparr>"
    have "free_blk (mpool_id (Queue q ! k)) b (pools q) = Inr (0, ?m)"
      using free_blk_eq [OF r(2-4), unfolded r(5)] p'(1) by simp
    then have eq: "msg_rcv (int k) q = Inr (Some (msg_at q b), ?q)"
      using at list_empty_dlist [OF r(8)] list_first_entry_dlist [OF r(8)] Cons by (simp add: msg_rcv_def)
    have d: "dlist (qlinks ?q) (QHd k) (map MsgAt bs')"
      using list_del_dlist [of "qlinks q" "QHd k" "MsgAt b # map MsgAt bs'" "MsgAt b"] r(8) Cons by simp
    have "set bs' = ctl_handles p' - ctl_free p'" using p'(3,4) r(10,11) Cons by auto
    with d have "q_rep k ?q (map (msg_at q) bs')"
      unfolding q_rep_def using r p' Cons mcbs_ok_update [OF r(2,4)]
      by (intro exI [of _ as] exI [of _ a] exI [of _ p'] exI [of _ bs']) simp
    with eq Cons r(9) that show thesis by (simp add: spec_rcv_def)
  qed
qed

section \<open>Properties\<close>

text \<open>Runs of calls on one queue, concrete and abstract.\<close>

datatype mop = Send nat | Rcv

fun run_q :: "nat \<Rightarrow> mop list \<Rightarrow> mqs \<Rightarrow> nat option list res" where
  "run_q k [] q = Inr []"
| "run_q k (Send m # ops) q = andThen (msg_send (int k) m q) (\<lambda>(_, q). run_q k ops q)"
| "run_q k (Rcv # ops) q = andThen (msg_rcv (int k) q) (\<lambda>(r, q). andThen (run_q k ops q) (\<lambda>rs. Inr (r # rs)))"

fun run_spec :: "mop list \<Rightarrow> nat list \<Rightarrow> nat option list" where
  "run_spec [] ms = []"
| "run_spec (Send m # ops) ms = run_spec ops (spec_send 12 m ms)"
| "run_spec (Rcv # ops) ms = fst (spec_rcv ms) # run_spec ops (snd (spec_rcv ms))"

lemma run_q_spec: "q_rep k q ms \<Longrightarrow> run_q k ops q = Inr (run_spec ops ms)"
proof (induction ops arbitrary: q ms)
  case (Cons op ops)
  show ?case
  proof (cases op)
    case (Send m)
    obtain q' where "msg_send (int k) m q = Inr (0, q')" "q_rep k q' (spec_send 12 m ms)"
      using send_ok [OF Cons.prems] by blast
    with Cons.IH Send show ?thesis by simp
  next
    case Rcv
    obtain q' where "msg_rcv (int k) q = Inr (fst (spec_rcv ms), q')" "q_rep k q' (snd (spec_rcv ms))"
      using rcv_ok [OF Cons.prems] by blast
    with Cons.IH Rcv show ?thesis by simp
  qed
qed simp

text \<open>
  C18: a message queue is a FIFO of capacity 12: any sequence of sends and receives on a queue
  runs without a fault and returns what the list of messages would, where a message sent to a
  full queue is dropped (and the call returns 0 all the same), and an empty queue makes the
  receiver wait.
\<close>

theorem msg_queue_refines_fifo:
  assumes "q_rep k q ms"
  shows "run_q k ops q = Inr (run_spec ops ms)"
  using assms by (rule run_q_spec)

lemma get_qid_range: "get_qid_below n qs = int k \<Longrightarrow> k < n \<and> q_flags (qs ! k) = MQ_FREE"
  by (induction n) (auto split: if_splits)

lemma create_ok:
  assumes pools: "mcbs_ok (pools q) as" "0 \<le> mcb_i (pools q)" and id: "get_qid q = int k"
    and len: "length (Queue q) = MAX_MSG_Q" and empty: "dlist (qlinks q) (QHd k) []"
    and me: "me_mcb me = Some a" "a \<notin> set as" "me_area me \<noteq> 0" "me_blks me"
    and sz: "word_of_int maxmsg * sizeof_msg \<noteq> 0"
      "unat (me_area me) + 12 * unat (word_of_int maxmsg * sizeof_msg) + 4 < 2 ^ 32"
    and nm: "MAX_Q_NAME \<le> length name + 1"
  shows "\<exists>q'. msg_create_Q me name maxmsg sze q = Inr (int k, q') \<and> q_rep k q' [] \<and>
     q_flags (Queue q' ! k) = MQ_ACTIVE \<and> max_msg (Queue q' ! k) = maxmsg"
proof -
  have k: "k < length (Queue q)" using get_qid_range id len unfolding get_qid_def by metis
  have "unat (me_area me) + nat 12 * unat (word_of_int maxmsg * sizeof_msg) + 4 < 2 ^ 32" using sz(2) by simp
  then obtain m' p where m': "mem_pool_create me (word_of_int maxmsg * sizeof_msg) 12 (pools q) = (mcb_i (pools q) + 1, m')"
    "mcbs_ok m' (as @ [a])" "mcbs m' a = Some p" "memid p = mcb_i (pools q) + 1" "ctl_ok p"
    "ctl_free p = ctl_handles p" "fblks p = 12" "useblks p = 0"
    using mem_pool_create_lemma [OF pools(1) me, of 12 "word_of_int maxmsg * sizeof_msg"] sz(1) by auto
  have n: "nblks p = 12" using m'(5,7,8) by (simp add: ctl_ok_def pool_ok_def)
  have u: "uint sizeof_msg = 12" by (simp add: sizeof_msg_def)
  define q' where "q' = snd (projr (msg_create_Q me name maxmsg sze q))"
  have eq: "msg_create_Q me name maxmsg sze q = Inr (int k, q')" and qs: "pools q' = m'" "qlinks q' = qlinks q"
    "k < length (Queue q')" "mpool_id (Queue q' ! k) = mcb_i (pools q) + 1"
    "q_flags (Queue q' ! k) = MQ_ACTIVE" "max_msg (Queue q' ! k) = maxmsg"
    using id u m'(1) pools(2) k nm by (simp_all add: q'_def msg_create_Q_def Let_def)
  have "q_rep k q' []"
    unfolding q_rep_def using qs m' n empty
    by (intro exI [of _ "as @ [a]"] exI [of _ a] exI [of _ p] exI [of _ "[]"]) simp
  with eq qs show ?thesis by blast
qed

text \<open>
  \<^verbatim>\<open>msg_create_Q\<close> activates a free queue that is empty and has room for 12 messages,
  the size of a message descriptor, whatever \<^verbatim>\<open>maxmsg\<close> asks for: size and count of the
  blocks are passed to \<^verbatim>\<open>mem_pool_create\<close> the wrong way round.  The name has the length that
  \<^verbatim>\<open>memcpy\<close> reads.
\<close>

theorem msg_create_Q_capacity_12:
  assumes "mcbs_ok (pools q) as" and "0 \<le> mcb_i (pools q)" and "get_qid q = int k"
    and "length (Queue q) = MAX_MSG_Q" and "dlist (qlinks q) (QHd k) []"
    and "me_mcb me = Some a" and "a \<notin> set as" and "me_area me \<noteq> 0" and "me_blks me"
    and "word_of_int maxmsg * sizeof_msg \<noteq> 0"
    and "unat (me_area me) + 12 * unat (word_of_int maxmsg * sizeof_msg) + 4 < 2 ^ 32"
    and nm: "MAX_Q_NAME \<le> length name + 1"
  shows "\<exists>q'. msg_create_Q me name maxmsg sze q = Inr (int k, q') \<and> q_rep k q' [] \<and>
     max_msg (Queue q' ! k) = maxmsg \<and>
     run_q k (map Send ms @ replicate (length ms) Rcv) q' =
       Inr (map Some (take 12 ms) @ replicate (length ms - 12) None)"
proof -
  obtain q' where q': "msg_create_Q me name maxmsg sze q = Inr (int k, q')" "q_rep k q' []" "max_msg (Queue q' ! k) = maxmsg"
    using create_ok [OF assms, of sze] by blast
  have "run_spec (map Send ms @ ops) xs = run_spec ops (xs @ take (12 - length xs) ms)" for ms ops xs
  proof (induction ms arbitrary: xs)
    case (Cons m ms)
    then show ?case
      by (cases "length xs < 12") (auto simp: spec_send_def take_Cons' Suc_diff_le)
  qed simp
  moreover have "run_spec (replicate n Rcv) xs = map Some (take n xs) @ replicate (n - length xs) None" for n xs
    by (induction n arbitrary: xs) (auto simp: spec_rcv_def split: list.splits)
  ultimately have "run_spec (map Send ms @ replicate (length ms) Rcv) [] =
      map Some (take 12 ms) @ replicate (length ms - 12) None"
    by (simp add: min_def)
  then show ?thesis using q' run_q_spec [OF q'(2)] by auto
qed

section \<open>Witnesses\<close>

definition demo_mqs :: mqs where
  "demo_mqs = msg_Q_init
     \<lparr>Queue = replicate MAX_MSG_Q \<lparr>q_name = [], max_msg = 0, q_size = 0, mpool_id = 0, q_flags = MQ_ACTIVE\<rparr>,
      qlinks = \<lparr>lnext = (\<lambda>a. a), lprev = (\<lambda>a. a)\<rparr>, msg_at = (\<lambda>_. 0), pools = demo_pools\<rparr>"

lemma demo_mqs_facts:
  "mcbs_ok (pools demo_mqs) []" "0 \<le> mcb_i (pools demo_mqs)" "get_qid demo_mqs = int 9"
  "length (Queue demo_mqs) = MAX_MSG_Q" "dlist (qlinks demo_mqs) (QHd 9) []"
proof -
  show "mcbs_ok (pools demo_mqs) []" using demo_pools_ok by (simp add: demo_mqs_def msg_Q_init_def)
  show "0 \<le> mcb_i (pools demo_mqs)" by (simp add: demo_mqs_def msg_Q_init_def demo_pools_def mem_init_def)
  show "length (Queue demo_mqs) = MAX_MSG_Q" by (simp add: demo_mqs_def msg_Q_init_def)
  have "Queue demo_mqs ! 9 = free_Q \<lparr>q_name = [], max_msg = 0, q_size = 0, mpool_id = 0, q_flags = MQ_ACTIVE\<rparr>"
    by (simp add: demo_mqs_def msg_Q_init_def MAX_MSG_Q_def)
  then have "get_qid_below (Suc 9) (Queue demo_mqs) = int 9"
    by (simp only: get_qid_below.simps) (simp add: free_Q_def)
  then show "get_qid demo_mqs = int 9" by (simp add: get_qid_def MAX_MSG_Q_def)
  show "dlist (qlinks demo_mqs) (QHd 9) []"
    by (simp add: dlist_def demo_mqs_def msg_Q_init_def fold_INIT_links MAX_MSG_Q_def image_iff)
qed

theorem msg_create_Q_capacity_12_witness:
  "\<exists>q'. msg_create_Q demo_me ''jobqueue'' 2 64 demo_mqs = Inr (9, q') \<and>
     run_q 9 (map Send [1..<16] @ replicate 15 Rcv) q' = Inr (map Some [1..<13] @ [None, None, None])"
proof -
  have "\<exists>q'. msg_create_Q demo_me ''jobqueue'' 2 64 demo_mqs = Inr (int 9, q') \<and>
     run_q 9 (map Send [1..<16] @ replicate (length [1..<16]) Rcv) q' =
       Inr (map Some (take 12 [1..<16]) @ replicate (length [1..<16] - 12) None)"
    using msg_create_Q_capacity_12 [OF demo_mqs_facts, of demo_me 5 2 "''jobqueue''" 64 "[1..<16]"]
    by (auto simp: demo_me_def sizeof_msg_def MAX_Q_NAME_def)
  then show ?thesis by (simp add: numeral_3_eq_3 take_upt)
qed

theorem msg_queue_refines_fifo_witness:
  "\<exists>q'. q_rep 9 q' [] \<and> run_q 9 [Send 4, Send 7, Rcv, Rcv, Rcv] q' = Inr [Some 4, Some 7, None]"
proof -
  have "\<exists>q'. q_rep 9 q' []"
    using create_ok [OF demo_mqs_facts, of demo_me 5 2 "''jobqueue''"] by (auto simp: demo_me_def sizeof_msg_def MAX_Q_NAME_def)
  then obtain q' where "q_rep 9 q' []" by blast
  with msg_queue_refines_fifo [OF this, of "[Send 4, Send 7, Rcv, Rcv, Rcv]"] show ?thesis
    by (auto simp: spec_send_def spec_rcv_def)
qed

end
