(* ===== verification/KlistProps.thy ===== *)
theory KlistProps
  imports Klist
begin

text \<open>
  The contract of \<^verbatim>\<open>cmn/list.h\<close>: what each routine does to the sequence of nodes a list
  head stands for, from the lemmas of theory Klist.
\<close>

text \<open>
  on a well-formed list, \<^verbatim>\<open>list_add\<close> puts a new node at the front and \<^verbatim>\<open>list_add_tail\<close> at
  the end, the traversal macros visit exactly the nodes in order and end, and the predicates
  \<^verbatim>\<open>list_empty\<close> and \<^verbatim>\<open>list_is_singular\<close> answer for the sequence.
\<close>

theorem list_add_correct:
  assumes "dlist h a xs" and "x \<notin> set (a # xs)"
  shows "dlist (list_add x a h) a (x # xs) \<and> dlist (list_add_tail x a h) a (xs @ [x]) \<and>
     list_for_each a (list_add_tail x a h) = Some (xs @ [x]) \<and> list_for_each a h = Some xs \<and>
     (list_empty a h \<longleftrightarrow> xs = []) \<and> (list_is_singular a h \<longleftrightarrow> length xs = 1)"
proof -
  have x: "x \<noteq> a" "x \<notin> set xs" using assms(2) by auto
  note d = assms(1) and tail = list_add_tail_dlist [OF assms(1) x]
  show ?thesis
    by (intro conjI list_add_dlist [OF d x] tail list_for_each_dlist [OF tail] list_for_each_dlist [OF d]
        list_empty_dlist [OF d] list_is_singular_dlist [OF d])
qed

text \<open>
  unlinking, moving and replacing a node of a well-formed list: \<^verbatim>\<open>list_del\<close> and
  \<^verbatim>\<open>list_del_init\<close> take out exactly that node, \<^verbatim>\<open>list_del_init\<close> leaves it an empty list of its
  own, \<^verbatim>\<open>list_move\<close> and \<^verbatim>\<open>list_move_tail\<close> bring it to the front and to the end, and
  \<^verbatim>\<open>list_replace\<close> puts another node in its place.
\<close>

theorem list_del_move_correct:
  assumes "dlist h a (xs @ x # ys)" and "new \<notin> set (a # xs @ x # ys)"
  shows "dlist (list_del x h) a (xs @ ys) \<and> dlist (list_del_init x h) a (xs @ ys) \<and>
     dlist (list_del_init x h) x [] \<and> dlist (list_move x a h) a (x # xs @ ys) \<and>
     dlist (list_move_tail x a h) a (xs @ ys @ [x]) \<and> dlist (list_replace x new h) a (xs @ new # ys) \<and>
     (list_is_last x a h \<longleftrightarrow> ys = [])"
proof -
  let ?zs = "xs @ x # ys"
  have d: "distinct ?zs" and x: "x \<in> set ?zs" using assms(1) by (auto simp: dlist_def)
  then have r: "remove1 x ?zs = xs @ ys" by (simp add: remove1_append)
  have "x = last ?zs \<longleftrightarrow> ys = []" using d by (cases ys rule: rev_cases) auto
  then show ?thesis
    using list_del_dlist [OF assms(1) x] list_del_init_dlist [OF assms(1) x] list_move_dlist [OF assms(1) x]
      list_move_tail_dlist [OF assms(1) x] list_replace_dlist [OF assms] list_is_last_dlist [OF assms(1) x]
    unfolding r by simp
qed

text \<open>
  joining and cutting.  Splicing a list in front of or behind another one concatenates the
  two sequences, the \<^verbatim>\<open>_init\<close> variants leave the spliced list empty, and cutting the list
  behind one of its nodes puts the part up to that node on the new head.
\<close>

theorem list_splice_cut_correct:
  assumes "dlist h a (us @ xs)" and "us \<noteq> []" and "dlist h l zs" and "set (l # zs) \<inter> set (a # us @ xs) = {}"
  shows "dlist (list_splice l a h) a (zs @ us @ xs) \<and> dlist (list_splice_tail l a h) a (us @ xs @ zs) \<and>
     dlist (list_splice_init l a h) a (zs @ us @ xs) \<and> dlist (list_splice_init l a h) l [] \<and>
     dlist (list_splice_tail_init l a h) a (us @ xs @ zs) \<and> dlist (list_splice_tail_init l a h) l [] \<and>
     dlist (list_cut_position l a (last us) h) l us \<and> dlist (list_cut_position l a (last us) h) a xs"
proof -
  have "l \<notin> set (a # us @ xs)" using assms(4) by auto
  then show ?thesis
    using list_splice_dlist [OF assms(1,3,4)] list_splice_tail_dlist [OF assms(1,3,4)]
      list_splice_init_dlist [OF assms(1,3,4)] list_splice_tail_init_dlist [OF assms(1,3,4)]
      list_cut_position_dlist [OF assms(1,2)] by simp
qed

section \<open>Going through a list\<close>

text \<open>\<^verbatim>\<open>list_for_each_prev\<close>: the cursor runs backwards.\<close>

partial_function (option) nodes_back :: "'a lheap \<Rightarrow> 'a \<Rightarrow> 'a \<Rightarrow> 'a list option" where
  [code]: "nodes_back h head pos =
     (if pos = head then Some [] else Option.bind (nodes_back h head (lprev h pos)) (\<lambda>xs. Some (pos # xs)))"

definition list_for_each_prev :: "'a \<Rightarrow> 'a lheap \<Rightarrow> 'a list option" where
  "list_for_each_prev head h = nodes_back h head (lprev h head)"

text \<open>
  \<^verbatim>\<open>list_for_each_safe (pos, n, head)\<close>: \<open>n\<close> is read before the body runs, so that the body may take the
  node \<open>pos\<close> out.  The result are the nodes the body was run for, and the heap.
\<close>

partial_function (option) safe_loop :: "('a \<Rightarrow> 'a lheap \<Rightarrow> 'a lheap) \<Rightarrow> 'a \<Rightarrow> 'a \<Rightarrow> 'a \<Rightarrow> 'a lheap \<Rightarrow> ('a list \<times> 'a lheap) option" where
  [code]: "safe_loop body head pos n h =
     (if pos = head then Some ([], h)
      else let h = body pos h in Option.bind (safe_loop body head n (lnext h n) h) (\<lambda>(xs, h). Some (pos # xs, h)))"

definition list_for_each_safe :: "('a \<Rightarrow> 'a lheap \<Rightarrow> 'a lheap) \<Rightarrow> 'a \<Rightarrow> 'a lheap \<Rightarrow> ('a list \<times> 'a lheap) option" where
  "list_for_each_safe body head h = (let pos = lnext h head in safe_loop body head pos (lnext h pos) h)"

lemma nodes_back_lseg: "lseg h b xs a \<Longrightarrow> b \<notin> set xs \<Longrightarrow> nodes_back h b (lprev h a) = Some (rev xs)"
proof (induction xs arbitrary: a rule: rev_induct)
  case Nil
  then show ?case by (simp add: nodes_back.simps)
next
  case (snoc x xs)
  then have "nodes_back h b (lprev h x) = Some (rev xs)" "lprev h a = x" "x \<noteq> b" by auto
  then show ?case by (subst nodes_back.simps) simp
qed

lemma safe_del:
  assumes "dlist h a xs" and "pos = lnext h a" and "n = lnext h pos"
  shows "\<exists>h'. safe_loop list_del a pos n h = Some (xs, h') \<and> dlist h' a []"
  using assms
proof (induction xs arbitrary: h pos n)
  case Nil
  then show ?case by (subst safe_loop.simps) (simp add: dlist_def)
next
  case (Cons x xs)
  have d: "dlist (list_del x h) a xs" using list_del_dlist [OF Cons.prems(1), of x] Cons.prems(1) by (simp add: dlist_def)
  have x: "pos = x" "x \<noteq> a" using Cons.prems(1,2) by (auto simp: dlist_def)
  have "n = lnext (list_del x h) a" using Cons.prems(1,3) d x(1) by (cases xs) (auto simp: dlist_def)
  from Cons.IH [OF d this refl] x show ?case by (subst safe_loop.simps) (auto simp: Let_def)
qed

text \<open>
  the other traversals of a well-formed list end: \<^verbatim>\<open>list_for_each_prev\<close> visits the nodes from the last
  to the first, and \<^verbatim>\<open>list_for_each_safe\<close> with a body that takes the node out visits all of them in order
  and leaves the list empty.
\<close>

theorem list_traversals_correct:
  assumes "dlist h a xs"
  shows "list_for_each_prev a h = Some (rev xs) \<and> (\<exists>h'. list_for_each_safe list_del a h = Some (xs, h') \<and> dlist h' a [])"
proof -
  have "list_for_each_prev a h = Some (rev xs)"
    using nodes_back_lseg [of h a xs a] assms by (simp add: list_for_each_prev_def dlist_def)
  then show ?thesis using safe_del [OF assms refl refl] by (simp add: list_for_each_safe_def Let_def)
qed

section \<open>Witnesses\<close>

text \<open>The list 1, 2 on the head 0 and the empty list on the head 5.\<close>

definition demo_list :: "nat lheap" where
  "demo_list = list_add_tail 2 0 (list_add_tail 1 0 (INIT_LIST_HEAD 5 (INIT_LIST_HEAD 0
     \<lparr>lnext = (\<lambda>a. a), lprev = (\<lambda>a. a)\<rparr>)))"

lemma demo_list: "dlist demo_list 0 [1, 2]" "dlist demo_list 5 []"
  by (simp_all add: demo_list_def dlist_def list_add_tail_def raw_list_add_def Let_def INIT_LIST_HEAD_def link_simps)

theorem list_add_correct_witness: "list_for_each 0 (list_add_tail 3 0 demo_list) = Some [1, 2, 3]"
  using list_add_correct [OF demo_list(1), of 3] by simp

theorem list_del_move_correct_witness:
  "dlist (list_move_tail 1 0 demo_list) 0 [2, 1] \<and> dlist (list_replace 1 7 demo_list) 0 [7, 2]"
  using list_del_move_correct [of demo_list 0 "[]" 1 "[2]" 7] demo_list(1) by simp

theorem list_splice_cut_correct_witness:
  "dlist (list_cut_position 5 0 1 demo_list) 5 [1] \<and> dlist (list_cut_position 5 0 1 demo_list) 0 [2]"
  using list_splice_cut_correct [of demo_list 0 "[1]" "[2]" 5 "[]"] demo_list by simp

theorem list_traversals_correct_witness:
  "list_for_each_prev 0 demo_list = Some [2, 1] \<and> (\<exists>h'. list_for_each_safe list_del 0 demo_list = Some ([1, 2], h') \<and> list_empty 0 h')"
  using list_traversals_correct [OF demo_list(1)] by (auto simp: list_empty_dlist)

end
