(* ===== verification/KlistEntry.thy ===== *)
theory KlistEntry
  imports KlistProps
begin

text \<open>
  The traversals of \<^verbatim>\<open>cmn/list.h\<close> whose cursor is the structure that a node is a member of.

  Addresses are 32 bit words and \<open>off\<close> is the offset of the member in the structure.  \<open>step\<close> is the
  field a loop follows, \<^term>\<open>lnext\<close> or \<^term>\<open>lprev\<close>.  As for the other traversals, the result are the
  cursors the body of the loop sees, \<^term>\<open>None\<close> when the loop does not end, and with a body that
  changes the links also the heap.
\<close>

section \<open>The traversals\<close>

definition container_of :: "u32 \<Rightarrow> u32 \<Rightarrow> u32" where
  "container_of obj off = obj - off"

definition member_of :: "u32 \<Rightarrow> u32 \<Rightarrow> u32" where
  "member_of pos off = pos + off"

partial_function (option) entry_loop :: "(u32 \<Rightarrow> u32) \<Rightarrow> u32 \<Rightarrow> u32 \<Rightarrow> u32 \<Rightarrow> u32 list option" where
  [code]: "entry_loop step head off pos =
     (if member_of pos off = head then Some []
      else Option.bind (entry_loop step head off (container_of (step (member_of pos off)) off)) (\<lambda>ps. Some (pos # ps)))"

definition list_for_each_entry :: "u32 \<Rightarrow> u32 \<Rightarrow> u32 lheap \<Rightarrow> u32 list option" where
  "list_for_each_entry head off h = entry_loop (lnext h) head off (container_of (lnext h head) off)"

definition list_for_each_entry_reverse :: "u32 \<Rightarrow> u32 \<Rightarrow> u32 lheap \<Rightarrow> u32 list option" where
  "list_for_each_entry_reverse head off h = entry_loop (lprev h) head off (container_of (lprev h head) off)"

text \<open>NULL is the address 0.\<close>

definition list_prepare_entry :: "u32 \<Rightarrow> u32 \<Rightarrow> u32 \<Rightarrow> u32" where
  "list_prepare_entry pos head off = (if pos \<noteq> 0 then pos else container_of head off)"

definition list_for_each_entry_continue :: "u32 \<Rightarrow> u32 \<Rightarrow> u32 \<Rightarrow> u32 lheap \<Rightarrow> u32 list option" where
  "list_for_each_entry_continue pos head off h = entry_loop (lnext h) head off (container_of (lnext h (member_of pos off)) off)"

definition list_for_each_entry_continue_reverse :: "u32 \<Rightarrow> u32 \<Rightarrow> u32 \<Rightarrow> u32 lheap \<Rightarrow> u32 list option" where
  "list_for_each_entry_continue_reverse pos head off h = entry_loop (lprev h) head off (container_of (lprev h (member_of pos off)) off)"

definition list_for_each_entry_from :: "u32 \<Rightarrow> u32 \<Rightarrow> u32 \<Rightarrow> u32 lheap \<Rightarrow> u32 list option" where
  "list_for_each_entry_from pos head off h = entry_loop (lnext h) head off pos"

partial_function (option) entry_safe_loop ::
    "(u32 lheap \<Rightarrow> u32 \<Rightarrow> u32) \<Rightarrow> (u32 \<Rightarrow> u32 lheap \<Rightarrow> u32 lheap) \<Rightarrow> u32 \<Rightarrow> u32 \<Rightarrow> u32 \<Rightarrow> u32 \<Rightarrow> u32 lheap \<Rightarrow> (u32 list \<times> u32 lheap) option" where
  [code]: "entry_safe_loop step body head off pos n h =
     (if member_of pos off = head then Some ([], h)
      else let h = body pos h in
        Option.bind (entry_safe_loop step body head off n (container_of (step h (member_of n off)) off) h)
          (\<lambda>(ps, h). Some (pos # ps, h)))"

definition list_for_each_entry_safe_from ::
    "(u32 \<Rightarrow> u32 lheap \<Rightarrow> u32 lheap) \<Rightarrow> u32 \<Rightarrow> u32 \<Rightarrow> u32 \<Rightarrow> u32 lheap \<Rightarrow> (u32 list \<times> u32 lheap) option" where
  "list_for_each_entry_safe_from body pos head off h =
     entry_safe_loop lnext body head off pos (container_of (lnext h (member_of pos off)) off) h"

definition list_for_each_entry_safe ::
    "(u32 \<Rightarrow> u32 lheap \<Rightarrow> u32 lheap) \<Rightarrow> u32 \<Rightarrow> u32 \<Rightarrow> u32 lheap \<Rightarrow> (u32 list \<times> u32 lheap) option" where
  "list_for_each_entry_safe body head off h =
     (let pos = container_of (lnext h head) off
      in entry_safe_loop lnext body head off pos (container_of (lnext h (member_of pos off)) off) h)"

definition list_for_each_entry_safe_continue ::
    "(u32 \<Rightarrow> u32 lheap \<Rightarrow> u32 lheap) \<Rightarrow> u32 \<Rightarrow> u32 \<Rightarrow> u32 \<Rightarrow> u32 lheap \<Rightarrow> (u32 list \<times> u32 lheap) option" where
  "list_for_each_entry_safe_continue body pos head off h =
     (let pos = container_of (lnext h (member_of pos off)) off
      in entry_safe_loop lnext body head off pos (container_of (lnext h (member_of pos off)) off) h)"

definition list_for_each_entry_safe_reverse ::
    "(u32 \<Rightarrow> u32 lheap \<Rightarrow> u32 lheap) \<Rightarrow> u32 \<Rightarrow> u32 \<Rightarrow> u32 lheap \<Rightarrow> (u32 list \<times> u32 lheap) option" where
  "list_for_each_entry_safe_reverse body head off h =
     (let pos = container_of (lprev h head) off
      in entry_safe_loop lprev body head off pos (container_of (lprev h (member_of pos off)) off) h)"

section \<open>What they visit\<close>

lemma member_container [simp]: "member_of (container_of a off) off = a" "container_of (member_of a off) off = a"
  by (simp_all add: container_of_def member_of_def)

abbreviation entries_of :: "u32 \<Rightarrow> u32 list \<Rightarrow> u32 list" where
  "entries_of off \<equiv> map (\<lambda>a. container_of a off)"

lemma entry_loop_lseg:
  assumes "lseg h a xs b" and "b \<notin> set xs"
  shows "entry_loop (lnext h) b off (container_of (lnext h a) off) = Some (entries_of off xs)"
  using assms
proof (induction xs arbitrary: a)
  case Nil
  then show ?case by (subst entry_loop.simps) simp
next
  case (Cons x xs)
  then show ?case by (subst entry_loop.simps) auto
qed

text \<open>Backwards is forwards in the heap with the two fields exchanged.\<close>

definition mirror :: "'a lheap \<Rightarrow> 'a lheap" where
  "mirror h = \<lparr>lnext = lprev h, lprev = lnext h\<rparr>"

lemma mirror_simps [simp]: "lnext (mirror h) = lprev h" "lprev (mirror h) = lnext h"
  by (simp_all add: mirror_def)

lemma mirror_lseg: "lseg h a xs b \<Longrightarrow> lseg (mirror h) b (rev xs) a"
  by (induction xs arbitrary: a) auto

lemma entry_loop_lseg_back:
  assumes "lseg h a xs b" and "a \<notin> set xs"
  shows "entry_loop (lprev h) a off (container_of (lprev h b) off) = Some (entries_of off (rev xs))"
  using entry_loop_lseg [OF mirror_lseg [OF assms(1)]] assms(2) by simp

text \<open>
  the traversals by structures visit the structures whose members are on the list: all of them forwards
  or backwards, those from a given one on, those after it, and backwards those before it; with
  \<^verbatim>\<open>list_prepare_entry\<close> of NULL the continued traversal begins at the head.
\<close>

theorem list_entry_traversals_correct:
  assumes "dlist h a (us @ x # vs)"
  shows "list_for_each_entry a off h = Some (entries_of off (us @ x # vs)) \<and>
     list_for_each_entry_reverse a off h = Some (entries_of off (rev (us @ x # vs))) \<and>
     list_for_each_entry_from (container_of x off) a off h = Some (entries_of off (x # vs)) \<and>
     list_for_each_entry_continue (container_of x off) a off h = Some (entries_of off vs) \<and>
     list_for_each_entry_continue_reverse (container_of x off) a off h = Some (entries_of off (rev us)) \<and>
     list_for_each_entry_continue (list_prepare_entry 0 a off) a off h = Some (entries_of off (us @ x # vs))"
proof -
  have s: "lseg h a (us @ x # vs) a" "lseg h a us x" "lseg h x vs a" "a \<notin> set (us @ x # vs)" using assms by (auto simp: dlist_def)
  have p: "lseg h (if us = [] then a else last us) (x # vs) a" using s(1) by (cases us rule: rev_cases) auto
  have "lnext h (if us = [] then a else last us) = x" using p by simp
  then have "entry_loop (lnext h) a off (container_of x off) = Some (entries_of off (x # vs))"
    using entry_loop_lseg [OF p, of off] s(4) by simp
  then show ?thesis
    using entry_loop_lseg [OF s(1,4), of off] entry_loop_lseg_back [OF s(1,4), of off] entry_loop_lseg [OF s(3), of off]
      entry_loop_lseg_back [OF s(2), of off] s(4)
    by (simp add: list_for_each_entry_def list_for_each_entry_reverse_def list_for_each_entry_from_def list_for_each_entry_continue_def
        list_for_each_entry_continue_reverse_def list_prepare_entry_def)
qed

section \<open>Taking structures out on the way\<close>

text \<open>
  What a safe traversal relies on: \<open>walk h xs\<close> says that following \<open>step\<close> from \<open>start\<close> passes \<open>xs\<close> and
  comes to \<open>head\<close>, and that taking out the first of \<open>xs\<close> leaves such a way.
\<close>

locale entry_walk =
  fixes step :: "u32 lheap \<Rightarrow> u32 \<Rightarrow> u32" and head start :: u32 and walk :: "u32 lheap \<Rightarrow> u32 list \<Rightarrow> bool"
  assumes walk_end: "walk h [] \<Longrightarrow> step h start = head"
    and walk_node: "walk h (x # xs) \<Longrightarrow> step h start = x \<and> x \<noteq> head \<and> walk (list_del x h) xs \<and> step (list_del x h) start = step h x"
begin

lemma safe_takes_all:
  assumes "walk h xs" and "pos = step h start"
  shows "\<exists>h'. entry_safe_loop step (\<lambda>p. list_del (member_of p off)) head off (container_of pos off) (container_of (step h pos) off) h
     = Some (entries_of off xs, h') \<and> walk h' []"
  using assms
proof (induction xs arbitrary: h pos)
  case Nil
  then show ?case using walk_end by (subst entry_safe_loop.simps) simp
next
  case (Cons x xs)
  note n = walk_node [OF Cons.prems(1)]
  then obtain h' where "entry_safe_loop step (\<lambda>p. list_del (member_of p off)) head off (container_of (step h x) off)
      (container_of (step (list_del x h) (step h x)) off) (list_del x h) = Some (entries_of off xs, h')" "walk h' []"
    using Cons.IH [of "list_del x h" "step h x"] by auto
  then show ?case using n Cons.prems(2) by (subst entry_safe_loop.simps) (simp add: Let_def)
qed

end

lemma walk_on:
  assumes d: "dlist h a (us @ x # xs)"
  defines "b \<equiv> if us = [] then a else last us"
  shows "lnext h b = x \<and> x \<noteq> a \<and> dlist (list_del x h) a (us @ xs) \<and> lnext (list_del x h) b = lnext h x"
proof -
  have l: "dlist (list_del x h) a (us @ xs)" using list_del_dlist [OF d, of x] d by (auto simp: dlist_def remove1_append)
  have s: "lseg h b (x # xs) a" using d unfolding b_def dlist_def by (cases us rule: rev_cases) auto
  have "lseg (list_del x h) b xs a" using l unfolding b_def dlist_def by (cases us rule: rev_cases) auto
  then have "lnext (list_del x h) b = lnext h x" using s by (cases xs) auto
  then show ?thesis using s l d by (auto simp: dlist_def)
qed

interpretation onward: entry_walk lnext a "if us = [] then a else last us" "\<lambda>h xs. dlist h a (us @ xs)" for a us
proof (unfold_locales, goal_cases)
  case (1 h)
  then show ?case by (cases us rule: rev_cases) (auto simp: dlist_def)
next
  case (2 h x xs)
  then show ?case by (rule walk_on)
qed

lemma mirror_dlist: "dlist h a xs \<Longrightarrow> dlist (mirror h) a (rev xs)"
  by (simp add: dlist_def mirror_lseg)

lemma mirror_mirror [simp]: "mirror (mirror h) = h"
  by (simp add: mirror_def)

lemma mirror_del: "list_del x (mirror h) = mirror (list_del x h)"
  by (simp add: mirror_def list_del_def raw_list_del_def set_next_def set_prev_def)

interpretation backward: entry_walk lprev a a "\<lambda>h xs. dlist (mirror h) a xs" for a
proof (unfold_locales, goal_cases)
  case (1 h)
  then show ?case by (simp add: dlist_def)
next
  case (2 h x xs)
  then show ?case using walk_on [of "mirror h" a "[]" x xs] by (simp add: mirror_del)
qed

text \<open>
  the safe traversals with a body that takes the structure out visit all structures, forwards or
  backwards, and leave the list empty; from or after a given structure they take out the rest and leave
  what is before.
\<close>

theorem list_entry_safe_traversals_correct:
  assumes d: "dlist h a (us @ x # vs)" and del: "del = (\<lambda>p. list_del (member_of p off))"
  shows "(\<exists>h'. list_for_each_entry_safe del a off h = Some (entries_of off (us @ x # vs), h') \<and> dlist h' a []) \<and>
     (\<exists>h'. list_for_each_entry_safe_reverse del a off h = Some (entries_of off (rev (us @ x # vs)), h') \<and> dlist h' a []) \<and>
     (\<exists>h'. list_for_each_entry_safe_from del (container_of x off) a off h = Some (entries_of off (x # vs), h') \<and> dlist h' a us) \<and>
     (\<exists>h'. list_for_each_entry_safe_continue del (container_of x off) a off h = Some (entries_of off vs, h') \<and> dlist h' a (us @ [x]))"
proof -
  have x: "lnext h (if us = [] then a else last us) = x" using walk_on [OF d] by simp
  have "(\<exists>h'. list_for_each_entry_safe del a off h = Some (entries_of off (us @ x # vs), h') \<and> dlist h' a [])"
    using onward.safe_takes_all [where us = "[]" and a = a and h = h and xs = "us @ x # vs" and off = off, OF _ refl] d by (simp add: list_for_each_entry_safe_def del Let_def)
  moreover have "(\<exists>h'. list_for_each_entry_safe_from del (container_of x off) a off h = Some (entries_of off (x # vs), h') \<and> dlist h' a us)"
    using onward.safe_takes_all [where us = us and a = a and h = h and xs = "x # vs" and off = off, OF d refl] x by (simp add: list_for_each_entry_safe_from_def del)
  moreover have "(\<exists>h'. list_for_each_entry_safe_continue del (container_of x off) a off h = Some (entries_of off vs, h') \<and> dlist h' a (us @ [x]))"
    using onward.safe_takes_all [where us = "us @ [x]" and a = a and h = h and xs = vs and off = off, OF _ refl] d by (simp add: list_for_each_entry_safe_continue_def del Let_def)
  moreover have "(\<exists>h'. list_for_each_entry_safe_reverse del a off h = Some (entries_of off (rev (us @ x # vs)), h') \<and> dlist h' a [])"
  proof -
    obtain h' where h': "list_for_each_entry_safe_reverse del a off h = Some (entries_of off (rev (us @ x # vs)), h')" "dlist (mirror h') a []"
      using backward.safe_takes_all [where a = a and h = h and off = off, OF mirror_dlist [OF d] refl]
      by (auto simp: list_for_each_entry_safe_reverse_def del Let_def)
    from mirror_dlist [OF h'(2)] h'(1) show ?thesis by auto
  qed
  ultimately show ?thesis by blast
qed

section \<open>Witnesses\<close>

text \<open>Structures at 100 and 200 whose member has the offset 8, on the list with the head at 40.\<close>

definition demo_entries :: "u32 lheap" where
  "demo_entries = list_add_tail 208 40 (list_add_tail 108 40 (INIT_LIST_HEAD 40 \<lparr>lnext = (\<lambda>a. a), lprev = (\<lambda>a. a)\<rparr>))"

lemma demo_entries: "dlist demo_entries 40 ([] @ 108 # [208])"
  by (simp add: demo_entries_def dlist_def list_add_tail_def raw_list_add_def Let_def INIT_LIST_HEAD_def link_simps)

theorem list_entry_traversals_correct_witness:
  "list_for_each_entry 40 8 demo_entries = Some [100, 200] \<and> list_for_each_entry_reverse 40 8 demo_entries = Some [200, 100] \<and>
   list_for_each_entry_continue 100 40 8 demo_entries = Some [200]"
  using list_entry_traversals_correct [OF demo_entries, of 8] by (simp add: container_of_def)

theorem list_entry_safe_traversals_correct_witness:
  "\<exists>h'. list_for_each_entry_safe_continue (\<lambda>p. list_del (member_of p 8)) 100 40 8 demo_entries = Some ([200], h') \<and> dlist h' 40 [108]"
  using list_entry_safe_traversals_correct [OF demo_entries refl, of 8] by (simp add: container_of_def)

end
