(* ===== verification/Rbtree.thy ===== *)
theory Rbtree
  imports Prelude
begin

text \<open>
  The red-black trees of \<^verbatim>\<open>cmn/rbtree.c\<close> and \<^verbatim>\<open>cmn/rbtree.h\<close>, on a heap of nodes.

  \<^verbatim>\<open>rb_parent_color\<close> packs the parent pointer and the colour bit into one word; here they
  are two fields, and every routine that assigns the packed word assigns the fields it changes.
  The operations of the lock of a root do nothing (theory Lock) and are left out.
\<close>

section \<open>Nodes\<close>

record rbn =
  rb_par :: "nat option"
  rb_black :: bool
  rb_left :: "nat option"
  rb_right :: "nat option"

record rbt =
  nodes :: "nat \<Rightarrow> rbn"
  rb_node :: "nat option"

definition on_node :: "nat \<Rightarrow> (rbn \<Rightarrow> rbn) \<Rightarrow> rbt \<Rightarrow> rbt" where
  "on_node a g s = s\<lparr>nodes := (nodes s)(a := g (nodes s a))\<rparr>"

definition rb_set_parent :: "nat \<Rightarrow> nat option \<Rightarrow> rbt \<Rightarrow> rbt" where
  "rb_set_parent a p = on_node a (\<lambda>n. n\<lparr>rb_par := p\<rparr>)"

definition rb_set_color :: "nat \<Rightarrow> bool \<Rightarrow> rbt \<Rightarrow> rbt" where
  "rb_set_color a b = on_node a (\<lambda>n. n\<lparr>rb_black := b\<rparr>)"

definition set_left :: "nat \<Rightarrow> nat option \<Rightarrow> rbt \<Rightarrow> rbt" where
  "set_left a q = on_node a (\<lambda>n. n\<lparr>rb_left := q\<rparr>)"

definition set_right :: "nat \<Rightarrow> nat option \<Rightarrow> rbt \<Rightarrow> rbt" where
  "set_right a q = on_node a (\<lambda>n. n\<lparr>rb_right := q\<rparr>)"

definition rb_set_parent_opt :: "nat option \<Rightarrow> nat option \<Rightarrow> rbt \<Rightarrow> rbt" where
  "rb_set_parent_opt q p s = (case q of None \<Rightarrow> s | Some a \<Rightarrow> rb_set_parent a p s)"

definition is_red :: "nat option \<Rightarrow> rbt \<Rightarrow> bool" where
  "is_red q s = (case q of None \<Rightarrow> False | Some a \<Rightarrow> \<not> rb_black (nodes s a))"

text \<open>The assignment to the child pointer of \<open>parent\<close> (or to the root) that pointed to \<open>a\<close>.\<close>

definition set_child_left_first :: "nat option \<Rightarrow> nat \<Rightarrow> nat option \<Rightarrow> rbt \<Rightarrow> rbt" where
  "set_child_left_first parent a q s =
     (case parent of None \<Rightarrow> s\<lparr>rb_node := q\<rparr>
      | Some p \<Rightarrow> if rb_left (nodes s p) = Some a then set_left p q s else set_right p q s)"

definition set_child_right_first :: "nat option \<Rightarrow> nat \<Rightarrow> nat option \<Rightarrow> rbt \<Rightarrow> rbt" where
  "set_child_right_first parent a q s =
     (case parent of None \<Rightarrow> s\<lparr>rb_node := q\<rparr>
      | Some p \<Rightarrow> if rb_right (nodes s p) = Some a then set_right p q s else set_left p q s)"

section \<open>Rotations\<close>

definition rb_rotate_left :: "nat \<Rightarrow> rbt \<Rightarrow> rbt res" where
  "rb_rotate_left node s =
     (let parent = rb_par (nodes s node) in
      case rb_right (nodes s node) of
        None \<Rightarrow> Inl NullDeref
      | Some right \<Rightarrow>
          let rl = rb_left (nodes s right);
              s = set_right node rl s;
              s = rb_set_parent_opt rl (Some node) s;
              s = set_left right (Some node) s;
              s = rb_set_parent right parent s;
              s = set_child_left_first parent node (Some right) s
          in Inr (rb_set_parent node (Some right) s))"

definition rb_rotate_right :: "nat \<Rightarrow> rbt \<Rightarrow> rbt res" where
  "rb_rotate_right node s =
     (let parent = rb_par (nodes s node) in
      case rb_left (nodes s node) of
        None \<Rightarrow> Inl NullDeref
      | Some left \<Rightarrow>
          let lr = rb_right (nodes s left);
              s = set_left node lr s;
              s = rb_set_parent_opt lr (Some node) s;
              s = set_right left (Some node) s;
              s = rb_set_parent left parent s;
              s = set_child_right_first parent node (Some left) s
          in Inr (rb_set_parent node (Some left) s))"

section \<open>Insertion\<close>

text \<open>The place a new node is linked to: \<^verbatim>\<open>&root->rb_node\<close> or a child field of a node.\<close>

datatype rlink = RootLink | LeftOf nat | RightOf nat

definition rb_link_node :: "nat \<Rightarrow> nat option \<Rightarrow> rlink \<Rightarrow> rbt \<Rightarrow> rbt" where
  "rb_link_node node parent link s =
     (let s = on_node node (\<lambda>n. n\<lparr>rb_par := parent, rb_black := False, rb_left := None, rb_right := None\<rparr>) s in
      case link of RootLink \<Rightarrow> s\<lparr>rb_node := Some node\<rparr>
      | LeftOf p \<Rightarrow> set_left p (Some node) s
      | RightOf p \<Rightarrow> set_right p (Some node) s)"

text \<open>The uncle is red: recolour, and the loop goes on at the grandparent.\<close>

definition recolour :: "nat \<Rightarrow> nat \<Rightarrow> nat \<Rightarrow> rbt \<Rightarrow> rbt" where
  "recolour uncle parent gparent s =
     rb_set_color gparent False (rb_set_color parent True (rb_set_color uncle True s))"

partial_function (option) insert_loop :: "nat \<Rightarrow> rbt \<Rightarrow> rbt res option" where
  [code]: "insert_loop node s =
     (case rb_par (nodes s node) of
        None \<Rightarrow> Some (Inr s)
      | Some parent \<Rightarrow>
          if rb_black (nodes s parent) then Some (Inr s)
          else case rb_par (nodes s parent) of
            None \<Rightarrow> Some (Inl NullDeref)
          | Some gparent \<Rightarrow>
              if rb_left (nodes s gparent) = Some parent then
                if is_red (rb_right (nodes s gparent)) s
                then insert_loop gparent (recolour (the (rb_right (nodes s gparent))) parent gparent s)
                else
                  (case (if rb_right (nodes s parent) = Some node
                         then map_sum id (\<lambda>s. (parent, node, s)) (rb_rotate_left parent s)
                         else Inr (node, parent, s)) of
                     Inl e \<Rightarrow> Some (Inl e)
                   | Inr (node', parent', s1) \<Rightarrow>
                       (case rb_rotate_right gparent (rb_set_color gparent False (rb_set_color parent' True s1)) of
                          Inl e \<Rightarrow> Some (Inl e)
                        | Inr s2 \<Rightarrow> insert_loop node' s2))
              else
                if is_red (rb_left (nodes s gparent)) s
                then insert_loop gparent (recolour (the (rb_left (nodes s gparent))) parent gparent s)
                else
                  (case (if rb_left (nodes s parent) = Some node
                         then map_sum id (\<lambda>s. (parent, node, s)) (rb_rotate_right parent s)
                         else Inr (node, parent, s)) of
                     Inl e \<Rightarrow> Some (Inl e)
                   | Inr (node', parent', s1) \<Rightarrow>
                       (case rb_rotate_left gparent (rb_set_color gparent False (rb_set_color parent' True s1)) of
                          Inl e \<Rightarrow> Some (Inl e)
                        | Inr s2 \<Rightarrow> insert_loop node' s2)))"

definition rb_insert_color :: "nat \<Rightarrow> rbt \<Rightarrow> rbt res" where
  "rb_insert_color node s =
     (case insert_loop node s of
        None \<Rightarrow> Inl NoReturn
      | Some r \<Rightarrow> andThen r (\<lambda>s. case rb_node s of None \<Rightarrow> Inl NullDeref
                                 | Some r \<Rightarrow> Inr (rb_set_color r True s)))"

section \<open>Walking\<close>

partial_function (option) leftmost :: "nat \<Rightarrow> rbt \<Rightarrow> nat option" where
  [code]: "leftmost n s = (case rb_left (nodes s n) of None \<Rightarrow> Some n | Some l \<Rightarrow> leftmost l s)"

partial_function (option) rightmost :: "nat \<Rightarrow> rbt \<Rightarrow> nat option" where
  [code]: "rightmost n s = (case rb_right (nodes s n) of None \<Rightarrow> Some n | Some r \<Rightarrow> rightmost r s)"

text \<open>
  The result of a walk that may not end: \<^term>\<open>None\<close> is not returning.  \<^verbatim>\<open>rb_first\<close> holds the
  lock of the tree while it walks.  \<^verbatim>\<open>sync_lock\<close> and \<^verbatim>\<open>sync_unlock\<close> do nothing when the library is
  built with \<^verbatim>\<open>SFS_WANTED\<close>; in the other build they are the semaphore of theory Semaphore, and the walk
  is what happens while it is held.
\<close>

definition rb_first :: "rbt \<Rightarrow> nat option option" where
  "rb_first s = (case rb_node s of None \<Rightarrow> Some None | Some n \<Rightarrow> map_option Some (leftmost n s))"

definition rb_last :: "rbt \<Rightarrow> nat option option" where
  "rb_last s = (case rb_node s of None \<Rightarrow> Some None | Some n \<Rightarrow> map_option Some (rightmost n s))"

partial_function (option) up_right :: "nat \<Rightarrow> rbt \<Rightarrow> nat option option" where
  [code]: "up_right n s =
     (case rb_par (nodes s n) of None \<Rightarrow> Some None
      | Some p \<Rightarrow> if rb_right (nodes s p) = Some n then up_right p s else Some (Some p))"

partial_function (option) up_left :: "nat \<Rightarrow> rbt \<Rightarrow> nat option option" where
  [code]: "up_left n s =
     (case rb_par (nodes s n) of None \<Rightarrow> Some None
      | Some p \<Rightarrow> if rb_left (nodes s p) = Some n then up_left p s else Some (Some p))"

definition rb_next :: "nat \<Rightarrow> rbt \<Rightarrow> nat option option" where
  "rb_next n s =
     (if rb_par (nodes s n) = Some n then Some None
      else case rb_right (nodes s n) of
        Some r \<Rightarrow> map_option Some (leftmost r s)
      | None \<Rightarrow> up_right n s)"

definition rb_prev :: "nat \<Rightarrow> rbt \<Rightarrow> nat option option" where
  "rb_prev n s =
     (if rb_par (nodes s n) = Some n then Some None
      else case rb_left (nodes s n) of
        Some l \<Rightarrow> map_option Some (rightmost l s)
      | None \<Rightarrow> up_left n s)"

definition RB_CLEAR_NODE :: "nat \<Rightarrow> rbt \<Rightarrow> rbt" where
  "RB_CLEAR_NODE n s = rb_set_parent n (Some n) s"

definition rb_replace_node :: "nat \<Rightarrow> nat \<Rightarrow> rbt \<Rightarrow> rbt" where
  "rb_replace_node victim new s =
     (let s = set_child_left_first (rb_par (nodes s victim)) victim (Some new) s;
          s = rb_set_parent_opt (rb_left (nodes s victim)) (Some new) s;
          s = rb_set_parent_opt (rb_right (nodes s victim)) (Some new) s
      in on_node new (\<lambda>_. nodes s victim) s)"

section \<open>Removal\<close>

text \<open>\<^verbatim>\<open>!q || rb_is_black (q)\<close>\<close>

definition nil_or_black :: "nat option \<Rightarrow> rbt \<Rightarrow> bool" where
  "nil_or_black q s = (case q of None \<Rightarrow> True | Some a \<Rightarrow> rb_black (nodes s a))"

definition set_color_opt :: "nat option \<Rightarrow> bool \<Rightarrow> rbt \<Rightarrow> rbt res" where
  "set_color_opt q b s = (case q of None \<Rightarrow> Inl NullDeref | Some a \<Rightarrow> Inr (rb_set_color a b s))"

text \<open>
  One side of the loop of \<^verbatim>\<open>__rb_erase_color\<close>: \<open>near\<close> and \<open>far\<close> read the child
  on the side of the node and on the side of its sibling, \<open>rot_near\<close> and \<open>rot_far\<close> rotate
  towards them.  The result is the state with \<^term>\<open>None\<close> when the loop is left, and the new
  \<^verbatim>\<open>node\<close> otherwise.  \<open>erase_tail\<close> is the part behind the rotation for a red sibling.
\<close>

definition erase_tail ::
    "(rbn \<Rightarrow> nat option) \<Rightarrow> (rbn \<Rightarrow> nat option) \<Rightarrow> (nat \<Rightarrow> rbt \<Rightarrow> rbt res) \<Rightarrow> (nat \<Rightarrow> rbt \<Rightarrow> rbt res) \<Rightarrow>
     nat \<Rightarrow> rbt \<Rightarrow> (nat option \<times> rbt) res" where
  "erase_tail near far rot_near rot_far parent s =
     (case far (nodes s parent) of None \<Rightarrow> Inl NullDeref
      | Some other \<Rightarrow>
          if nil_or_black (near (nodes s other)) s \<and> nil_or_black (far (nodes s other)) s
          then Inr (Some parent, rb_set_color other False s)
          else
            andThen (if nil_or_black (far (nodes s other)) s
                     then andThen (set_color_opt (near (nodes s other)) True s) (\<lambda>s.
                          rot_far other (rb_set_color other False s))
                     else Inr s) (\<lambda>s.
            case far (nodes s parent) of None \<Rightarrow> Inl NullDeref
            | Some other \<Rightarrow>
                let s = rb_set_color other (rb_black (nodes s parent)) s;
                    s = rb_set_color parent True s
                in andThen (set_color_opt (far (nodes s other)) True s) (\<lambda>s.
                   andThen (rot_near parent s) (\<lambda>s. Inr (None, s)))))"

definition erase_side ::
    "(rbn \<Rightarrow> nat option) \<Rightarrow> (rbn \<Rightarrow> nat option) \<Rightarrow> (nat \<Rightarrow> rbt \<Rightarrow> rbt res) \<Rightarrow> (nat \<Rightarrow> rbt \<Rightarrow> rbt res) \<Rightarrow>
     nat \<Rightarrow> rbt \<Rightarrow> (nat option \<times> rbt) res" where
  "erase_side near far rot_near rot_far parent s =
     (case far (nodes s parent) of None \<Rightarrow> Inl NullDeref
      | Some other \<Rightarrow>
          andThen (if \<not> rb_black (nodes s other)
                   then rot_near parent (rb_set_color parent False (rb_set_color other True s))
                   else Inr s)
            (erase_tail near far rot_near rot_far parent))"

partial_function (option) erase_loop :: "nat option \<Rightarrow> nat option \<Rightarrow> rbt \<Rightarrow> (nat option \<times> rbt) res option" where
  [code]: "erase_loop node parent s =
     (if nil_or_black node s \<and> node \<noteq> rb_node s then
        case parent of None \<Rightarrow> Some (Inl NullDeref)
        | Some p \<Rightarrow>
            (case (if rb_left (nodes s p) = node
                   then erase_side rb_left rb_right rb_rotate_left rb_rotate_right p s
                   else erase_side rb_right rb_left rb_rotate_right rb_rotate_left p s) of
               Inl e \<Rightarrow> Some (Inl e)
             | Inr (None, s) \<Rightarrow> Some (Inr (rb_node s, s))
             | Inr (Some n, s) \<Rightarrow> erase_loop (Some n) (rb_par (nodes s n)) s)
      else Some (Inr (node, s)))"

definition rb_erase_color :: "nat option \<Rightarrow> nat option \<Rightarrow> rbt \<Rightarrow> rbt res" where
  "rb_erase_color node parent s =
     (case erase_loop node parent s of
        None \<Rightarrow> Inl NoReturn
      | Some r \<Rightarrow> andThen r (\<lambda>(n, s). case n of None \<Rightarrow> Inr s | Some a \<Rightarrow> Inr (rb_set_color a True s)))"

text \<open>The node with at most one child is spliced out; the result is its child, parent and colour.\<close>

definition splice_out :: "nat \<Rightarrow> nat option \<Rightarrow> rbt \<Rightarrow> nat option \<times> bool \<times> rbt" where
  "splice_out node child s =
     (let parent = rb_par (nodes s node);
          color = rb_black (nodes s node);
          s = rb_set_parent_opt child parent s;
          s = set_child_left_first parent node child s
      in (parent, color, s))"

text \<open>With two children the successor takes the place of the node.\<close>

definition replace_by_successor :: "nat \<Rightarrow> nat \<Rightarrow> rbt \<Rightarrow> (nat option \<times> nat option \<times> bool \<times> rbt) res" where
  "replace_by_successor old node s =
     (let s = set_child_left_first (rb_par (nodes s old)) old (Some node) s;
          child = rb_right (nodes s node);
          color = rb_black (nodes s node)
      in andThen
           (case rb_par (nodes s node) of None \<Rightarrow> Inl NullDeref
            | Some parent \<Rightarrow>
                if parent = old then Inr (node, s)
                else let s = rb_set_parent_opt child (Some parent) s;
                         s = set_left parent child s;
                         s = set_right node (rb_right (nodes s old)) s
                     in Inr (parent, rb_set_parent_opt (rb_right (nodes s old)) (Some node) s)) (\<lambda>(parent, s).
         let s = on_node node (\<lambda>n. n\<lparr>rb_par := rb_par (nodes s old), rb_black := rb_black (nodes s old)\<rparr>) s;
             s = set_left node (rb_left (nodes s old)) s;
             s = rb_set_parent_opt (rb_left (nodes s old)) (Some node) s
         in Inr (child, Some parent, color, s)))"

definition rb_erase :: "nat \<Rightarrow> rbt \<Rightarrow> rbt res" where
  "rb_erase node s =
     (case (rb_left (nodes s node), rb_right (nodes s node)) of
        (Some l, Some r) \<Rightarrow>
          (case leftmost r s of None \<Rightarrow> Inl NoReturn
           | Some succ \<Rightarrow>
               andThen (replace_by_successor node succ s) (\<lambda>(child, parent, color, s).
                 if color then rb_erase_color child parent s else Inr s))
      | (l, r) \<Rightarrow>
          let child = (if l = None then r else l) in
          case splice_out node child s of (parent, color, s) \<Rightarrow>
            if color then rb_erase_color child parent s else Inr s)"

end
