(* ===== verification/RbInsert.thy ===== *)
theory RbInsert
  imports Rbtree
begin

text \<open>
  The pointer trees of theory Rbtree as trees with a focus, and the proof that linking a node
  and \<^verbatim>\<open>rb_insert_color\<close> is an insertion into a balanced tree.

  A tree is cut at the node the code is working on: a context, the list of the ancestors with
  their other subtrees from the focus upwards, and the subtree in the focus.  Rotations and
  colour changes are local in this view, and moving the focus does not change the heap.
\<close>

section \<open>Trees, contexts and the heap\<close>

datatype tree = Lf | Nd tree nat bool tree

fun inord :: "tree \<Rightarrow> nat list" where
  "inord Lf = []"
| "inord (Nd l a c r) = inord l @ a # inord r"

text \<open>A step upwards: whether the focus is the left child, the ancestor, its colour, its other subtree.\<close>

type_synonym step = "bool \<times> nat \<times> bool \<times> tree"

fun join :: "step \<Rightarrow> tree \<Rightarrow> tree" where
  "join (d, a, c, u) t = (if d then Nd t a c u else Nd u a c t)"

fun plug :: "step list \<Rightarrow> tree \<Rightarrow> tree" where
  "plug [] t = t"
| "plug (st # ctx) t = plug ctx (join st t)"

fun ctx_nodes :: "step list \<Rightarrow> nat list" where
  "ctx_nodes [] = []"
| "ctx_nodes ((d, a, c, u) # ctx) = a # inord u @ ctx_nodes ctx"

fun trep :: "(nat \<Rightarrow> rbn) \<Rightarrow> nat option \<Rightarrow> tree \<Rightarrow> nat option \<Rightarrow> bool" where
  "trep h par Lf q = (q = None)"
| "trep h par (Nd l a c r) q = (q = Some a \<and> rb_par (h a) = par \<and> rb_black (h a) = c \<and>
     trep h (Some a) l (rb_left (h a)) \<and> trep h (Some a) r (rb_right (h a)))"

text \<open>The context leaves a hole: the parent of its content and the pointer to it.\<close>

fun crep :: "(nat \<Rightarrow> rbn) \<Rightarrow> nat option \<Rightarrow> step list \<Rightarrow> nat option \<Rightarrow> nat option \<Rightarrow> bool" where
  "crep h rt [] par q = (par = None \<and> q = rt)"
| "crep h rt ((d, a, c, u) # ctx) par q =
     (par = Some a \<and> rb_black (h a) = c \<and>
      (if d then rb_left (h a) = q \<and> trep h (Some a) u (rb_right (h a))
       else rb_right (h a) = q \<and> trep h (Some a) u (rb_left (h a))) \<and>
      crep h rt ctx (rb_par (h a)) (Some a))"

definition rep :: "rbt \<Rightarrow> step list \<Rightarrow> tree \<Rightarrow> bool" where
  "rep s ctx t \<longleftrightarrow> distinct (inord t @ ctx_nodes ctx) \<and>
     (\<exists>par q. crep (nodes s) (rb_node s) ctx par q \<and> trep (nodes s) par t q)"

lemma rep_move: "rep s (st # ctx) t \<longleftrightarrow> rep s ctx (join st t)"
  by (cases st) (auto simp: rep_def)

lemma rep_plug: "rep s (ctx' @ ctx) t \<longleftrightarrow> rep s ctx (plug ctx' t)"
  by (induction ctx' arbitrary: t) (simp_all add: rep_move)

lemma trep_cong: "(\<And>x. x \<in> set (inord t) \<Longrightarrow> h' x = h x) \<Longrightarrow> trep h' par t q = trep h par t q"
  by (induction t arbitrary: par q) auto

lemma crep_cong: "(\<And>x. x \<in> set (ctx_nodes ctx) \<Longrightarrow> h' x = h x) \<Longrightarrow> crep h' rt ctx par q = crep h rt ctx par q"
proof (induction ctx arbitrary: par q)
  case (Cons st ctx)
  obtain d a c u where st: "st = (d, a, c, u)" by (metis surj_pair)
  have "trep h' (Some a) u x = trep h (Some a) u x" for x
    using Cons.prems st by (intro trep_cong) auto
  moreover have "crep h' rt ctx x y = crep h rt ctx x y" for x y
    using Cons.prems st by (intro Cons.IH) auto
  ultimately show ?case using Cons.prems [of a] st by simp
qed simp

lemma trep_upd [simp]: "a \<notin> set (inord t) \<Longrightarrow> trep (h(a := v)) par t q = trep h par t q"
  by (rule trep_cong) auto

lemma crep_upd [simp]: "a \<notin> set (ctx_nodes ctx) \<Longrightarrow> crep (h(a := v)) rt ctx par q = crep h rt ctx par q"
  by (rule crep_cong) auto

lemma trep_root: "trep h par t q \<Longrightarrow> q = (case t of Lf \<Rightarrow> None | Nd l a c r \<Rightarrow> Some a)"
  by (cases t) auto

lemma trep_not_root: "trep h par t q \<Longrightarrow> a \<notin> set (inord t) \<Longrightarrow> q \<noteq> Some a"
  by (cases t) auto

text \<open>Hanging a subtree under another parent.\<close>

lemma trep_reparent:
  assumes "trep h par t q" and "distinct (inord t)"
  shows "trep (case q of None \<Rightarrow> h | Some a \<Rightarrow> h(a := (h a)\<lparr>rb_par := p\<rparr>)) p t q"
  using assms by (cases t) auto

text \<open>Putting another content into the hole of a context.\<close>

definition fill :: "step list \<Rightarrow> nat option \<Rightarrow> rbt \<Rightarrow> rbt" where
  "fill ctx q s = (case ctx of [] \<Rightarrow> s\<lparr>rb_node := q\<rparr>
     | (d, a, c, u) # _ \<Rightarrow> if d then set_left a q s else set_right a q s)"

lemma fill_crep:
  assumes "crep (nodes s) (rb_node s) ctx par q" and "distinct (ctx_nodes ctx)"
  shows "crep (nodes (fill ctx q' s)) (rb_node (fill ctx q' s)) ctx par q'"
proof (cases ctx)
  case Nil
  with assms show ?thesis by (simp add: fill_def)
next
  case (Cons st ctx')
  obtain d a c u where st: "st = (d, a, c, u)" by (metis surj_pair)
  let ?h = "nodes (fill ctx q' s)"
  have h: "?h x = nodes s x" if "x \<noteq> a" for x
    using Cons st that by (simp add: fill_def set_left_def set_right_def on_node_def)
  have "trep ?h (Some a) u y = trep (nodes s) (Some a) u y" for y
    using assms(2) Cons st by (intro trep_cong h) auto
  moreover have "crep ?h rt ctx' x y = crep (nodes s) rt ctx' x y" for rt x y
    using assms(2) Cons st by (intro crep_cong h) auto
  ultimately show ?thesis
    using assms Cons st by (auto simp: fill_def set_left_def set_right_def on_node_def)
qed

text \<open>The code finds the pointer to overwrite by comparing the child fields of the parent.\<close>

lemma set_child_fill:
  assumes "crep (nodes s) rt ctx par (Some n)" and "n \<notin> set (ctx_nodes ctx)"
  shows "set_child_left_first par n q s = fill ctx q s" and "set_child_right_first par n q s = fill ctx q s"
  using assms trep_not_root [of "nodes s" _ _ _ n]
  by (cases ctx; auto simp: set_child_left_first_def set_child_right_first_def fill_def split: if_splits)+

lemma fill_other: "x \<notin> set (ctx_nodes ctx) \<Longrightarrow> nodes (fill ctx q s) x = nodes s x"
  by (cases ctx) (auto simp: fill_def set_left_def set_right_def on_node_def)

lemma fill_trep:
  "set (inord t) \<inter> set (ctx_nodes ctx) = {} \<Longrightarrow> trep (nodes (fill ctx q' s)) par t q = trep (nodes s) par t q"
  by (rule trep_cong) (auto intro!: fill_other)

lemma on_node_simps [simp]:
  "nodes (on_node a g s) = (nodes s)(a := g (nodes s a))" "rb_node (on_node a g s) = rb_node s"
  by (simp_all add: on_node_def)

lemma reparent_nodes:
  "nodes (rb_set_parent_opt q p s) = (case q of None \<Rightarrow> nodes s | Some a \<Rightarrow> (nodes s)(a := (nodes s a)\<lparr>rb_par := p\<rparr>))"
  "rb_node (rb_set_parent_opt q p s) = rb_node s"
  by (simp_all add: rb_set_parent_opt_def rb_set_parent_def split: option.splits)

section \<open>Local changes\<close>

lemma rep_color:
  assumes "rep s ctx (Nd l a c r)"
  shows "rep (rb_set_color a b s) ctx (Nd l a b r)"
  using assms by (auto simp: rep_def rb_set_color_def)

text \<open>
  Hanging a changed subtree into the context: if the new content \<open>t'\<close> is represented in a state
  that agrees on the context, filling the hole gives the whole tree.
\<close>

lemma rep_fill:
  assumes "crep (nodes s) (rb_node s) ctx par q" and "trep (nodes s) par t' q'"
    and "distinct (inord t' @ ctx_nodes ctx)"
  shows "rep (fill ctx q' s) ctx t'"
  using fill_crep [OF assms(1), of q'] fill_trep [of t' ctx q' s par q'] assms(2,3)
  unfolding rep_def by auto

lemma rep_rotate_left:
  assumes "rep s ctx (Nd a n cn (Nd b r cr d))"
  shows "\<exists>s'. rb_rotate_left n s = Inr s' \<and> rep s' ctx (Nd (Nd a n cn b) r cr d)"
proof -
  let ?h = "nodes s"
  obtain par q where cr: "crep ?h (rb_node s) ctx par q" and tr: "trep ?h par (Nd a n cn (Nd b r cr d)) q"
    and dist: "distinct (inord (Nd a n cn (Nd b r cr d)) @ ctx_nodes ctx)"
    using assms by (auto simp: rep_def)
  have q: "q = Some n" "rb_right (?h n) = Some r" "rb_par (?h n) = par" using tr by auto
  let ?rl = "rb_left (?h r)"
  define s1 where "s1 = rb_set_parent_opt ?rl (Some n) (set_right n ?rl s)"
  define s2 where "s2 = rb_set_parent r par (set_left r (Some n) s1)"
  have out: "n \<notin> set (ctx_nodes ctx)" "r \<notin> set (ctx_nodes ctx)" using dist by auto
  have rl: "x \<notin> set (inord a) \<and> x \<notin> set (inord d) \<and> x \<noteq> n \<and> x \<noteq> r \<and> x \<notin> set (ctx_nodes ctx)"
    if "?rl = Some x" for x using tr dist that by (cases b) auto
  have c1: "crep (nodes s1) (rb_node s1) ctx par (Some n)"
    using cr q(1) out dist rl by (auto simp: s1_def reparent_nodes set_right_def split: option.splits)
  then have c2: "crep (nodes s2) (rb_node s2) ctx par (Some n)"
    using out by (simp add: s2_def rb_set_parent_def set_left_def)
  let ?s3 = "rb_set_parent n (Some r) s2"
  have "set_child_left_first par n (Some r) s2 = fill ctx (Some r) s2"
    using set_child_fill(1) [OF c2 out(1)] .
  then have "rb_rotate_left n s = Inr (rb_set_parent n (Some r) (fill ctx (Some r) s2))"
    using q by (simp add: rb_rotate_left_def s1_def s2_def Let_def)
  moreover have "rb_set_parent n (Some r) (fill ctx (Some r) s2) = fill ctx (Some r) ?s3"
    using out by (cases ctx) (auto simp: fill_def rb_set_parent_def set_left_def set_right_def on_node_def
        intro!: rbt.equality)
  moreover have "crep (nodes ?s3) (rb_node ?s3) ctx par (Some n)"
    using c2 out by (simp add: rb_set_parent_def)
  moreover have "trep (nodes ?s3) par (Nd (Nd a n cn b) r cr d) (Some r)"
  proof -
    have "trep (case ?rl of None \<Rightarrow> ?h | Some x \<Rightarrow> ?h(x := (?h x)\<lparr>rb_par := Some n\<rparr>)) (Some n) b ?rl"
      by (rule trep_reparent [of _ "Some r"]) (use tr dist in auto)
    with tr dist rl show ?thesis
      by (cases ?rl) (auto simp: s1_def s2_def reparent_nodes rb_set_parent_def set_left_def set_right_def fun_upd_twist)
  qed
  ultimately show ?thesis using rep_fill [of ?s3 ctx par "Some n" "Nd (Nd a n cn b) r cr d" "Some r"] dist by auto
qed

lemma rep_rotate_right:
  assumes "rep s ctx (Nd (Nd d r cr b) n cn a)"
  shows "\<exists>s'. rb_rotate_right n s = Inr s' \<and> rep s' ctx (Nd d r cr (Nd b n cn a))"
proof -
  let ?h = "nodes s"
  obtain par q where cr: "crep ?h (rb_node s) ctx par q" and tr: "trep ?h par (Nd (Nd d r cr b) n cn a) q"
    and dist: "distinct (inord (Nd (Nd d r cr b) n cn a) @ ctx_nodes ctx)"
    using assms by (auto simp: rep_def)
  have q: "q = Some n" "rb_left (?h n) = Some r" "rb_par (?h n) = par" using tr by auto
  let ?rl = "rb_right (?h r)"
  define s1 where "s1 = rb_set_parent_opt ?rl (Some n) (set_left n ?rl s)"
  define s2 where "s2 = rb_set_parent r par (set_right r (Some n) s1)"
  have out: "n \<notin> set (ctx_nodes ctx)" "r \<notin> set (ctx_nodes ctx)" using dist by auto
  have rl: "x \<notin> set (inord a) \<and> x \<notin> set (inord d) \<and> x \<noteq> n \<and> x \<noteq> r \<and> x \<notin> set (ctx_nodes ctx)"
    if "?rl = Some x" for x using tr dist that by (cases b) auto
  have c1: "crep (nodes s1) (rb_node s1) ctx par (Some n)"
    using cr q(1) out dist rl by (auto simp: s1_def reparent_nodes set_left_def split: option.splits)
  then have c2: "crep (nodes s2) (rb_node s2) ctx par (Some n)"
    using out by (simp add: s2_def rb_set_parent_def set_right_def)
  let ?s3 = "rb_set_parent n (Some r) s2"
  have "set_child_right_first par n (Some r) s2 = fill ctx (Some r) s2"
    using set_child_fill(2) [OF c2 out(1)] .
  then have "rb_rotate_right n s = Inr (rb_set_parent n (Some r) (fill ctx (Some r) s2))"
    using q by (simp add: rb_rotate_right_def s1_def s2_def Let_def)
  moreover have "rb_set_parent n (Some r) (fill ctx (Some r) s2) = fill ctx (Some r) ?s3"
    using out by (cases ctx) (auto simp: fill_def rb_set_parent_def set_right_def set_left_def on_node_def
        intro!: rbt.equality)
  moreover have "crep (nodes ?s3) (rb_node ?s3) ctx par (Some n)"
    using c2 out by (simp add: rb_set_parent_def)
  moreover have "trep (nodes ?s3) par (Nd d r cr (Nd b n cn a)) (Some r)"
  proof -
    have "trep (case ?rl of None \<Rightarrow> ?h | Some x \<Rightarrow> ?h(x := (?h x)\<lparr>rb_par := Some n\<rparr>)) (Some n) b ?rl"
      by (rule trep_reparent [of _ "Some r"]) (use tr dist in auto)
    with tr dist rl show ?thesis
      by (cases ?rl) (auto simp: s1_def s2_def reparent_nodes rb_set_parent_def set_right_def set_left_def fun_upd_twist)
  qed
  ultimately show ?thesis using rep_fill [of ?s3 ctx par "Some n" "Nd d r cr (Nd b n cn a)" "Some r"] dist by auto
qed

section \<open>Balanced trees\<close>

fun is_b :: "tree \<Rightarrow> bool" where
  "is_b Lf = True"
| "is_b (Nd l a c r) = c"

text \<open>Every path has \<open>k\<close> black nodes and no red node has a red child.\<close>

fun bal :: "tree \<Rightarrow> nat \<Rightarrow> bool" where
  "bal Lf k = (k = 0)"
| "bal (Nd l a c r) k =
     (if c then k > 0 \<and> bal l (k - 1) \<and> bal r (k - 1) else bal l k \<and> bal r k \<and> is_b l \<and> is_b r)"

definition rb_inv :: "tree \<Rightarrow> bool" where
  "rb_inv t \<longleftrightarrow> is_b t \<and> (\<exists>k. bal t k)"

text \<open>The context of a subtree with \<open>k\<close> black nodes on every path; a red ancestor has a black parent.\<close>

fun top_black :: "step list \<Rightarrow> bool" where
  "top_black [] = False"
| "top_black ((d, a, c, u) # ctx) = c"

fun cok :: "step list \<Rightarrow> nat \<Rightarrow> bool" where
  "cok [] k = True"
| "cok ((d, a, c, u) # ctx) k =
     (bal u k \<and> (if c then cok ctx (Suc k) else is_b u \<and> top_black ctx \<and> cok ctx k))"

fun before :: "step list \<Rightarrow> nat list" where
  "before [] = []"
| "before ((d, a, c, u) # ctx) = before ctx @ (if d then [] else inord u @ [a])"

fun after :: "step list \<Rightarrow> nat list" where
  "after [] = []"
| "after ((d, a, c, u) # ctx) = (if d then a # inord u else []) @ after ctx"

lemma inord_plug: "inord (plug ctx t) = before ctx @ inord t @ after ctx"
  by (induction ctx t rule: plug.induct) auto

lemma plug_bal:
  "bal t k \<Longrightarrow> cok ctx k \<Longrightarrow> is_b t \<or> top_black ctx \<Longrightarrow> \<exists>K. bal (plug ctx t) K"
proof (induction ctx arbitrary: t k)
  case (Cons st ctx)
  obtain d a c u where st: "st = (d, a, c, u)" by (metis surj_pair)
  have "bal (join st t) (if c then Suc k else k)" using Cons.prems st by auto
  moreover have "cok ctx (if c then Suc k else k)" using Cons.prems(2) st by (simp split: if_splits)
  moreover have "is_b (join st t) \<or> top_black ctx" using Cons.prems(2) st by (auto split: if_splits)
  ultimately show ?case using Cons.IH by simp
qed auto

lemma plug_root: "ctx \<noteq> [] \<Longrightarrow> is_b (plug ctx t) = is_b (plug ctx t')"
proof (induction ctx arbitrary: t t')
  case (Cons st ctx)
  obtain d a c u where st: "st = (d, a, c, u)" by (metis surj_pair)
  then show ?case using Cons.IH by (cases "ctx = []") auto
qed simp

section \<open>The insertion loop on trees\<close>

fun blacken :: "tree \<Rightarrow> tree" where
  "blacken Lf = Lf"
| "blacken (Nd l a c r) = Nd l a True r"

text \<open>
  The rotations when the uncle \<open>u\<close> is black: \<open>d\<close> and \<open>e\<close> say whether the node is the left child
  of its parent \<open>p\<close> and \<open>p\<close> that of its parent \<open>g\<close>; \<open>v\<close> is the sibling of the node.
\<close>

fun turn :: "bool \<Rightarrow> bool \<Rightarrow> nat \<Rightarrow> tree \<Rightarrow> nat \<Rightarrow> tree \<Rightarrow> tree \<Rightarrow> tree" where
  "turn True True p v g u t = Nd t p True (Nd v g False u)"
| "turn False False p v g u t = Nd (Nd u g False v) p True t"
| "turn False True p v g u (Nd a n k b) = Nd (Nd v p False a) n True (Nd b g False u)"
| "turn True False p v g u (Nd a n k b) = Nd (Nd u g False a) n True (Nd b p False v)"
| "turn d e p v g u Lf = Lf"

fun fix_ins :: "step list \<Rightarrow> tree \<Rightarrow> tree option" where
  "fix_ins [] t = Some t"
| "fix_ins ((d, p, True, v) # ctx) t = Some (plug ((d, p, True, v) # ctx) t)"
| "fix_ins [(d, p, False, v)] t = None"
| "fix_ins ((d, p, False, v) # (e, g, c, u) # ctx) t =
     (if \<not> is_b u then fix_ins ctx (join (e, g, False, blacken u) (join (d, p, True, v) t))
      else Some (plug ctx (turn d e p v g u t)))"

lemma turn_inord: "t \<noteq> Lf \<Longrightarrow> inord (turn d e p v g u t) = inord (join (e, g, c, u) (join (d, p, False, v) t))"
  by (induction d e p v g u t rule: turn.induct) auto

lemma blacken_simps [simp]: "inord (blacken t) = inord t" "is_b (blacken t)"
  by (cases t; simp)+

lemma blacken_bal: "bal t k \<Longrightarrow> \<not> is_b t \<Longrightarrow> bal (blacken t) (Suc k)"
  by (cases t) auto

lemma fix_ins_inord: "fix_ins ctx t = Some t' \<Longrightarrow> t \<noteq> Lf \<Longrightarrow> inord t' = inord (plug ctx t)"
proof (induction ctx t rule: fix_ins.induct)
  case (4 d p v e g c u ctx t)
  then show ?case by (cases "is_b u") (auto simp: inord_plug turn_inord [where c = c] split: if_splits)
qed (auto simp: inord_plug)

lemma turn_bal:
  assumes "bal (Nd l n False r) k" and "bal v k" "is_b v" "bal u k" "is_b u"
  shows "bal (turn d e p v g u (Nd l n False r)) (Suc k) \<and> is_b (turn d e p v g u (Nd l n False r))"
  using assms by (cases d; cases e) auto

lemma fix_ins_bal:
  "bal (Nd l n False r) k \<Longrightarrow> cok ctx k \<Longrightarrow> \<exists>t' K. fix_ins ctx (Nd l n False r) = Some t' \<and> bal t' K"
proof (induction ctx "Nd l n False r" arbitrary: l n r k rule: fix_ins.induct)
  case (2 d p v ctx)
  then have "\<exists>K. bal (plug ((d, p, True, v) # ctx) (Nd l n False r)) K" by (intro plug_bal) auto
  then show ?case by simp
next
  case (4 d p v e g c u ctx)
  have ctx: "c" "cok ctx (Suc k)" "bal v k" "is_b v" "bal u k" using "4.prems"(2) by (auto split: if_splits)
  show ?case
  proof (cases "is_b u")
    case True
    have "\<exists>K. bal (plug ctx (turn d e p v g u (Nd l n False r))) K"
      by (rule plug_bal [of _ "Suc k"]) (use turn_bal [OF "4.prems"(1) ctx(3,4,5) True] ctx(2) in auto)
    with True show ?thesis by simp
  next
    case False
    let ?t = "join (d, p, True, v) (Nd l n False r)"
    have "bal ?t (Suc k)" "is_b ?t" "bal (blacken u) (Suc k)"
      using "4.prems"(1) ctx False by (auto intro: blacken_bal)
    with False ctx(2) "4.hyps" [OF False, of "if e then ?t else blacken u" g "if e then blacken u else ?t" "Suc k"]
    show ?thesis by auto
  qed
qed auto

section \<open>The insertion loop on the heap\<close>

definition rt_of :: "tree \<Rightarrow> nat option" where
  "rt_of t = (case t of Lf \<Rightarrow> None | Nd l a c r \<Rightarrow> Some a)"

text \<open>What the code reads at the focus, its parent and its sibling.\<close>

lemma rep_reads:
  assumes "rep s ((d, a, c, u) # ctx) (Nd l n cn r)"
  shows "rb_par (nodes s n) = Some a" and "rb_black (nodes s n) = cn" and "rb_black (nodes s a) = c"
    and "rb_left (nodes s a) = Some n \<longleftrightarrow> d" and "rb_right (nodes s a) = Some n \<longleftrightarrow> \<not> d"
    and "d \<Longrightarrow> rb_right (nodes s a) = rt_of u" and "\<not> d \<Longrightarrow> rb_left (nodes s a) = rt_of u"
    and "is_red (rt_of u) s \<longleftrightarrow> \<not> is_b u" and "rb_left (nodes s n) = rt_of l" and "rb_right (nodes s n) = rt_of r"
proof -
  let ?h = "nodes s"
  have f: "rb_par (?h n) = Some a" "rb_black (?h n) = cn" "rb_black (?h a) = c"
    "if d then rb_left (?h a) = Some n \<and> trep ?h (Some a) u (rb_right (?h a))
     else rb_right (?h a) = Some n \<and> trep ?h (Some a) u (rb_left (?h a))"
    "n \<notin> set (inord u)" "trep ?h (Some n) l (rb_left (?h n))" "trep ?h (Some n) r (rb_right (?h n))"
    using assms by (auto simp: rep_def)
  note root = trep_root [of ?h, folded rt_of_def]
  show "rb_par (nodes s n) = Some a" "rb_black (nodes s n) = cn" "rb_black (nodes s a) = c"
    using f by auto
  show "rb_left (nodes s a) = Some n \<longleftrightarrow> d" "rb_right (nodes s a) = Some n \<longleftrightarrow> \<not> d"
    using f(4,5) trep_not_root [of ?h "Some a" u _ n] by (auto split: if_splits)
  show "d \<Longrightarrow> rb_right (nodes s a) = rt_of u" "\<not> d \<Longrightarrow> rb_left (nodes s a) = rt_of u"
    using f(4) root by (auto split: if_splits)
  show "is_red (rt_of u) s \<longleftrightarrow> \<not> is_b u"
    using f(4) by (cases u) (auto simp: is_red_def rt_of_def split: if_splits)
  show "rb_left (nodes s n) = rt_of l" "rb_right (nodes s n) = rt_of r"
    using f(6,7) root by auto
qed

lemma rep_top: "rep s [] (Nd l n c r) \<Longrightarrow> rb_par (nodes s n) = None \<and> rb_node s = Some n"
  by (auto simp: rep_def)

lemma rep_recolour:
  assumes "rep s ((d, p, k, v) # (e, g, c, u) # ctx) t" and "u = Nd ul ua False ur"
  shows "rep (recolour ua p g s) ctx (join (e, g, False, blacken u) (join (d, p, True, v) t))"
proof -
  define s1 where "s1 = rb_set_color ua True s"
  define s2 where "s2 = rb_set_color p True s1"
  let ?P = "join (d, p, k, v) t" and ?P' = "join (d, p, True, v) t"
  have "rep s ((\<not> e, g, c, ?P) # ctx) u" using assms(1) by (auto simp: rep_move)
  then have "rep s1 ((\<not> e, g, c, ?P) # ctx) (blacken u)"
    unfolding s1_def assms(2) blacken.simps by (rule rep_color)
  then have "rep s1 ((e, g, c, blacken u) # ctx) ?P" by (auto simp: rep_move)
  then have "rep s2 ((e, g, c, blacken u) # ctx) ?P'"
    unfolding s2_def by (cases d) (auto intro: rep_color)
  then have "rep s2 ctx (join (e, g, c, blacken u) ?P')" by (simp add: rep_move)
  then have "rep (rb_set_color g False s2) ctx (join (e, g, False, blacken u) ?P')"
    by (cases e) (auto intro: rep_color)
  then show ?thesis by (simp add: recolour_def s1_def s2_def)
qed

text \<open>The colours before the last rotation: the upper node of the pair black, the grandparent red.\<close>

lemma rep_pair_colors:
  assumes "rep s ((e, g, c, u) # ctx) (Nd x q k y)"
  shows "rep (rb_set_color g False (rb_set_color q True s)) ctx (join (e, g, False, u) (Nd x q True y))"
proof -
  have "rep (rb_set_color q True s) ctx (join (e, g, c, u) (Nd x q True y))"
    using rep_color [OF assms, of True] by (simp add: rep_move)
  then show ?thesis by (cases e) (auto intro: rep_color)
qed

lemma rep_turn_left:
  assumes "rep s ((d, p, False, v) # (True, g, c, u) # ctx) (Nd l n False r)"
  shows "\<exists>node' parent' s1 s2.
     (if rb_right (nodes s p) = Some n then map_sum id (\<lambda>s. (p, n, s)) (rb_rotate_left p s) else Inr (n, p, s))
       = Inr (node', parent', s1) \<and>
     rb_rotate_right g (rb_set_color g False (rb_set_color parent' True s1)) = Inr s2 \<and>
     rep s2 ctx (turn d True p v g u (Nd l n False r)) \<and>
     rb_par (nodes s2 node') = Some parent' \<and> rb_black (nodes s2 parent')"
proof (cases d)
  case True
  then have rot: "(if rb_right (nodes s p) = Some n then map_sum id (\<lambda>s. (p, n, s)) (rb_rotate_left p s)
      else Inr (n, p, s)) = Inr (n, p, s)" using rep_reads(5) [OF assms] by simp
  have "rep s ((True, g, c, u) # ctx) (Nd (Nd l n False r) p False v)" using assms True by (simp add: rep_move)
  from rep_pair_colors [OF this] obtain s2 where
    "rb_rotate_right g (rb_set_color g False (rb_set_color p True s)) = Inr s2"
    "rep s2 ctx (Nd (Nd l n False r) p True (Nd v g False u))" using rep_rotate_right by fastforce
  moreover from this(2) have "rep s2 ((True, p, True, Nd v g False u) # ctx) (Nd l n False r)" by (simp add: rep_move)
  note rep_reads(1,3) [OF this]
  ultimately show ?thesis using rot True by auto
next
  case False
  then have "rep s ((True, g, c, u) # ctx) (Nd v p False (Nd l n False r))" using assms by (simp add: rep_move)
  then obtain s1 where s1: "rb_rotate_left p s = Inr s1" "rep s1 ((True, g, c, u) # ctx) (Nd (Nd v p False l) n False r)"
    using rep_rotate_left by blast
  from rep_pair_colors [OF s1(2)] obtain s2 where s2:
    "rb_rotate_right g (rb_set_color g False (rb_set_color n True s1)) = Inr s2"
    "rep s2 ctx (Nd (Nd v p False l) n True (Nd r g False u))" using rep_rotate_right by fastforce
  from s2(2) have "rep s2 ((True, n, True, Nd r g False u) # ctx) (Nd v p False l)" by (simp add: rep_move)
  note rep_reads(1,3) [OF this]
  moreover have "rb_right (nodes s p) = Some n" using rep_reads(5) [OF assms] False by simp
  ultimately show ?thesis using s1(1) s2 False by (auto intro!: exI [of _ s2])
qed

lemma rep_turn_right:
  assumes "rep s ((d, p, False, v) # (False, g, c, u) # ctx) (Nd l n False r)"
  shows "\<exists>node' parent' s1 s2.
     (if rb_left (nodes s p) = Some n then map_sum id (\<lambda>s. (p, n, s)) (rb_rotate_right p s) else Inr (n, p, s))
       = Inr (node', parent', s1) \<and>
     rb_rotate_left g (rb_set_color g False (rb_set_color parent' True s1)) = Inr s2 \<and>
     rep s2 ctx (turn d False p v g u (Nd l n False r)) \<and>
     rb_par (nodes s2 node') = Some parent' \<and> rb_black (nodes s2 parent')"
proof (cases d)
  case False
  then have rot: "(if rb_left (nodes s p) = Some n then map_sum id (\<lambda>s. (p, n, s)) (rb_rotate_right p s)
      else Inr (n, p, s)) = Inr (n, p, s)" using rep_reads(4) [OF assms] by simp
  have "rep s ((False, g, c, u) # ctx) (Nd v p False (Nd l n False r))" using assms False by (simp add: rep_move)
  from rep_pair_colors [OF this] obtain s2 where
    "rb_rotate_left g (rb_set_color g False (rb_set_color p True s)) = Inr s2"
    "rep s2 ctx (Nd (Nd u g False v) p True (Nd l n False r))" using rep_rotate_left by fastforce
  moreover from this(2) have "rep s2 ((False, p, True, Nd u g False v) # ctx) (Nd l n False r)" by (simp add: rep_move)
  note rep_reads(1,3) [OF this]
  ultimately show ?thesis using rot False by auto
next
  case True
  then have "rep s ((False, g, c, u) # ctx) (Nd (Nd l n False r) p False v)" using assms by (simp add: rep_move)
  then obtain s1 where s1: "rb_rotate_right p s = Inr s1" "rep s1 ((False, g, c, u) # ctx) (Nd l n False (Nd r p False v))"
    using rep_rotate_right by blast
  from rep_pair_colors [OF s1(2)] obtain s2 where s2:
    "rb_rotate_left g (rb_set_color g False (rb_set_color n True s1)) = Inr s2"
    "rep s2 ctx (Nd (Nd u g False l) n True (Nd r p False v))" using rep_rotate_left by fastforce
  from s2(2) have "rep s2 ((False, n, True, Nd u g False l) # ctx) (Nd r p False v)" by (simp add: rep_move)
  note rep_reads(1,3) [OF this]
  moreover have "rb_left (nodes s p) = Some n" using rep_reads(4) [OF assms] True by simp
  ultimately show ?thesis using s1(1) s2 True by (auto intro!: exI [of _ s2])
qed

lemma insert_loop_ok:
  "rep s ctx (Nd l n False r) \<Longrightarrow> fix_ins ctx (Nd l n False r) = Some t' \<Longrightarrow>
     \<exists>s'. insert_loop n s = Some (Inr s') \<and> rep s' [] t'"
proof (induction ctx "Nd l n False r" arbitrary: l n r s rule: fix_ins.induct)
  case 1
  then show ?case using rep_top [of s l n False r] by (auto simp: insert_loop.simps)
next
  case (2 d p v ctx)
  then show ?case
    using rep_reads(1,3) [OF "2.prems"(1)] rep_plug [of s "(d, p, True, v) # ctx" "[]"]
    by (auto simp: insert_loop.simps)
next
  case (4 d p v e g c u ctx)
  let ?t = "Nd l n False r"
  note n = rep_reads [OF "4.prems"(1)]
  obtain x y where j: "join (d, p, False, v) ?t = Nd x p False y" by (cases d) auto
  have "rep s ((e, g, c, u) # ctx) (Nd x p False y)" using "4.prems"(1) j by (simp only: rep_move)
  note p = rep_reads(1,4,6,7,8) [OF this]
  show ?case
  proof (cases "is_b u")
    case False
    then obtain ul ua ur where u: "u = Nd ul ua False ur" by (cases u) auto
    let ?g = "join (e, g, False, blacken u) (join (d, p, True, v) ?t)"
    obtain x' y' where g: "?g = Nd x' g False y'" by (cases e) auto
    have "rep (recolour ua p g s) ctx (Nd x' g False y')" using rep_recolour [OF "4.prems"(1) u] g by metis
    moreover have "fix_ins ctx (Nd x' g False y') = Some t'" using "4.prems"(2) False g by (simp only: fix_ins.simps) simp
    ultimately obtain s' where "insert_loop g (recolour ua p g s) = Some (Inr s')" "rep s' [] t'"
      using "4.hyps" [OF False g] by blast
    moreover have "insert_loop n s = insert_loop g (recolour ua p g s)"
      using n(1,3) p False u by (subst insert_loop.simps) (simp add: rt_of_def)
    ultimately show ?thesis by auto
  next
    case True
    then have t': "t' = plug ctx (turn d e p v g u ?t)" using "4.prems"(2) by simp
    have stop: "insert_loop node' s2 = Some (Inr s2)"
      if "rb_par (nodes s2 node') = Some parent'" "rb_black (nodes s2 parent')" for node' parent' s2
      using that by (subst insert_loop.simps) simp
    have "\<exists>s2. insert_loop n s = Some (Inr s2) \<and> rep s2 ctx (turn d e p v g u ?t)"
    proof (cases e)
      case True
      with rep_turn_left [of s d p v g c u ctx l n r] "4.prems"(1) n(1,3) p \<open>is_b u\<close> stop show ?thesis
        by (subst insert_loop.simps) fastforce
    next
      case False
      with rep_turn_right [of s d p v g c u ctx l n r] "4.prems"(1) n(1,3) p \<open>is_b u\<close> stop show ?thesis
        by (subst insert_loop.simps) fastforce
    qed
    then show ?thesis using rep_plug [of _ ctx "[]"] t' by auto
  qed
qed simp

text \<open>Linking a new red leaf into the hole of a context, and the whole insertion.\<close>

definition par_of :: "step list \<Rightarrow> nat option" where
  "par_of ctx = (case ctx of [] \<Rightarrow> None | (d, a, c, u) # _ \<Rightarrow> Some a)"

definition link_of :: "step list \<Rightarrow> rlink" where
  "link_of ctx = (case ctx of [] \<Rightarrow> RootLink | (d, a, c, u) # _ \<Rightarrow> if d then LeftOf a else RightOf a)"

lemma rep_link:
  assumes "rep s ctx Lf" and n: "n \<notin> set (ctx_nodes ctx)"
  shows "rep (rb_link_node n (par_of ctx) (link_of ctx) s) ctx (Nd Lf n False Lf)"
proof -
  let ?s = "on_node n (\<lambda>x. x\<lparr>rb_par := par_of ctx, rb_black := False, rb_left := None, rb_right := None\<rparr>) s"
  obtain par where c: "crep (nodes s) (rb_node s) ctx par None" and d: "distinct (ctx_nodes ctx)"
    using assms(1) by (auto simp: rep_def)
  then have par: "par = par_of ctx" by (cases ctx) (auto simp: par_of_def)
  have "rb_link_node n (par_of ctx) (link_of ctx) s = fill ctx (Some n) ?s"
    by (cases ctx) (auto simp: rb_link_node_def link_of_def fill_def Let_def)
  moreover have "rep (fill ctx (Some n) ?s) ctx (Nd Lf n False Lf)"
    by (rule rep_fill [of ?s ctx par None]) (use c d n par in auto)
  ultimately show ?thesis by simp
qed

lemma rep_blacken_root:
  assumes "rep s [] t" and "t \<noteq> Lf"
  shows "\<exists>r. rb_node s = Some r \<and> rep (rb_set_color r True s) [] (blacken t)"
  using assms rep_color [of s "[]"] by (cases t) (auto simp: rep_def)

lemma bal_blacken: "bal t k \<Longrightarrow> \<exists>K. bal (blacken t) K"
  using blacken_bal [of t k] by (cases t; cases "is_b t") auto

lemma rb_insert_ok:
  assumes rep: "rep s ctx Lf" and n: "n \<notin> set (ctx_nodes ctx)" and ok: "cok ctx 0"
  shows "\<exists>s' t'. rb_insert_color n (rb_link_node n (par_of ctx) (link_of ctx) s) = Inr s' \<and>
     rep s' [] t' \<and> inord t' = before ctx @ n # after ctx \<and> rb_inv t'"
proof -
  let ?s = "rb_link_node n (par_of ctx) (link_of ctx) s" and ?n = "Nd Lf n False Lf"
  have "bal ?n 0" by simp
  then obtain t' K where t': "fix_ins ctx ?n = Some t'" "bal t' K" using fix_ins_bal [OF _ ok] by blast
  then have io: "inord t' = before ctx @ n # after ctx" using fix_ins_inord [of ctx ?n] by (simp add: inord_plug)
  then have ne: "t' \<noteq> Lf" by auto
  obtain s1 where s1: "insert_loop n ?s = Some (Inr s1)" "rep s1 [] t'"
    using insert_loop_ok [OF rep_link [OF rep n] t'(1)] by blast
  obtain r where r: "rb_node s1 = Some r" "rep (rb_set_color r True s1) [] (blacken t')"
    using rep_blacken_root [OF s1(2) ne] by blast
  have "rb_insert_color n ?s = Inr (rb_set_color r True s1)" using s1(1) r(1) by (simp add: rb_insert_color_def)
  moreover have "rb_inv (blacken t')" using bal_blacken [OF t'(2)] by (simp add: rb_inv_def)
  ultimately show ?thesis using r(2) io by (intro exI [of _ "rb_set_color r True s1"] exI [of _ "blacken t'"]) simp
qed

end
