(* ===== verification/RbWalk.thy ===== *)
theory RbWalk
  imports RbInsert
begin

text \<open>
  Walking a tree in order, and the properties of insertion and walking stated on whole trees.
\<close>

section \<open>Focussing\<close>

text \<open>A balanced tree can be cut anywhere.\<close>

lemma unplug:
  "bal (plug ctx t) K \<Longrightarrow> is_b (plug ctx t) \<Longrightarrow> \<exists>k. bal t k \<and> cok ctx k \<and> (is_b t \<or> top_black ctx)"
proof (induction ctx arbitrary: t)
  case (Cons st ctx)
  obtain d a c u where st: "st = (d, a, c, u)" by (metis surj_pair)
  obtain k where k: "bal (join st t) k" "cok ctx k" "is_b (join st t) \<or> top_black ctx"
    using Cons.IH [of "join st t"] Cons.prems by auto
  show ?case
  proof (cases c)
    case True
    with k st show ?thesis by (intro exI [of _ "k - 1"]) (auto split: if_splits)
  next
    case False
    with k st show ?thesis by (intro exI [of _ k]) (auto split: if_splits)
  qed
qed auto

lemma focus: "n \<in> set (inord t) \<Longrightarrow> \<exists>ctx l c r. t = plug ctx (Nd l n c r)"
proof (induction t)
  case (Nd l a c r)
  then consider "n = a" | "n \<in> set (inord l)" | "n \<in> set (inord r)" by auto
  then show ?case
  proof cases
    case 1
    then show ?thesis by (intro exI [of _ "[]"]) simp
  next
    case 2
    then obtain ctx l' c' r' where "l = plug ctx (Nd l' n c' r')" using Nd.IH(1) by blast
    moreover have "plug (ctx @ [(True, a, c, r)]) x = Nd (plug ctx x) a c r" for x
      by (induction ctx arbitrary: x) auto
    ultimately show ?thesis by metis
  next
    case 3
    then obtain ctx l' c' r' where "r = plug ctx (Nd l' n c' r')" using Nd.IH(2) by blast
    moreover have "plug (ctx @ [(False, a, c, l)]) x = Nd l a c (plug ctx x)" for x
      by (induction ctx arbitrary: x) auto
    ultimately show ?thesis by metis
  qed
qed simp

lemma rep_focus: "rep s [] (plug ctx t) \<longleftrightarrow> rep s ctx t"
  using rep_plug [of s ctx "[]" t] by simp

lemma rep_inord: "rep s ctx t \<Longrightarrow> distinct (before ctx @ inord t @ after ctx)"
  using rep_focus [of s ctx t] by (auto simp: rep_def inord_plug)

section \<open>Walks\<close>

definition first_of :: "nat list \<Rightarrow> nat option" where
  "first_of xs = (case xs of [] \<Rightarrow> None | x # _ \<Rightarrow> Some x)"

definition last_of :: "nat list \<Rightarrow> nat option" where
  "last_of xs = (if xs = [] then None else Some (last xs))"

lemma first_of_append [simp]: "xs \<noteq> [] \<Longrightarrow> first_of (xs @ ys) = Some (hd xs)"
  by (cases xs) (simp_all add: first_of_def)

lemma first_of_ne: "xs \<noteq> [] \<Longrightarrow> first_of xs = Some (hd xs)"
  by (cases xs) (simp_all add: first_of_def)

lemma leftmost_ok: "trep (nodes s) par t (Some a) \<Longrightarrow> leftmost a s = first_of (inord t)"
proof (induction t arbitrary: par a)
  case (Nd l b c r)
  then show ?case
  proof (cases l)
    case Lf
    with Nd.prems show ?thesis by (simp add: leftmost.simps first_of_def)
  next
    case (Nd l1 b1 c1 r1)
    with Nd.prems have l: "rb_left (nodes s b) = Some b1" "a = b" "trep (nodes s) (Some b) l (Some b1)" by auto
    have "leftmost b1 s = first_of (inord l)" using Nd.IH(1) [OF l(3)] .
    moreover have "leftmost a s = leftmost b1 s" using l by (simp add: leftmost.simps [of b])
    moreover have "inord l \<noteq> []" using Nd by simp
    ultimately show ?thesis by (simp add: first_of_ne)
  qed
qed simp

lemma rightmost_ok: "trep (nodes s) par t (Some a) \<Longrightarrow> rightmost a s = last_of (inord t)"
proof (induction t arbitrary: par a)
  case (Nd l b c r)
  then show ?case
  proof (cases r)
    case Lf
    with Nd.prems show ?thesis by (simp add: rightmost.simps last_of_def)
  next
    case (Nd l1 b1 c1 r1)
    with Nd.prems have l: "rb_right (nodes s b) = Some b1" "a = b" "trep (nodes s) (Some b) r (Some b1)" by auto
    have "rightmost b1 s = last_of (inord r)" using Nd.IH(2) [OF l(3)] .
    moreover have "rightmost a s = rightmost b1 s" using l by (simp add: rightmost.simps [of b])
    ultimately show ?thesis using Nd by (simp add: last_of_def)
  qed
qed simp

lemma up_right_ok: "rep s ctx (Nd l n c r) \<Longrightarrow> up_right n s = Some (first_of (after ctx))"
proof (induction ctx arbitrary: l n c r)
  case Nil
  then show ?case using rep_top [OF Nil] by (simp add: up_right.simps first_of_def)
next
  case (Cons st ctx)
  obtain d a k u where st: "st = (d, a, k, u)" by (metis surj_pair)
  note rd = rep_reads [OF Cons.prems [unfolded st]]
  show ?case
  proof (cases d)
    case True
    then show ?thesis using rd st by (simp add: up_right.simps [of n] first_of_def)
  next
    case False
    then have "rep s ctx (Nd u a k (Nd l n c r))" using Cons.prems st by (simp add: rep_move)
    from Cons.IH [OF this] False rd st show ?thesis by (simp add: up_right.simps [of n])
  qed
qed

lemma up_left_ok: "rep s ctx (Nd l n c r) \<Longrightarrow> up_left n s = Some (last_of (before ctx))"
proof (induction ctx arbitrary: l n c r)
  case Nil
  then show ?case using rep_top [OF Nil] by (simp add: up_left.simps last_of_def)
next
  case (Cons st ctx)
  obtain d a k u where st: "st = (d, a, k, u)" by (metis surj_pair)
  note rd = rep_reads [OF Cons.prems [unfolded st]]
  show ?case
  proof (cases d)
    case False
    then show ?thesis using rd st by (simp add: up_left.simps [of n] last_of_def)
  next
    case True
    then have "rep s ctx (Nd (Nd l n c r) a k u)" using Cons.prems st by (simp add: rep_move)
    from Cons.IH [OF this] True rd st show ?thesis by (simp add: up_left.simps [of n])
  qed
qed

lemma rep_node:
  assumes "rep s ctx (Nd l n c r)"
  shows "rb_par (nodes s n) = par_of ctx" and "rb_par (nodes s n) \<noteq> Some n"
    and "trep (nodes s) (Some n) l (rb_left (nodes s n))" and "trep (nodes s) (Some n) r (rb_right (nodes s n))"
  using assms by (cases ctx; auto simp: rep_def par_of_def)+

lemma rb_next_ok:
  assumes "rep s ctx (Nd l n c r)"
  shows "rb_next n s = Some (first_of (inord r @ after ctx))"
proof (cases r)
  case Lf
  with assms rep_node [OF assms] up_right_ok [OF assms] show ?thesis by (simp add: rb_next_def)
next
  case (Nd r1 m k r2)
  then have "rb_right (nodes s n) = Some m" using rep_node(4) [OF assms] by simp
  moreover have "leftmost m s = first_of (inord r)" using leftmost_ok [of s "Some n" r m] rep_node(4) [OF assms] Nd by simp
  moreover have "inord r \<noteq> []" using Nd by simp
  ultimately show ?thesis using rep_node(2) [OF assms] by (simp add: rb_next_def first_of_ne)
qed

lemma rb_prev_ok:
  assumes "rep s ctx (Nd l n c r)"
  shows "rb_prev n s = Some (last_of (before ctx @ inord l))"
proof (cases l)
  case Lf
  with assms rep_node [OF assms] up_left_ok [OF assms] show ?thesis by (simp add: rb_prev_def)
next
  case (Nd l1 m k l2)
  then have "rb_left (nodes s n) = Some m" using rep_node(3) [OF assms] by simp
  moreover have "rightmost m s = last_of (inord l)" using rightmost_ok [of s "Some n" l m] rep_node(3) [OF assms] Nd by simp
  moreover have "last_of (before ctx @ inord l) = last_of (inord l)" "last_of (inord l) \<noteq> None"
    using Nd by (auto simp: last_of_def)
  ultimately show ?thesis using rep_node(2) [OF assms] by (auto simp: rb_prev_def)
qed

lemma set_ctx_nodes: "set (ctx_nodes ctx) = set (before ctx @ after ctx)"
  by (induction ctx rule: ctx_nodes.induct) auto

text \<open>A node stands at one place of the sequence.\<close>

lemma rep_split:
  assumes "rep s ctx (Nd l n c r)" and "inord (plug ctx (Nd l n c r)) = xs @ n # ys"
  shows "xs = before ctx @ inord l \<and> ys = inord r @ after ctx"
proof -
  have "(before ctx @ inord l) @ n # (inord r @ after ctx) = xs @ n # ys" using assms(2) by (simp add: inord_plug)
  moreover have "n \<notin> set (before ctx @ inord l)" "n \<notin> set (inord r @ after ctx)" using rep_inord [OF assms(1)] by auto
  ultimately show ?thesis by (auto simp: append_eq_append_conv2 append_eq_Cons_conv Cons_eq_append_conv)
qed

lemma rb_insert_at:
  assumes "rep s [] (plug ctx Lf)" and "rb_inv (plug ctx Lf)" and "n \<notin> set (inord (plug ctx Lf))"
  shows "\<exists>s' t'. rb_insert_color n (rb_link_node n (par_of ctx) (link_of ctx) s) = Inr s' \<and>
     rep s' [] t' \<and> rb_inv t' \<and> inord t' = before ctx @ n # after ctx \<and>
     inord (plug ctx Lf) = before ctx @ after ctx"
proof -
  obtain K where "bal (plug ctx Lf) K" "is_b (plug ctx Lf)" using assms(2) by (auto simp: rb_inv_def)
  then obtain k where "bal Lf k" "cok ctx k" using unplug by blast
  then have "cok ctx 0" by simp
  moreover have "rep s ctx Lf" using assms(1) by (simp add: rep_focus)
  moreover have "n \<notin> set (ctx_nodes ctx)" using assms(3) by (simp add: inord_plug set_ctx_nodes)
  ultimately show ?thesis using rb_insert_ok [of s ctx n] by (auto simp: inord_plug)
qed

lemma rb_first_last_ok:
  assumes "rep s [] t"
  shows "rb_first s = Some (first_of (inord t)) \<and> rb_last s = Some (last_of (inord t))"
proof (cases t)
  case Lf
  with assms show ?thesis by (auto simp: rep_def rb_first_def rb_last_def first_of_def last_of_def)
next
  case (Nd l a c r)
  with assms have "rb_node s = Some a" "trep (nodes s) None t (Some a)" by (auto simp: rep_def)
  moreover from this(2) have "leftmost a s = first_of (inord t)" "rightmost a s = last_of (inord t)"
    by (auto intro: leftmost_ok rightmost_ok)
  moreover have "first_of (inord t) \<noteq> None" "last_of (inord t) \<noteq> None"
    using Nd by (auto simp: first_of_def last_of_def split: list.splits)
  ultimately show ?thesis by (auto simp: rb_first_def rb_last_def)
qed

section \<open>Properties\<close>

text \<open>
  C15: insertion.  Linking a new node at any free place of a red-black tree and calling
  \<^verbatim>\<open>rb_insert_color\<close> ends without following a NULL pointer and yields a red-black tree on the
  same pointers whose nodes in order are those of the old tree with the new node at that place.
\<close>

theorem rb_insert_correct:
  assumes "rep s [] (plug ctx Lf)" and "rb_inv (plug ctx Lf)" and "n \<notin> set (inord (plug ctx Lf))"
  shows "\<exists>s' t'. rb_insert_color n (rb_link_node n (par_of ctx) (link_of ctx) s) = Inr s' \<and>
     rep s' [] t' \<and> rb_inv t' \<and> inord t' = before ctx @ n # after ctx \<and>
     inord (plug ctx Lf) = before ctx @ after ctx"
  by (rule rb_insert_at [OF assms])

text \<open>
  \<^verbatim>\<open>rb_first\<close> and \<^verbatim>\<open>rb_last\<close> return and yield the first and the last node in order,
  NULL for the empty tree.
\<close>

theorem rb_first_last_correct:
  assumes "rep s [] t"
  shows "rb_first s = Some (first_of (inord t)) \<and> rb_last s = Some (last_of (inord t))"
  by (rule rb_first_last_ok [OF assms])

text \<open>
  C25: \<^verbatim>\<open>rb_next\<close> and \<^verbatim>\<open>rb_prev\<close> return and yield the successor and the predecessor of a
  node in order, NULL at the ends.
\<close>

theorem rb_next_prev_correct:
  assumes "rep s [] t" and "inord t = xs @ n # ys"
  shows "rb_next n s = Some (first_of ys) \<and> rb_prev n s = Some (last_of xs)"
proof -
  obtain ctx l c r where t: "t = plug ctx (Nd l n c r)" using focus [of n t] assms(2) by auto
  then have rep: "rep s ctx (Nd l n c r)" using assms(1) by (simp add: rep_focus)
  have "xs = before ctx @ inord l \<and> ys = inord r @ after ctx" using rep_split [OF rep] t assms(2) by simp
  then show ?thesis using rb_next_ok [OF rep] rb_prev_ok [OF rep] by simp
qed

section \<open>Witnesses\<close>

text \<open>A black root 1 with a red right child 2.\<close>

definition demo_rbt :: rbt where
  "demo_rbt =
     \<lparr>nodes = (\<lambda>a. if a = 1 then \<lparr>rb_par = None, rb_black = True, rb_left = None, rb_right = Some 2\<rparr>
               else \<lparr>rb_par = Some 1, rb_black = False, rb_left = None, rb_right = None\<rparr>),
      rb_node = Some 1\<rparr>"

definition demo_tree :: tree where
  "demo_tree = Nd Lf 1 True (Nd Lf 2 False Lf)"

lemma demo_rep: "rep demo_rbt [] demo_tree" and demo_inv: "rb_inv demo_tree"
  by (auto simp: rep_def demo_rbt_def demo_tree_def rb_inv_def intro!: exI [of _ 1])

theorem rb_insert_correct_witness:
  "\<exists>s' t'. rb_insert_color 3 (rb_link_node 3 (Some 2) (RightOf 2) demo_rbt) = Inr s' \<and>
     rep s' [] t' \<and> rb_inv t' \<and> inord t' = [1, 2, 3]"
proof -
  let ?ctx = "[(False, 2, False, Lf), (False, 1, True, Lf)]"
  have "plug ?ctx Lf = demo_tree" by (simp add: demo_tree_def)
  then show ?thesis
    using rb_insert_correct [of demo_rbt ?ctx 3] demo_rep demo_inv
    by (simp add: demo_tree_def par_of_def link_of_def)
qed

theorem rb_first_last_correct_witness: "rb_first demo_rbt = Some (Some 1) \<and> rb_last demo_rbt = Some (Some 2)"
  using rb_first_last_correct [OF demo_rep] by (simp add: demo_tree_def first_of_def last_of_def)

theorem rb_next_prev_correct_witness: "rb_next 1 demo_rbt = Some (Some 2) \<and> rb_prev 1 demo_rbt = Some None"
  using rb_next_prev_correct [OF demo_rep, of "[]" 1 "[2]"] by (simp add: demo_tree_def first_of_def last_of_def)

end
