(* ===== verification/RbErase.thy ===== *)
theory RbErase
  imports RbWalk
begin

text \<open>
  \<^verbatim>\<open>rb_erase\<close>: taking a node out of a red-black tree, with the rebalancing loop of
  \<^verbatim>\<open>__rb_erase_color\<close>.
\<close>

section \<open>Both sides at once\<close>

text \<open>A node whose first subtree is on side \<open>d\<close> (left when \<open>d\<close> holds).\<close>

definition mk :: "bool \<Rightarrow> tree \<Rightarrow> nat \<Rightarrow> bool \<Rightarrow> tree \<Rightarrow> tree" where
  "mk d x a c y = (if d then Nd x a c y else Nd y a c x)"

definition near :: "bool \<Rightarrow> rbn \<Rightarrow> nat option" where
  "near d = (if d then rb_left else rb_right)"

definition rot :: "bool \<Rightarrow> nat \<Rightarrow> rbt \<Rightarrow> rbt res" where
  "rot d = (if d then rb_rotate_left else rb_rotate_right)"

lemma join_mk: "join (d, a, c, u) t = mk d t a c u"
  by (simp add: mk_def)

lemma mk_swap: "mk (\<not> d) x a c y = mk d y a c x"
  by (simp add: mk_def)

lemma mk_cases: "t \<noteq> Lf \<Longrightarrow> \<exists>x a c y. t = mk d x a c y"
  by (cases t; cases d) (auto simp: mk_def)

lemma mk_simps [simp]:
  "is_b (mk d x a c y) = c" "blacken (mk d x a c y) = mk d x a True y" "mk d x a c y \<noteq> Lf" "Lf \<noteq> mk d x a c y"
  "rt_of (mk d x a c y) = Some a"
  "bal (mk d x a c y) k = (if c then k > 0 \<and> bal x (k - 1) \<and> bal y (k - 1) else bal x k \<and> bal y k \<and> is_b x \<and> is_b y)"
  by (auto simp: mk_def rt_of_def)

lemma rep_mk: "rep s ((d, a, c, u) # ctx) t \<longleftrightarrow> rep s ctx (mk d t a c u)"
  by (simp only: rep_move join_mk)

lemma rep_mk2: "rep s ((\<not> d, a, c, u) # ctx) t \<longleftrightarrow> rep s ctx (mk d u a c t)"
  using rep_mk [of s "\<not> d" a c u ctx t] by (simp add: mk_swap)

lemma rep_rot:
  assumes "rep s ctx (mk d t p c (mk d x q k y))"
  shows "\<exists>s'. rot d p s = Inr s' \<and> rep s' ctx (mk d (mk d t p c x) q k y)"
  using assms rep_rotate_left [of s ctx t p c x q k y] rep_rotate_right [of s ctx y q k x p c t]
  by (cases d) (auto simp: mk_def rot_def)

lemma rep_color_mk: "rep s ctx (mk d x a c y) \<Longrightarrow> rep (rb_set_color a b s) ctx (mk d x a b y)"
  using rep_color by (cases d) (auto simp: mk_def)

text \<open>What the code reads at a node in the focus.\<close>

lemma rep_reads_mk:
  assumes "rep s ctx (mk d x a c y)"
  shows "near d (nodes s a) = rt_of x" and "near (\<not> d) (nodes s a) = rt_of y" and "rb_black (nodes s a) = c"
    and "rb_par (nodes s a) = par_of ctx" and "nil_or_black (rt_of x) s = is_b x" and "nil_or_black (rt_of y) s = is_b y"
proof -
  define l where "l = (if d then x else y)"
  define r where "r = (if d then y else x)"
  have m: "mk d x a c y = Nd l a c r" by (simp add: mk_def l_def r_def)
  have t: "trep (nodes s) (Some a) l (rb_left (nodes s a))" "trep (nodes s) (Some a) r (rb_right (nodes s a))"
    using rep_node(3,4) [of s ctx l a c r] assms m by auto
  have q: "rb_left (nodes s a) = rt_of l" "rb_right (nodes s a) = rt_of r"
    using trep_root [OF t(1)] trep_root [OF t(2)] by (simp_all add: rt_of_def)
  then show "near d (nodes s a) = rt_of x" "near (\<not> d) (nodes s a) = rt_of y"
    by (simp_all add: near_def l_def r_def)
  show "rb_black (nodes s a) = c" using assms m by (auto simp: rep_def)
  show "rb_par (nodes s a) = par_of ctx" using rep_node(1) [of s ctx l a c r] assms m by simp
  have b: "nil_or_black (rt_of u) s = is_b u" if "trep (nodes s) par u q" for par u q
    using that by (cases u) (simp_all add: nil_or_black_def rt_of_def)
  have "nil_or_black (rt_of l) s = is_b l" "nil_or_black (rt_of r) s = is_b r" using b t by blast+
  then show "nil_or_black (rt_of x) s = is_b x" "nil_or_black (rt_of y) s = is_b y"
    by (cases d; simp add: l_def r_def)+
qed

section \<open>Balance\<close>

definition turn_del :: "bool \<Rightarrow> nat \<Rightarrow> bool \<Rightarrow> tree \<Rightarrow> nat \<Rightarrow> tree \<Rightarrow> tree \<Rightarrow> tree \<Rightarrow> bool" where
  "turn_del d p c x q y t t' \<longleftrightarrow>
     (if is_b y then (\<exists>xa xn k xb. x = mk d xa xn k xb \<and> t' = mk d (mk d t p True xa) xn c (mk d xb q True y))
      else t' = mk d (mk d t p True x) q c (blacken y))"

lemma turn_del_inord: "turn_del d p c x q y t t' \<Longrightarrow> inord t' = inord (mk d t p c (mk d x q True y))"
  by (cases d) (auto simp: turn_del_def mk_def split: if_splits)

lemma turn_del_bal:
  assumes "turn_del d p c x q y t t'" and "\<not> (is_b x \<and> is_b y)" and "bal t k" "bal x k" "bal y k"
  shows "is_b t' = c \<and> bal t' (if c then Suc (Suc k) else Suc k)"
proof (cases "is_b y")
  case True
  with assms show ?thesis by (auto simp: turn_del_def)
next
  case False
  then have "bal (blacken y) (Suc k)" "is_b (blacken y)" using assms(5) blacken_bal by auto
  with False assms show ?thesis by (auto simp: turn_del_def)
qed

lemma cok_root: "cok ctx k \<Longrightarrow> ctx \<noteq> [] \<Longrightarrow> is_b (plug ctx t)"
proof (induction ctx arbitrary: k t)
  case (Cons st ctx)
  obtain d a c u where st: "st = (d, a, c, u)" by (metis surj_pair)
  show ?case
  proof (cases "ctx = []")
    case True
    with Cons.prems st show ?thesis by (auto split: if_splits)
  next
    case False
    then have "is_b (plug ctx (join st t))"
      using Cons.IH [of "if c then Suc k else k"] Cons.prems(1) st by (auto split: if_splits)
    then show ?thesis by simp
  qed
qed simp

section \<open>One turn of the loop\<close>

lemma erase_final:
  assumes "rep s ctx (mk d t p c (mk d x q k y))" and "y \<noteq> Lf"
  shows "\<exists>s'. (case near (\<not> d) (nodes s p) of None \<Rightarrow> Inl NullDeref
            | Some other \<Rightarrow>
                let s = rb_set_color other (rb_black (nodes s p)) s;
                    s = rb_set_color p True s
                in andThen (set_color_opt (near (\<not> d) (nodes s other)) True s) (\<lambda>s.
                   andThen (rot d p s) (\<lambda>s. Inr (None, s)))) = Inr (None :: nat option, s') \<and>
       rep s' ctx (mk d (mk d t p True x) q c (blacken y))"
proof -
  obtain ya yn yk yb where y: "y = mk d ya yn yk yb" using mk_cases [OF assms(2)] by blast
  define s1 where "s1 = rb_set_color q (rb_black (nodes s p)) s"
  define s2 where "s2 = rb_set_color p True s1"
  define s3 where "s3 = rb_set_color yn True s2"
  note r = rep_reads_mk [OF assms(1)]
  have "rep s1 ((\<not> d, p, c, t) # ctx) (mk d x q c y)"
    unfolding s1_def r(3) using assms(1) by (intro rep_color_mk [where c = k]) (simp add: rep_mk2)
  then have "rep s2 ctx (mk d t p True (mk d x q c y))"
    unfolding s2_def by (intro rep_color_mk [where c = c]) (simp add: rep_mk2)
  then have a2: "rep s2 ((\<not> d, p, True, t) # ctx) (mk d x q c y)" by (simp add: rep_mk2)
  then have far: "near (\<not> d) (nodes s2 q) = Some yn" using rep_reads_mk(2) y by simp
  have "rep s2 ((\<not> d, q, c, x) # (\<not> d, p, True, t) # ctx) (mk d ya yn yk yb)" using a2 y by (simp add: rep_mk2)
  then have "rep s3 ((\<not> d, q, c, x) # (\<not> d, p, True, t) # ctx) (mk d ya yn True yb)"
    unfolding s3_def by (rule rep_color_mk)
  then have "rep s3 ctx (mk d t p True (mk d x q c (blacken y)))" using y by (simp add: rep_mk2)
  from rep_rot [OF this] obtain s' where "rot d p s3 = Inr s'" "rep s' ctx (mk d (mk d t p True x) q c (blacken y))"
    by blast
  then show ?thesis using r(2) far by (simp add: s1_def s2_def s3_def Let_def set_color_opt_def)
qed

lemma erase_tail_turn:
  assumes rep: "rep s ctx (mk d t p c (mk d x q True y))" and nb: "\<not> (is_b x \<and> is_b y)"
  shows "\<exists>s' t'. erase_tail (near d) (near (\<not> d)) (rot d) (rot (\<not> d)) p s = Inr (None, s') \<and>
     rep s' ctx t' \<and> turn_del d p c x q y t t'"
proof -
  have at_q: "rep s ((\<not> d, p, c, t) # ctx) (mk d x q True y)" using rep by (simp add: rep_mk2)
  note rq = rep_reads_mk [OF at_q] and rp = rep_reads_mk(2) [OF rep]
  show ?thesis
  proof (cases "is_b y")
    case False
    then have "y \<noteq> Lf" by auto
    from erase_final [OF rep this] False nb rq rp show ?thesis
      by (auto simp: erase_tail_def turn_del_def)
  next
    case True
    then have "\<not> is_b x" using nb by simp
    then have "x \<noteq> Lf" by auto
    then obtain xa xn xk xb where x: "x = mk d xa xn xk xb" using mk_cases by blast
    define s1 where "s1 = rb_set_color xn True s"
    define s2 where "s2 = rb_set_color q False s1"
    have "rep s ((d, q, True, y) # (\<not> d, p, c, t) # ctx) (mk d xa xn xk xb)" using at_q x by (simp add: rep_mk)
    then have "rep s1 ((d, q, True, y) # (\<not> d, p, c, t) # ctx) (mk d xa xn True xb)"
      unfolding s1_def by (rule rep_color_mk)
    then have "rep s2 ((\<not> d, p, c, t) # ctx) (mk d (mk d xa xn True xb) q False y)"
      unfolding s2_def by (intro rep_color_mk [where c = True]) (simp add: rep_mk)
    then have "rep s2 ((\<not> d, p, c, t) # ctx) (mk (\<not> d) y q False (mk (\<not> d) xb xn True xa))" by (simp add: mk_swap)
    from rep_rot [OF this] obtain s3 where s3: "rot (\<not> d) q s2 = Inr s3"
      "rep s3 ((\<not> d, p, c, t) # ctx) (mk (\<not> d) (mk (\<not> d) y q False xb) xn True xa)" by blast
    then have "rep s3 ctx (mk d t p c (mk d xa xn True (mk d xb q False y)))" by (simp add: mk_swap rep_mk2)
    from erase_final [OF this] True x \<open>\<not> is_b x\<close> s3(1) rq rp obtain s' where
      "erase_tail (near d) (near (\<not> d)) (rot d) (rot (\<not> d)) p s = Inr (None, s')"
      "rep s' ctx (mk d (mk d t p True xa) xn c (mk d xb q True y))"
      by (auto simp: erase_tail_def s1_def s2_def set_color_opt_def)
    moreover have "turn_del d p c x q y t (mk d (mk d t p True xa) xn c (mk d xb q True y))"
      using True x by (auto simp: turn_del_def)
    ultimately show ?thesis by blast
  qed
qed

lemma erase_tail_black:
  assumes rep: "rep s ctx (mk d t p c (mk d x q True y))" and b: "is_b x" "is_b y"
  shows "erase_tail (near d) (near (\<not> d)) (rot d) (rot (\<not> d)) p s = Inr (Some p, rb_set_color q False s)"
    and "rep (rb_set_color q False s) ctx (mk d t p c (mk d x q False y))"
proof -
  have at_q: "rep s ((\<not> d, p, c, t) # ctx) (mk d x q True y)" using rep by (simp add: rep_mk2)
  from rep_color_mk [OF this] show "rep (rb_set_color q False s) ctx (mk d t p c (mk d x q False y))" by (simp add: rep_mk2)
  show "erase_tail (near d) (near (\<not> d)) (rot d) (rot (\<not> d)) p s = Inr (Some p, rb_set_color q False s)"
    using rep_reads_mk [OF at_q] rep_reads_mk(2) [OF rep] b by (simp add: erase_tail_def)
qed

text \<open>The side with a red sibling: one rotation more.\<close>

lemma erase_side_red:
  assumes rep: "rep s ctx (mk d t p c (mk d x q False y))"
  shows "\<exists>s1. erase_side (near d) (near (\<not> d)) (rot d) (rot (\<not> d)) p s =
       erase_tail (near d) (near (\<not> d)) (rot d) (rot (\<not> d)) p s1 \<and>
     rep s1 ((d, q, True, y) # ctx) (mk d t p False x)"
proof -
  define s1 where "s1 = rb_set_color q True s"
  define s2 where "s2 = rb_set_color p False s1"
  have at_q: "rep s ((\<not> d, p, c, t) # ctx) (mk d x q False y)" using rep by (simp add: rep_mk2)
  then have "rep s1 ((\<not> d, p, c, t) # ctx) (mk d x q True y)" unfolding s1_def by (rule rep_color_mk)
  then have "rep s2 ctx (mk d t p False (mk d x q True y))"
    unfolding s2_def by (intro rep_color_mk [where c = c]) (simp add: rep_mk2)
  from rep_rot [OF this] obtain s3 where "rot d p s2 = Inr s3" "rep s3 ctx (mk d (mk d t p False x) q True y)" by blast
  then show ?thesis
    using rep_reads_mk(3) [OF at_q] rep_reads_mk(2) [OF rep]
    by (intro exI [of _ s3]) (simp add: erase_side_def s1_def s2_def rep_mk)
qed

lemma erase_side_black:
  assumes rep: "rep s ctx (mk d t p c (mk d x q True y))"
  shows "erase_side (near d) (near (\<not> d)) (rot d) (rot (\<not> d)) p s =
       erase_tail (near d) (near (\<not> d)) (rot d) (rot (\<not> d)) p s"
proof -
  have at_q: "rep s ((\<not> d, p, c, t) # ctx) (mk d x q True y)" using rep by (simp add: rep_mk2)
  then show ?thesis using rep_reads_mk(3) [OF at_q] rep_reads_mk(2) [OF rep] by (simp add: erase_side_def)
qed

section \<open>The loop\<close>

definition blacken_at :: "nat option \<times> rbt \<Rightarrow> rbt" where
  "blacken_at ns = (case fst ns of None \<Rightarrow> snd ns | Some a \<Rightarrow> rb_set_color a True (snd ns))"

text \<open>What the loop achieves: the whole tree, balanced, with the same nodes in order.\<close>

definition erased :: "(nat option \<times> rbt) res option \<Rightarrow> nat list \<Rightarrow> bool" where
  "erased r xs \<longleftrightarrow> (\<exists>ns t'. r = Some (Inr ns) \<and> rep (blacken_at ns) [] t' \<and> rb_inv t' \<and> inord t' = xs)"

lemma erased_whole:
  assumes "rep s ctx t" and "bal t k" and "cok ctx k" and "is_b t"
  shows "erased (Some (Inr (rb_node s, s))) (before ctx @ inord t @ after ctx)"
proof -
  have top: "rep s [] (plug ctx t)" using assms(1) by (simp add: rep_focus)
  have black: "is_b (plug ctx t)" using cok_root [OF assms(3)] assms(4) by (cases "ctx = []") auto
  obtain K where K: "bal (plug ctx t) K" using plug_bal [OF assms(2,3)] assms(4) by blast
  have "rep (blacken_at (rb_node s, s)) [] (plug ctx t)"
  proof (cases "plug ctx t")
    case Lf
    with top show ?thesis by (auto simp: rep_def blacken_at_def)
  next
    case (Nd l a c r)
    with top black show ?thesis using rep_color [of s "[]" l a c r True] rep_top [of s l a c r] by (simp add: blacken_at_def)
  qed
  with black K show ?thesis by (auto simp: erased_def rb_inv_def inord_plug)
qed

lemma erased_red:
  assumes "rep s ctx (Nd l a False r)" and "bal (Nd l a True r) (Suc k)" and "cok ctx (Suc k)"
  shows "erased (Some (Inr (Some a, s))) (before ctx @ inord (Nd l a False r) @ after ctx)"
proof -
  have rep: "rep (blacken_at (Some a, s)) [] (plug ctx (Nd l a True r))"
    using rep_color [OF assms(1), of True] by (simp add: rep_focus blacken_at_def)
  obtain K where K: "bal (plug ctx (Nd l a True r)) K" using plug_bal [OF assms(2,3)] by auto
  have "is_b (plug ctx (Nd l a True r))" using cok_root [OF assms(3)] by (cases "ctx = []") auto
  with rep K show ?thesis by (auto simp: erased_def rb_inv_def inord_plug)
qed

lemma erase_loop_exit:
  assumes "rep s ctx (Nd l a False r)"
  shows "erase_loop (Some a) q s = Some (Inr (Some a, s))"
proof -
  have "\<not> rb_black (nodes s a)" using assms by (auto simp: rep_def)
  then show ?thesis by (subst erase_loop.simps) (simp add: nil_or_black_def)
qed

text \<open>The loop enters the side the node is on.\<close>

lemma erase_loop_side:
  assumes rep: "rep s ((d, p, c, u) # ctx) t" and "is_b t" and "u \<noteq> Lf"
  shows "erase_loop (rt_of t) (Some p) s =
     (case erase_side (near d) (near (\<not> d)) (rot d) (rot (\<not> d)) p s of
        Inl e \<Rightarrow> Some (Inl e)
      | Inr (None, s) \<Rightarrow> Some (Inr (rb_node s, s))
      | Inr (Some n, s) \<Rightarrow> erase_loop (Some n) (rb_par (nodes s n)) s)"
proof -
  have at_p: "rep s ctx (mk d t p c u)" using rep by (simp add: rep_mk)
  note r = rep_reads_mk [OF at_p]
  have nb: "nil_or_black (rt_of t) s" using r(5) assms(2) by simp
  have "rt_of t \<noteq> rb_node s"
  proof
    assume eq: "rt_of t = rb_node s"
    obtain a x k y where root: "plug ctx (mk d t p c u) = Nd x a k y"
      by (cases "plug ctx (mk d t p c u)") (auto dest: arg_cong [of _ _ inord] simp: inord_plug mk_def split: if_splits)
    then have "rb_node s = Some a" "distinct (inord (plug ctx (mk d t p c u)))"
      using at_p rep_focus [of s ctx "mk d t p c u"] by (auto simp: rep_def)
    then obtain l k' r' where t: "t = Nd l a k' r'" using eq by (cases t) (auto simp: rt_of_def)
    have "rep s ((d, p, c, u) # ctx) (Nd l a k' r')" using rep t by simp
    then have "rb_par (nodes s a) = Some p" by (rule rep_reads(1))
    moreover have "rb_par (nodes s a) = None"
      using rep_top [of s x a k y] root at_p rep_focus [of s ctx "mk d t p c u"] by simp
    ultimately show False by simp
  qed
  moreover have "rb_left (nodes s p) = rt_of t \<longleftrightarrow> d"
  proof (cases d)
    case True
    with r(1) show ?thesis by (simp add: near_def)
  next
    case False
    obtain ua ul uk ur where u: "u = Nd ul ua uk ur" using assms(3) by (cases u) auto
    moreover have "distinct (inord (mk d t p c u))" using at_p by (auto simp: rep_def)
    then have "rt_of t \<noteq> Some ua" using u False by (cases t) (auto simp: mk_def rt_of_def)
    ultimately show ?thesis using False r(2) by (auto simp: near_def rt_of_def)
  qed
  ultimately show ?thesis using nb by (subst erase_loop.simps) (cases d; simp add: near_def rot_def)
qed

text \<open>One entry into a side, with the loop on a shorter context given.\<close>

definition after_side :: "(nat option \<times> rbt) res \<Rightarrow> (nat option \<times> rbt) res option" where
  "after_side r = (case r of Inl e \<Rightarrow> Some (Inl e)
      | Inr (None, s) \<Rightarrow> Some (Inr (rb_node s, s))
      | Inr (Some n, s) \<Rightarrow> erase_loop (Some n) (rb_par (nodes s n)) s)"

lemma after_turn:
  assumes "rep s ctx t'" and "turn_del d p c x q y t t'" and "\<not> (is_b x \<and> is_b y)" and "bal t k" "bal x k" "bal y k"
    and "if c then cok ctx (Suc (Suc k)) else top_black ctx \<and> cok ctx (Suc k)"
  shows "erased (after_side (Inr (None, s))) (before ctx @ inord (mk d t p c (mk d x q True y)) @ after ctx)"
proof -
  note tb = turn_del_bal [OF assms(2-6)] and io = turn_del_inord [OF assms(2)]
  have top: "rep s [] (plug ctx t')" using assms(1) by (simp add: rep_focus)
  obtain K where K: "bal (plug ctx t') K"
    using plug_bal [of t' "if c then Suc (Suc k) else Suc k" ctx] tb assms(7) by (auto split: if_splits)
  have black: "is_b (plug ctx t')"
    using cok_root [of ctx "if c then Suc (Suc k) else Suc k"] tb assms(7) by (cases "ctx = []") (auto split: if_splits)
  have "rep s [] (plug ctx t') \<and> bal (plug ctx t') K \<and> is_b (plug ctx t')" using top K black by simp
  then have "erased (Some (Inr (rb_node s, s))) (inord (plug ctx t'))"
    using erased_whole [of s "[]" "plug ctx t'" K] by simp
  then show ?thesis using io by (simp add: after_side_def inord_plug)
qed

text \<open>Under a red parent the loop is left at once.\<close>

lemma erase_red_parent:
  assumes rep: "rep s ctx (mk d t p False (mk d x q True y))" and t: "is_b t" "bal t k" and u: "bal (mk d x q True y) (Suc k)"
    and up: "if False then cok ctx (Suc (Suc k)) else top_black ctx \<and> cok ctx (Suc k)"
  shows "erased (after_side (erase_tail (near d) (near (\<not> d)) (rot d) (rot (\<not> d)) p s))
     (before ctx @ inord (mk d t p False (mk d x q True y)) @ after ctx)"
proof (cases "is_b x \<and> is_b y")
  case False
  obtain s' t' where s': "erase_tail (near d) (near (\<not> d)) (rot d) (rot (\<not> d)) p s = Inr (None, s')"
    "rep s' ctx t'" "turn_del d p False x q y t t'" using erase_tail_turn [OF rep False] by blast
  with after_turn [OF s'(2,3) False t(2) _ _ up] u show ?thesis by simp
next
  case True
  let ?s = "rb_set_color q False s" and ?t = "mk d t p False (mk d x q False y)"
  have e: "erase_tail (near d) (near (\<not> d)) (rot d) (rot (\<not> d)) p s = Inr (Some p, ?s)" and r: "rep ?s ctx ?t"
    using erase_tail_black [OF rep] True by blast+
  have io: "inord ?t = inord (mk d t p False (mk d x q True y))" by (cases d) (simp_all add: mk_def)
  obtain l r' where n: "?t = Nd l p False r'" by (cases d) (auto simp: mk_def)
  have rb: "rep ?s ctx (Nd l p False r')" using r n by simp
  have "bal (mk d x q False y) k" using u True by simp
  then have "bal (Nd l p True r') (Suc k)" using t n by (cases d) (auto simp: mk_def)
  then have "erased (Some (Inr (Some p, ?s))) (before ctx @ inord (Nd l p False r') @ after ctx)"
    using erased_red [OF rb] up by simp
  moreover have "inord (Nd l p False r') = inord (mk d t p False (mk d x q True y))" using n io by metis
  moreover have "after_side (erase_tail (near d) (near (\<not> d)) (rot d) (rot (\<not> d)) p s) = Some (Inr (Some p, ?s))"
    using e erase_loop_exit [OF rb] by (simp add: after_side_def)
  ultimately show ?thesis by (simp only:)
qed

lemma erase_black_sibling:
  assumes rep: "rep s ctx (mk d t p c (mk d x q True y))" and t: "is_b t" "bal t k" and u: "bal (mk d x q True y) (Suc k)"
    and up: "if c then cok ctx (Suc (Suc k)) else top_black ctx \<and> cok ctx (Suc k)"
    and go: "\<And>s t k. rep s ctx t \<Longrightarrow> bal t k \<Longrightarrow> cok ctx (Suc k) \<Longrightarrow>
       erased (erase_loop (rt_of t) (par_of ctx) s) (before ctx @ inord t @ after ctx)"
  shows "erased (after_side (erase_tail (near d) (near (\<not> d)) (rot d) (rot (\<not> d)) p s))
     (before ctx @ inord (mk d t p c (mk d x q True y)) @ after ctx)"
proof (cases "c \<and> is_b x \<and> is_b y")
  case False
  show ?thesis
  proof (cases c)
    case False
    have rep': "rep s ctx (mk d t p False (mk d x q True y))" using rep False by simp
    have up': "if False then cok ctx (Suc (Suc k)) else top_black ctx \<and> cok ctx (Suc k)" using up False by simp
    from erase_red_parent [OF rep' t u up'] False show ?thesis by simp
  next
    case True
    then have nb: "\<not> (is_b x \<and> is_b y)" using \<open>\<not> (c \<and> is_b x \<and> is_b y)\<close> by simp
    obtain s' t' where s': "erase_tail (near d) (near (\<not> d)) (rot d) (rot (\<not> d)) p s = Inr (None, s')"
      "rep s' ctx t'" "turn_del d p c x q y t t'" using erase_tail_turn [OF rep nb] by blast
    with after_turn [OF s'(2,3) nb t(2) _ _ up] u show ?thesis by simp
  qed
next
  case True
  let ?s = "rb_set_color q False s" and ?t = "mk d t p c (mk d x q False y)"
  have e: "erase_tail (near d) (near (\<not> d)) (rot d) (rot (\<not> d)) p s = Inr (Some p, ?s)" and r: "rep ?s ctx ?t"
    using erase_tail_black [OF rep] True by blast+
  have io: "inord ?t = inord (mk d t p c (mk d x q True y))" by (cases d) (simp_all add: mk_def)
  have "bal ?t (Suc k)" "cok ctx (Suc (Suc k))" using t u True up by simp_all
  from go [OF r this] rep_reads_mk(4) [OF r] e io show ?thesis by (simp add: after_side_def)
qed

lemma erase_cases:
  assumes rep: "rep s ctx (mk d t p c (mk d x q ku y))" and t: "is_b t" "bal t k"
    and u: "bal (mk d x q ku y) (Suc k)"
    and up: "if c then cok ctx (Suc (Suc k)) else is_b (mk d x q ku y) \<and> top_black ctx \<and> cok ctx (Suc k)"
    and go: "\<And>s t k. rep s ctx t \<Longrightarrow> bal t k \<Longrightarrow> cok ctx (Suc k) \<Longrightarrow>
       erased (erase_loop (rt_of t) (par_of ctx) s) (before ctx @ inord t @ after ctx)"
  shows "erased (after_side (erase_side (near d) (near (\<not> d)) (rot d) (rot (\<not> d)) p s))
     (before ctx @ inord (mk d t p c (mk d x q ku y)) @ after ctx)"
proof (cases ku)
  case True
  have up': "if c then cok ctx (Suc (Suc k)) else top_black ctx \<and> cok ctx (Suc k)" using up by simp
  have rep': "rep s ctx (mk d t p c (mk d x q True y))" and u': "bal (mk d x q True y) (Suc k)" using rep u True by simp_all
  from erase_black_sibling [OF rep' t u' up' go] erase_side_black [OF rep'] True show ?thesis by simp
next
  case False
  then have c: "c" "cok ctx (Suc (Suc k))" and xy: "bal x (Suc k)" "bal y (Suc k)" "is_b x" "is_b y"
    using up u by (auto split: if_splits)
  then have "x \<noteq> Lf" by auto
  then obtain x1 xq xk x2 where x: "x = mk d x1 xq xk x2" using mk_cases by blast
  then have xk: "xk" using xy(3) by simp
  have rep': "rep s ctx (mk d t p c (mk d x q False y))" using rep False by simp
  obtain s1 where s1: "erase_side (near d) (near (\<not> d)) (rot d) (rot (\<not> d)) p s =
       erase_tail (near d) (near (\<not> d)) (rot d) (rot (\<not> d)) p s1"
     "rep s1 ((d, q, True, y) # ctx) (mk d t p False x)" using erase_side_red [OF rep'] by blast
  let ?ctx = "(d, q, True, y) # ctx"
  have up1: "if False then cok ?ctx (Suc (Suc k)) else top_black ?ctx \<and> cok ?ctx (Suc k)" using c xy by simp
  have r1: "rep s1 ?ctx (mk d t p False (mk d x1 xq True x2))" using s1(2) x xk by simp
  have u1: "bal (mk d x1 xq True x2) (Suc k)" using xy(1) x xk by simp
  have stop: "erased (after_side (erase_tail (near d) (near (\<not> d)) (rot d) (rot (\<not> d)) p s1))
     (before ?ctx @ inord (mk d t p False (mk d x1 xq True x2)) @ after ?ctx)"
    by (rule erase_red_parent [OF r1 t u1 up1])
  have "before ?ctx @ inord (mk d t p False x) @ after ?ctx = before ctx @ inord (mk d t p c (mk d x q ku y)) @ after ctx"
    by (cases d) (auto simp: mk_def)
  moreover have "inord (mk d t p False x) = inord (mk d t p False (mk d x1 xq True x2))" using x xk by simp
  ultimately show ?thesis using stop s1(1) by metis
qed

lemma erase_loop_ok:
  "rep s ctx t \<Longrightarrow> bal t k \<Longrightarrow> cok ctx (Suc k) \<Longrightarrow>
     erased (erase_loop (rt_of t) (par_of ctx) s) (before ctx @ inord t @ after ctx)"
proof (induction ctx arbitrary: t k s)
  case Nil
  show ?case
  proof (cases "is_b t")
    case True
    have "rt_of t = rb_node s" using Nil.prems(1) by (cases t) (auto simp: rep_def rt_of_def)
    then have "erase_loop (rt_of t) (par_of []) s = Some (Inr (rb_node s, s))" by (subst erase_loop.simps) simp
    with erased_whole [OF Nil.prems(1,2) _ True] show ?thesis by simp
  next
    case False
    then obtain l a r where t: "t = Nd l a False r" by (cases t) auto
    with Nil.prems erased_red [of s "[]" l a r k] erase_loop_exit [of s "[]" l a r] show ?thesis by (simp add: rt_of_def)
  qed
next
  case (Cons st ctx)
  obtain d p c u where st: "st = (d, p, c, u)" by (metis surj_pair)
  let ?xs = "before (st # ctx) @ inord t @ after (st # ctx)"
  show ?case
  proof (cases "is_b t")
    case False
    then obtain l a r where t: "t = Nd l a False r" by (cases t) auto
    with Cons.prems erased_red [of s "st # ctx" l a r k] erase_loop_exit [of s "st # ctx" l a r] show ?thesis
      by (simp add: rt_of_def)
  next
    case True
    have u: "bal u (Suc k)" and up: "if c then cok ctx (Suc (Suc k)) else is_b u \<and> top_black ctx \<and> cok ctx (Suc k)"
      using Cons.prems(3) st by auto
    then have "u \<noteq> Lf" by auto
    then obtain x q ku y where uq: "u = mk d x q ku y" using mk_cases by blast
    note enter = erase_loop_side [OF Cons.prems(1) [unfolded st] True \<open>u \<noteq> Lf\<close>]
    have at_p: "rep s ctx (mk d t p c (mk d x q ku y))" using Cons.prems(1) st uq by (simp add: rep_mk)
    have xs: "?xs = before ctx @ inord (mk d t p c (mk d x q ku y)) @ after ctx"
      using st uq by (cases d) (auto simp: mk_def)
    have "erased (after_side (erase_side (near d) (near (\<not> d)) (rot d) (rot (\<not> d)) p s))
        (before ctx @ inord (mk d t p c (mk d x q ku y)) @ after ctx)"
      by (rule erase_cases [OF at_p True Cons.prems(2) u [unfolded uq] up [unfolded uq]]) (rule Cons.IH)
    moreover have "par_of (st # ctx) = Some p" using st by (simp add: par_of_def)
    ultimately show ?thesis using enter xs unfolding after_side_def by metis
  qed
qed

section \<open>Taking the node out\<close>

lemma rep_cong_nodes:
  assumes "rep s ctx t" and "rb_node s' = rb_node s"
    and "\<And>x. x \<in> set (inord t) \<union> set (ctx_nodes ctx) \<Longrightarrow> nodes s' x = nodes s x"
  shows "rep s' ctx t"
  using assms trep_cong [of t "nodes s'" "nodes s"] crep_cong [of ctx "nodes s'" "nodes s"]
  unfolding rep_def by auto

lemma reparent_crep:
  assumes "crep (nodes s) rt ctx par q" and "\<And>x. child = Some x \<Longrightarrow> x \<notin> set (ctx_nodes ctx)"
  shows "crep (nodes (rb_set_parent_opt child p s)) rt ctx par q"
  using assms by (cases child) (simp_all add: reparent_nodes)

lemma rep_splice:
  assumes rep: "rep s ctx (Nd l n c r)" and lf: "l = Lf \<or> r = Lf" and ch: "ch = (if l = Lf then r else l)"
  shows "\<exists>s'. splice_out n (rt_of ch) s = (par_of ctx, c, s') \<and> rep s' ctx ch"
proof -
  obtain par where cr: "crep (nodes s) (rb_node s) ctx par (Some n)" and tr: "trep (nodes s) par (Nd l n c r) (Some n)"
    and dist: "distinct (inord (Nd l n c r) @ ctx_nodes ctx)"
    using rep by (auto simp: rep_def)
  have par: "rb_par (nodes s n) = par" "rb_black (nodes s n) = c" "par = par_of ctx"
    using tr rep_node(1) [OF rep] by auto
  let ?s = "rb_set_parent_opt (rt_of ch) par s"
  have chtr: "trep (nodes s) (Some n) ch (rt_of ch)"
    using tr trep_root [of "nodes s" "Some n" ch] ch by (auto simp: rt_of_def)
  have d: "distinct (inord ch @ ctx_nodes ctx)" "n \<notin> set (ctx_nodes ctx)" using dist ch by auto
  have out: "x \<notin> set (ctx_nodes ctx)" if "rt_of ch = Some x" for x
    using that d(1) by (cases ch) (auto simp: rt_of_def)
  have t1: "trep (nodes ?s) par ch (rt_of ch)"
    using trep_reparent [OF chtr, of par] d(1) by (simp add: reparent_nodes)
  have c1: "crep (nodes ?s) (rb_node ?s) ctx par (Some n)"
    using reparent_crep [OF cr, of "rt_of ch" par] out by (simp add: reparent_nodes(2))
  have "splice_out n (rt_of ch) s = (par_of ctx, c, fill ctx (rt_of ch) ?s)"
    using par set_child_fill(1) [OF c1 d(2)] by (simp add: splice_out_def Let_def)
  moreover have "rep (fill ctx (rt_of ch) ?s) ctx ch" by (rule rep_fill [OF c1 t1 d(1)])
  ultimately show ?thesis by blast
qed

lemma fill_on_node: "a \<notin> set (ctx_nodes ctx) \<Longrightarrow> fill ctx q (on_node a g s) = on_node a g (fill ctx q s)"
  by (cases ctx) (auto simp: fill_def set_left_def set_right_def on_node_def intro!: rbt.equality)

lemma fill_reparent:
  "(\<And>a. p = Some a \<Longrightarrow> a \<notin> set (ctx_nodes ctx)) \<Longrightarrow>
     fill ctx q (rb_set_parent_opt p x s) = rb_set_parent_opt p x (fill ctx q s)"
  by (cases p) (simp_all add: rb_set_parent_opt_def rb_set_parent_def fill_on_node)

lemma rt_of_in: "rt_of t = Some x \<Longrightarrow> x \<in> set (inord t)"
  by (cases t) (auto simp: rt_of_def)

lemma rep_ptrs:
  assumes "rep s ctx (Nd l n c r)"
  shows "rb_left (nodes s n) = rt_of l" and "rb_right (nodes s n) = rt_of r" and "rb_black (nodes s n) = c"
  using assms rep_node(3,4) [OF assms, THEN trep_root] by (auto simp: rt_of_def rep_def)

lemma rep_set_child:
  assumes "rep s ctx (Nd l n c r)"
  shows "set_child_left_first (rb_par (nodes s n)) n q s = fill ctx q s"
proof -
  obtain par where "crep (nodes s) (rb_node s) ctx par (Some n)" "n \<notin> set (ctx_nodes ctx)" "rb_par (nodes s n) = par"
    using assms by (auto simp: rep_def)
  then show ?thesis using set_child_fill(1) by simp
qed

lemma replace_eq:
  assumes rep: "rep s ctx (Nd l n c r)"
  shows "rb_replace_node n m s = on_node m (\<lambda>_. nodes s n)
     (rb_set_parent_opt (rt_of r) (Some m) (rb_set_parent_opt (rt_of l) (Some m) (fill ctx (Some m) s)))"
proof -
  have n: "n \<notin> set (ctx_nodes ctx)" "n \<notin> set (inord l)" "n \<notin> set (inord r)" using rep by (auto simp: rep_def)
  have "nodes (fill ctx (Some m) s) n = nodes s n" using fill_other n(1) .
  moreover have "nodes (rb_set_parent_opt q p z) n = nodes z n" if "q \<noteq> Some n" for q p z
    using that by (auto simp: reparent_nodes split: option.splits)
  moreover have "rt_of l \<noteq> Some n" "rt_of r \<noteq> Some n" using rt_of_in n by auto
  ultimately show ?thesis by (simp add: rb_replace_node_def Let_def rep_set_child [OF rep] rep_ptrs [OF rep])
qed

lemma rep_replace:
  assumes rep: "rep s ctx (Nd l n c r)" and m: "m \<notin> set (inord (Nd l n c r) @ ctx_nodes ctx)"
  shows "rep (rb_replace_node n m s) ctx (Nd l m c r)"
proof -
  obtain par where cr: "crep (nodes s) (rb_node s) ctx par (Some n)" and tr: "trep (nodes s) par (Nd l n c r) (Some n)"
    and dist: "distinct (inord (Nd l n c r) @ ctx_nodes ctx)"
    using rep by (auto simp: rep_def)
  note q = rep_node [OF rep]
  have lq: "rb_left (nodes s n) = rt_of l" and rq: "rb_right (nodes s n) = rt_of r"
    using trep_root [OF q(3)] trep_root [OF q(4)] by (simp_all add: rt_of_def)
  have par: "rb_par (nodes s n) = par" using tr by simp
  let ?s1 = "rb_set_parent_opt (rt_of r) (Some m) (rb_set_parent_opt (rt_of l) (Some m) s)"
  let ?s2 = "on_node m (\<lambda>_. nodes s n) ?s1"
  have l_in: "x \<in> set (inord l)" if "rt_of l = Some x" for x using that by (cases l) (auto simp: rt_of_def)
  have r_in: "x \<in> set (inord r)" if "rt_of r = Some x" for x using that by (cases r) (auto simp: rt_of_def)
  have r_out: "x \<notin> set (inord l)" if "rt_of r = Some x" for x using r_in [OF that] dist by auto
  have nodes1: "nodes ?s1 x = nodes s x" if "x \<notin> set (inord l)" "x \<notin> set (inord r)" for x
    using that l_in r_in by (auto simp: reparent_nodes split: option.splits)
  have c2: "crep (nodes ?s2) (rb_node ?s2) ctx par (Some n)"
  proof -
    have "nodes ?s2 x = nodes s x" if "x \<in> set (ctx_nodes ctx)" for x
      using that m dist nodes1 [of x] by auto
    then have "crep (nodes ?s2) (rb_node s) ctx par (Some n) = crep (nodes s) (rb_node s) ctx par (Some n)"
      by (rule crep_cong)
    with cr show ?thesis by (simp add: reparent_nodes(2))
  qed
  have tl: "trep (case rt_of l of None \<Rightarrow> nodes s | Some a \<Rightarrow> (nodes s)(a := (nodes s a)\<lparr>rb_par := Some m\<rparr>)) (Some m) l (rt_of l)"
    using trep_reparent [OF q(3), of "Some m"] dist lq by simp
  have tl2: "trep (nodes ?s2) (Some m) l (rt_of l)"
    using tl m r_out by (auto simp: reparent_nodes split: option.splits)
  let ?h = "nodes (rb_set_parent_opt (rt_of l) (Some m) s)"
  have "trep ?h (Some n) r (rt_of r)"
    using q(4) rq dist l_in trep_cong [of r ?h "nodes s"] by (auto simp: reparent_nodes disjoint_iff split: option.splits)
  then have tr2: "trep (nodes ?s2) (Some m) r (rt_of r)"
    using trep_reparent [of ?h "Some n" r "rt_of r" "Some m"] m dist by (simp add: reparent_nodes(1) [of "rt_of r"])
  have t2: "trep (nodes ?s2) par (Nd l m c r) (Some m)"
    using tl2 tr2 tr par lq rq by simp
  have "rep (fill ctx (Some m) ?s2) ctx (Nd l m c r)" by (rule rep_fill [OF c2 t2]) (use dist m in auto)
  moreover have "rb_replace_node n m s = fill ctx (Some m) ?s2"
    unfolding replace_eq [OF rep] using l_in r_in dist m by (auto simp: fill_on_node fill_reparent disjoint_iff)
  ultimately show ?thesis by simp
qed

text \<open>The successor is at the end of the left spine of the right subtree.\<close>

lemma left_spine:
  "r \<noteq> Lf \<Longrightarrow> \<exists>sp m k mr. r = plug sp (Nd Lf m k mr) \<and> (\<forall>st\<in>set sp. fst st) \<and> before sp = []"
proof (induction r)
  case (Nd r1 a c r2)
  show ?case
  proof (cases "r1 = Lf")
    case True
    then show ?thesis by (intro exI [of _ "[]"]) auto
  next
    case False
    then obtain sp m k mr where r1: "r1 = plug sp (Nd Lf m k mr)" "\<forall>st\<in>set sp. fst st" "before sp = []"
      using Nd.IH(1) by blast
    have "plug (sp @ [(True, a, c, r2)]) x = Nd (plug sp x) a c r2" for x by (induction sp arbitrary: x) auto
    moreover have "before (sp @ [(True, a, c, r2)]) = before sp"
      by (induction sp rule: before.induct) auto
    ultimately show ?thesis using r1 by (intro exI [of _ "sp @ [(True, a, c, r2)]"]) auto
  qed
qed simp

text \<open>The state behind \<^verbatim>\<open>replace_by_successor\<close>, first when the successor is not the right child.\<close>

lemma take_place:
  assumes "m \<noteq> lr" "m \<noteq> rr" "lr \<noteq> rr"
  shows "rb_set_parent_opt (Some lr) (Some m) (set_left m (rb_left N) (on_node m (\<lambda>x. x\<lparr>rb_par := rb_par N, rb_black := rb_black N\<rparr>)
      (rb_set_parent_opt (Some rr) (Some m) (set_right m (rb_right N) z)))) =
    on_node m (\<lambda>_. N) (rb_set_parent_opt (Some rr) (Some m) (rb_set_parent_opt (Some lr) (Some m) z))"
  using assms by (cases N; cases "nodes z m")
    (auto simp: rb_set_parent_opt_def rb_set_parent_def set_left_def set_right_def on_node_def fun_eq_iff intro!: rbt.equality)

lemma reparent_node: "q \<noteq> Some x \<Longrightarrow> nodes (rb_set_parent_opt q p z) x = nodes z x"
  by (auto simp: reparent_nodes split: option.splits)

lemma succ_code_deep:
  assumes F: "set_child_left_first (rb_par (nodes s n)) n (Some m) s = F" "nodes F n = nodes s n" "nodes F m = nodes s m"
    and ptr: "rb_par (nodes s m) = Some p" "rb_left (nodes s n) = Some lr" "rb_right (nodes s n) = Some rr"
      "rb_right (nodes s m) = q"
    and ne: "p \<noteq> n" "n \<noteq> m" "q \<noteq> Some n" "lr \<noteq> n" "rr \<noteq> n" "m \<noteq> lr" "m \<noteq> rr" "lr \<noteq> rr"
  shows "replace_by_successor n m s = Inr (q, Some p, rb_black (nodes s m),
     on_node m (\<lambda>_. nodes s n) (rb_set_parent_opt (Some rr) (Some m) (rb_set_parent_opt (Some lr) (Some m)
       (set_left p q (rb_set_parent_opt q (Some p) F)))))"
proof -
  let ?z = "set_left p q (rb_set_parent_opt q (Some p) F)"
  let ?y = "rb_set_parent_opt (Some rr) (Some m) (set_right m (Some rr) ?z)"
  have z: "nodes ?z n = nodes s n" using ne F by (simp add: set_left_def reparent_node)
  then have zr: "nodes (set_right m r ?z) n = nodes s n" for r using ne by (simp add: set_right_def)
  then have y: "nodes ?y n = nodes s n" using ne by (simp add: reparent_node set_right_def)
  then have y': "nodes (on_node m g ?y) n = nodes s n" "nodes (set_left m r (on_node m g ?y)) n = nodes s n" for g r
    using ne by (simp_all add: set_left_def)
  have "replace_by_successor n m s = Inr (q, Some p, rb_black (nodes s m),
     rb_set_parent_opt (Some lr) (Some m) (set_left m (Some lr)
       (on_node m (\<lambda>x. x\<lparr>rb_par := rb_par (nodes s n), rb_black := rb_black (nodes s n)\<rparr>) ?y)))"
    unfolding replace_by_successor_def Let_def F(1) F(2,3) ptr(1)
    using ne ptr z zr y y' by (simp add: F(2,3) del: on_node_simps) 
  then show ?thesis using take_place [OF ne(6,7,8), of "nodes s n" ?z] ptr by simp
qed


lemma succ_code_direct:
  assumes F: "set_child_left_first (rb_par (nodes s n)) n (Some m) s = F" "nodes F n = nodes s n" "nodes F m = nodes s m"
    and ptr: "rb_par (nodes s m) = Some n" "rb_left (nodes s n) = Some lr" "rb_right (nodes s m) = q"
    and ne: "n \<noteq> m" "lr \<noteq> n" "m \<noteq> lr"
  shows "replace_by_successor n m s = Inr (q, Some m, rb_black (nodes s m),
     on_node m (\<lambda>_. (nodes s n)\<lparr>rb_right := q\<rparr>) (rb_set_parent_opt (Some lr) (Some m) F))"
proof -
  have "replace_by_successor n m s = Inr (q, Some m, rb_black (nodes s m), rb_set_parent_opt (Some lr) (Some m)
      (set_left m (Some lr) (on_node m (\<lambda>x. x\<lparr>rb_par := rb_par (nodes s n), rb_black := rb_black (nodes s n)\<rparr>) F)))"
    unfolding replace_by_successor_def Let_def F(1) F(2,3) ptr(1)
    using ne ptr by (simp add: F(2,3) set_left_def)
  also have "rb_set_parent_opt (Some lr) (Some m) (set_left m (Some lr)
      (on_node m (\<lambda>x. x\<lparr>rb_par := rb_par (nodes s n), rb_black := rb_black (nodes s n)\<rparr>) F)) =
    on_node m (\<lambda>_. (nodes s n)\<lparr>rb_right := q\<rparr>) (rb_set_parent_opt (Some lr) (Some m) F)"
    using ne ptr F(3) by (cases "nodes s n"; cases "nodes s m")
      (auto simp: rb_set_parent_opt_def rb_set_parent_def set_left_def on_node_def fun_eq_iff intro!: rbt.equality)
  finally show ?thesis .
qed

text \<open>Both are the splicing of the successor followed by the replacement of the node.\<close>

lemma rt_of_plug: "ctx \<noteq> [] \<Longrightarrow> \<exists>a. \<forall>x. rt_of (plug ctx x) = Some a"
proof (induction ctx)
  case (Cons st ctx)
  then show ?case by (cases st; cases "ctx = []") (auto simp: rt_of_def)
qed simp

lemma successor_deep:
  assumes rep: "rep s ctx (Nd l n c (plug (st # sp) (Nd Lf m k mr)))" and st: "fst st" and "l \<noteq> Lf"
    and sA: "splice_out m (rt_of mr) s = (pA, k, sA)"
    and repA: "rep sA ctx (Nd l n c (plug (st # sp) mr))"
  shows "replace_by_successor n m s = Inr (rt_of mr, par_of (st # sp), k, rb_replace_node n m sA)"
proof -
  obtain p c' u where st': "st = (True, p, c', u)" using st by (cases st) auto
  let ?r = "plug (st # sp) (Nd Lf m k mr)" and ?F = "fill ctx (Some m) s"
  have at_m: "rep s (st # sp @ (False, n, c, l) # ctx) (Nd Lf m k mr)"
    using rep rep_plug [of s "st # sp" "(False, n, c, l) # ctx"] by (simp add: rep_move)
  have dist: "distinct ((inord l @ n # before (st # sp) @ ([] @ m # inord mr) @ after (st # sp)) @ ctx_nodes ctx)"
    using rep unfolding rep_def inord.simps inord_plug by blast
  note n_ptrs = rep_ptrs [OF rep] and m_ptrs = rep_reads [OF at_m [unfolded st' append_Cons]]
  obtain lr where lr: "rt_of l = Some lr" using assms(3) by (cases l) (auto simp: rt_of_def)
  obtain rr where rr: "\<And>x. rt_of (plug (st # sp) x) = Some rr" using rt_of_plug [of "st # sp"] by blast
  let ?q = "rt_of mr"
  have ins: "lr \<in> set (inord l)" "rr \<in> set (before (st # sp) @ after (st # sp))"
    using rt_of_in [OF lr] rt_of_in [OF rr [of Lf]] unfolding inord_plug by simp_all
  have q_in: "x \<in> set (inord mr)" if "?q = Some x" for x using rt_of_in that .
  have p_in: "p \<in> set (before (st # sp) @ after (st # sp))" using st' by simp
  have ne: "p \<noteq> n" "n \<noteq> m" "?q \<noteq> Some n" "lr \<noteq> n" "rr \<noteq> n" "m \<noteq> lr" "m \<noteq> rr" "lr \<noteq> rr"
    and p: "?q \<noteq> Some p" "p \<notin> set (ctx_nodes ctx)"
    using dist ins p_in q_in by (auto simp del: before.simps after.simps)
  have out: "n \<notin> set (ctx_nodes ctx)" "m \<notin> set (ctx_nodes ctx)" "\<And>x. ?q = Some x \<Longrightarrow> x \<notin> set (ctx_nodes ctx)"
    using dist q_in by (auto simp del: before.simps after.simps)
  have sA_eq: "sA = set_left p ?q (rb_set_parent_opt ?q (Some p) s)"
    using sA m_ptrs(1,4) p(1) by (auto simp add: splice_out_def Let_def set_child_left_first_def reparent_node)
  have "nodes sA n = nodes s n" using ne unfolding sA_eq by (simp add: set_left_def reparent_node)
  moreover have "fill ctx (Some m) sA = set_left p ?q (rb_set_parent_opt ?q (Some p) ?F)"
    using p out unfolding sA_eq by (simp add: set_left_def fill_on_node fill_reparent)
  ultimately have B: "rb_replace_node n m sA = on_node m (\<lambda>_. nodes s n) (rb_set_parent_opt (Some rr) (Some m)
      (rb_set_parent_opt (Some lr) (Some m) (set_left p ?q (rb_set_parent_opt ?q (Some p) ?F))))"
    using replace_eq [OF repA, of m] rr lr by simp
  show ?thesis
    unfolding B using succ_code_deep [OF rep_set_child [OF rep] fill_other [OF out(1)] fill_other [OF out(2)] m_ptrs(1)]
      n_ptrs m_ptrs(2,10) lr rr ne st' by (simp add: par_of_def)
qed


lemma successor_direct:
  assumes rep: "rep s ctx (Nd l n c (Nd Lf m k mr))" and "l \<noteq> Lf"
    and sA: "splice_out m (rt_of mr) s = (pA, k, sA)"
    and repA: "rep sA ctx (Nd l n c mr)"
  shows "\<exists>s'. replace_by_successor n m s = Inr (rt_of mr, Some m, k, s') \<and>
     rb_node s' = rb_node (rb_replace_node n m sA) \<and> (\<forall>x. x \<noteq> n \<longrightarrow> nodes s' x = nodes (rb_replace_node n m sA) x)"
proof -
  let ?F = "fill ctx (Some m) s" and ?q = "rt_of mr"
  have at_m: "rep s ((False, n, c, l) # ctx) (Nd Lf m k mr)" using rep by (simp add: rep_move)
  have dist: "distinct ((inord l @ n # m # inord mr) @ ctx_nodes ctx)" using rep by (auto simp: rep_def)
  note n_ptrs = rep_ptrs [OF rep] and m_ptrs = rep_reads [OF at_m]
  obtain lr where lr: "rt_of l = Some lr" using assms(2) by (cases l) (auto simp: rt_of_def)
  have lr_in: "lr \<in> set (inord l)" using rt_of_in [OF lr] .
  have q_in: "x \<in> set (inord mr)" if "?q = Some x" for x using rt_of_in that .
  have ne: "n \<noteq> m" "lr \<noteq> n" "m \<noteq> lr" "?q \<noteq> Some n" "?q \<noteq> Some m" "?q \<noteq> Some lr" using dist lr_in q_in by auto
  have out: "n \<notin> set (ctx_nodes ctx)" "m \<notin> set (ctx_nodes ctx)" "\<And>x. ?q = Some x \<Longrightarrow> x \<notin> set (ctx_nodes ctx)"
    using dist q_in by auto
  have sA_eq: "sA = set_right n ?q (rb_set_parent_opt ?q (Some n) s)"
    using sA m_ptrs(1,4) ne by (auto simp: splice_out_def Let_def set_child_left_first_def reparent_node)
  have N: "nodes sA n = (nodes s n)\<lparr>rb_right := ?q\<rparr>" using ne unfolding sA_eq by (simp add: set_right_def reparent_node)
  have "fill ctx (Some m) sA = set_right n ?q (rb_set_parent_opt ?q (Some n) ?F)"
    using out unfolding sA_eq by (simp add: set_right_def fill_on_node fill_reparent)
  then have B: "rb_replace_node n m sA = on_node m (\<lambda>_. (nodes s n)\<lparr>rb_right := ?q\<rparr>) (rb_set_parent_opt ?q (Some m)
      (rb_set_parent_opt (Some lr) (Some m) (set_right n ?q (rb_set_parent_opt ?q (Some n) ?F))))"
    using replace_eq [OF repA, of m] lr N by simp
  have C: "replace_by_successor n m s = Inr (?q, Some m, k,
      on_node m (\<lambda>_. (nodes s n)\<lparr>rb_right := ?q\<rparr>) (rb_set_parent_opt (Some lr) (Some m) ?F))"
    using succ_code_direct [OF rep_set_child [OF rep] fill_other [OF out(1)] fill_other [OF out(2)] m_ptrs(1)]
      n_ptrs m_ptrs(2,10) lr ne by simp
  have q_par: "(nodes ?F x)\<lparr>rb_par := Some m\<rparr> = nodes ?F x" if "?q = Some x" for x
    using rep_node(4) [OF at_m] m_ptrs(10) that fill_other [OF out(3) [OF that]] by (cases mr) (auto simp: rt_of_def)
  have "nodes (on_node m (\<lambda>_. (nodes s n)\<lparr>rb_right := ?q\<rparr>) (rb_set_parent_opt (Some lr) (Some m) ?F)) x =
      nodes (rb_replace_node n m sA) x" if "x \<noteq> n" for x
    unfolding B using that ne q_par by (cases ?q) (auto simp: reparent_nodes set_right_def)
  then show ?thesis using C by (simp add: B reparent_nodes(2) set_right_def)
qed


lemma successor_state:
  assumes rep: "rep s ctx (Nd l n c (plug sp (Nd Lf m k mr)))" and sp: "\<forall>st\<in>set sp. fst st" and "l \<noteq> Lf"
    and sA: "splice_out m (rt_of mr) s = (pA, k, sA)" and repA: "rep sA ctx (Nd l n c (plug sp mr))"
  shows "\<exists>s'. replace_by_successor n m s = Inr (rt_of mr, par_of (sp @ (False, m, c, l) # ctx), k, s') \<and>
     rb_node s' = rb_node (rb_replace_node n m sA) \<and>
     (\<forall>x. x \<noteq> n \<longrightarrow> nodes s' x = nodes (rb_replace_node n m sA) x)"
proof (cases sp)
  case Nil
  then show ?thesis
    using successor_direct [of s ctx l n c m k mr pA sA] assms by (auto simp: par_of_def)
next
  case (Cons st sp')
  have "par_of (sp @ (False, m, c, l) # ctx) = par_of (st # sp')" using Cons by (simp add: par_of_def split: prod.splits)
  then show ?thesis
    using successor_deep [OF rep [unfolded Cons] _ assms(3) sA repA [unfolded Cons]] sp Cons by auto
qed

text \<open>
  Putting the successor in the place of the node is, up to the node itself, splicing the
  successor out and replacing the node by it.
\<close>

lemma rep_successor:
  assumes rep: "rep s ctx (Nd l n c (plug sp (Nd Lf m k mr)))" and sp: "\<forall>st\<in>set sp. fst st" and "l \<noteq> Lf"
  shows "\<exists>s'. replace_by_successor n m s = Inr (rt_of mr, par_of (sp @ (False, m, c, l) # ctx), k, s') \<and>
     rep s' (sp @ (False, m, c, l) # ctx) mr"
proof -
  let ?r = "plug sp (Nd Lf m k mr)"
  have "rep s ((False, n, c, l) # ctx) ?r" using rep by (simp add: rep_move)
  then have at_m: "rep s (sp @ (False, n, c, l) # ctx) (Nd Lf m k mr)" by (simp add: rep_plug)
  obtain sA where sA: "splice_out m (rt_of mr) s = (par_of (sp @ (False, n, c, l) # ctx), k, sA)"
    "rep sA (sp @ (False, n, c, l) # ctx) mr" using rep_splice [OF at_m, of mr] by auto
  then have repA: "rep sA ctx (Nd l n c (plug sp mr))" by (simp add: rep_plug rep_move)
  have dist: "distinct (inord (Nd l n c ?r) @ ctx_nodes ctx)" using rep by (auto simp: rep_def)
  have m_out: "m \<notin> set (inord (Nd l n c (plug sp mr)) @ ctx_nodes ctx)" using dist by (auto simp: inord_plug)
  define sB where "sB = rb_replace_node n m sA"
  have repB: "rep sB ctx (Nd l m c (plug sp mr))" unfolding sB_def by (rule rep_replace [OF repA m_out])
  obtain s' where s': "replace_by_successor n m s = Inr (rt_of mr, par_of (sp @ (False, m, c, l) # ctx), k, s')"
    "rb_node s' = rb_node sB" "\<forall>x. x \<noteq> n \<longrightarrow> nodes s' x = nodes sB x"
    using successor_state [OF rep sp assms(3) sA(1) repA] unfolding sB_def by blast
  have "n \<notin> set (inord (Nd l m c (plug sp mr))) \<union> set (ctx_nodes ctx)" using dist by (auto simp: inord_plug)
  then have "rep s' ctx (Nd l m c (plug sp mr))" by (intro rep_cong_nodes [OF repB s'(2)]) (use s'(3) in metis)
  then have "rep s' (sp @ (False, m, c, l) # ctx) mr" by (simp add: rep_plug rep_move)
  with s'(1) show ?thesis by blast
qed

section \<open>Removal as a whole\<close>

lemma erase_finish:
  assumes rep: "rep s ctx ch" and bal: "bal (Nd l n c r) k" and up: "cok ctx k" "c \<or> top_black ctx"
    and ch: "l = Lf \<or> r = Lf" "ch = (if l = Lf then r else l)"
  shows "\<exists>s' t'. (if c then rb_erase_color (rt_of ch) (par_of ctx) s else Inr s) = Inr s' \<and> rep s' [] t' \<and> rb_inv t' \<and>
     inord t' = before ctx @ inord ch @ after ctx"
proof (cases c)
  case True
  then obtain k' where k: "k = Suc k'" "bal ch k'" using bal ch by (cases k) auto
  then obtain ns t' where "erase_loop (rt_of ch) (par_of ctx) s = Some (Inr ns)" "rep (blacken_at ns) [] t'" "rb_inv t'"
    "inord t' = before ctx @ inord ch @ after ctx" using erase_loop_ok [OF rep k(2)] up(1) by (auto simp: erased_def)
  with True show ?thesis
    by (intro exI [of _ "blacken_at ns"] exI [of _ t'])
      (auto simp: rb_erase_color_def blacken_at_def split: prod.splits option.splits)
next
  case False
  then have b: "bal ch k" "is_b ch" and ne: "ctx \<noteq> []" using bal ch up(2) by auto
  obtain K where "bal (plug ctx ch) K" using plug_bal [OF b(1) up(1)] b(2) by blast
  moreover have "is_b (plug ctx ch)" using cok_root [OF up(1) ne] .
  ultimately show ?thesis using False rep by (intro exI [of _ s] exI [of _ "plug ctx ch"]) (auto simp: rb_inv_def rep_focus inord_plug)
qed

lemma before_append: "before (xs @ ys) = before ys @ before xs"
  by (induction xs rule: before.induct) auto

lemma after_append: "after (xs @ ys) = after xs @ after ys"
  by (induction xs rule: after.induct) auto

lemma plug_append: "plug (xs @ ys) t = plug ys (plug xs t)"
  by (induction xs arbitrary: t) auto

text \<open>The balance does not depend on the node at a position.\<close>

lemma plug_rename:
  assumes "rb_inv (plug ctx (Nd l n c r))" shows "rb_inv (plug ctx (Nd l m c r))"
proof -
  obtain K where K: "bal (plug ctx (Nd l n c r)) K" "is_b (plug ctx (Nd l n c r))" using assms by (auto simp: rb_inv_def)
  then obtain k where k: "bal (Nd l n c r) k" "cok ctx k" "is_b (Nd l n c r) \<or> top_black ctx" using unplug by blast
  then have "bal (Nd l m c r) k" by simp
  then obtain K' where "bal (plug ctx (Nd l m c r)) K'" using plug_bal k by fastforce
  moreover have "is_b (plug ctx (Nd l m c r))" using K(2) plug_root by (cases "ctx = []") auto
  ultimately show ?thesis by (auto simp: rb_inv_def)
qed

lemma rb_erase_two:
  assumes rep: "rep s ctx (Nd l n c r)" and inv: "rb_inv (plug ctx (Nd l n c r))" and ne: "l \<noteq> Lf" "r \<noteq> Lf"
  shows "\<exists>s' t'. rb_erase n s = Inr s' \<and> rep s' [] t' \<and> rb_inv t' \<and>
     inord t' = (before ctx @ inord l) @ inord r @ after ctx"
proof -
  obtain sp m k mr where r: "r = plug sp (Nd Lf m k mr)" "\<forall>st\<in>set sp. fst st" "before sp = []"
    using left_spine [OF ne(2)] by blast
  let ?ctx = "sp @ (False, m, c, l) # ctx"
  obtain s1 where s1: "replace_by_successor n m s = Inr (rt_of mr, par_of ?ctx, k, s1)" "rep s1 ?ctx mr"
    using rep_successor [OF rep [unfolded r(1)] r(2) ne(1)] by blast
  have "rb_inv (plug ?ctx (Nd Lf m k mr))" using plug_rename [OF inv, of m] r(1) by (simp add: plug_append)
  then obtain k1 where k1: "bal (Nd Lf m k mr) k1" "cok ?ctx k1" "is_b (Nd Lf m k mr) \<or> top_black ?ctx"
    unfolding rb_inv_def using unplug by blast
  obtain s' t' where e: "(if k then rb_erase_color (rt_of mr) (par_of ?ctx) s1 else Inr s1) = Inr s'" "rep s' [] t'" "rb_inv t'"
    "inord t' = before ?ctx @ inord mr @ after ?ctx" using erase_finish [OF s1(2) k1(1,2)] k1(3) by auto
  obtain lr rr where lr: "rt_of l = Some lr" "rt_of r = Some rr" using ne by (cases l; cases r) (auto simp: rt_of_def)
  have "leftmost rr s = first_of (inord r)" using leftmost_ok rep_node(4) [OF rep] rep_ptrs(2) [OF rep] lr(2) by simp
  then have "leftmost rr s = Some m" using r by (simp add: inord_plug first_of_def)
  then have "rb_erase n s = Inr s'" using s1(1) e(1) rep_ptrs [OF rep] lr by (simp add: rb_erase_def)
  with e(2-4) r show ?thesis by (auto simp: before_append after_append inord_plug)
qed

lemma rb_erase_one:
  assumes rep: "rep s ctx (Nd l n c r)" and inv: "rb_inv (plug ctx (Nd l n c r))" and lf: "l = Lf \<or> r = Lf"
  shows "\<exists>s' t'. rb_erase n s = Inr s' \<and> rep s' [] t' \<and> rb_inv t' \<and>
     inord t' = (before ctx @ inord l) @ inord r @ after ctx"
proof -
  let ?ch = "if l = Lf then r else l"
  obtain s1 where s1: "splice_out n (rt_of ?ch) s = (par_of ctx, c, s1)" "rep s1 ctx ?ch"
    using rep_splice [OF rep lf] by blast
  obtain k where k: "bal (Nd l n c r) k" "cok ctx k" "c \<or> top_black ctx" using inv unplug unfolding rb_inv_def by force
  obtain s' t' where e: "(if c then rb_erase_color (rt_of ?ch) (par_of ctx) s1 else Inr s1) = Inr s'" "rep s' [] t'" "rb_inv t'"
    "inord t' = before ctx @ inord ?ch @ after ctx" using erase_finish [OF s1(2) k lf refl] by blast
  have "rt_of l = None \<longleftrightarrow> l = Lf" "rt_of r = None \<longleftrightarrow> r = Lf" by (cases l; cases r; simp add: rt_of_def)+
  then have "rb_erase n s = Inr s'"
    using s1(1) e(1) rep_ptrs [OF rep] lf by (auto simp: rb_erase_def Let_def split: option.splits)
  with e(2-4) lf show ?thesis by (auto split: if_splits)
qed

lemma rb_erase_ok:
  assumes "rep s [] t" and "rb_inv t" and "n \<in> set (inord t)"
  shows "\<exists>s' t'. rb_erase n s = Inr s' \<and> rep s' [] t' \<and> rb_inv t' \<and> inord t' = remove1 n (inord t)"
proof -
  obtain ctx l c r where t: "t = plug ctx (Nd l n c r)" using focus [OF assms(3)] by blast
  then have rep: "rep s ctx (Nd l n c r)" using assms(1) by (simp add: rep_focus)
  have "n \<notin> set (before ctx @ inord l)" using rep_inord [OF rep] by auto
  then have "remove1 n (inord t) = (before ctx @ inord l) @ inord r @ after ctx"
    using t by (simp add: inord_plug remove1_append)
  then show ?thesis
    using rb_erase_one [OF rep] rb_erase_two [OF rep] assms(2) t by (cases "l = Lf \<or> r = Lf") auto
qed

text \<open>
  C30: removal.  \<^verbatim>\<open>rb_erase\<close> of any node of a red-black tree ends without following a NULL
  pointer and yields a red-black tree whose nodes in order are the old ones without that node.
\<close>

theorem rb_erase_correct:
  assumes "rep s [] t" and "rb_inv t" and "n \<in> set (inord t)"
  shows "\<exists>s' t'. rb_erase n s = Inr s' \<and> rep s' [] t' \<and> rb_inv t' \<and> inord t' = remove1 n (inord t)"
  by (rule rb_erase_ok [OF assms])

text \<open>
  \<^verbatim>\<open>rb_replace_node\<close> puts a new node in the place of an old one: the tree keeps its shape and
  its colours, and in order the new node stands where the old one was.
\<close>

theorem rb_replace_node_correct:
  assumes "rep s [] t" and "rb_inv t" and "inord t = xs @ n # ys" and "m \<notin> set (inord t)"
  shows "\<exists>t'. rep (rb_replace_node n m s) [] t' \<and> rb_inv t' \<and> inord t' = xs @ m # ys"
proof -
  have "n \<in> set (inord t)" using assms(3) by simp
  then obtain ctx l c r where t: "t = plug ctx (Nd l n c r)" using focus by blast
  then have rep: "rep s ctx (Nd l n c r)" using assms(1) by (simp add: rep_focus)
  have "rep (rb_replace_node n m s) ctx (Nd l m c r)"
    by (rule rep_replace [OF rep]) (use assms(4) t set_ctx_nodes in \<open>auto simp: inord_plug\<close>)
  then have "rep (rb_replace_node n m s) [] (plug ctx (Nd l m c r))" by (simp add: rep_focus)
  moreover have "rb_inv (plug ctx (Nd l m c r))" using plug_rename assms(2) t by simp
  moreover have "inord (plug ctx (Nd l m c r)) = xs @ m # ys"
    using rep_split [OF rep, of xs ys] assms(3) t by (simp add: inord_plug)
  ultimately show ?thesis by blast
qed

section \<open>Witnesses\<close>

theorem rb_erase_correct_witness:
  "\<exists>s' t'. rb_erase 1 demo_rbt = Inr s' \<and> rep s' [] t' \<and> rb_inv t' \<and> inord t' = [2]"
  using rb_erase_correct [OF demo_rep demo_inv, of 1] by (simp add: demo_tree_def)

theorem rb_replace_node_correct_witness:
  "\<exists>t'. rep (rb_replace_node 1 3 demo_rbt) [] t' \<and> rb_inv t' \<and> inord t' = [3, 2]"
  using rb_replace_node_correct [OF demo_rep demo_inv, of "[]" 1 "[2]" 3] by (simp add: demo_tree_def)

end
