(* ===== verification/RbFrame.thy ===== *)
theory RbFrame
  imports RbErase
begin

text \<open>
  Several trees share one heap of nodes.  The routines of \<^verbatim>\<open>cmn/rbtree.c\<close> only write nodes
  they reach from their arguments: on a set of nodes that is closed under the three pointers,
  everything outside the set is kept, and the set stays closed.  A tree is such a set.
\<close>

section \<open>Closed sets of nodes\<close>

definition pclosed :: "nat set \<Rightarrow> rbt \<Rightarrow> bool" where
  "pclosed X s \<longleftrightarrow> set_option (rb_node s) \<subseteq> X \<and>
     (\<forall>a\<in>X. set_option (rb_par (nodes s a)) \<subseteq> X \<and> set_option (rb_left (nodes s a)) \<subseteq> X \<and>
            set_option (rb_right (nodes s a)) \<subseteq> X)"

definition within :: "nat set \<Rightarrow> rbt \<Rightarrow> rbt \<Rightarrow> bool" where
  "within X s s' \<longleftrightarrow> pclosed X s' \<and> (\<forall>x. x \<notin> X \<longrightarrow> nodes s' x = nodes s x)"

lemma within_refl: "pclosed X s \<Longrightarrow> within X s s"
  by (simp add: within_def)

lemma within_trans: "within X s s' \<Longrightarrow> within X s' s'' \<Longrightarrow> within X s s''"
  by (simp add: within_def)

lemma within_closed: "within X s s' \<Longrightarrow> pclosed X s'"
  by (simp add: within_def)

lemma pclosedD:
  assumes "pclosed X s" and "a \<in> X"
  shows "rb_par (nodes s a) = Some b \<Longrightarrow> b \<in> X" and "rb_left (nodes s a) = Some b \<Longrightarrow> b \<in> X"
    and "rb_right (nodes s a) = Some b \<Longrightarrow> b \<in> X"
  using assms by (auto simp: pclosed_def)

lemma pclosed_root: "pclosed X s \<Longrightarrow> rb_node s = Some b \<Longrightarrow> b \<in> X"
  by (auto simp: pclosed_def)

lemma pclosed_ptrs:
  assumes "pclosed X s" and "a \<in> X"
  shows "set_option (rb_par (nodes s a)) \<subseteq> X" and "set_option (rb_left (nodes s a)) \<subseteq> X"
    and "set_option (rb_right (nodes s a)) \<subseteq> X"
  using assms by (auto simp: pclosed_def)

section \<open>The assignments\<close>

lemma within_on_node:
  assumes "within X s z" and "a \<in> X"
    and "set_option (rb_par (g (nodes z a))) \<subseteq> X" "set_option (rb_left (g (nodes z a))) \<subseteq> X"
      "set_option (rb_right (g (nodes z a))) \<subseteq> X"
  shows "within X s (on_node a g z)"
  using assms by (auto simp: within_def pclosed_def)

lemma within_writes:
  assumes "within X s z" and "a \<in> X"
  shows "set_option q \<subseteq> X \<Longrightarrow> within X s (rb_set_parent a q z)"
    and "within X s (rb_set_color a b z)"
    and "set_option q \<subseteq> X \<Longrightarrow> within X s (set_left a q z)"
    and "set_option q \<subseteq> X \<Longrightarrow> within X s (set_right a q z)"
  using assms pclosed_ptrs [OF within_closed [OF assms(1)] assms(2)]
  by (auto simp: rb_set_parent_def rb_set_color_def set_left_def set_right_def intro!: within_on_node)

lemma within_root: "within X s z \<Longrightarrow> set_option q \<subseteq> X \<Longrightarrow> within X s (z\<lparr>rb_node := q\<rparr>)"
  by (auto simp: within_def pclosed_def)

lemma within_reparent:
  "within X s z \<Longrightarrow> set_option q \<subseteq> X \<Longrightarrow> set_option p \<subseteq> X \<Longrightarrow> within X s (rb_set_parent_opt q p z)"
  by (cases q) (auto simp: rb_set_parent_opt_def intro: within_writes)

lemma within_set_child:
  assumes "within X s z" and "set_option p \<subseteq> X" and "set_option q \<subseteq> X"
  shows "within X s (set_child_left_first p a q z)" and "within X s (set_child_right_first p a q z)"
  using assms by (auto simp: set_child_left_first_def set_child_right_first_def
      intro!: within_writes within_root split: option.splits)

lemmas within_intros = within_writes within_root within_reparent within_set_child

section \<open>The routines\<close>

lemma within_rotate_left:
  assumes "pclosed X s" and "a \<in> X" and "rb_rotate_left a s = Inr s'"
  shows "within X s s'"
proof -
  obtain r where r: "rb_right (nodes s a) = Some r" using assms(3) by (auto simp: rb_rotate_left_def Let_def split: option.splits)
  then have rX: "r \<in> X" using pclosedD(3) [OF assms(1,2)] by simp
  show ?thesis
    using assms(3) r unfolding rb_rotate_left_def Let_def
    by (auto intro!: within_intros within_refl assms(1,2) rX pclosed_ptrs(1,2) [OF assms(1)])
qed

lemma within_rotate_right:
  assumes "pclosed X s" and "a \<in> X" and "rb_rotate_right a s = Inr s'"
  shows "within X s s'"
proof -
  obtain l where l: "rb_left (nodes s a) = Some l" using assms(3) by (auto simp: rb_rotate_right_def Let_def split: option.splits)
  then have lX: "l \<in> X" using pclosedD(2) [OF assms(1,2)] by simp
  show ?thesis
    using assms(3) l unfolding rb_rotate_right_def Let_def
    by (auto intro!: within_intros within_refl assms(1,2) lX pclosed_ptrs(1,3) [OF assms(1)])
qed

lemma within_recolour:
  "within X s z \<Longrightarrow> u \<in> X \<Longrightarrow> p \<in> X \<Longrightarrow> g \<in> X \<Longrightarrow> within X s (recolour u p g z)"
  by (simp add: recolour_def within_writes)

text \<open>One turn of the insertion loop: rotate at the parent if needed, recolour, rotate at the grandparent.\<close>

lemma within_insert_turn:
  assumes "pclosed X s" and "node \<in> X" "parent \<in> X" "gparent \<in> X"
    and inner: "\<And>z b z'. pclosed X z \<Longrightarrow> b \<in> X \<Longrightarrow> inner b z = Inr z' \<Longrightarrow> within X z z'"
    and outer: "\<And>z b z'. pclosed X z \<Longrightarrow> b \<in> X \<Longrightarrow> outer b z = Inr z' \<Longrightarrow> within X z z'"
    and "(if c then map_sum id (\<lambda>s. (parent, node, s)) (inner parent s) else Inr (node, parent, s)) = Inr (n', p', s1)"
    and "outer gparent (rb_set_color gparent False (rb_set_color p' True s1)) = Inr s2"
  shows "within X s s2 \<and> n' \<in> X"
proof -
  have "within X s s1 \<and> n' \<in> X \<and> p' \<in> X"
    using assms(1-3,7) inner [OF assms(1,3)] within_refl [OF assms(1)]
    by (cases "inner parent s") (auto split: if_splits)
  moreover from this have w: "within X s (rb_set_color gparent False (rb_set_color p' True s1))"
    using assms(4) by (auto intro!: within_writes)
  ultimately show ?thesis using within_trans [OF w] outer [OF within_closed [OF w] assms(4,8)] by blast
qed

lemma within_insert_side:
  assumes cl: "pclosed X s" and X: "node \<in> X" "parent \<in> X" "gparent \<in> X"
    and loop: "\<And>n' z. loop n' z = Some (Inr s') \<Longrightarrow> pclosed X z \<Longrightarrow> n' \<in> X \<Longrightarrow> within X z s'"
    and eq: "(case (if c then map_sum id (\<lambda>s. (parent, node, s)) (inner parent s) else Inr (node, parent, s)) of
               Inl e \<Rightarrow> Some (Inl e)
             | Inr (n', p', s1) \<Rightarrow>
                 (case outer gparent (rb_set_color gparent False (rb_set_color p' True s1)) of
                    Inl e \<Rightarrow> Some (Inl e) | Inr s2 \<Rightarrow> loop n' s2)) = Some (Inr s')"
    and rots: "inner \<in> {rb_rotate_left, rb_rotate_right}" "outer \<in> {rb_rotate_left, rb_rotate_right}"
  shows "within X s s'"
proof -
  let ?mid = "if c then map_sum id (\<lambda>s. (parent, node, s)) (inner parent s) else Inr (node, parent, s)"
  obtain n' p' s1 s2 where
    a: "?mid = Inr (n', p', s1)"
      "outer gparent (rb_set_color gparent False (rb_set_color p' True s1)) = Inr s2" and l: "loop n' s2 = Some (Inr s')"
    using eq by (cases ?mid) (auto split: sum.splits simp del: if_split)
  have w: "within X s s2 \<and> n' \<in> X"
    by (rule within_insert_turn [where inner = inner and outer = outer, OF cl X _ _ a])
      (use rots within_rotate_left within_rotate_right in blast)+
  then show ?thesis using loop [OF l] by (meson within_closed within_trans)
qed

lemma within_insert_loop:
  "insert_loop a s = Some r \<Longrightarrow> r = Inr s' \<Longrightarrow> pclosed X s \<Longrightarrow> a \<in> X \<Longrightarrow> within X s s'"
proof (induction a s r arbitrary: s' rule: insert_loop.raw_induct [rotated, consumes 1, case_names 1])
  case (1 loop node s res)
  note cl = 1(4) and nX = 1(5)
  show ?case
  proof (cases "rb_par (nodes s node) = None \<or> rb_black (nodes s (the (rb_par (nodes s node))))")
    case True
    then show ?thesis using 1(2,3) within_refl [OF cl] by (cases "rb_par (nodes s node)") auto
  next
    case False
    then obtain parent where par: "rb_par (nodes s node) = Some parent" and red: "\<not> rb_black (nodes s parent)" by auto
    then obtain gparent where g: "rb_par (nodes s parent) = Some gparent"
      using 1(2,3) by (cases "rb_par (nodes s parent)") auto
    have X: "parent \<in> X" "gparent \<in> X" using par g pclosedD(1) [OF cl] nX by blast+
    have re: "within X s s'" if "loop gparent (recolour u parent gparent s) = Some (Inr s')" "u \<in> X" for u
      using 1(1) [OF that(1) refl] within_recolour [OF within_refl [OF cl] that(2) X]
      by (meson X(2) within_closed within_trans)
    note side = within_insert_side [OF cl nX X 1(1) [OF _ refl]]
    show ?thesis
    proof (cases "rb_left (nodes s gparent) = Some parent")
      case True
      note eq = 1(2) [unfolded par g 1(3) option.case, simplified red True if_False if_True simp_thms]
      show ?thesis
      proof (cases "is_red (rb_right (nodes s gparent)) s")
        case True
        with eq re pclosedD(3) [OF cl X(2)] show ?thesis by (auto simp: is_red_def split: option.splits)
      next
        case False
        show ?thesis by (rule side [where inner = rb_rotate_left and outer = rb_rotate_right]) (use eq False in simp_all)
      qed
    next
      case right: False
      note eq = 1(2) [unfolded par g 1(3) option.case, simplified red right if_False simp_thms]
      show ?thesis
      proof (cases "is_red (rb_left (nodes s gparent)) s")
        case True
        with eq re pclosedD(2) [OF cl X(2)] show ?thesis by (auto simp: is_red_def split: option.splits)
      next
        case False
        show ?thesis by (rule side [where inner = rb_rotate_right and outer = rb_rotate_left]) (use eq False in simp_all)
      qed
    qed
  qed
qed


lemma within_andThen:
  assumes "andThen r f = Inr y" and "\<And>x. r = Inr x \<Longrightarrow> f x = Inr y \<Longrightarrow> P"
  shows P
  using assms by (cases r) auto

lemma within_rot:
  assumes "pclosed X s" and "a \<in> X" and "g \<in> {rb_rotate_left, rb_rotate_right}" and "g a s = Inr s'"
  shows "within X s s'"
  using assms within_rotate_left within_rotate_right by blast

lemma within_color_opt:
  assumes "within X s z" and "set_option q \<subseteq> X" and "set_color_opt q b z = Inr z'"
  shows "within X s z'"
  using assms by (cases q) (auto simp: set_color_opt_def intro: within_writes(2))

lemma side_ptrs:
  assumes "pclosed X s" and "a \<in> X" and "f \<in> {rb_left, rb_right}"
  shows "set_option (f (nodes s a)) \<subseteq> X"
  using assms pclosed_ptrs(2,3) by blast

lemma within_erase_mid:
  assumes cl: "pclosed X s" and w: "w \<in> X" and q: "set_option q \<subseteq> X" and rot: "rf \<in> {rb_rotate_left, rb_rotate_right}"
    and eq: "(if b then andThen (set_color_opt q True s) (\<lambda>s. rf w (rb_set_color w False s)) else Inr s) = Inr s1"
  shows "within X s s1"
proof (cases b)
  case True
  then obtain z where z: "set_color_opt q True s = Inr z" "rf w (rb_set_color w False z) = Inr s1"
    using eq by (auto elim: within_andThen)
  have "within X s (rb_set_color w False z)"
    by (intro within_writes(2) within_color_opt [OF within_refl [OF cl] q z(1)] w)
  then show ?thesis using within_rot [OF within_closed w rot z(2)] within_trans by blast
next
  case False
  then show ?thesis using eq within_refl [OF cl] by simp
qed

lemma within_erase_tail:
  assumes cl: "pclosed X s" and p: "p \<in> X" and sel: "nr \<in> {rb_left, rb_right}" "fr \<in> {rb_left, rb_right}"
    and rots: "rn \<in> {rb_rotate_left, rb_rotate_right}" "rf \<in> {rb_rotate_left, rb_rotate_right}"
    and eq: "erase_tail nr fr rn rf p s = Inr (n, s')"
  shows "within X s s' \<and> set_option n \<subseteq> X"
proof -
  obtain w where w: "fr (nodes s p) = Some w" using eq by (auto simp: erase_tail_def split: option.splits)
  then have wX: "w \<in> X" using side_ptrs [OF cl p sel(2)] by simp
  let ?nb = "nil_or_black (fr (nodes s w)) s"
  show ?thesis
  proof (cases "nil_or_black (nr (nodes s w)) s \<and> ?nb")
    case True
    then show ?thesis using eq w within_writes(2) [OF within_refl [OF cl] wX] p by (auto simp: erase_tail_def)
  next
    case False
    define mid where "mid = (if ?nb then andThen (set_color_opt (nr (nodes s w)) True s) (\<lambda>s. rf w (rb_set_color w False s)) else Inr s)"
    obtain s1 where s1: "mid = Inr s1"
      and rest: "(case fr (nodes s1 p) of None \<Rightarrow> Inl NullDeref
            | Some other \<Rightarrow>
                let s = rb_set_color other (rb_black (nodes s1 p)) s1; s = rb_set_color p True s
                in andThen (set_color_opt (fr (nodes s other)) True s) (\<lambda>s.
                   andThen (rn p s) (\<lambda>s. Inr (None, s)))) = Inr (n, s')"
      using eq w False unfolding erase_tail_def mid_def [symmetric] by (auto elim!: within_andThen simp: mid_def [symmetric])
    have w1: "within X s s1"
      by (rule within_erase_mid [OF cl wX side_ptrs [OF cl wX sel(1)] rots(2) s1 [unfolded mid_def]])
    obtain v where v: "fr (nodes s1 p) = Some v" using rest by (auto split: option.splits)
    then have vX: "v \<in> X" using side_ptrs [OF within_closed [OF w1] p sel(2)] by simp
    define s2 where "s2 = rb_set_color p True (rb_set_color v (rb_black (nodes s1 p)) s1)"
    have w2: "within X s s2" unfolding s2_def by (intro within_writes(2) w1 vX p)
    obtain s3 where s3: "set_color_opt (fr (nodes s2 v)) True s2 = Inr s3" "rn p s3 = Inr s'" "n = None"
      using rest v by (auto simp: Let_def s2_def elim!: within_andThen)
    have "within X s s3" using within_color_opt [OF w2 side_ptrs [OF within_closed [OF w2] vX sel(2)] s3(1)] .
    then show ?thesis using within_rot [OF within_closed p rots(1) s3(2)] within_trans s3(3) by force
  qed
qed


lemma within_erase_side:
  assumes cl: "pclosed X s" and p: "p \<in> X" and sel: "nr \<in> {rb_left, rb_right}" "fr \<in> {rb_left, rb_right}"
    and rots: "rn \<in> {rb_rotate_left, rb_rotate_right}" "rf \<in> {rb_rotate_left, rb_rotate_right}"
    and eq: "erase_side nr fr rn rf p s = Inr (n, s')"
  shows "within X s s' \<and> set_option n \<subseteq> X"
proof -
  obtain w where w: "fr (nodes s p) = Some w" using eq by (auto simp: erase_side_def split: option.splits)
  then have wX: "w \<in> X" using side_ptrs [OF cl p sel(2)] by simp
  let ?c = "rb_set_color p False (rb_set_color w True s)"
  obtain s1 where s1: "(if \<not> rb_black (nodes s w) then rn p ?c else Inr s) = Inr s1"
    "erase_tail nr fr rn rf p s1 = Inr (n, s')"
    using eq w by (auto simp: erase_side_def elim: within_andThen)
  have c: "within X s ?c" by (intro within_writes(2) within_refl cl wX p)
  have w1: "within X s s1"
  proof (cases "rb_black (nodes s w)")
    case False
    then have "rn p ?c = Inr s1" using s1(1) by simp
    then show ?thesis using within_trans [OF c within_rot [OF within_closed [OF c] p rots(1)]] by simp
  qed (use s1(1) within_refl [OF cl] in simp)
  show ?thesis using within_erase_tail [OF within_closed [OF w1] p sel rots s1(2)] within_trans [OF w1] by blast
qed

lemma within_erase_loop:
  "erase_loop q par s = Some r \<Longrightarrow> r = Inr (n, s') \<Longrightarrow> pclosed X s \<Longrightarrow> set_option q \<subseteq> X \<Longrightarrow> set_option par \<subseteq> X \<Longrightarrow>
     within X s s' \<and> set_option n \<subseteq> X"
proof (induction q par s r arbitrary: n s' rule: erase_loop.raw_induct [rotated, consumes 1, case_names 1])
  case (1 loop q par s r)
  note cl = 1(4)
  show ?case
  proof (cases "nil_or_black q s \<and> q \<noteq> rb_node s")
    case False
    then show ?thesis using 1(2-5) within_refl [OF cl] by auto
  next
    case True
    then obtain p where p: "par = Some p" using 1(2,3) by (cases par) auto
    then have pX: "p \<in> X" using 1(6) by simp
    let ?side = "if rb_left (nodes s p) = q then erase_side rb_left rb_right rb_rotate_left rb_rotate_right p s
                 else erase_side rb_right rb_left rb_rotate_right rb_rotate_left p s"
    have side: "within X s z \<and> set_option m \<subseteq> X" if "?side = Inr (m, z)" for m z
      using that within_erase_side [OF cl pX, of rb_left rb_right rb_rotate_left rb_rotate_right]
        within_erase_side [OF cl pX, of rb_right rb_left rb_rotate_right rb_rotate_left] by (simp split: if_split_asm)
    obtain m z where mz: "?side = Inr (m, z)" using 1(2,3) True p by (cases ?side) (auto simp del: if_split)
    show ?thesis
    proof (cases m)
      case None
      then show ?thesis using 1(2,3) True p mz side [OF mz] pclosed_root [OF within_closed] by (auto simp del: if_split)
    next
      case (Some a)
      then have aX: "a \<in> X" "within X s z" using side [OF mz] by auto
      have "loop (Some a) (rb_par (nodes z a)) z = Some (Inr (n, s'))" using 1(2,3) True p mz Some by (simp del: if_split)
      then have "within X z s' \<and> set_option n \<subseteq> X"
        by (rule 1(1) [OF _ refl within_closed [OF aX(2)]]) (use aX pclosed_ptrs(1) [OF within_closed [OF aX(2)]] in auto)
      then show ?thesis using within_trans aX(2) by blast
    qed
  qed
qed

lemma within_erase_color:
  assumes "rb_erase_color q par s = Inr s'" and "pclosed X s" and "set_option q \<subseteq> X" and "set_option par \<subseteq> X"
  shows "within X s s'"
proof -
  obtain n z where nz: "erase_loop q par s = Some (Inr (n, z))" "s' = (case n of None \<Rightarrow> z | Some a \<Rightarrow> rb_set_color a True z)"
    using assms(1) by (auto simp: rb_erase_color_def elim!: within_andThen split: option.splits)
  then have "within X s z \<and> set_option n \<subseteq> X" using within_erase_loop [OF nz(1) refl assms(2-4)] by simp
  then show ?thesis using nz(2) by (cases n) (auto intro: within_writes(2))
qed

lemma within_splice_out:
  assumes "splice_out n q s = (par, c, s')" and "pclosed X s" and "n \<in> X" and "set_option q \<subseteq> X"
  shows "within X s s' \<and> set_option par \<subseteq> X"
  using assms pclosed_ptrs(1) [OF assms(2,3)] within_refl [OF assms(2)]
  by (auto simp: splice_out_def Let_def intro!: within_intros)

lemma within_replace_by_successor:
  assumes eq: "replace_by_successor n m s = Inr (q, par, c, s')" and cl: "pclosed X s" and n: "n \<in> X" and m: "m \<in> X"
  shows "within X s s' \<and> set_option q \<subseteq> X \<and> set_option par \<subseteq> X"
proof -
  define F where "F = set_child_left_first (rb_par (nodes s n)) n (Some m) s"
  have F: "within X s F" unfolding F_def by (intro within_intros within_refl cl pclosed_ptrs(1) [OF cl n]) (use m in simp)
  note ptrs = pclosed_ptrs [OF within_closed]
  let ?q = "rb_right (nodes F m)"
  obtain p0 where p0: "rb_par (nodes F m) = Some p0"
    using eq by (auto simp: replace_by_successor_def Let_def F_def [symmetric] split: option.splits elim!: within_andThen)
  then have p0X: "p0 \<in> X" using ptrs(1) [OF F m] by simp
  let ?A = "set_left p0 ?q (rb_set_parent_opt ?q (Some p0) F)"
  let ?B = "set_right m (rb_right (nodes ?A n)) ?A"
  let ?G = "if p0 = n then F else rb_set_parent_opt (rb_right (nodes ?B n)) (Some m) ?B"
  have A: "within X s ?A" by (intro within_intros F) (use p0X ptrs(3) [OF F m] in simp_all)
  have B: "within X s ?B" by (intro within_intros A m ptrs(3) [OF A n])
  have G: "within X s ?G" using F within_reparent [OF B ptrs(3) [OF B n], of "Some m"] m by simp
  define H where "H = on_node m (\<lambda>x. x\<lparr>rb_par := rb_par (nodes ?G n), rb_black := rb_black (nodes ?G n)\<rparr>) ?G"
  have H: "within X s H"
    unfolding H_def by (intro within_on_node G m) (use ptrs [OF G m] ptrs(1) [OF G n] in simp_all)
  let ?I = "set_left m (rb_left (nodes H n)) H"
  have I: "within X s ?I" by (intro within_intros H m ptrs(2) [OF H n])
  have J: "within X s (rb_set_parent_opt (rb_left (nodes ?I n)) (Some m) ?I)"
    by (rule within_reparent [OF I ptrs(2) [OF I n]]) (use m in simp)
  have "(q, par, c, s') = (?q, Some (if p0 = n then m else p0), rb_black (nodes F m),
      rb_set_parent_opt (rb_left (nodes ?I n)) (Some m) ?I)"
    using eq p0 unfolding replace_by_successor_def Let_def F_def [symmetric] H_def
    by (cases "p0 = n") (auto simp del: on_node_simps)
  then show ?thesis using J ptrs(3) [OF F m] m p0X by auto
qed


lemma within_leftmost: "leftmost a s = Some b \<Longrightarrow> pclosed X s \<Longrightarrow> a \<in> X \<Longrightarrow> b \<in> X"
proof (induction a s b rule: leftmost.raw_induct [rotated, consumes 1, case_names 1])
  case (1 loop n s b)
  then show ?case by (auto split: option.split_asm dest: pclosedD(2))
qed

lemma within_erase:
  assumes eq: "rb_erase n s = Inr s'" and cl: "pclosed X s" and n: "n \<in> X"
  shows "within X s s'"
proof (cases "rb_left (nodes s n) \<noteq> None \<and> rb_right (nodes s n) \<noteq> None")
  case True
  then obtain l r where lr: "rb_left (nodes s n) = Some l" "rb_right (nodes s n) = Some r" by auto
  obtain m q par c z where z: "leftmost r s = Some m" "replace_by_successor n m s = Inr (q, par, c, z)"
    "(if c then rb_erase_color q par z else Inr z) = Inr s'"
    using eq lr by (auto simp: rb_erase_def split: option.splits elim!: within_andThen)
  have "m \<in> X" using within_leftmost [OF z(1) cl] pclosedD(3) [OF cl n lr(2)] by simp
  then have w: "within X s z" "set_option q \<subseteq> X" "set_option par \<subseteq> X"
    using within_replace_by_successor [OF z(2) cl n] by auto
  then show ?thesis
    using z(3) within_erase_color [OF _ within_closed [OF w(1)] w(2,3)] within_trans [OF w(1)] by (cases c) auto
next
  case False
  let ?q = "if rb_left (nodes s n) = None then rb_right (nodes s n) else rb_left (nodes s n)"
  obtain par c z where z: "splice_out n ?q s = (par, c, z)" "(if c then rb_erase_color ?q par z else Inr z) = Inr s'"
    using eq False by (cases "splice_out n ?q s") (auto simp: rb_erase_def Let_def split: option.splits if_splits)
  have q: "set_option ?q \<subseteq> X" using pclosed_ptrs [OF cl n] by auto
  then have w: "within X s z" "set_option par \<subseteq> X" using within_splice_out [OF z(1) cl n] by auto
  then show ?thesis
    using z(2) within_erase_color [OF _ within_closed [OF w(1)] q w(2)] within_trans [OF w(1)] by (cases c) auto
qed

lemma within_link_node:
  assumes cl: "pclosed X s" and n: "n \<in> X" and par: "set_option par \<subseteq> X"
    and link: "case link of RootLink \<Rightarrow> True | LeftOf p \<Rightarrow> p \<in> X | RightOf p \<Rightarrow> p \<in> X"
  shows "within X s (rb_link_node n par link s)"
proof -
  have "within X s (on_node n (\<lambda>n. n\<lparr>rb_par := par, rb_black := False, rb_left := None, rb_right := None\<rparr>) s)"
    by (rule within_on_node [OF within_refl [OF cl] n]) (use par in simp_all)
  then show ?thesis using link n by (auto simp: rb_link_node_def Let_def intro!: within_intros split: rlink.splits)
qed

lemma within_insert_color:
  assumes "rb_insert_color n s = Inr s'" and "pclosed X s" and "n \<in> X"
  shows "within X s s'"
proof -
  obtain z r where z: "insert_loop n s = Some (Inr z)" "rb_node z = Some r" "s' = rb_set_color r True z"
    using assms(1) by (auto simp: rb_insert_color_def split: option.splits elim!: within_andThen)
  then have w: "within X s z" using within_insert_loop [OF z(1) refl assms(2,3)] by simp
  then show ?thesis using z(3) pclosed_root [OF within_closed [OF w] z(2)] by (auto intro: within_writes(2))
qed

section \<open>Trees are closed\<close>

lemma trep_closed:
  "trep h par t q \<Longrightarrow> set_option q \<subseteq> set (inord t) \<and>
     (\<forall>a\<in>set (inord t). set_option (rb_par (h a)) \<subseteq> set (inord t) \<union> set_option par \<and>
        set_option (rb_left (h a)) \<subseteq> set (inord t) \<and> set_option (rb_right (h a)) \<subseteq> set (inord t))"
  by (induction t arbitrary: par q) (fastforce split: if_splits)+

lemma rep_closed: "rep s [] t \<Longrightarrow> pclosed (set (inord t)) s"
  using trep_closed [of "nodes s" None t "rb_node s"] by (auto simp: rep_def pclosed_def)

text \<open>A new node whose pointers are overwritten by \<^verbatim>\<open>rb_link_node\<close> can be added to the set.\<close>

lemma rb_erase_frame:
  assumes "rb_erase n s = Inr s'" and "rep s [] t" and "n \<in> set (inord t)" and "x \<notin> set (inord t)"
  shows "nodes s' x = nodes s x"
  using within_erase [OF assms(1) rep_closed [OF assms(2)] assms(3)] assms(4) by (simp add: within_def)

lemma rb_insert_frame:
  assumes "rb_insert_color n (rb_link_node n (par_of ctx) (link_of ctx) s) = Inr s'" and "rep s ctx Lf"
    and "x \<notin> insert n (set (ctx_nodes ctx))"
  shows "nodes s' x = nodes s x"
proof -
  let ?X = "insert n (set (ctx_nodes ctx))" and ?z = "on_node n (\<lambda>x. \<lparr>rb_par = None, rb_black = False, rb_left = None, rb_right = None\<rparr>) s"
  have "rep s [] (plug ctx Lf)" using assms(2) by (simp add: rep_focus)
  then have "pclosed (set (ctx_nodes ctx)) s" using rep_closed set_ctx_nodes by (fastforce simp: inord_plug)
  then have z: "pclosed ?X ?z" by (auto simp: pclosed_def)
  have same: "rb_link_node n (par_of ctx) (link_of ctx) ?z = rb_link_node n (par_of ctx) (link_of ctx) s"
    by (cases "nodes s n") (simp add: rb_link_node_def on_node_def Let_def)
  have "within ?X ?z (rb_link_node n (par_of ctx) (link_of ctx) ?z)"
    by (rule within_link_node [OF z]) (auto simp: par_of_def link_of_def split: list.splits)
  then have "within ?X ?z s'"
    using within_insert_color [OF assms(1)] within_trans within_closed unfolding same by blast
  then show ?thesis using assms(3) by (simp add: within_def)
qed

end
