(* ===== verification/Timers.thy ===== *)
theory Timers
  imports RbFrame Klist
begin

unbundle bit_operations_syntax

text \<open>
  The timers of \<^verbatim>\<open>TIMERS/\<close>: four trees of running timers, one per unit of the clock (ticks,
  seconds, minutes, hours), keyed by the value the clock of that unit has when the timer leaves
  the tree.  The remaining time of a timer is packed into one word with a field per unit.

  The nodes of all trees live on one heap.  Timers (\<^verbatim>\<open>TIMER_T\<close>) and the entries of the trees
  (\<^verbatim>\<open>APP_TIMER_T\<close>) are addressed by numbers.  The locks of the trees do nothing (theory Lock)
  and are left out.  \<open>sfs\<close> tells whether \<^verbatim>\<open>SFS_WANTED\<close> is defined; what \<^verbatim>\<open>tm_calloc\<close> returns
  is an argument.
\<close>

section \<open>Data\<close>

abbreviation (input) TICK_TIMERS :: nat where "TICK_TIMERS \<equiv> 0"
abbreviation (input) SECS_TIMERS :: nat where "SECS_TIMERS \<equiv> 1"
abbreviation (input) MIN_TIMERS :: nat where "MIN_TIMERS \<equiv> 2"
abbreviation (input) HRS_TIMERS :: nat where "HRS_TIMERS \<equiv> 3"

definition TIMER_WHEEL :: nat where "TIMER_WHEEL = 4"
definition WAIT_TIMERS :: nat where "WAIT_TIMERS = 5"

record tm_timer =
  t_rmt :: u32
  t_exp :: u32
  t_wheel :: nat
  t_idx :: int
  t_flags :: u32
  t_running :: bool
  t_data :: nat
  t_app :: "nat option"
  t_handler :: "nat option"

record app_timer =
  a_timer :: "nat option"
  a_ctime :: u32
  a_rt :: u32

datatype eaddr = ExpdHd | Elist nat

record timers =
  ttms :: "nat \<Rightarrow> tm_timer option"
  tapps :: "nat \<Rightarrow> app_timer option"
  rnodes :: "nat \<Rightarrow> rbn"
  roots :: "nat \<Rightarrow> nat option"
  tcount :: u32
  clk :: "nat \<Rightarrow> u32"
  indx :: int
  expd :: "eaddr lheap"
  tbytes :: u32

definition zero_timer :: tm_timer where
  "zero_timer = \<lparr>t_rmt = 0, t_exp = 0, t_wheel = 0, t_idx = 0, t_flags = 0, t_running = False,
     t_data = 0, t_app = None, t_handler = None\<rparr>"

definition sizeof_TIMER_T :: u32 where "sizeof_TIMER_T = 36"
definition sizeof_APP_TIMER_T :: u32 where "sizeof_APP_TIMER_T = 32"

text \<open>The tree of a wheel, and the state with that tree replaced.\<close>

definition tree_at :: "nat \<Rightarrow> 'z timers_scheme \<Rightarrow> rbt" where
  "tree_at w s = \<lparr>nodes = rnodes s, rb_node = roots s w\<rparr>"

definition put_tree :: "nat \<Rightarrow> rbt \<Rightarrow> 'z timers_scheme \<Rightarrow> 'z timers_scheme" where
  "put_tree w t s = s\<lparr>rnodes := nodes t, roots := (roots s)(w := rb_node t)\<rparr>"

definition on_timer :: "nat option \<Rightarrow> (tm_timer \<Rightarrow> tm_timer) \<Rightarrow> 'z timers_scheme \<Rightarrow> 'z timers_scheme res" where
  "on_timer q g s = andThen (deref (ttms s) q) (\<lambda>t. Inr (s\<lparr>ttms := (ttms s)(the q \<mapsto> g t)\<rparr>))"

definition on_app :: "nat option \<Rightarrow> (app_timer \<Rightarrow> app_timer) \<Rightarrow> 'z timers_scheme \<Rightarrow> 'z timers_scheme res" where
  "on_app q g s = andThen (deref (tapps s) q) (\<lambda>a. Inr (s\<lparr>tapps := (tapps s)(the q \<mapsto> g a)\<rparr>))"

section \<open>The packed time\<close>

definition tm_get_ticks_per_second :: "bool \<Rightarrow> u32" where
  "tm_get_ticks_per_second sfs = (if sfs then 50 else 100)"

definition TICK_BITS :: nat where "TICK_BITS = 10"
definition SECS_BITS :: nat where "SECS_BITS = 6"
definition MINS_BITS :: nat where "MINS_BITS = 6"
definition HRS_BITS :: nat where "HRS_BITS = 10"
definition SEC_BITS_OFFSET :: nat where "SEC_BITS_OFFSET = TICK_BITS"
definition MIN_BITS_OFFSET :: nat where "MIN_BITS_OFFSET = SEC_BITS_OFFSET + SECS_BITS"
definition HRS_BITS_OFFSET :: nat where "HRS_BITS_OFFSET = MIN_BITS_OFFSET + MINS_BITS"

definition SET_TICK :: "bool \<Rightarrow> u32 \<Rightarrow> u32 \<Rightarrow> u32" where
  "SET_TICK sfs ct t = ct OR (t mod tm_get_ticks_per_second sfs)"

definition SET_SECS :: "u32 \<Rightarrow> u32 \<Rightarrow> u32" where
  "SET_SECS ct t = ct OR push_bit SEC_BITS_OFFSET (t mod 60)"

definition SET_MINS :: "u32 \<Rightarrow> u32 \<Rightarrow> u32" where
  "SET_MINS ct t = ct OR push_bit MIN_BITS_OFFSET (t mod 60)"

definition SET_HRS :: "u32 \<Rightarrow> u32 \<Rightarrow> u32" where
  "SET_HRS ct t = ct OR push_bit HRS_BITS_OFFSET t"

definition GET_TICK :: "u32 \<Rightarrow> u32" where
  "GET_TICK ct = NOT (push_bit TICK_BITS (NOT 0)) AND ct"

definition GET_SECS :: "u32 \<Rightarrow> u32" where
  "GET_SECS ct = NOT (push_bit SECS_BITS (NOT 0)) AND drop_bit SEC_BITS_OFFSET ct"

definition GET_MINS :: "u32 \<Rightarrow> u32" where
  "GET_MINS ct = NOT (push_bit MINS_BITS (NOT 0)) AND drop_bit MIN_BITS_OFFSET ct"

definition GET_HRS :: "u32 \<Rightarrow> u32" where
  "GET_HRS ct = NOT (push_bit HRS_BITS (NOT 0)) AND drop_bit HRS_BITS_OFFSET ct"

section \<open>The trees\<close>

text \<open>The descent of \<^verbatim>\<open>timer_add\<close>: the parent and the link the new node goes to.\<close>

partial_function (option) add_loop ::
    "(nat \<Rightarrow> app_timer option) \<Rightarrow> u32 \<Rightarrow> rbt \<Rightarrow> nat option \<Rightarrow> rlink \<Rightarrow> nat option \<Rightarrow> (nat option \<times> rlink) res option" where
  [code]: "add_loop ap cmp t parent link cur =
     (case cur of None \<Rightarrow> Some (Inr (parent, link))
      | Some x \<Rightarrow>
          (case deref ap (Some x) of Inl e \<Rightarrow> Some (Inl e)
           | Inr y \<Rightarrow>
               if cmp < a_rt y then add_loop ap cmp t (Some x) (LeftOf x) (rb_left (nodes t x))
               else add_loop ap cmp t (Some x) (RightOf x) (rb_right (nodes t x))))"

definition timer_add :: "nat \<Rightarrow> nat \<Rightarrow> 'z timers_scheme \<Rightarrow> 'z timers_scheme res" where
  "timer_add n w s =
     andThen (deref (tapps s) (Some n)) (\<lambda>a.
     let t = tree_at w s in
     andThen (returned (add_loop (tapps s) (a_rt a) t None RootLink (rb_node t))) (\<lambda>(parent, link).
     andThen (rb_insert_color n (rb_link_node n parent link t)) (\<lambda>t. Inr (put_tree w t s))))"

definition timer_del :: "nat option \<Rightarrow> nat \<Rightarrow> 'z timers_scheme \<Rightarrow> 'z timers_scheme res" where
  "timer_del q w s =
     andThen (deref (tapps s) q) (\<lambda>_.
     andThen (rb_erase (the q) (tree_at w s)) (\<lambda>t. Inr (put_tree w (RB_CLEAR_NODE (the q) t) s)))"

partial_function (option) walk_loop ::
    "(nat \<Rightarrow> app_timer option) \<Rightarrow> u32 \<Rightarrow> rbt \<Rightarrow> nat option \<Rightarrow> nat option res option" where
  [code]: "walk_loop ap key t cur =
     (case cur of None \<Rightarrow> Some (Inr None)
      | Some x \<Rightarrow>
          (case deref ap cur of Inl e \<Rightarrow> Some (Inl e)
           | Inr y \<Rightarrow>
               if key < a_rt y then walk_loop ap key t (rb_left (nodes t x))
               else if a_rt y < key then walk_loop ap key t (rb_right (nodes t x))
               else Some (Inr cur)))"

definition timer_tree_walk :: "nat \<Rightarrow> u32 \<Rightarrow> 'z timers_scheme \<Rightarrow> nat option res" where
  "timer_tree_walk w key s = returned (walk_loop (tapps s) key (tree_at w s) (roots s w))"

section \<open>Starting and stopping timers\<close>

text \<open>The wheel for a packed time: the largest unit with a value, and that value.\<close>

definition tmr_slot :: "u32 \<Rightarrow> (nat \<times> u32) option" where
  "tmr_slot ct =
     (if GET_HRS ct \<noteq> 0 then Some (HRS_TIMERS, GET_HRS ct)
      else if GET_MINS ct \<noteq> 0 then Some (MIN_TIMERS, GET_MINS ct)
      else if GET_SECS ct \<noteq> 0 then Some (SECS_TIMERS, GET_SECS ct)
      else if GET_TICK ct \<noteq> 0 then Some (TICK_TIMERS, GET_TICK ct)
      else None)"

definition update_wheel :: "nat option \<Rightarrow> nat \<Rightarrow> 'z timers_scheme \<Rightarrow> 'z timers_scheme res" where
  "update_wheel q w = on_timer q (\<lambda>t. t\<lparr>t_wheel := w\<rparr>)"

definition find_tmr_slot_and_place :: "nat \<Rightarrow> 'z timers_scheme \<Rightarrow> 'z timers_scheme res" where
  "find_tmr_slot_and_place a s =
     andThen (deref (tapps s) (Some a)) (\<lambda>ap.
     case tmr_slot (a_ctime ap) of None \<Rightarrow> Inr s
     | Some (w, t) \<Rightarrow>
         andThen (on_app (Some a) (\<lambda>ap. ap\<lparr>a_rt := clk s w + t\<rparr>) s) (\<lambda>s.
         andThen (update_wheel (a_timer ap) w s) (\<lambda>s.
         andThen (on_timer (a_timer ap) (\<lambda>t. t\<lparr>t_running := True\<rparr>) s) (timer_add a w))))"

definition calc_time :: "bool \<Rightarrow> nat \<Rightarrow> 'z timers_scheme \<Rightarrow> 'z timers_scheme res" where
  "calc_time sfs a s =
     andThen (deref (tapps s) (Some a)) (\<lambda>ap.
     andThen (deref (ttms s) (a_timer ap)) (\<lambda>tm.
     let tick = t_rmt tm;
         secs = tick div tm_get_ticks_per_second sfs;
         mins = secs div 60;
         hrs = mins div 60
     in andThen (on_app (Some a) (\<lambda>ap. ap\<lparr>a_ctime :=
                    SET_HRS (SET_MINS (SET_SECS (SET_TICK sfs (a_ctime ap) tick) secs) mins) hrs\<rparr>) s) (\<lambda>s.
        on_timer (a_timer ap) (\<lambda>t. t\<lparr>t_exp := tick + clk s TICK_TIMERS\<rparr>) s)))"

definition MAX_TIMERS :: u32 where "MAX_TIMERS = 2000"

definition alloc_timer_id :: "'z timers_scheme \<Rightarrow> int \<times> 'z timers_scheme" where
  "alloc_timer_id s = (if tcount s > MAX_TIMERS then (0, s) else (indx s + 1, s\<lparr>indx := indx s + 1\<rparr>))"

text \<open>\<open>alloc_timer\<close> and the allocation of a tree entry; \<open>p\<close> is the address, \<^term>\<open>None\<close> is NULL.\<close>

definition alloc_timer :: "nat option \<Rightarrow> 'z timers_scheme \<Rightarrow> 'z timers_scheme" where
  "alloc_timer p s = (let s = s\<lparr>tbytes := tbytes s + sizeof_TIMER_T\<rparr> in
     case p of None \<Rightarrow> s | Some i \<Rightarrow> s\<lparr>ttms := (ttms s)(i \<mapsto> zero_timer)\<rparr>)"

definition free_timer :: "nat \<Rightarrow> 'z timers_scheme \<Rightarrow> 'z timers_scheme" where
  "free_timer i s = s\<lparr>ttms := (ttms s)(i := None), tbytes := tbytes s - sizeof_TIMER_T\<rparr>"

definition alloc_app :: "nat option \<Rightarrow> 'z timers_scheme \<Rightarrow> 'z timers_scheme" where
  "alloc_app p s = (let s = s\<lparr>tbytes := tbytes s + sizeof_APP_TIMER_T\<rparr> in
     case p of None \<Rightarrow> s | Some a \<Rightarrow> s\<lparr>tapps := (tapps s)(a \<mapsto> \<lparr>a_timer = None, a_ctime = 0, a_rt = 0\<rparr>)\<rparr>)"

text \<open>The common end of the routines that arm a timer.\<close>

definition arm :: "bool \<Rightarrow> nat \<Rightarrow> 'z timers_scheme \<Rightarrow> 'z timers_scheme res" where
  "arm sfs a s =
     andThen (calc_time sfs a s) (\<lambda>s.
     andThen (find_tmr_slot_and_place a s) (\<lambda>s. Inr (s\<lparr>tcount := tcount s + 1\<rparr>)))"

definition TIMER_ONCE :: u32 where "TIMER_ONCE = 1"
definition TIMER_REPEAT :: u32 where "TIMER_REPEAT = 2"
definition TIMER_FOREVER :: u32 where "TIMER_FOREVER = 4"

text \<open>The result is the timer; \<^term>\<open>None\<close> is the pointer \<^verbatim>\<open>-1\<close> of a failure.\<close>

definition start_timer ::
    "bool \<Rightarrow> nat option \<Rightarrow> nat option \<Rightarrow> u32 \<Rightarrow> nat \<Rightarrow> nat option \<Rightarrow> u32 \<Rightarrow> 'z timers_scheme \<Rightarrow> (nat option \<times> 'z timers_scheme) res" where
  "start_timer sfs newt newa ticks data handler flags s =
     (let (idx, s) = alloc_timer_id s in
      if idx = 0 then Inr (None, s)
      else let s = alloc_timer newt s in
        case newt of None \<Rightarrow> Inr (None, s)
        | Some i \<Rightarrow>
            let tm = zero_timer\<lparr>t_idx := idx, t_rmt := ticks, t_data := data, t_handler := handler,
                       t_flags := (if flags \<noteq> 0 then flags else TIMER_ONCE)\<rparr>;
                s = alloc_app newa (s\<lparr>ttms := (ttms s)(i \<mapsto> tm)\<rparr>)
            in case newa of None \<Rightarrow> Inr (None, free_timer i s)
               | Some a \<Rightarrow>
                   andThen (on_app (Some a) (\<lambda>ap. ap\<lparr>a_timer := Some i\<rparr>) s) (\<lambda>s.
                   andThen (on_timer (Some i) (\<lambda>t. t\<lparr>t_app := Some a\<rparr>) s) (\<lambda>s.
                   let s = s\<lparr>expd := INIT_LIST_HEAD (Elist a) (expd s)\<rparr>
                   in andThen (arm sfs a s) (\<lambda>s. Inr (Some i, s)))))"

definition setup_timer :: "nat option \<Rightarrow> nat option \<Rightarrow> nat \<Rightarrow> 'z timers_scheme \<Rightarrow> (int \<times> nat option \<times> 'z timers_scheme) res" where
  "setup_timer newt handler data s =
     (let (idx, s) = alloc_timer_id s in
      if idx = 0 then Inr (- 1, None, s)
      else let s = alloc_timer newt s in
        case newt of None \<Rightarrow> Inr (- 1, None, s)
        | Some i \<Rightarrow>
            andThen (on_timer (Some i) (\<lambda>t. t\<lparr>t_idx := idx, t_rmt := 0, t_data := data, t_handler := handler,
                       t_flags := TIMER_FOREVER\<rparr>) s) (\<lambda>s.
            andThen (update_wheel (Some i) WAIT_TIMERS s) (\<lambda>s. Inr (0, Some i, s))))"

definition mod_timer :: "bool \<Rightarrow> nat option \<Rightarrow> nat option \<Rightarrow> u32 \<Rightarrow> 'z timers_scheme \<Rightarrow> (int \<times> 'z timers_scheme) res" where
  "mod_timer sfs newa p secs s =
     (case p of None \<Rightarrow> Inr (- 1, s)
      | Some i \<Rightarrow>
          let s = alloc_app newa s in
          case newa of None \<Rightarrow> Inr (- 1, s)
          | Some a \<Rightarrow>
              let s = s\<lparr>expd := INIT_LIST_HEAD (Elist a) (expd s)\<rparr> in
              andThen (on_timer p (\<lambda>t. t\<lparr>t_rmt := secs * tm_get_ticks_per_second sfs\<rparr>) s) (\<lambda>s.
              andThen (on_app (Some a) (\<lambda>ap. ap\<lparr>a_timer := p\<rparr>) s) (\<lambda>s.
              andThen (on_timer p (\<lambda>t. t\<lparr>t_app := Some a\<rparr>) s) (\<lambda>s.
              andThen (arm sfs a s) (\<lambda>s. Inr (0, s))))))"

text \<open>\<^verbatim>\<open>timer_restart\<close> never sets \<^verbatim>\<open>apptimer->timer\<close>.\<close>

definition timer_restart :: "bool \<Rightarrow> nat option \<Rightarrow> nat option \<Rightarrow> 'z timers_scheme \<Rightarrow> (int \<times> 'z timers_scheme) res" where
  "timer_restart sfs newa p s =
     (case p of None \<Rightarrow> Inr (- 1, s)
      | Some i \<Rightarrow>
          let s = alloc_app newa s in
          case newa of None \<Rightarrow> Inr (- 1, s)
          | Some a \<Rightarrow>
              let s = s\<lparr>expd := INIT_LIST_HEAD (Elist a) (expd s)\<rparr> in
              andThen (arm sfs a s) (\<lambda>s. Inr (0, s)))"

definition stop_timer :: "nat \<Rightarrow> 'z timers_scheme \<Rightarrow> (int \<times> 'z timers_scheme) res" where
  "stop_timer i s =
     andThen (deref (ttms s) (Some i)) (\<lambda>tm.
     if \<not> t_wheel tm < TIMER_WHEEL then Inl OutOfBounds
     else andThen (timer_del (t_app tm) (t_wheel tm) s) (\<lambda>s.
          andThen (on_timer (Some i) (\<lambda>t. t\<lparr>t_running := False\<rparr>) s) (\<lambda>s.
            Inr (0, s\<lparr>tapps := (tapps s)(the (t_app tm) := None), tcount := tcount s - 1\<rparr>))))"

definition del_timer :: "nat \<Rightarrow> 'z timers_scheme \<Rightarrow> 'z timers_scheme res" where
  "del_timer i s =
     andThen (deref (ttms s) (Some i)) (\<lambda>tm.
     if t_app tm \<noteq> None \<and> t_running tm then andThen (stop_timer i s) (\<lambda>(_, s). Inr s) else Inr s)"

definition timer_pending :: "nat option \<Rightarrow> 'z timers_scheme \<Rightarrow> bool res" where
  "timer_pending p s = (case p of None \<Rightarrow> Inr False | Some i \<Rightarrow> andThen (deref (ttms s) p) (\<lambda>t. Inr (t_running t)))"

definition get_ticks :: "'z timers_scheme \<Rightarrow> u32" where "get_ticks s = clk s TICK_TIMERS"
definition get_secs :: "'z timers_scheme \<Rightarrow> u32" where "get_secs s = clk s SECS_TIMERS"
definition get_mins :: "'z timers_scheme \<Rightarrow> u32" where "get_mins s = clk s MIN_TIMERS"
definition get_hrs :: "'z timers_scheme \<Rightarrow> u32" where "get_hrs s = clk s HRS_TIMERS"
definition get_timers_count :: "'z timers_scheme \<Rightarrow> u32" where "get_timers_count s = tcount s"

definition timer_get_remaining_time :: "nat option \<Rightarrow> 'z timers_scheme \<Rightarrow> u32 res" where
  "timer_get_remaining_time p s =
     (case p of None \<Rightarrow> Inr 0
      | Some i \<Rightarrow>
          andThen (deref (ttms s) p) (\<lambda>tm.
          if \<not> t_running tm then Inr 0
          else let t = t_exp tm - get_ticks s in Inr (if t <s 0 then 0 else t)))"

section \<open>The clock and the expiry of timers\<close>

definition wheel_mask :: "nat \<Rightarrow> u32" where
  "wheel_mask w = [0xFFFFFC00, 0xFFFF03FF, 0xFFC0FFFF, 0x3FFFFF] ! w"

definition clear_wheel_timer :: "nat \<Rightarrow> 'z timers_scheme \<Rightarrow> 'z timers_scheme res" where
  "clear_wheel_timer a s =
     andThen (deref (tapps s) (Some a)) (\<lambda>ap.
     andThen (deref (ttms s) (a_timer ap)) (\<lambda>tm.
     if \<not> t_wheel tm < TIMER_WHEEL then Inl OutOfBounds
     else on_app (Some a) (\<lambda>ap. ap\<lparr>a_ctime := a_ctime ap AND wheel_mask (t_wheel tm)\<rparr>) s))"

definition timer_expiry_action :: "nat \<Rightarrow> 'z timers_scheme \<Rightarrow> 'z timers_scheme res" where
  "timer_expiry_action a s =
     andThen (deref (tapps s) (Some a)) (\<lambda>ap.
     if a_ctime ap = 0
     then andThen (on_timer (a_timer ap) (\<lambda>t. t\<lparr>t_running := False\<rparr>) (s\<lparr>tcount := tcount s - 1\<rparr>)) (\<lambda>s.
          Inr (s\<lparr>expd := list_add_tail (Elist a) ExpdHd (expd s)\<rparr>))
     else find_tmr_slot_and_place a s)"

definition process_one :: "nat \<Rightarrow> nat \<Rightarrow> 'z timers_scheme \<Rightarrow> 'z timers_scheme res" where
  "process_one w a s =
     andThen (clear_wheel_timer a s) (\<lambda>s.
     andThen (timer_del (Some a) w s) (timer_expiry_action a))"

partial_function (option) process_loop :: "nat \<Rightarrow> u32 \<Rightarrow> int \<Rightarrow> 'z timers_scheme \<Rightarrow> (int \<times> 'z timers_scheme) res option" where
  [code]: "process_loop w key n s =
     (case timer_tree_walk w key s of
        Inl e \<Rightarrow> Some (Inl e)
      | Inr None \<Rightarrow> Some (Inr (n, s))
      | Inr (Some a) \<Rightarrow>
          (case process_one w a s of Inl e \<Rightarrow> Some (Inl e)
           | Inr s \<Rightarrow> process_loop w key (n + 1) s))"

definition process_timers :: "nat \<Rightarrow> u32 \<Rightarrow> 'z timers_scheme \<Rightarrow> (int \<times> 'z timers_scheme) res" where
  "process_timers w key s = returned (process_loop w key 0 s)"

definition IS_NXT_SEC_HAPPEND :: "bool \<Rightarrow> 'z timers_scheme \<Rightarrow> bool" where
  "IS_NXT_SEC_HAPPEND sfs s \<longleftrightarrow> clk s TICK_TIMERS mod tm_get_ticks_per_second sfs = 0"

definition IS_NXT_MIN_HAPPEND :: "'z timers_scheme \<Rightarrow> bool" where
  "IS_NXT_MIN_HAPPEND s \<longleftrightarrow> \<not> (if clk s SECS_TIMERS \<noteq> 0 then clk s SECS_TIMERS mod 60 \<noteq> 0 else True)"

definition IS_NXT_HR_HAPPEND :: "'z timers_scheme \<Rightarrow> bool" where
  "IS_NXT_HR_HAPPEND s \<longleftrightarrow> \<not> (if clk s MIN_TIMERS \<noteq> 0 then clk s MIN_TIMERS mod 60 \<noteq> 0 else True)"

definition tm_process_tick_and_update_timers :: "bool \<Rightarrow> 'z timers_scheme \<Rightarrow> (int \<times> 'z timers_scheme) res" where
  "tm_process_tick_and_update_timers sfs s =
     andThen (process_timers TICK_TIMERS (clk s TICK_TIMERS) s) (\<lambda>(n0, s).
     if \<not> IS_NXT_SEC_HAPPEND sfs s then Inr (n0, s)
     else andThen (process_timers SECS_TIMERS (clk s SECS_TIMERS) s) (\<lambda>(n1, s).
     if \<not> IS_NXT_MIN_HAPPEND s then Inr (n0 + n1, s)
     else andThen (process_timers MIN_TIMERS (clk s MIN_TIMERS) s) (\<lambda>(n2, s).
     if \<not> IS_NXT_HR_HAPPEND s then Inr (n0 + n1 + n2, s)
     else andThen (process_timers HRS_TIMERS (clk s HRS_TIMERS) s) (\<lambda>(n3, s). Inr (n0 + n1 + n2 + n3, s)))))"

definition has_timers :: "nat \<Rightarrow> 'z timers_scheme \<Rightarrow> bool res" where
  "has_timers w s = (case rb_first (tree_at w s) of None \<Rightarrow> Inl NoReturn | Some q \<Rightarrow> Inr (q \<noteq> None))"

definition timers_pending_for_service :: "bool \<Rightarrow> 'z timers_scheme \<Rightarrow> bool res" where
  "timers_pending_for_service sfs s =
     (if tcount s = 0 then Inr False
      else andThen (has_timers TICK_TIMERS s) (\<lambda>b0. if b0 then Inr True
      else andThen (if IS_NXT_SEC_HAPPEND sfs s then has_timers SECS_TIMERS s else Inr False) (\<lambda>b1. if b1 then Inr True
      else andThen (if IS_NXT_MIN_HAPPEND s then has_timers MIN_TIMERS s else Inr False) (\<lambda>b2. if b2 then Inr True
      else if IS_NXT_HR_HAPPEND s then has_timers HRS_TIMERS s else Inr False))))"

definition tick_clk :: "bool \<Rightarrow> (nat \<Rightarrow> u32) \<Rightarrow> nat \<Rightarrow> u32" where
  "tick_clk sfs c =
     (let c = c(TICK_TIMERS := c TICK_TIMERS + 1) in
      if c TICK_TIMERS mod tm_get_ticks_per_second sfs \<noteq> 0 then c
      else let c = c(SECS_TIMERS := c SECS_TIMERS + 1) in
        if c SECS_TIMERS mod 60 \<noteq> 0 then c
        else let c = c(MIN_TIMERS := c MIN_TIMERS + 1) in
          if c MIN_TIMERS mod 60 \<noteq> 0 then c else c(HRS_TIMERS := c HRS_TIMERS + 1))"

text \<open>
  \<^verbatim>\<open>service_timers\<close>: with \<^verbatim>\<open>SFS_WANTED\<close> the soft interrupt is asked to run, otherwise the
  trees are processed at once and the service task is told when timers expired.  The result
  says whether the bottom half has been asked for.
\<close>

definition service_timers :: "bool \<Rightarrow> 'z timers_scheme \<Rightarrow> (bool \<times> 'z timers_scheme) res" where
  "service_timers sfs s =
     (if sfs then Inr (True, s)
      else andThen (tm_process_tick_and_update_timers sfs s) (\<lambda>(n, s). Inr (n \<noteq> 0, s)))"

definition update_times :: "bool \<Rightarrow> 'z timers_scheme \<Rightarrow> (bool \<times> 'z timers_scheme) res" where
  "update_times sfs s =
     (let s = s\<lparr>clk := tick_clk sfs (clk s)\<rparr> in
      andThen (timers_pending_for_service sfs s) (\<lambda>b. if b then service_timers sfs s else Inr (False, s)))"

section \<open>The bottom half\<close>

text \<open>
  One turn of \<^verbatim>\<open>process_expd_timers\<close>.  \<open>hdl\<close> is what the time-out handlers do, \<open>al\<close> what
  \<^verbatim>\<open>tm_calloc\<close> returns when a timer is started again.
\<close>

definition expire_one ::
    "bool \<Rightarrow> (nat \<Rightarrow> nat \<Rightarrow> 'z timers_scheme \<Rightarrow> 'z timers_scheme res) \<Rightarrow> ('z timers_scheme \<Rightarrow> nat option) \<Rightarrow> nat \<Rightarrow> 'z timers_scheme \<Rightarrow> 'z timers_scheme res" where
  "expire_one sfs hdl al a s =
     andThen (deref (tapps s) (Some a)) (\<lambda>ap.
     andThen (deref (ttms s) (a_timer ap)) (\<lambda>tm.
     andThen (case t_handler tm of None \<Rightarrow> Inr s | Some h \<Rightarrow> hdl h (t_data tm) s) (\<lambda>s.
     let s = s\<lparr>expd := list_del (Elist a) (expd s)\<rparr> in
     andThen (deref (tapps s) (Some a)) (\<lambda>ap.
     andThen (on_timer (a_timer ap) (\<lambda>t. t\<lparr>t_app := None\<rparr>) s) (\<lambda>s.
     andThen (deref (ttms s) (a_timer ap)) (\<lambda>tm.
     andThen (if t_flags tm AND TIMER_ONCE \<noteq> 0 then Inr (free_timer (the (a_timer ap)) s)
              else if t_flags tm AND TIMER_REPEAT \<noteq> 0
              then andThen (timer_restart sfs (al s) (a_timer ap) s) (\<lambda>(_, s). Inr s)
              else Inr s) (\<lambda>s.
     Inr (s\<lparr>tapps := (tapps s)(a := None)\<rparr>))))))))"

partial_function (option) expd_loop ::
    "bool \<Rightarrow> (nat \<Rightarrow> nat \<Rightarrow> 'z timers_scheme \<Rightarrow> 'z timers_scheme res) \<Rightarrow> ('z timers_scheme \<Rightarrow> nat option) \<Rightarrow> eaddr \<Rightarrow> eaddr \<Rightarrow> 'z timers_scheme \<Rightarrow> 'z timers_scheme res option" where
  [code]: "expd_loop sfs hdl al pnode nxt s =
     (case pnode of ExpdHd \<Rightarrow> Some (Inr s)
      | Elist a \<Rightarrow>
          (case expire_one sfs hdl al a s of Inl e \<Rightarrow> Some (Inl e)
           | Inr s \<Rightarrow> expd_loop sfs hdl al nxt (lnext (expd s) nxt) s))"

definition process_expd_timers ::
    "bool \<Rightarrow> (nat \<Rightarrow> nat \<Rightarrow> 'z timers_scheme \<Rightarrow> 'z timers_scheme res) \<Rightarrow> ('z timers_scheme \<Rightarrow> nat option) \<Rightarrow> 'z timers_scheme \<Rightarrow> 'z timers_scheme res" where
  "process_expd_timers sfs hdl al s =
     (let p = lnext (expd s) ExpdHd in returned (expd_loop sfs hdl al p (lnext (expd s) p) s))"

definition btm_hlf ::
    "bool \<Rightarrow> (nat \<Rightarrow> nat \<Rightarrow> 'z timers_scheme \<Rightarrow> 'z timers_scheme res) \<Rightarrow> ('z timers_scheme \<Rightarrow> nat option) \<Rightarrow> 'z timers_scheme \<Rightarrow> 'z timers_scheme res" where
  "btm_hlf sfs hdl al s =
     andThen (if sfs then andThen (tm_process_tick_and_update_timers sfs s) (\<lambda>(_, s). Inr s) else Inr s) (\<lambda>s.
     if \<not> list_empty ExpdHd (expd s) then process_expd_timers sfs hdl al s else Inr s)"

definition timer_rq_init :: "'z timers_scheme \<Rightarrow> 'z timers_scheme" where
  "timer_rq_init s = s\<lparr>expd := INIT_LIST_HEAD ExpdHd (expd s), tcount := 0\<rparr>"

end
