(* ===== verification/TimerFields.thy ===== *)
theory TimerFields
  imports Timers
begin

unbundle bit_operations_syntax

text \<open>
  The packed time as numbers: the fields are digits of the word, \<^verbatim>\<open>calc_time\<close> writes the
  digits of the requested time, and the masks of the wheels clear one digit.
\<close>

lemma not_ones: "NOT (push_bit n (NOT 0)) = (mask n :: u32)"
  by (rule bit_word_eqI) (auto simp: bit_simps)

lemma GET_eq:
  "GET_TICK ct = take_bit 10 ct" "GET_SECS ct = take_bit 6 (drop_bit 10 ct)"
  "GET_MINS ct = take_bit 6 (drop_bit 16 ct)" "GET_HRS ct = take_bit 10 (drop_bit 22 ct)"
  by (simp_all add: GET_TICK_def GET_SECS_def GET_MINS_def GET_HRS_def not_ones TICK_BITS_def SECS_BITS_def
      MINS_BITS_def HRS_BITS_def SEC_BITS_OFFSET_def MIN_BITS_OFFSET_def HRS_BITS_OFFSET_def
      take_bit_eq_mask and.commute)

lemma unat_GET:
  "unat (GET_TICK ct) = unat ct mod 1024" "unat (GET_SECS ct) = unat ct div 1024 mod 64"
  "unat (GET_MINS ct) = unat ct div 65536 mod 64" "unat (GET_HRS ct) = unat ct div 4194304 mod 1024"
  by (simp_all add: GET_eq take_bit_eq_mod drop_bit_eq_div unat_mod unat_div)

text \<open>The field of a wheel.\<close>

definition fld :: "nat \<Rightarrow> u32 \<Rightarrow> u32" where
  "fld w ct = (if w = 0 then GET_TICK ct else if w = 1 then GET_SECS ct else if w = 2 then GET_MINS ct else GET_HRS ct)"

lemma digits4:
  fixes n :: nat
  assumes "n < 4294967296"
  shows "n = n mod 1024 + 1024 * (n div 1024 mod 64) + 65536 * (n div 65536 mod 64) + 4194304 * (n div 4194304 mod 1024)"
proof -
  have q: "n div 65536 = n div 1024 div 64" "n div 4194304 = n div 65536 div 64" by (simp_all flip: div_mult2_eq)
  have "n div 4194304 < 1024" using assms by simp
  moreover have "n = 1024 * (n div 1024) + n mod 1024" by (rule mult_div_mod_eq [symmetric])
  moreover have "n div 1024 = 64 * (n div 65536) + n div 1024 mod 64" unfolding q(1) by (rule mult_div_mod_eq [symmetric])
  moreover have "n div 65536 = 64 * (n div 4194304) + n div 65536 mod 64" unfolding q(2) by (rule mult_div_mod_eq [symmetric])
  moreover have "n div 4194304 mod 1024 = n div 4194304" using assms by simp
  ultimately show ?thesis by linarith
qed

lemma unat_fields:
  "unat ct = unat (fld 0 ct) + 1024 * unat (fld 1 ct) + 65536 * unat (fld 2 ct) + 4194304 * unat (fld 3 ct)"
proof -
  have "unat ct < 2 ^ LENGTH(32)" by (rule unsigned_less)
  then show ?thesis using digits4 [of "unat ct"] by (simp add: fld_def unat_GET)
qed

lemma fields_zero: "ct = 0 \<longleftrightarrow> (\<forall>w<4. fld w ct = 0)"
proof -
  have "(\<forall>w<4. fld w ct = 0) \<longleftrightarrow> fld 0 ct = 0 \<and> fld 1 ct = 0 \<and> fld 2 ct = 0 \<and> fld 3 ct = 0"
    by (auto simp: numeral_eq_Suc less_Suc_eq)
  then show ?thesis using unat_fields [of ct] by (auto simp: unat_eq_0 fld_def GET_eq)
qed

lemma wheel_mask_eq:
  "wheel_mask 0 = NOT (mask 10)" "wheel_mask (Suc 0) = NOT (push_bit 10 (mask 6))"
  "wheel_mask 2 = NOT (push_bit 16 (mask 6))" "wheel_mask 3 = NOT (push_bit 22 (mask 10))"
  by (simp_all add: wheel_mask_def mask_eq_exp_minus_1 push_bit_eq_mult)

lemma fld_clear:
  assumes "v < 4" and "w < 4"
  shows "fld v (ct AND wheel_mask w) = (if v = w then 0 else fld v ct)"
proof -
  have "v = 0 \<or> v = 1 \<or> v = 2 \<or> v = 3" "w = 0 \<or> w = 1 \<or> w = 2 \<or> w = 3" using assms by auto
  then show ?thesis
    by (elim disjE; simp add: fld_def GET_eq wheel_mask_eq; intro bit_word_eqI; auto simp: bit_simps)
qed


text \<open>Packing the digits of a time.\<close>

definition pack :: "u32 \<Rightarrow> u32 \<Rightarrow> u32 \<Rightarrow> u32 \<Rightarrow> u32" where
  "pack a b c d = a OR push_bit 10 b OR push_bit 16 c OR push_bit 22 d"

lemma fld_pack:
  "fld 0 (pack (take_bit 10 a) (take_bit 6 b) (take_bit 6 c) d) = take_bit 10 a"
  "fld (Suc 0) (pack (take_bit 10 a) (take_bit 6 b) (take_bit 6 c) d) = take_bit 6 b"
  "fld 2 (pack (take_bit 10 a) (take_bit 6 b) (take_bit 6 c) d) = take_bit 6 c"
  "fld 3 (pack (take_bit 10 a) (take_bit 6 b) (take_bit 6 c) d) = take_bit 10 d"
  by (simp_all add: fld_def GET_eq pack_def; intro bit_word_eqI; auto simp: bit_simps)+

lemma take_bit_small:
  "unat x < 2 ^ n \<Longrightarrow> take_bit n x = (x :: u32)"
  by (simp add: word_eq_iff_unsigned [where ?'a = nat] unsigned_take_bit_eq take_bit_nat_eq_self)

definition packed :: "bool \<Rightarrow> u32 \<Rightarrow> u32" where
  "packed sfs tick =
     (let secs = tick div tm_get_ticks_per_second sfs; mins = secs div 60
      in SET_HRS (SET_MINS (SET_SECS (SET_TICK sfs 0 tick) secs) mins) (mins div 60))"

abbreviation tps :: "bool \<Rightarrow> nat" where
  "tps sfs \<equiv> unat (tm_get_ticks_per_second sfs)"

lemma tps_pos: "0 < tps sfs" "tps sfs < 1024"
  by (simp_all add: tm_get_ticks_per_second_def)

text \<open>The hours have ten bits: from 1024 hours on they are cut off.\<close>

lemma fld_packed:
  "unat (fld 0 (packed sfs tick)) = unat tick mod tps sfs"
  "unat (fld (Suc 0) (packed sfs tick)) = unat tick div tps sfs mod 60"
  "unat (fld 2 (packed sfs tick)) = unat tick div tps sfs div 60 mod 60"
  "unat (fld 3 (packed sfs tick)) = unat tick div tps sfs div 3600 mod 1024"
proof -
  let ?n = "tm_get_ticks_per_second sfs"
  let ?s = "tick div ?n" and ?m = "tick div ?n div 60"
  have small: "take_bit 10 (tick mod ?n) = tick mod ?n" "take_bit 6 (?s mod 60) = ?s mod 60" "take_bit 6 (?m mod 60) = ?m mod 60"
    using tps_pos [of sfs] less_trans [OF mod_less_divisor, of "tps sfs" 1024 "unat tick"] mod_less_divisor [of 60 "unat ?s"]
      mod_less_divisor [of 60 "unat ?m"]
    by (auto intro!: take_bit_small simp: unat_mod)
  have p: "packed sfs tick = pack (take_bit 10 (tick mod ?n)) (take_bit 6 (?s mod 60)) (take_bit 6 (?m mod 60)) (?m div 60)"
    unfolding small by (simp add: packed_def pack_def Let_def SET_HRS_def SET_MINS_def SET_SECS_def SET_TICK_def
        TICK_BITS_def SECS_BITS_def MINS_BITS_def HRS_BITS_def SEC_BITS_OFFSET_def MIN_BITS_OFFSET_def HRS_BITS_OFFSET_def ac_simps)
  have "unat tick div tps sfs div 3600 = unat tick div tps sfs div 60 div 60"
    using div_mult2_eq [of "unat tick div tps sfs" 60 60] by simp
  then show "unat (fld 0 (packed sfs tick)) = unat tick mod tps sfs"
    "unat (fld (Suc 0) (packed sfs tick)) = unat tick div tps sfs mod 60"
    "unat (fld 2 (packed sfs tick)) = unat tick div tps sfs div 60 mod 60"
    "unat (fld 3 (packed sfs tick)) = unat tick div tps sfs div 3600 mod 1024"
    using fld_pack [of "tick mod ?n" "?s mod 60" "?m mod 60" "?m div 60", folded p] unfolding small
    by (simp_all add: unat_mod unat_div take_bit_eq_mod)
qed

end
