(* ===== verification/TimerTree.thy ===== *)
theory TimerTree
  imports TimerFields
begin

text \<open>
  The trees of the timers are search trees: \<^verbatim>\<open>timer_add\<close> puts an entry behind all entries
  with the same or a smaller time, \<^verbatim>\<open>timer_tree_walk\<close> finds an entry with a given time when
  there is one.
\<close>

definition key :: "'z timers_scheme \<Rightarrow> nat \<Rightarrow> u32" where
  "key s a = a_rt (the (tapps s a))"

lemma key_fun: "key s = (\<lambda>x. a_rt (the (tapps s x)))"
  by (simp add: fun_eq_iff key_def)

lemma add_loop_ok:
  assumes "rep t ctx u" and "\<And>x. x \<in> set (inord u) \<Longrightarrow> ap x \<noteq> None"
    and "sorted (map (\<lambda>x. a_rt (the (ap x))) (inord u))"
  shows "\<exists>ctx'. add_loop ap cmp t (par_of ctx) (link_of ctx) (rt_of u) = Some (Inr (par_of ctx', link_of ctx')) \<and>
     plug ctx' Lf = plug ctx u \<and> before ctx' = before ctx @ filter (\<lambda>x. a_rt (the (ap x)) \<le> cmp) (inord u) \<and>
     after ctx' = filter (\<lambda>x. cmp < a_rt (the (ap x))) (inord u) @ after ctx"
  using assms
proof (induction u arbitrary: ctx)
  case Lf
  show ?case by (intro exI [of _ ctx]) (simp add: add_loop.simps [of _ _ _ _ _ None] rt_of_def)
next
  case (Nd l a c r)
  let ?k = "\<lambda>x. a_rt (the (ap x))"
  obtain y where y: "ap a = Some y" using Nd.prems(2) [of a] by auto
  have srt: "sorted (map ?k (inord l))" "sorted (map ?k (inord r))" "\<forall>x\<in>set (inord l). ?k x \<le> ?k a" "\<forall>x\<in>set (inord r). ?k a \<le> ?k x"
    using Nd.prems(3) by (auto simp: sorted_append)
  show ?case
  proof (cases "cmp < ?k a")
    case True
    let ?ctx = "(True, a, c, r) # ctx"
    have "rep t ?ctx l" using Nd.prems(1) by (simp add: rep_move)
    then obtain ctx' where c: "add_loop ap cmp t (par_of ?ctx) (link_of ?ctx) (rt_of l) = Some (Inr (par_of ctx', link_of ctx'))"
      "plug ctx' Lf = plug ?ctx l" "before ctx' = before ?ctx @ filter (\<lambda>x. ?k x \<le> cmp) (inord l)"
      "after ctx' = filter (\<lambda>x. cmp < ?k x) (inord l) @ after ?ctx"
      using Nd.IH(1) [of ?ctx] Nd.prems(2) srt(1) by auto
    have "add_loop ap cmp t (par_of ctx) (link_of ctx) (Some a) = add_loop ap cmp t (Some a) (LeftOf a) (rt_of l)"
      using True y rep_ptrs(1) [OF Nd.prems(1)] by (subst add_loop.simps) simp
    moreover have "filter (\<lambda>x. ?k x \<le> cmp) (inord r) = []" "filter (\<lambda>x. cmp < ?k x) (inord r) = inord r"
      using srt(4) True by (force simp: filter_empty_conv filter_id_conv)+
    ultimately show ?thesis using c True by (intro exI [of _ ctx']) (auto simp: rt_of_def par_of_def link_of_def)
  next
    case False
    let ?ctx = "(False, a, c, l) # ctx"
    have "rep t ?ctx r" using Nd.prems(1) by (simp add: rep_move)
    then obtain ctx' where c: "add_loop ap cmp t (par_of ?ctx) (link_of ?ctx) (rt_of r) = Some (Inr (par_of ctx', link_of ctx'))"
      "plug ctx' Lf = plug ?ctx r" "before ctx' = before ?ctx @ filter (\<lambda>x. ?k x \<le> cmp) (inord r)"
      "after ctx' = filter (\<lambda>x. cmp < ?k x) (inord r) @ after ?ctx"
      using Nd.IH(2) [of ?ctx] Nd.prems(2) srt(2) by auto
    have "add_loop ap cmp t (par_of ctx) (link_of ctx) (Some a) = add_loop ap cmp t (Some a) (RightOf a) (rt_of r)"
      using False y rep_ptrs(2) [OF Nd.prems(1)] by (subst add_loop.simps) simp
    moreover have "filter (\<lambda>x. ?k x \<le> cmp) (inord l) = inord l" "filter (\<lambda>x. cmp < ?k x) (inord l) = []"
      using srt(3) False by (force simp: filter_empty_conv filter_id_conv)+
    ultimately show ?thesis using c False by (intro exI [of _ ctx']) (auto simp: rt_of_def par_of_def link_of_def)
  qed
qed

lemma walk_loop_ok:
  assumes "trep (nodes t) par u q" and "\<And>x. x \<in> set (inord u) \<Longrightarrow> ap x \<noteq> None"
    and "sorted (map (\<lambda>x. a_rt (the (ap x))) (inord u))"
  shows "\<exists>r. walk_loop ap k t q = Some (Inr r) \<and>
     (case r of None \<Rightarrow> \<forall>x\<in>set (inord u). a_rt (the (ap x)) \<noteq> k | Some x \<Rightarrow> x \<in> set (inord u) \<and> a_rt (the (ap x)) = k)"
  using assms
proof (induction u arbitrary: par q)
  case Lf
  then show ?case by (simp add: walk_loop.simps [of _ _ _ None])
next
  case (Nd l a c r)
  let ?k = "\<lambda>x. a_rt (the (ap x))"
  obtain y where y: "ap a = Some y" using Nd.prems(2) [of a] by auto
  have q: "q = Some a" and tl: "trep (nodes t) (Some a) l (rb_left (nodes t a))" and tr: "trep (nodes t) (Some a) r (rb_right (nodes t a))"
    using Nd.prems(1) by auto
  have srt: "sorted (map ?k (inord l))" "sorted (map ?k (inord r))" "\<forall>x\<in>set (inord l). ?k x \<le> ?k a" "\<forall>x\<in>set (inord r). ?k a \<le> ?k x"
    using Nd.prems(3) by (auto simp: sorted_append)
  consider "k < ?k a" | "?k a < k" | "?k a = k" by (rule linorder_cases)
  then show ?case
  proof cases
    case 1
    have "walk_loop ap k t q = walk_loop ap k t (rb_left (nodes t a))" using 1 y q by (subst walk_loop.simps) simp
    moreover have "\<forall>x\<in>set (inord r). ?k x \<noteq> k" using srt(4) 1 by force
    ultimately show ?thesis using Nd.IH(1) [OF tl] Nd.prems(2) srt(1) 1 by (auto split: option.splits)
  next
    case 2
    have "walk_loop ap k t q = walk_loop ap k t (rb_right (nodes t a))" using 2 y q by (subst walk_loop.simps) (auto dest: order.asym)
    moreover have "\<forall>x\<in>set (inord l). ?k x \<noteq> k" using srt(3) 2 by force
    ultimately show ?thesis using Nd.IH(2) [OF tr] Nd.prems(2) srt(2) 2 by (auto split: option.splits)
  next
    case 3
    then show ?thesis using y q by (subst walk_loop.simps) simp
  qed
qed

section \<open>Four trees on one heap\<close>

definition wheels :: "'z timers_scheme \<Rightarrow> (nat \<Rightarrow> nat list) \<Rightarrow> bool" where
  "wheels s f \<longleftrightarrow> (\<forall>w<TIMER_WHEEL. \<exists>t. rep (tree_at w s) [] t \<and> rb_inv t \<and> inord t = f w) \<and>
     (\<forall>v<TIMER_WHEEL. \<forall>w<TIMER_WHEEL. v \<noteq> w \<longrightarrow> set (f v) \<inter> set (f w) = {})"

lemma wheelsE:
  assumes "wheels s f" and "w < TIMER_WHEEL"
  obtains t where "rep (tree_at w s) [] t" and "rb_inv t" and "inord t = f w"
  using assms unfolding wheels_def by blast

lemma wheels_distinct: "wheels s f \<Longrightarrow> w < TIMER_WHEEL \<Longrightarrow> distinct (f w)"
  by (erule (1) wheelsE) (auto simp: rep_def)

lemma wheels_other: "wheels s f \<Longrightarrow> v < TIMER_WHEEL \<Longrightarrow> w < TIMER_WHEEL \<Longrightarrow> v \<noteq> w \<Longrightarrow> x \<in> set (f w) \<Longrightarrow> x \<notin> set (f v)"
  unfolding wheels_def by blast

lemma wheels_cong: "rnodes s' = rnodes s \<Longrightarrow> roots s' = roots s \<Longrightarrow> wheels s' f = wheels s f"
  by (simp add: wheels_def tree_at_def)

text \<open>A routine that changes the nodes of one wheel, and maybe of one entry that is on no wheel.\<close>

lemma wheels_put:
  assumes "wheels s f" and w: "w < TIMER_WHEEL" and new: "rep T [] t" "rb_inv t"
    and frame: "\<And>x. x \<notin> insert n (set (f w)) \<Longrightarrow> nodes T x = rnodes s x"
    and sub: "set (inord t) \<subseteq> insert n (set (f w))"
    and free: "\<And>v. v < TIMER_WHEEL \<Longrightarrow> v \<noteq> w \<Longrightarrow> n \<notin> set (f v)"
  shows "wheels (put_tree w T s) (f(w := inord t))"
proof -
  have keep: "\<exists>u. rep (tree_at v (put_tree w T s)) [] u \<and> rb_inv u \<and> inord u = f v" if v: "v < TIMER_WHEEL" "v \<noteq> w" for v
  proof -
    obtain u where u: "rep (tree_at v s) [] u" "rb_inv u" "inord u = f v" using wheelsE [OF assms(1) v(1)] by blast
    have "nodes T x = rnodes s x" if "x \<in> set (inord u)" for x
      by (rule frame) (use that u(3) free [OF v] wheels_other [OF assms(1) w v(1)] v(2) in auto)
    then have "rep (tree_at v (put_tree w T s)) [] u"
      using v(2) by (intro rep_cong_nodes [OF u(1)]) (auto simp: tree_at_def put_tree_def)
    with u(2,3) show ?thesis by blast
  qed
  have self: "tree_at w (put_tree w T s) = T" by (simp add: tree_at_def put_tree_def)
  have disj: "set (inord t) \<inter> set (f v) = {}" if "v < TIMER_WHEEL" "v \<noteq> w" for v
    using sub free [OF that] wheels_other [OF assms(1) that(1) w that(2)] by blast
  show ?thesis
    unfolding wheels_def
  proof (intro conjI allI impI)
    fix v assume "v < TIMER_WHEEL"
    then show "\<exists>u. rep (tree_at v (put_tree w T s)) [] u \<and> rb_inv u \<and> inord u = (f(w := inord t)) v"
      using keep self new by (cases "v = w") auto
  next
    fix v u assume "v < TIMER_WHEEL" "u < TIMER_WHEEL" "v \<noteq> u"
    then show "set ((f(w := inord t)) v) \<inter> set ((f(w := inord t)) u) = {}"
      using disj [of u] disj [of v] wheels_other [OF assms(1), of v u] by (cases "v = w"; cases "u = w") auto
  qed
qed

text \<open>The sequence with a new entry behind all entries with the same or a smaller time.\<close>

definition enter :: "'z timers_scheme \<Rightarrow> nat \<Rightarrow> nat list \<Rightarrow> nat list" where
  "enter s n xs = filter (\<lambda>x. key s x \<le> key s n) xs @ n # filter (\<lambda>x. key s n < key s x) xs"

lemma set_enter: "set (enter s n xs) = insert n (set xs)"
  by (auto simp: enter_def)

lemma sorted_enter: "sorted (map (key s) xs) \<Longrightarrow> sorted (map (key s) (enter s n xs))"
  by (auto simp: enter_def sorted_append intro: sorted_filter)

lemma length_enter: "length (enter s n xs) = Suc (length xs)"
proof -
  have "length (filter (\<lambda>x. key s x \<le> key s n) xs) + length (filter (\<lambda>x. key s n < key s x) xs) = length xs"
    using sum_length_filter_compl [of "\<lambda>x. key s x \<le> key s n" xs] by (simp add: not_le)
  then show ?thesis by (simp add: enter_def)
qed

lemma timer_add_ok:
  assumes wh: "wheels s f" and w: "w < TIMER_WHEEL" and srt: "sorted (map (key s) (f w))"
    and live: "\<And>x. x \<in> set (f w) \<Longrightarrow> tapps s x \<noteq> None" "tapps s n \<noteq> None"
    and free: "\<And>v. v < TIMER_WHEEL \<Longrightarrow> n \<notin> set (f v)"
  shows "\<exists>T. timer_add n w s = Inr (put_tree w T s) \<and> wheels (put_tree w T s) (f(w := enter s n (f w)))"
proof -
  let ?t = "tree_at w s"
  obtain t where t: "rep ?t [] t" "rb_inv t" "inord t = f w" using wheelsE [OF wh w] by blast
  obtain a where a: "tapps s n = Some a" using live(2) by auto
  obtain ctx where c: "add_loop (tapps s) (a_rt a) ?t (par_of []) (link_of []) (rt_of t) = Some (Inr (par_of ctx, link_of ctx))"
    "plug ctx Lf = plug [] t" "before ctx = filter (\<lambda>x. a_rt (the (tapps s x)) \<le> a_rt a) (f w)"
    "after ctx = filter (\<lambda>x. a_rt a < a_rt (the (tapps s x))) (f w)"
    using add_loop_ok [OF t(1), of "tapps s" "a_rt a"] live(1) srt t(3) by (auto simp: key_fun)
  have t': "plug ctx Lf = t" using c(2) by simp
  obtain T t2 where T: "rb_insert_color n (rb_link_node n (par_of ctx) (link_of ctx) ?t) = Inr T" "rep T [] t2" "rb_inv t2"
    "inord t2 = before ctx @ n # after ctx"
    using rb_insert_at [of ?t ctx n] t t' free [OF w] by auto
  have root: "rt_of t = rb_node ?t" using t(1) by (cases t) (auto simp: rep_def rt_of_def)
  have "timer_add n w s = Inr (put_tree w T s)"
    using a c(1) T(1) unfolding root by (simp add: timer_add_def Let_def returned_def par_of_def link_of_def)
  moreover have io: "inord t2 = enter s n (f w)" using T(4) c(3,4) a by (simp add: enter_def key_def)
  moreover have "wheels (put_tree w T s) (f(w := inord t2))"
  proof (rule wheels_put [OF wh w T(2,3), of n])
    show "nodes T x = rnodes s x" if "x \<notin> insert n (set (f w))" for x
    proof -
      have "set (ctx_nodes ctx) = set (f w)" using set_ctx_nodes [of ctx] t(3) unfolding t' [symmetric]
        by (simp add: inord_plug flip: set_append)
      then show ?thesis
        using rb_insert_frame [OF T(1), of x] t(1) t' rep_focus [of ?t ctx Lf] that by (simp add: tree_at_def)
    qed
    show "set (inord t2) \<subseteq> insert n (set (f w))" using io by (simp add: set_enter)
  qed (use free in blast)
  ultimately show ?thesis by auto
qed

lemma timer_del_ok:
  assumes wh: "wheels s f" and w: "w < TIMER_WHEEL" and n: "n \<in> set (f w)" and live: "tapps s n \<noteq> None"
  shows "\<exists>T. timer_del (Some n) w s = Inr (put_tree w T s) \<and> wheels (put_tree w T s) (f(w := remove1 n (f w)))"
proof -
  let ?t = "tree_at w s"
  obtain t where t: "rep ?t [] t" "rb_inv t" "inord t = f w" using wheelsE [OF wh w] by blast
  then obtain T t2 where T: "rb_erase n ?t = Inr T" "rep T [] t2" "rb_inv t2" "inord t2 = remove1 n (f w)"
    using rb_erase_ok [OF t(1,2), of n] n by auto
  let ?T = "RB_CLEAR_NODE n T"
  have out: "n \<notin> set (inord t2)" using T(4) wheels_distinct [OF wh w] by simp
  have rep: "rep ?T [] t2"
    by (rule rep_cong_nodes [OF T(2)]) (use out in \<open>auto simp: RB_CLEAR_NODE_def rb_set_parent_def\<close>)
  have "wheels (put_tree w ?T s) (f(w := inord t2))"
  proof (rule wheels_put [OF wh w rep T(3), of n])
    show "nodes ?T x = rnodes s x" if "x \<notin> insert n (set (f w))" for x
      using rb_erase_frame [OF T(1) t(1), of x] n t(3) that by (auto simp: RB_CLEAR_NODE_def rb_set_parent_def tree_at_def)
    show "set (inord t2) \<subseteq> insert n (set (f w))" using T(4) set_remove1_subset [of n "f w"] by auto
  qed (use wheels_other [OF wh _ w _ n] in blast)
  moreover have "timer_del (Some n) w s = Inr (put_tree w ?T s)" using live T(1) by (auto simp: timer_del_def)
  ultimately show ?thesis using T(4) by auto
qed

lemma timer_tree_walk_ok:
  assumes wh: "wheels s f" and w: "w < TIMER_WHEEL" and srt: "sorted (map (key s) (f w))"
    and live: "\<And>x. x \<in> set (f w) \<Longrightarrow> tapps s x \<noteq> None"
  shows "\<exists>r. timer_tree_walk w k s = Inr r \<and>
     (case r of None \<Rightarrow> \<forall>x\<in>set (f w). key s x \<noteq> k | Some x \<Rightarrow> x \<in> set (f w) \<and> key s x = k)"
proof -
  obtain t where t: "rep (tree_at w s) [] t" "rb_inv t" "inord t = f w" using wheelsE [OF wh w] by blast
  then have "trep (nodes (tree_at w s)) None t (roots s w)" by (auto simp: rep_def tree_at_def)
  from walk_loop_ok [OF this, of "tapps s" k] show ?thesis
    using live srt t(3) by (auto simp: timer_tree_walk_def returned_def key_fun key_def split: option.splits)
qed

end
