(* ===== verification/TimerWheel.thy ===== *)
theory TimerWheel
  imports TimerTree
begin

unbundle bit_operations_syntax

text \<open>
  The invariant of the timer wheels, and what taking one entry off a wheel does.  An entry on
  wheel \<open>w\<close> with time \<open>rt\<close> and packed rest \<open>ct\<close> stands for the tick
  \<open>rt * unit w + (the digits of ct below w)\<close>, its deadline.
\<close>

section \<open>Deadlines\<close>

definition unit_of :: "bool \<Rightarrow> nat \<Rightarrow> nat" where
  "unit_of sfs w = (if w = 0 then 1 else tps sfs * 60 ^ (w - 1))"

definition lower :: "bool \<Rightarrow> nat \<Rightarrow> u32 \<Rightarrow> nat" where
  "lower sfs w ct = (\<Sum>v<w. unat (fld v ct) * unit_of sfs v)"

abbreviation rest :: "'z timers_scheme \<Rightarrow> nat \<Rightarrow> u32" where
  "rest s a \<equiv> a_ctime (the (tapps s a))"

definition deadline :: "bool \<Rightarrow> 'z timers_scheme \<Rightarrow> nat \<Rightarrow> nat \<Rightarrow> nat" where
  "deadline sfs s w a = unat (key s a) * unit_of sfs w + lower sfs w (rest s a)"

definition pending :: "bool \<Rightarrow> 'z timers_scheme \<Rightarrow> (nat \<Rightarrow> nat list) \<Rightarrow> (nat \<times> nat) set" where
  "pending sfs s f = {(a, d). \<exists>w<TIMER_WHEEL. a \<in> set (f w) \<and> d = deadline sfs s w a}"

lemma unit_pos: "0 < unit_of sfs w"
  using tps_pos [of sfs] by (simp add: unit_of_def)

lemma unit_ne [simp]: "unit_of sfs w \<noteq> 0"
  using unit_pos [of sfs w] by simp

lemma tmr_slot_Some:
  assumes "tmr_slot ct = Some (v, t)"
  shows "v < TIMER_WHEEL" and "t = fld v ct" and "t \<noteq> 0" and "\<And>u. v < u \<Longrightarrow> u < TIMER_WHEEL \<Longrightarrow> fld u ct = 0"
proof -
  have "u = 0 \<or> u = 1 \<or> u = 2 \<or> u = 3" if "u < TIMER_WHEEL" for u using that by (auto simp: TIMER_WHEEL_def)
  with assms show "v < TIMER_WHEEL" "t = fld v ct" "t \<noteq> 0" "\<And>u. v < u \<Longrightarrow> u < TIMER_WHEEL \<Longrightarrow> fld u ct = 0"
    by (auto simp: tmr_slot_def fld_def TIMER_WHEEL_def split: if_split_asm)
qed

lemma tmr_slot_None: "tmr_slot ct = None \<longleftrightarrow> ct = 0"
proof -
  have "(\<forall>w<4. fld w ct = 0) \<longleftrightarrow> fld 0 ct = 0 \<and> fld 1 ct = 0 \<and> fld 2 ct = 0 \<and> fld 3 ct = 0"
    by (auto simp: numeral_eq_Suc less_Suc_eq)
  then show ?thesis using fields_zero [of ct] by (auto simp: tmr_slot_def fld_def)
qed

text \<open>Moving to the wheel of the largest digit left keeps the deadline.\<close>

lemma lower_slot:
  assumes "tmr_slot ct = Some (v, t)" and "v < w" and "w \<le> TIMER_WHEEL"
  shows "lower sfs w ct = unat t * unit_of sfs v + lower sfs v ct"
proof -
  have "(\<Sum>u\<in>{Suc v..<w}. unat (fld u ct) * unit_of sfs u) = 0"
    using tmr_slot_Some(4) [OF assms(1)] assms(3) by (intro sum.neutral) auto
  moreover have "lower sfs w ct = (\<Sum>u<Suc v. unat (fld u ct) * unit_of sfs u) + (\<Sum>u\<in>{Suc v..<w}. unat (fld u ct) * unit_of sfs u)"
    unfolding lower_def using assms(2) by (subst sum.union_disjoint [symmetric]) (auto intro!: sum.cong)
  ultimately show ?thesis using tmr_slot_Some(2) [OF assms(1)] by (simp add: lower_def)
qed

lemma lower_clear: "w < TIMER_WHEEL \<Longrightarrow> lower sfs w (ct AND wheel_mask w) = lower sfs w ct"
  unfolding lower_def by (rule sum.cong) (auto simp: fld_clear TIMER_WHEEL_def)

lemma lower_zero:
  assumes "w < TIMER_WHEEL" and "\<And>v. w < v \<Longrightarrow> v < TIMER_WHEEL \<Longrightarrow> fld v ct = 0"
  shows "ct AND wheel_mask w = 0 \<longleftrightarrow> lower sfs w ct = 0"
proof -
  have "fld v (ct AND wheel_mask w) = 0 \<longleftrightarrow> (v < w \<longrightarrow> fld v ct = 0)" if "v < 4" for v
    using that assms fld_clear [OF that, of w ct] by (cases "v < w"; cases "v = w") (auto simp: TIMER_WHEEL_def)
  then have "ct AND wheel_mask w = 0 \<longleftrightarrow> (\<forall>v<w. fld v ct = 0)"
    using fields_zero [of "ct AND wheel_mask w"] assms(1) by (auto simp: TIMER_WHEEL_def)
  also have "\<dots> \<longleftrightarrow> lower sfs w ct = 0"
    unfolding lower_def by (auto simp: unat_eq_0 sum_eq_0_iff)
  finally show ?thesis .
qed

section \<open>The invariant\<close>

definition entry_ok :: "'z timers_scheme \<Rightarrow> nat \<Rightarrow> nat \<Rightarrow> bool" where
  "entry_ok s w a \<longleftrightarrow> (\<exists>ap i tm. tapps s a = Some ap \<and> a_timer ap = Some i \<and> ttms s i = Some tm \<and>
     t_wheel tm = w \<and> t_app tm = Some a \<and> t_running tm \<and>
     (\<forall>v. w < v \<longrightarrow> v < TIMER_WHEEL \<longrightarrow> fld v (a_ctime ap) = 0))"

definition entries_ok :: "'z timers_scheme \<Rightarrow> (nat \<Rightarrow> nat list) \<Rightarrow> bool" where
  "entries_ok s f \<longleftrightarrow> (\<forall>w<TIMER_WHEEL. sorted (map (key s) (f w)) \<and> (\<forall>a\<in>set (f w). entry_ok s w a))"

definition clock_ok :: "bool \<Rightarrow> (nat \<Rightarrow> u32) \<Rightarrow> nat \<Rightarrow> bool" where
  "clock_ok sfs c n \<longleftrightarrow> n < 2 ^ 32 \<and> (\<forall>w<TIMER_WHEEL. unat (c w) = n div unit_of sfs w)"

definition tmr_inv :: "bool \<Rightarrow> nat \<Rightarrow> 'z timers_scheme \<Rightarrow> (nat \<Rightarrow> nat list) \<Rightarrow> nat list \<Rightarrow> bool" where
  "tmr_inv sfs n s f es \<longleftrightarrow> wheels s f \<and> entries_ok s f \<and> clock_ok sfs (clk s) n \<and>
     (\<Sum>w<TIMER_WHEEL. length (f w)) \<le> unat (tcount s) \<and> dlist (expd s) ExpdHd (map Elist es) \<and>
     (\<forall>w<TIMER_WHEEL. set (f w) \<inter> set es = {})"

lemma tmr_invD:
  assumes "tmr_inv sfs n s f es"
  shows "wheels s f" "entries_ok s f" "clock_ok sfs (clk s) n" "(\<Sum>w<TIMER_WHEEL. length (f w)) \<le> unat (tcount s)"
    "dlist (expd s) ExpdHd (map Elist es)" "w < TIMER_WHEEL \<Longrightarrow> set (f w) \<inter> set es = {}"
  using assms by (auto simp: tmr_inv_def)

lemma entries_okD:
  assumes "entries_ok s f" and "w < TIMER_WHEEL"
  shows "sorted (map (key s) (f w))" and "a \<in> set (f w) \<Longrightarrow> entry_ok s w a" and "a \<in> set (f w) \<Longrightarrow> tapps s a \<noteq> None"
  using assms unfolding entries_ok_def entry_ok_def by (blast, blast, fastforce)

text \<open>Changing one entry and its timer leaves the others alone.\<close>

definition only_entry :: "nat \<Rightarrow> nat \<Rightarrow> 'z timers_scheme \<Rightarrow> 'z timers_scheme \<Rightarrow> bool" where
  "only_entry a i s s' \<longleftrightarrow> (\<forall>x. x \<noteq> a \<longrightarrow> tapps s' x = tapps s x) \<and> (\<forall>j. j \<noteq> i \<longrightarrow> ttms s' j = ttms s j)"

lemma only_entry_keeps:
  assumes "only_entry a i s s'" and "ttms s i = Some tm" "t_app tm = Some a" and "x \<noteq> a"
  shows "entry_ok s w x \<Longrightarrow> entry_ok s' w x" and "key s' x = key s x" and "rest s' x = rest s x"
    and "deadline sfs s' w x = deadline sfs s w x"
proof -
  have same: "tapps s' x = tapps s x" using assms by (simp add: only_entry_def)
  show "key s' x = key s x" "rest s' x = rest s x" "deadline sfs s' w x = deadline sfs s w x"
    using same by (simp_all add: key_def deadline_def)
  assume "entry_ok s w x"
  then obtain ap j tm' where e: "tapps s x = Some ap" "a_timer ap = Some j" "ttms s j = Some tm'" "t_wheel tm' = w"
    "t_app tm' = Some x" "t_running tm'" "\<forall>v. w < v \<longrightarrow> v < TIMER_WHEEL \<longrightarrow> fld v (a_ctime ap) = 0"
    by (auto simp: entry_ok_def)
  then have "j \<noteq> i" using assms(2-4) by auto
  then have "ttms s' j = Some tm'" using assms(1) e(3) by (simp add: only_entry_def)
  with e same show "entry_ok s' w x" by (auto simp: entry_ok_def)
qed

lemma only_entry_sorted:
  assumes "only_entry a i s s'" and "a \<notin> set xs"
  shows "map (key s') xs = map (key s) xs"
  using assms by (auto simp: only_entry_def key_def)

lemma entries_only:
  assumes ent: "entries_ok s f" and only: "only_entry a i s s'" and tm: "ttms s i = Some tm" "t_app tm = Some a"
    and out: "\<And>w. w < TIMER_WHEEL \<Longrightarrow> a \<notin> set (f w)"
  shows "entries_ok s' f"
  unfolding entries_ok_def
proof (intro allI impI conjI ballI)
  fix w x assume w: "w < TIMER_WHEEL"
  show "sorted (map (key s') (f w))"
    unfolding only_entry_sorted [OF only out [OF w]] by (rule entries_okD(1) [OF ent w])
  assume "x \<in> set (f w)"
  then show "entry_ok s' w x" using only_entry_keeps(1) [OF only tm] entries_okD(2) [OF ent w] out [OF w] by metis
qed

lemma put_tree_simps [simp]:
  "tapps (put_tree w T s) = tapps s" "ttms (put_tree w T s) = ttms s" "clk (put_tree w T s) = clk s"
  "tcount (put_tree w T s) = tcount s" "expd (put_tree w T s) = expd s"
  "key (put_tree w T s) = key s" "enter (put_tree w T s) = enter s"
  by (simp_all add: put_tree_def key_fun enter_def fun_eq_iff)

lemma entry_ok_cong: "tapps s' = tapps s \<Longrightarrow> ttms s' = ttms s \<Longrightarrow> entry_ok s' w a = entry_ok s w a"
  by (simp add: entry_ok_def)

section \<open>Placing an entry\<close>

lemma find_place_ok:
  assumes wh: "wheels s f" and ent: "entries_ok s f" and free: "\<And>w. w < TIMER_WHEEL \<Longrightarrow> a \<notin> set (f w)"
    and ap: "tapps s a = Some ap" "a_timer ap = Some i" "ttms s i = Some tm" "t_app tm = Some a"
    and slot: "tmr_slot (a_ctime ap) = Some (v, t)"
  shows "\<exists>s'. find_tmr_slot_and_place a s = Inr s' \<and> only_entry a i s s' \<and>
     tapps s' a = Some (ap\<lparr>a_rt := clk s v + t\<rparr>) \<and> wheels s' (f(v := enter s' a (f v))) \<and>
     entries_ok s' (f(v := enter s' a (f v))) \<and> clk s' = clk s \<and> tcount s' = tcount s \<and> expd s' = expd s"
proof -
  let ?ap = "ap\<lparr>a_rt := clk s v + t\<rparr>" and ?tm = "tm\<lparr>t_wheel := v, t_running := True\<rparr>"
  define s2 where "s2 = s\<lparr>tapps := (tapps s)(a \<mapsto> ?ap), ttms := (ttms s)(i \<mapsto> ?tm)\<rparr>"
  note v = tmr_slot_Some [OF slot]
  have only: "only_entry a i s s2" by (simp add: only_entry_def s2_def)
  have wh2: "wheels s2 f" using wh wheels_cong [of s2 s f] by (simp add: s2_def)
  have srt: "sorted (map (key s2) (f w))" if "w < TIMER_WHEEL" for w
    using entries_okD(1) [OF ent that] only_entry_sorted [OF only free [OF that]] by metis
  have live: "tapps s2 x \<noteq> None" if "x \<in> set (f v)" for x
    using entries_okD(3) [OF ent v(1) that] by (auto simp: s2_def)
  obtain T where T: "timer_add a v s2 = Inr (put_tree v T s2)" "wheels (put_tree v T s2) (f(v := enter s2 a (f v)))"
    using timer_add_ok [OF wh2 v(1) srt [OF v(1)] live _ free] by (auto simp: s2_def)
  let ?s = "put_tree v T s2" and ?f = "f(v := enter s2 a (f v))"
  have "find_tmr_slot_and_place a s = timer_add a v s2"
    using ap slot by (simp add: find_tmr_slot_and_place_def update_wheel_def on_app_def on_timer_def s2_def)
  moreover have "entries_ok ?s ?f"
    unfolding entries_ok_def
  proof (intro allI impI conjI ballI)
    fix w assume w: "w < TIMER_WHEEL"
    show "sorted (map (key ?s) (?f w))" using srt [OF w] sorted_enter by auto
    fix x assume x: "x \<in> set (?f w)"
    have "entry_ok s2 w x"
    proof (cases "x = a")
      case True
      then have "w = v" using x free [OF w] by (cases "w = v") auto
      then show ?thesis using True ap v(4) by (simp add: entry_ok_def s2_def)
    next
      case False
      then have "x \<in> set (f w)" using x by (auto simp: set_enter split: if_splits)
      then show ?thesis using only_entry_keeps(1) [OF only ap(3,4) False] entries_okD(2) [OF ent w] by blast
    qed
    then show "entry_ok ?s w x" using entry_ok_cong [of ?s s2 w x] by simp
  qed
  ultimately show ?thesis using T only by (intro exI [of _ ?s]) (auto simp: s2_def only_entry_def)
qed

text \<open>The entry on wheel \<open>w\<close> is taken off; the others keep their place.\<close>

lemma take_off_ok:
  assumes wh: "wheels s f" and ent: "entries_ok s f" and w: "w < TIMER_WHEEL" and a: "a \<in> set (f w)"
  shows "\<exists>s' ap i tm. andThen (clear_wheel_timer a s) (timer_del (Some a) w) = Inr s' \<and>
     tapps s a = Some ap \<and> a_timer ap = Some i \<and> ttms s i = Some tm \<and> t_app tm = Some a \<and>
     (\<forall>v. w < v \<longrightarrow> v < TIMER_WHEEL \<longrightarrow> fld v (a_ctime ap) = 0) \<and>
     only_entry a i s s' \<and> tapps s' a = Some (ap\<lparr>a_ctime := a_ctime ap AND wheel_mask w\<rparr>) \<and> ttms s' = ttms s \<and>
     wheels s' (f(w := remove1 a (f w))) \<and> entries_ok s' (f(w := remove1 a (f w))) \<and>
     clk s' = clk s \<and> tcount s' = tcount s \<and> expd s' = expd s"
proof -
  obtain ap i tm where e: "tapps s a = Some ap" "a_timer ap = Some i" "ttms s i = Some tm" "t_wheel tm = w"
    "t_app tm = Some a" "\<forall>v. w < v \<longrightarrow> v < TIMER_WHEEL \<longrightarrow> fld v (a_ctime ap) = 0"
    using entries_okD(2) [OF ent w a] by (auto simp: entry_ok_def)
  define s1 where "s1 = s\<lparr>tapps := (tapps s)(a \<mapsto> ap\<lparr>a_ctime := a_ctime ap AND wheel_mask w\<rparr>)\<rparr>"
  have c: "clear_wheel_timer a s = Inr s1" using e w by (simp add: clear_wheel_timer_def on_app_def s1_def)
  have wh1: "wheels s1 f" using wh wheels_cong [of s1 s f] by (simp add: s1_def)
  obtain T where T: "timer_del (Some a) w s1 = Inr (put_tree w T s1)" "wheels (put_tree w T s1) (f(w := remove1 a (f w)))"
    using timer_del_ok [OF wh1 w a] by (auto simp: s1_def)
  let ?s = "put_tree w T s1" and ?f = "f(w := remove1 a (f w))"
  have only: "only_entry a i s ?s" by (simp add: only_entry_def s1_def)
  have keys: "key ?s = key s" by (auto simp: key_fun s1_def e(1))
  have "entries_ok ?s ?f"
    unfolding entries_ok_def keys
  proof (intro allI impI conjI ballI)
    fix v assume v: "v < TIMER_WHEEL"
    show "sorted (map (key s) (?f v))" using entries_okD(1) [OF ent v] by (auto intro: sorted_map_remove1)
    fix x assume x: "x \<in> set (?f v)"
    then have "x \<in> set (f v)" using set_remove1_subset [of a "f w"] by (auto split: if_splits)
    moreover have "x \<noteq> a" using x wheels_distinct [OF wh w] wheels_other [OF wh v w _ a] by (auto split: if_splits)
    ultimately show "entry_ok ?s v x" using only_entry_keeps(1) [OF only e(3,5)] entries_okD(2) [OF ent v] by blast
  qed
  then show ?thesis using c e T only by (intro exI [of _ ?s] exI [of _ ap] exI [of _ i] exI [of _ tm]) (simp add: s1_def)
qed

end
