(* ===== verification/TimerTick.thy ===== *)
theory TimerTick
  imports TimerWheel
begin

unbundle bit_operations_syntax

text \<open>
  A tick of the clock: every wheel whose clock moves gives up the entries whose time has come;
  an entry with time left goes to a smaller wheel and keeps its deadline, the others expire.
\<close>

lemma unit_dvd: "v \<le> w \<Longrightarrow> unit_of sfs v dvd unit_of sfs w"
  by (auto simp: unit_of_def intro!: mult_dvd_mono le_imp_power_dvd)

lemma pending_other:
  assumes "only_entry a i s s'" and "x \<noteq> a" and "\<And>v. v < TIMER_WHEEL \<Longrightarrow> set (f' v) - {a} = set (f v) - {a}"
  shows "(x, d) \<in> pending sfs s' f' \<longleftrightarrow> (x, d) \<in> pending sfs s f"
proof -
  have "x \<in> set (f' v) \<longleftrightarrow> x \<in> set (f v)" if "v < TIMER_WHEEL" for v using assms(3) [OF that] assms(2) by blast
  moreover have "deadline sfs s' v x = deadline sfs s v x" for v
    using assms(1,2) by (simp add: deadline_def key_def only_entry_def)
  ultimately show ?thesis by (auto simp: pending_def)
qed

lemma pending_at:
  assumes "wheels s f" and "w < TIMER_WHEEL" and "a \<in> set (f w)"
  shows "(a, d) \<in> pending sfs s f \<longleftrightarrow> d = deadline sfs s w a"
proof -
  have "v = w" if "v < TIMER_WHEEL" "a \<in> set (f v)" for v
    using wheels_other [OF assms(1) that(1) assms(2) _ assms(3)] that(2) by (cases "v = w") auto
  then show ?thesis using assms(2,3) unfolding pending_def by blast
qed

lemma pending_minus:
  assumes "\<And>x d. x \<noteq> a \<Longrightarrow> (x, d) \<in> P' \<longleftrightarrow> (x, d) \<in> P" and "\<And>d. (a, d) \<notin> P'"
  shows "P' = {(x, d) \<in> P. x \<notin> {a}}"
proof (rule set_eqI)
  fix z show "z \<in> P' \<longleftrightarrow> z \<in> {(x, d) \<in> P. x \<notin> {a}}"
    using assms by (cases z; cases "fst z = a") auto
qed

text \<open>Taking one entry off a wheel.\<close>

lemma removed_sub: "set ((f(w := remove1 a (f w))) v) \<subseteq> set (f v)"
  using set_remove1_subset [of a "f w"] by simp

lemma removed_out:
  assumes "wheels s f" and "w < TIMER_WHEEL" and "a \<in> set (f w)" and "v < TIMER_WHEEL"
  shows "a \<notin> set ((f(w := remove1 a (f w))) v)"
  using wheels_distinct [OF assms(1,2)] wheels_other [OF assms(1,4,2) _ assms(3)] by auto

lemma pending_removed:
  assumes "only_entry a i s s'" and "wheels s f" and "w < TIMER_WHEEL" and "a \<in> set (f w)"
  shows "pending sfs s' (f(w := remove1 a (f w))) = {(x, d) \<in> pending sfs s f. x \<notin> {a}}"
proof (rule pending_minus)
  let ?f = "f(w := remove1 a (f w))"
  show "(x, d) \<in> pending sfs s' ?f \<longleftrightarrow> (x, d) \<in> pending sfs s f" if "x \<noteq> a" for x d
    by (rule pending_other [OF assms(1) that]) (use set_remove1_eq [OF wheels_distinct [OF assms(2,3)]] in auto)
  show "(a, d) \<notin> pending sfs s' ?f" for d using removed_out [OF assms(2-4)] unfolding pending_def by blast
qed

lemma count_remove:
  fixes f :: "nat \<Rightarrow> nat list" and c :: u32
  assumes "w < m" and "a \<in> set (f w)" and "(\<Sum>v<m. length (f v)) \<le> unat c"
  shows "(\<Sum>v<m. length ((f(w := remove1 a (f w))) v)) \<le> unat (c - 1)"
proof -
  have len: "(\<Sum>v<m. length ((f(w := remove1 a (f w))) v)) + 1 = (\<Sum>v<m. length (f v))"
    using sum_lengths_upd [OF assms(1), of f "remove1 a (f w)"] assms(2) length_pos_if_in_set [OF assms(2)]
    by (simp add: length_remove1 del: fun_upd_apply length_greater_0_conv)
  then have "unat (c - 1) = unat c - 1" using assms(3) by (subst unat_minus_one) (auto simp: unat_eq_0 [symmetric])
  then show ?thesis using len assms(3) by simp
qed

section \<open>One entry whose time has come\<close>

text \<open>What one turn of the loop keeps and changes; \<open>new\<close> is the entry when it has expired.\<close>

definition turned ::
    "bool \<Rightarrow> nat \<Rightarrow> nat \<Rightarrow> nat \<Rightarrow> 'z timers_scheme \<Rightarrow> (nat \<Rightarrow> nat list) \<Rightarrow> 'z timers_scheme \<Rightarrow> (nat \<Rightarrow> nat list) \<Rightarrow> nat list \<Rightarrow> bool" where
  "turned sfs n w a s f s' f' new \<longleftrightarrow>
     f' w = remove1 a (f w) \<and> (\<forall>v. w < v \<longrightarrow> f' v = f v) \<and> (\<forall>x. x \<noteq> a \<longrightarrow> tapps s' x = tapps s x) \<and>
     (\<forall>v<w. set (f' v) \<subseteq> insert a (set (f v))) \<and> (\<forall>v<w. a \<in> set (f' v) \<longrightarrow> clk s v < key s' a) \<and>
     clk s' = clk s \<and> set new = {x. (x, n) \<in> pending sfs s f \<and> x = a} \<and> length new \<le> 1 \<and>
     pending sfs s' f' = {(x, d) \<in> pending sfs s f. x \<notin> set new}"

lemma expire_entry:
  assumes inv: "tmr_inv sfs n s f es" and w: "w < TIMER_WHEEL" and a: "a \<in> set (f w)"
    and only: "only_entry a i s s1" and s1: "tapps s1 a = Some ap" "a_timer ap = Some i" "a_ctime ap = 0" "ttms s1 i = Some tm" "t_app tm = Some a"
    and rest1: "wheels s1 (f(w := remove1 a (f w)))" "entries_ok s1 (f(w := remove1 a (f w)))"
      "clk s1 = clk s" "tcount s1 = tcount s" "expd s1 = expd s"
    and due: "(a, n) \<in> pending sfs s f"
  shows "\<exists>s' f' new. timer_expiry_action a s1 = Inr s' \<and> tmr_inv sfs n s' f' (es @ new) \<and> turned sfs n w a s f s' f' new"
proof -
  let ?f = "f(w := remove1 a (f w))"
  define s' where "s' = s1\<lparr>tcount := tcount s1 - 1, ttms := (ttms s1)(i \<mapsto> tm\<lparr>t_running := False\<rparr>),
     expd := list_add_tail (Elist a) ExpdHd (expd s1)\<rparr>"
  note D = tmr_invD [OF inv]
  note a_out = removed_out [OF D(1) w a]
  have only': "only_entry a i s1 s'" by (simp add: only_entry_def s'_def)
  have only2: "only_entry a i s s'" using only by (simp add: only_entry_def s'_def)
  have eq: "timer_expiry_action a s1 = Inr s'" using s1 by (simp add: timer_expiry_action_def on_timer_def s'_def)
  have "entries_ok s' ?f" by (rule entries_only [OF rest1(2) only' s1(4,5) a_out])
  moreover have "wheels s' ?f" using rest1(1) wheels_cong [of s' s1 ?f] by (simp add: s'_def)
  moreover have "dlist (expd s') ExpdHd (map Elist (es @ [a]))"
    using list_add_tail_dlist [OF D(5), of "Elist a"] D(6) [OF w] a rest1(5) by (auto simp: s'_def)
  ultimately have "tmr_inv sfs n s' ?f (es @ [a])"
    using D(3,6) count_remove [OF w a D(4)] rest1(3,4) a_out removed_sub [of f w a] by (fastforce simp: tmr_inv_def s'_def)
  moreover have "turned sfs n w a s f s' ?f [a]"
  proof -
    have "pending sfs s' ?f = {(x, d) \<in> pending sfs s f. x \<notin> {a}}" by (rule pending_removed [OF only2 D(1) w a])
    moreover have "a \<notin> set (f v)" if "v < w" for v using a_out [of v] that w by simp
    ultimately show ?thesis using due rest1(3) only2 by (auto simp: turned_def only_entry_def s'_def)
  qed
  ultimately show ?thesis using eq by blast
qed


text \<open>The arithmetic of a move: at a boundary of wheel \<open>w\<close> all smaller clocks are at a boundary too.\<close>

lemma moved_time:
  assumes clock: "clock_ok sfs c n" and now: "m * unit_of sfs w = n" and bound: "n + 1024 < 2 ^ 32"
    and slot: "tmr_slot ct = Some (v, t)" and vw: "v < w" "w \<le> TIMER_WHEEL"
  shows "unat (c v + t) * unit_of sfs v + lower sfs v ct = n + lower sfs w ct"
    and "c v < c v + t" and "lower sfs w ct \<noteq> 0"
proof -
  note slt = tmr_slot_Some [OF slot]
  have "unit_of sfs v dvd n" using unit_dvd [of v w sfs] vw(1) now by (metis dvd_mult dvd_trans less_imp_le)
  then have cv: "unat (c v) * unit_of sfs v = n" using clock slt(1) by (simp add: clock_ok_def)
  then have "unat (c v) \<le> n" using unit_pos [of sfs v] by (auto dest: sym)
  moreover have "unat t < 1024" using slt(2) by (auto simp: fld_def unat_GET)
  ultimately have sum: "unat (c v + t) = unat (c v) + unat t" using bound by (simp add: unat_word_ariths)
  note low = lower_slot [OF slot vw, of sfs]
  show "unat (c v + t) * unit_of sfs v + lower sfs v ct = n + lower sfs w ct" using sum cv low by (simp add: algebra_simps)
  show "c v < c v + t" using sum slt(3) by (simp add: word_less_nat_alt unat_gt_0)
  show "lower sfs w ct \<noteq> 0" using low slt(3) by (simp add: unat_eq_0)
qed

lemma move_entry:
  assumes inv: "tmr_inv sfs n s f es" and w: "w < TIMER_WHEEL" and a: "a \<in> set (f w)"
    and now: "unat (key s a) * unit_of sfs w = n" and bound: "n + 1024 < 2 ^ 32"
    and only: "only_entry a i s s1" and s1: "tapps s1 a = Some ap" "a_timer ap = Some i" "ttms s1 i = Some tm" "t_app tm = Some a"
    and slot: "tmr_slot (a_ctime ap) = Some (v, t)" "v < w" "lower sfs w (a_ctime ap) = lower sfs w (rest s a)"
    and rest1: "wheels s1 (f(w := remove1 a (f w)))" "entries_ok s1 (f(w := remove1 a (f w)))"
      "clk s1 = clk s" "tcount s1 = tcount s" "expd s1 = expd s"
  shows "\<exists>s' f' new. find_tmr_slot_and_place a s1 = Inr s' \<and> tmr_inv sfs n s' f' (es @ new) \<and> turned sfs n w a s f s' f' new"
proof -
  let ?g = "f(w := remove1 a (f w))"
  note D = tmr_invD [OF inv] and slt = tmr_slot_Some [OF slot(1)]
  note free = removed_out [OF D(1) w a]
  obtain s' where s': "find_tmr_slot_and_place a s1 = Inr s'" "only_entry a i s1 s'" "tapps s' a = Some (ap\<lparr>a_rt := clk s1 v + t\<rparr>)"
    "wheels s' (?g(v := enter s' a (?g v)))" "entries_ok s' (?g(v := enter s' a (?g v)))" "clk s' = clk s1" "tcount s' = tcount s1" "expd s' = expd s1"
    using find_place_ok [OF rest1(1,2) free s1 slot(1)] by blast
  let ?f = "?g(v := enter s' a (?g v))"
  have only2: "only_entry a i s s'" using only s'(2) by (auto simp: only_entry_def)
  note time = moved_time [OF D(3) now bound slot(1,2) less_imp_le [OF w]]
  have key: "key s' a = clk s v + t" using s'(3) rest1(3) by (simp add: key_def)
  have dl: "deadline sfs s' v a = deadline sfs s w a" and later: "deadline sfs s w a \<noteq> n"
    using time(1,3) now slot(3) s'(3) key by (simp_all add: deadline_def)
  have av: "a \<in> set (?f v)" by (simp add: set_enter)
  have p: "(x, d) \<in> pending sfs s' ?f \<longleftrightarrow> (x, d) \<in> pending sfs s f" for x d
  proof (cases "x = a")
    case True
    show ?thesis unfolding True pending_at [OF s'(4) slt(1) av] pending_at [OF D(1) w a] dl ..
  next
    case False
    show ?thesis
      by (rule pending_other [OF only2 False]) (use set_remove1_eq [OF wheels_distinct [OF D(1) w]] in \<open>auto simp: set_enter\<close>)
  qed
  have len: "(\<Sum>u<TIMER_WHEEL. length (?f u)) = (\<Sum>u<TIMER_WHEEL. length (f u))"
    using sum_lengths_upd [OF w, of f "remove1 a (f w)"] sum_lengths_upd [OF slt(1), of ?g "enter s' a (?g v)"] a
      length_pos_if_in_set [OF a]
    by (simp add: length_remove1 length_enter del: fun_upd_apply length_greater_0_conv)
  have "tmr_inv sfs n s' ?f (es @ [])"
    unfolding tmr_inv_def
  proof (intro conjI allI impI)
    fix u assume u: "u < TIMER_WHEEL"
    show "set (?f u) \<inter> set (es @ []) = {}"
      using D(6) [OF u] D(6) [OF w] a D(6) [OF slt(1)] set_remove1_subset [of a "f w"] slot(2) by (auto simp: set_enter)
  qed (use s' D(3-5) rest1 len in simp_all)
  moreover have "a \<notin> set (f u)" if "u < w" for u using free [of u] that w by simp
  then have "turned sfs n w a s f s' ?f []"
    using slot(2) only2 s'(6) rest1(3) key later time(2) pending_at [OF D(1) w a] p
    by (auto simp: turned_def only_entry_def set_enter)
  ultimately show ?thesis using s'(1) by blast
qed


lemma process_one_ok:
  assumes inv: "tmr_inv sfs n s f es" and w: "w < TIMER_WHEEL" and a: "a \<in> set (f w)"
    and now: "unat (key s a) * unit_of sfs w = n" and bound: "n + 1024 < 2 ^ 32"
  shows "\<exists>s' f' new. process_one w a s = Inr s' \<and> tmr_inv sfs n s' f' (es @ new) \<and> turned sfs n w a s f s' f' new"
proof -
  obtain s1 ap i tm where t: "andThen (clear_wheel_timer a s) (timer_del (Some a) w) = Inr s1" and
    e: "tapps s a = Some ap" "a_timer ap = Some i" "ttms s i = Some tm" "t_app tm = Some a"
      "\<forall>v. w < v \<longrightarrow> v < TIMER_WHEEL \<longrightarrow> fld v (a_ctime ap) = 0" and
    only: "only_entry a i s s1" and ap1: "tapps s1 a = Some (ap\<lparr>a_ctime := a_ctime ap AND wheel_mask w\<rparr>)" and tm1: "ttms s1 = ttms s" and
    r: "wheels s1 (f(w := remove1 a (f w)))" "entries_ok s1 (f(w := remove1 a (f w)))" "clk s1 = clk s" "tcount s1 = tcount s" "expd s1 = expd s"
    using take_off_ok [OF tmr_invD(1,2) [OF inv] w a] by blast
  let ?ap = "ap\<lparr>a_ctime := a_ctime ap AND wheel_mask w\<rparr>"
  have tm: "ttms s1 i = Some tm" using e(3) tm1 by simp
  have one: "process_one w a s = timer_expiry_action a s1" using t by (simp add: process_one_def flip: andThen_assoc)
  have z: "a_ctime ?ap = 0 \<longleftrightarrow> lower sfs w (a_ctime ap) = 0" using lower_zero [OF w, of "a_ctime ap"] e(5) by simp
  show ?thesis
  proof (cases "a_ctime ?ap = 0")
    case True
    have "(a, n) \<in> pending sfs s f"
      unfolding pending_at [OF tmr_invD(1) [OF inv] w a] using z True e(1) now by (simp add: deadline_def)
    then show ?thesis
      unfolding one using expire_entry [OF inv w a only ap1 _ True tm e(4) r] e(2) by simp
  next
    case False
    then obtain v t where vt: "tmr_slot (a_ctime ?ap) = Some (v, t)"
      using tmr_slot_None [of "a_ctime ?ap"] by (cases "tmr_slot (a_ctime ?ap)") auto
    have "v < w"
    proof (rule ccontr)
      assume "\<not> v < w"
      then have "fld v (a_ctime ?ap) = 0"
        using fld_clear [of v w "a_ctime ap"] tmr_slot_Some(1) [OF vt] w e(5) by (cases "v = w") (auto simp: TIMER_WHEEL_def)
      then show False using tmr_slot_Some(2,3) [OF vt] by simp
    qed
    then have "\<exists>s' f' new. find_tmr_slot_and_place a s1 = Inr s' \<and> tmr_inv sfs n s' f' (es @ new) \<and> turned sfs n w a s f s' f' new"
      using move_entry [OF inv w a now bound only ap1 _ tm e(4) vt _ _ r] e(1,2) lower_clear [OF w, of sfs "a_ctime ap"] by simp
    moreover have "timer_expiry_action a s1 = find_tmr_slot_and_place a s1" using ap1 False by (simp add: timer_expiry_action_def)
    ultimately show ?thesis unfolding one by simp
  qed
qed

section \<open>One wheel\<close>

definition ahead :: "'z timers_scheme \<Rightarrow> (nat \<Rightarrow> nat list) \<Rightarrow> nat \<Rightarrow> bool" where
  "ahead s f v \<longleftrightarrow> (\<forall>x\<in>set (f v). clk s v < key s x)"

text \<open>What processing wheel \<open>w\<close> achieves: \<open>new\<close> are the entries of the wheel that are due now.\<close>

definition wheel_done ::
    "bool \<Rightarrow> nat \<Rightarrow> nat \<Rightarrow> 'z timers_scheme \<Rightarrow> (nat \<Rightarrow> nat list) \<Rightarrow> 'z timers_scheme \<Rightarrow> (nat \<Rightarrow> nat list) \<Rightarrow> nat list \<Rightarrow> bool" where
  "wheel_done sfs n w s f s' f' new \<longleftrightarrow>
     clk s' = clk s \<and> (\<forall>v. w < v \<longrightarrow> v < TIMER_WHEEL \<longrightarrow> f' v = f v \<and> (\<forall>x\<in>set (f v). key s' x = key s x)) \<and>
     ahead s' f' w \<and> (\<forall>v<w. ahead s f v \<longrightarrow> ahead s' f' v) \<and>
     set new = {x\<in>set (f w). (x, n) \<in> pending sfs s f} \<and>
     pending sfs s' f' = {(x, d) \<in> pending sfs s f. x \<notin> set new}"

lemma wheel_done_turn:
  assumes wh: "wheels s f" and w: "w < TIMER_WHEEL" and a: "a \<in> set (f w)"
    and one: "turned sfs n w a s f s1 f1 new1" and rest: "wheel_done sfs n w s1 f1 s' f' new2"
  shows "wheel_done sfs n w s f s' f' (new1 @ new2)"
proof -
  have t: "f1 w = remove1 a (f w)" "\<And>v. w < v \<Longrightarrow> f1 v = f v" "\<And>x. x \<noteq> a \<Longrightarrow> key s1 x = key s x"
    "\<And>v. v < w \<Longrightarrow> set (f1 v) \<subseteq> insert a (set (f v))" "\<And>v. v < w \<Longrightarrow> a \<in> set (f1 v) \<Longrightarrow> clk s v < key s1 a"
    "clk s1 = clk s" "set new1 = {x. (x, n) \<in> pending sfs s f \<and> x = a}"
    "pending sfs s1 f1 = {(x, d) \<in> pending sfs s f. x \<notin> set new1}"
    using one by (auto simp: turned_def key_def)
  have d: "clk s' = clk s1" "\<And>v. w < v \<Longrightarrow> v < TIMER_WHEEL \<Longrightarrow> f' v = f1 v \<and> (\<forall>x\<in>set (f1 v). key s' x = key s1 x)"
    "ahead s' f' w" "\<And>v. v < w \<Longrightarrow> ahead s1 f1 v \<Longrightarrow> ahead s' f' v"
    "set new2 = {x\<in>set (f1 w). (x, n) \<in> pending sfs s1 f1}"
    "pending sfs s' f' = {(x, d) \<in> pending sfs s1 f1. x \<notin> set new2}"
    using rest by (auto simp: wheel_done_def)
  have sw: "set (f1 w) = set (f w) - {a}" using t(1) wheels_distinct [OF wh w] by simp
  have new: "set (new1 @ new2) = {x\<in>set (f w). (x, n) \<in> pending sfs s f}"
    unfolding set_append d(5) t(7,8) sw using a by blast
  have p: "pending sfs s' f' = {(x, d) \<in> pending sfs s f. x \<notin> set (new1 @ new2)}"
    unfolding d(6) t(8) by auto
  have up: "f' v = f v \<and> (\<forall>x\<in>set (f v). key s' x = key s x)" if v: "w < v" "v < TIMER_WHEEL" for v
  proof -
    have "a \<notin> set (f v)" using wheels_other [OF wh v(2) w _ a] v(1) by blast
    then show ?thesis using d(2) [OF v] t(2) [OF v(1)] t(3) by metis
  qed
  have down: "ahead s' f' v" if "v < w" "ahead s f v" for v
  proof (rule d(4) [OF that(1)])
    show "ahead s1 f1 v"
      unfolding ahead_def t(6)
    proof
      fix x assume x: "x \<in> set (f1 v)"
      show "clk s v < key s1 x"
        using t(5) [OF that(1)] t(4) [OF that(1)] t(3) [of x] that(2) x by (cases "x = a") (auto simp: ahead_def)
    qed
  qed
  show ?thesis unfolding wheel_done_def using new p up down d(1,3) t(6) by simp
qed

lemma process_loop_ok:
  assumes "tmr_inv sfs n s f es" and w: "w < TIMER_WHEEL" and "unat (clk s w) * unit_of sfs w = n" and bound: "n + 1024 < 2 ^ 32"
    and "\<And>x. x \<in> set (f w) \<Longrightarrow> clk s w \<le> key s x"
  shows "\<exists>k' s' f' new. process_loop w (clk s w) k s = Some (Inr (k', s')) \<and> tmr_inv sfs n s' f' (es @ new) \<and>
     k + int (length new) \<le> k' \<and> wheel_done sfs n w s f s' f' new"
  using assms(1,3,5)
proof (induction "length (f w)" arbitrary: s f es k rule: less_induct)
  case less
  note inv = less.prems(1) and now = less.prems(2) and le = less.prems(3)
  note D = tmr_invD [OF inv]
  obtain r where r: "timer_tree_walk w (clk s w) s = Inr r"
    "case r of None \<Rightarrow> \<forall>x\<in>set (f w). key s x \<noteq> clk s w | Some x \<Rightarrow> x \<in> set (f w) \<and> key s x = clk s w"
    using timer_tree_walk_ok [OF D(1) w entries_okD(1) [OF D(2) w], of "clk s w"] entries_okD(3) [OF D(2) w] by blast
  show ?case
  proof (cases r)
    case None
    then have lt: "clk s w < key s x" if "x \<in> set (f w)" for x using that r(2) le [OF that] by (auto simp: order.order_iff_strict)
    have "(x, n) \<notin> pending sfs s f" if x: "x \<in> set (f w)" for x
    proof -
      have "n < unat (key s x) * unit_of sfs w" using lt [OF x] now unit_pos [of sfs w] by (auto simp: word_less_nat_alt)
      then show ?thesis unfolding pending_at [OF D(1) w x] by (simp add: deadline_def)
    qed
    then have "wheel_done sfs n w s f s f []" using lt by (auto simp: wheel_done_def ahead_def)
    moreover have "process_loop w (clk s w) k s = Some (Inr (k, s))" using r None by (subst process_loop.simps) simp
    ultimately show ?thesis using inv by (intro exI [of _ k] exI [of _ s] exI [of _ f] exI [of _ "[]"]) simp
  next
    case (Some a)
    then have a: "a \<in> set (f w)" "key s a = clk s w" using r(2) by auto
    obtain s1 f1 new1 where one: "process_one w a s = Inr s1" "tmr_inv sfs n s1 f1 (es @ new1)" "turned sfs n w a s f s1 f1 new1"
      using process_one_ok [OF inv w a(1) _ bound] a(2) now by auto
    have f1: "f1 w = remove1 a (f w)" "clk s1 = clk s" "\<And>x. x \<noteq> a \<Longrightarrow> key s1 x = key s x" "set new1 \<subseteq> {a}"
      using one(3) by (auto simp: turned_def key_def)
    have lt: "length (f1 w) < length (f w)" using f1(1) a(1) length_pos_if_in_set [OF a(1)] by (simp add: length_remove1)
    have le1: "clk s1 w \<le> key s1 x" if "x \<in> set (f1 w)" for x
      using that f1 le [of x] wheels_distinct [OF D(1) w] by auto
    obtain k' s' f' new2 where two: "process_loop w (clk s1 w) (k + 1) s1 = Some (Inr (k', s'))"
      "tmr_inv sfs n s' f' ((es @ new1) @ new2)" "k + 1 + int (length new2) \<le> k'" "wheel_done sfs n w s1 f1 s' f' new2"
      using less.hyps [OF lt one(2) _ le1, of "k + 1"] now f1(2) by auto
    have "process_loop w (clk s w) k s = Some (Inr (k', s'))"
      using r(1) Some one(1) two(1) f1(2) by (subst process_loop.simps) simp
    moreover have "length new1 \<le> 1" using one(3) by (simp add: turned_def)
    ultimately show ?thesis
      using wheel_done_turn [OF D(1) w a(1) one(3) two(4)] two(2,3)
      by (intro exI [of _ k'] exI [of _ s'] exI [of _ f'] exI [of _ "new1 @ new2"]) simp
  qed
qed

section \<open>All wheels\<close>

text \<open>The wheels below \<open>w\<close> have been processed.\<close>

definition stage ::
    "bool \<Rightarrow> nat \<Rightarrow> nat \<Rightarrow> 'z timers_scheme \<Rightarrow> (nat \<Rightarrow> nat list) \<Rightarrow> 'z timers_scheme \<Rightarrow> (nat \<Rightarrow> nat list) \<Rightarrow> nat list \<Rightarrow> bool" where
  "stage sfs m w s f s' f' new \<longleftrightarrow>
     clk s' = clk s \<and> (\<forall>v. w \<le> v \<longrightarrow> v < TIMER_WHEEL \<longrightarrow> f' v = f v \<and> (\<forall>x\<in>set (f v). key s' x = key s x)) \<and>
     (\<forall>v<w. ahead s' f' v) \<and> set new = {x. (x, m) \<in> pending sfs s f \<and> (\<exists>v<w. x \<in> set (f v))} \<and>
     pending sfs s' f' = {(x, d) \<in> pending sfs s f. x \<notin> set new}"

lemma stage_0: "stage sfs m 0 s f s f []"
  by (auto simp: stage_def)

lemma stage_Suc:
  assumes wh: "wheels s f" and w: "w < TIMER_WHEEL" and st: "stage sfs m w s f s1 f1 new1"
    and dn: "wheel_done sfs m w s1 f1 s2 f2 new2"
  shows "stage sfs m (Suc w) s f s2 f2 (new1 @ new2)"
proof -
  have a: "clk s1 = clk s" "\<And>v. w \<le> v \<Longrightarrow> v < TIMER_WHEEL \<Longrightarrow> f1 v = f v \<and> (\<forall>x\<in>set (f v). key s1 x = key s x)"
    "\<And>v. v < w \<Longrightarrow> ahead s1 f1 v" "set new1 = {x. (x, m) \<in> pending sfs s f \<and> (\<exists>v<w. x \<in> set (f v))}"
    "pending sfs s1 f1 = {(x, d) \<in> pending sfs s f. x \<notin> set new1}"
    using st by (auto simp: stage_def)
  have b: "clk s2 = clk s1" "\<And>v. w < v \<Longrightarrow> v < TIMER_WHEEL \<Longrightarrow> f2 v = f1 v \<and> (\<forall>x\<in>set (f1 v). key s2 x = key s1 x)"
    "ahead s2 f2 w" "\<And>v. v < w \<Longrightarrow> ahead s1 f1 v \<Longrightarrow> ahead s2 f2 v"
    "set new2 = {x\<in>set (f1 w). (x, m) \<in> pending sfs s1 f1}"
    "pending sfs s2 f2 = {(x, d) \<in> pending sfs s1 f1. x \<notin> set new2}"
    using dn by (auto simp: wheel_done_def)
  have fw: "f1 w = f w" using a(2) w by simp
  have disj: "x \<notin> set (f v)" if "x \<in> set (f w)" "v < w" for x v
    using wheels_other [OF wh _ w _ that(1), of v] that(2) w by simp
  have new: "set (new1 @ new2) = {x. (x, m) \<in> pending sfs s f \<and> (\<exists>v<Suc w. x \<in> set (f v))}"
    unfolding set_append b(5) a(4,5) fw using disj by (auto simp: less_Suc_eq)
  have p: "pending sfs s2 f2 = {(x, d) \<in> pending sfs s f. x \<notin> set (new1 @ new2)}" unfolding b(6) a(5) by auto
  have up: "f2 v = f v \<and> (\<forall>x\<in>set (f v). key s2 x = key s x)" if "Suc w \<le> v" "v < TIMER_WHEEL" for v
    using b(2) [of v] a(2) [of v] that by auto
  have "ahead s2 f2 v" if "v < Suc w" for v using that b(3,4) a(3) by (cases "v = w") auto
  then show ?thesis unfolding stage_def using new p up a(1) b(1) by simp
qed

text \<open>Entries that are ahead of their clock are not due yet.\<close>

lemma ahead_not_due:
  assumes "wheels s f" and "clock_ok sfs (clk s) m" and "v < TIMER_WHEEL" and "ahead s f v" and x: "x \<in> set (f v)"
    and "(x, d) \<in> pending sfs s f"
  shows "m < d"
proof -
  have "m div unit_of sfs v < unat (key s x)" using assms by (auto simp: ahead_def clock_ok_def word_less_nat_alt)
  then have "m < unat (key s x) * unit_of sfs v" using unit_pos [of sfs v] by (simp add: div_less_iff_less_mult)
  then show ?thesis using assms(6) unfolding pending_at [OF assms(1,3) x] by (simp add: deadline_def)
qed

lemma stage_last:
  assumes wh: "wheels s f" and cl: "clock_ok sfs (clk s) m" and st: "stage sfs m w s f s' f' new"
    and up: "\<And>v. w \<le> v \<Longrightarrow> v < TIMER_WHEEL \<Longrightarrow> ahead s f v"
  shows "(\<forall>v<TIMER_WHEEL. ahead s' f' v) \<and> set new = {x. (x, m) \<in> pending sfs s f}"
proof
  show "\<forall>v<TIMER_WHEEL. ahead s' f' v"
  proof (intro allI impI)
    fix v assume v: "v < TIMER_WHEEL"
    show "ahead s' f' v"
    proof (cases "v < w")
      case False
      then have "w \<le> v" by simp
      then have "f' v = f v \<and> (\<forall>x\<in>set (f v). key s' x = key s x)" "clk s' = clk s" using st v unfolding stage_def by blast+
      then show ?thesis using up [of v] False v by (auto simp: ahead_def)
    qed (use st in \<open>simp add: stage_def\<close>)
  qed
  have "\<exists>v<w. x \<in> set (f v)" if due: "(x, m) \<in> pending sfs s f" for x
  proof -
    obtain v where v: "v < TIMER_WHEEL" "x \<in> set (f v)" using due by (auto simp: pending_def)
    then show ?thesis using ahead_not_due [OF wh cl v(1) up v(2) due] by (cases "v < w") auto
  qed
  then show "set new = {x. (x, m) \<in> pending sfs s f}" using st by (auto simp: stage_def)
qed

lemma stage_process:
  assumes wh: "wheels s f" and st: "stage sfs m w s f s1 f1 new1" and inv: "tmr_inv sfs m s1 f1 (es @ new1)"
    and w: "w < TIMER_WHEEL" and bnd: "unit_of sfs w dvd m" and bound: "m + 1024 < 2 ^ 32"
    and le: "\<And>x. x \<in> set (f w) \<Longrightarrow> clk s w \<le> key s x"
  shows "\<exists>k s2 f2 new2. process_timers w (clk s1 w) s1 = Inr (k, s2) \<and> tmr_inv sfs m s2 f2 (es @ new2) \<and>
     int (length new2) \<le> k + int (length new1) \<and> stage sfs m (Suc w) s f s2 f2 new2 \<and> clk s2 = clk s"
proof -
  have now: "unat (clk s1 w) * unit_of sfs w = m" using tmr_invD(3) [OF inv] w bnd by (simp add: clock_ok_def)
  have le1: "clk s1 w \<le> key s1 x" if "x \<in> set (f1 w)" for x using st w that le by (auto simp: stage_def)
  obtain k s2 f2 new2 where d: "process_loop w (clk s1 w) 0 s1 = Some (Inr (k, s2))" "tmr_inv sfs m s2 f2 ((es @ new1) @ new2)"
    "0 + int (length new2) \<le> k" "wheel_done sfs m w s1 f1 s2 f2 new2"
    using process_loop_ok [OF inv w now bound le1, of 0] by blast
  have "stage sfs m (Suc w) s f s2 f2 (new1 @ new2)" by (rule stage_Suc [OF wh w st d(4)])
  moreover from this have "clk s2 = clk s" by (simp add: stage_def)
  ultimately show ?thesis
    using d(1-3) by (intro exI [of _ k] exI [of _ s2] exI [of _ f2] exI [of _ "new1 @ new2"]) (simp add: process_timers_def returned_def)
qed

section \<open>The clock\<close>

lemma unit_simps:
  "unit_of sfs 0 = 1" "unit_of sfs (Suc 0) = tps sfs" "unit_of sfs 2 = tps sfs * 60" "unit_of sfs 3 = tps sfs * 60 * 60"
  by (simp_all add: unit_of_def)

lemma clock_cases:
  "clock_ok sfs c m \<longleftrightarrow> m < 2 ^ 32 \<and> unat (c 0) = m \<and> unat (c 1) = m div tps sfs \<and>
     unat (c 2) = m div tps sfs div 60 \<and> unat (c 3) = m div tps sfs div 60 div 60"
proof -
  have "(\<forall>w<TIMER_WHEEL. P w) \<longleftrightarrow> P 0 \<and> P 1 \<and> P 2 \<and> P 3" for P :: "nat \<Rightarrow> bool"
    by (auto simp: TIMER_WHEEL_def numeral_eq_Suc less_Suc_eq)
  then show ?thesis
    unfolding clock_ok_def unit_simps by (simp only: div_mult2_eq div_by_Suc_0 One_nat_def unit_simps)
qed

text \<open>The tests of the code are the boundaries of the units.\<close>

lemma mod_word_zero: "x mod y = (0 :: u32) \<longleftrightarrow> unat y dvd unat x"
  by (simp add: word_eq_iff_unsigned [where ?'a = nat] unat_mod dvd_eq_mod_eq_0)

lemma dvd_step:
  fixes m :: nat
  assumes "u dvd m" and "0 < u" shows "u * 60 dvd m \<longleftrightarrow> 60 dvd m div u"
  using assms by (metis dvd_div_iff_mult dvd_mult_div_cancel mult.commute mult_dvd_mono nat_mult_dvd_cancel_disj not_gr_zero)

lemma nxt_happend:
  assumes cl: "clock_ok sfs (clk s) m" and m: "0 < m"
  shows "IS_NXT_SEC_HAPPEND sfs s \<longleftrightarrow> unit_of sfs 1 dvd m"
    and "unit_of sfs 1 dvd m \<Longrightarrow> IS_NXT_MIN_HAPPEND s \<longleftrightarrow> unit_of sfs 2 dvd m"
    and "unit_of sfs 2 dvd m \<Longrightarrow> IS_NXT_HR_HAPPEND s \<longleftrightarrow> unit_of sfs 3 dvd m"
proof -
  let ?t = "tps sfs"
  note c = cl [unfolded clock_cases] and t = tps_pos [of sfs]
  show "IS_NXT_SEC_HAPPEND sfs s \<longleftrightarrow> unit_of sfs 1 dvd m"
    using c by (simp add: IS_NXT_SEC_HAPPEND_def mod_word_zero unit_simps)
  show "IS_NXT_MIN_HAPPEND s \<longleftrightarrow> unit_of sfs 2 dvd m" if "unit_of sfs 1 dvd m"
  proof -
    have d: "?t dvd m" using that by (simp add: unit_simps)
    then have "m div ?t \<noteq> 0" using m t(1) by (auto elim!: dvdE)
    then have "clk s 1 \<noteq> 0" using c by (auto simp flip: unat_eq_0)
    then show ?thesis using c dvd_step [OF d t(1)] by (simp add: IS_NXT_MIN_HAPPEND_def mod_word_zero unit_simps)
  qed
  show "IS_NXT_HR_HAPPEND s \<longleftrightarrow> unit_of sfs 3 dvd m" if "unit_of sfs 2 dvd m"
  proof -
    have d: "?t * 60 dvd m" using that by (simp add: unit_simps)
    then have "m div (?t * 60) \<noteq> 0" using m t(1) by (auto elim!: dvdE)
    then have "clk s 2 \<noteq> 0" using c by (auto simp flip: unat_eq_0 simp: div_mult2_eq)
    then show ?thesis
      using c dvd_step [OF d] t(1) by (simp add: IS_NXT_HR_HAPPEND_def mod_word_zero unit_simps div_mult2_eq)
  qed
qed

lemma tick_clk_ok:
  assumes cl: "clock_ok sfs c n" and bound: "Suc n < 2 ^ 32"
  shows "clock_ok sfs (tick_clk sfs c) (Suc n)"
proof -
  let ?t = "tps sfs"
  note c = cl [unfolded clock_cases] and t = tps_pos [of sfs]
  have plus: "unat (x + 1) = Suc (unat x)" if "unat x \<le> n" for x :: u32
    using that bound by (simp add: unat_word_ariths)
  have le: "n div ?t \<le> n" "n div ?t div 60 \<le> n" "n div ?t div 60 div 60 \<le> n"
    by (meson div_le_dividend order.trans)+
  have S: "Suc a div b = (if b dvd Suc a then Suc (a div b) else a div b)" for a b by (simp add: div_Suc dvd_eq_mod_eq_0)
  show ?thesis
    unfolding clock_cases using c bound le
    by (auto simp: tick_clk_def Let_def mod_word_zero plus S)
qed

section \<open>A tick\<close>

text \<open>
  Behind the step of the clock: the entries of a wheel whose clock has just moved may be due, the
  others are ahead.
\<close>

definition moved :: "bool \<Rightarrow> nat \<Rightarrow> 'z timers_scheme \<Rightarrow> (nat \<Rightarrow> nat list) \<Rightarrow> bool" where
  "moved sfs m s f \<longleftrightarrow> (\<forall>w<TIMER_WHEEL. \<forall>x\<in>set (f w).
     if unit_of sfs w dvd m then clk s w \<le> key s x else clk s w < key s x)"

definition ticked :: "bool \<Rightarrow> nat \<Rightarrow> 'z timers_scheme \<Rightarrow> (nat \<Rightarrow> nat list) \<Rightarrow> nat list \<Rightarrow> 'z timers_scheme \<Rightarrow> bool" where
  "ticked sfs m s f es s' \<longleftrightarrow> (\<exists>f' new. tmr_inv sfs m s' f' (es @ new) \<and> clk s' = clk s \<and> (\<forall>v<TIMER_WHEEL. ahead s' f' v) \<and>
     set new = {x. (x, m) \<in> pending sfs s f} \<and> pending sfs s' f' = {(x, d) \<in> pending sfs s f. x \<notin> set new})"

lemma stage_ticked:
  assumes "tmr_inv sfs m s f es" and "stage sfs m w s f s' f' new" and "tmr_inv sfs m s' f' (es @ new)"
    and "moved sfs m s f" and "w < TIMER_WHEEL \<Longrightarrow> \<not> unit_of sfs w dvd m"
  shows "ticked sfs m s f es s'"
proof -
  have "ahead s f v" if v: "w \<le> v" "v < TIMER_WHEEL" for v
  proof -
    have "\<not> unit_of sfs v dvd m" using assms(5) v unit_dvd [OF v(1), of sfs] dvd_trans by auto
    then show ?thesis using assms(4) v(2) by (auto simp: moved_def ahead_def)
  qed
  then have "(\<forall>v<TIMER_WHEEL. ahead s' f' v) \<and> set new = {x. (x, m) \<in> pending sfs s f}"
    using stage_last [OF tmr_invD(1,3) [OF assms(1)] assms(2)] by blast
  then show ?thesis using assms(2,3) unfolding ticked_def by (intro exI [of _ f'] exI [of _ new]) (auto simp: stage_def)
qed

lemma wheel_lt: "0 < TIMER_WHEEL" "1 < TIMER_WHEEL" "2 < TIMER_WHEEL" "3 < TIMER_WHEEL" "Suc 3 = TIMER_WHEEL"
  by (simp_all add: TIMER_WHEEL_def)

lemma moved_le: "moved sfs m s f \<Longrightarrow> w < TIMER_WHEEL \<Longrightarrow> x \<in> set (f w) \<Longrightarrow> clk s w \<le> key s x"
  by (auto simp: moved_def split: if_splits intro: less_imp_le)

text \<open>The minutes and the hours.\<close>

lemma tick_minutes:
  assumes inv: "tmr_inv sfs m s f es" and m: "0 < m" and bound: "m + 1024 < 2 ^ 32" and mv: "moved sfs m s f"
    and st: "stage sfs m 2 s f s1 f1 n1" "tmr_inv sfs m s1 f1 (es @ n1)" and u2: "unit_of sfs 2 dvd m"
  shows "\<exists>k' s'. andThen (process_timers 2 (clk s1 2) s1) (\<lambda>(k2, s).
     if \<not> IS_NXT_HR_HAPPEND s then Inr (k + k2, s)
     else andThen (process_timers 3 (clk s 3) s) (\<lambda>(k3, s). Inr (k + k2 + k3, s))) = Inr (k', s') \<and> ticked sfs m s f es s'"
proof -
  note go = stage_process [OF tmr_invD(1) [OF inv] _ _ _ _ bound moved_le [OF mv]]
  obtain k2 s2 f2 n2 where p2: "process_timers 2 (clk s1 2) s1 = Inr (k2, s2)" "tmr_inv sfs m s2 f2 (es @ n2)"
    "stage sfs m 3 s f s2 f2 n2" "clk s2 = clk s" using go [OF st wheel_lt(3) u2 wheel_lt(3)] by (auto simp: numeral_eq_Suc)
  have hr: "IS_NXT_HR_HAPPEND s2 \<longleftrightarrow> unit_of sfs 3 dvd m"
    using nxt_happend(3) [of sfs s2 m] tmr_invD(3) [OF p2(2)] m u2 by simp
  show ?thesis
  proof (cases "unit_of sfs 3 dvd m")
    case False
    then show ?thesis using stage_ticked [OF inv p2(3,2) mv] hr p2(1) by simp
  next
    case True
    obtain k3 s3 f3 n3 where p3: "process_timers 3 (clk s2 3) s2 = Inr (k3, s3)" "tmr_inv sfs m s3 f3 (es @ n3)"
      "stage sfs m (Suc 3) s f s3 f3 n3" using go [OF p2(3,2) wheel_lt(4) True wheel_lt(4)] by auto
    then show ?thesis using stage_ticked [OF inv p3(3,2) mv] hr True p2(1) wheel_lt(5) by simp
  qed
qed

lemma process_tick_ok:
  assumes inv: "tmr_inv sfs m s f es" and m: "0 < m" and bound: "m + 1024 < 2 ^ 32" and mv: "moved sfs m s f"
  shows "\<exists>k s'. tm_process_tick_and_update_timers sfs s = Inr (k, s') \<and> ticked sfs m s f es s'"
proof -
  note go = stage_process [OF tmr_invD(1) [OF inv] _ _ _ _ bound moved_le [OF mv]]
  have inv0: "tmr_inv sfs m s f (es @ [])" and u0: "unit_of sfs 0 dvd m" using inv by (simp_all add: unit_simps)
  obtain k0 s0 f0 n0 where p0: "process_timers 0 (clk s 0) s = Inr (k0, s0)" "tmr_inv sfs m s0 f0 (es @ n0)" "stage sfs m 1 s f s0 f0 n0"
    using go [OF stage_0 inv0 wheel_lt(1) u0 wheel_lt(1)] by auto
  have sec: "IS_NXT_SEC_HAPPEND sfs s0 \<longleftrightarrow> unit_of sfs 1 dvd m"
    using nxt_happend(1) [of sfs s0 m] tmr_invD(3) [OF p0(2)] m by simp
  show ?thesis
  proof (cases "unit_of sfs 1 dvd m")
    case False
    then show ?thesis using stage_ticked [OF inv p0(3,2) mv] sec p0(1) by (simp add: tm_process_tick_and_update_timers_def)
  next
    case u1: True
    obtain k1 s1 f1 n1 where p1: "process_timers 1 (clk s0 1) s0 = Inr (k1, s1)" "tmr_inv sfs m s1 f1 (es @ n1)" "stage sfs m 2 s f s1 f1 n1"
      using go [OF p0(3,2) wheel_lt(2) u1 wheel_lt(2)] by (auto simp: numeral_2_eq_2)
    have mn: "IS_NXT_MIN_HAPPEND s1 \<longleftrightarrow> unit_of sfs 2 dvd m"
      using nxt_happend(2) [of sfs s1 m] tmr_invD(3) [OF p1(2)] m u1 by simp
    show ?thesis
    proof (cases "unit_of sfs 2 dvd m")
      case False
      then show ?thesis
        using stage_ticked [OF inv p1(3,2) mv] sec mn u1 p0(1) p1(1) by (simp add: tm_process_tick_and_update_timers_def)
    next
      case True
      then show ?thesis
        using tick_minutes [OF inv m bound mv p1(3,2) True, of "k0 + k1"] sec mn u1 p0(1) p1(1)
        by (simp add: tm_process_tick_and_update_timers_def)
    qed
  qed
qed

end
