(* ===== verification/TimerClock.thy ===== *)
theory TimerClock
  imports TimerTick
begin

unbundle bit_operations_syntax

text \<open>
  The timers as a whole: the running timers are a set of deadlines; starting a timer adds one,
  stopping removes one, and the clock expires exactly the ones it reaches.
\<close>

section \<open>The step of the clock\<close>

lemma tick_inv:
  assumes inv: "tmr_inv sfs n s f es" and bound: "Suc n < 2 ^ 32"
  defines "s0 \<equiv> s\<lparr>clk := tick_clk sfs (clk s)\<rparr>"
  shows "tmr_inv sfs (Suc n) s0 f es" and "pending sfs s0 f = pending sfs s f" and "key s0 = key s"
proof -
  note D = tmr_invD [OF inv]
  have cl: "clock_ok sfs (clk s0) (Suc n)" using tick_clk_ok [OF D(3) bound] by (simp add: s0_def)
  show keys: "key s0 = key s" by (simp add: key_fun s0_def)
  have "entries_ok s0 f" using D(2) unfolding entries_ok_def keys by (simp add: entry_ok_def s0_def)
  moreover have "wheels s0 f" using D(1) wheels_cong [of s0 s f] by (simp add: s0_def)
  ultimately show "tmr_inv sfs (Suc n) s0 f es" using D(4-6) cl by (simp add: tmr_inv_def s0_def)
  show "pending sfs s0 f = pending sfs s f" unfolding pending_def deadline_def keys by (simp add: s0_def)
qed

lemma moved_tick:
  assumes inv: "tmr_inv sfs n s f es" and ah: "\<And>w. w < TIMER_WHEEL \<Longrightarrow> ahead s f w" and bound: "Suc n < 2 ^ 32"
  defines "s0 \<equiv> s\<lparr>clk := tick_clk sfs (clk s)\<rparr>"
  shows "tmr_inv sfs (Suc n) s0 f es" and "moved sfs (Suc n) s0 f" and "pending sfs s0 f = pending sfs s f"
proof -
  note tick = tick_inv [OF inv bound, folded s0_def]
  show "tmr_inv sfs (Suc n) s0 f es" "pending sfs s0 f = pending sfs s f" by (rule tick)+
  show "moved sfs (Suc n) s0 f"
    unfolding moved_def tick(3)
  proof (intro allI impI ballI)
    fix w x assume w: "w < TIMER_WHEEL" and x: "x \<in> set (f w)"
    have "n div unit_of sfs w < unat (key s x)"
      using ah [OF w] x tmr_invD(3) [OF inv] w by (auto simp: ahead_def clock_ok_def word_less_nat_alt)
    moreover have "unat (clk s0 w) = (if unit_of sfs w dvd Suc n then Suc (n div unit_of sfs w) else n div unit_of sfs w)"
      using tmr_invD(3) [OF tick(1)] w by (simp add: clock_ok_def div_Suc dvd_eq_mod_eq_0)
    ultimately show "if unit_of sfs w dvd Suc n then clk s0 w \<le> key s x else clk s0 w < key s x"
      by (auto simp: word_less_nat_alt word_le_nat_alt)
  qed
qed

lemma has_timers_ok:
  assumes "wheels s f" and "w < TIMER_WHEEL"
  shows "has_timers w s = Inr (f w \<noteq> [])"
proof -
  obtain t where "rep (tree_at w s) [] t" "inord t = f w" using wheelsE [OF assms] by blast
  then show ?thesis using rb_first_last_ok by (auto simp: has_timers_def first_of_def split: list.splits)
qed

text \<open>When no wheel is due for service, nothing is due.\<close>

lemma not_pending_ticked:
  assumes inv: "tmr_inv sfs m s f es" and m: "0 < m" and mv: "moved sfs m s f"
    and np: "timers_pending_for_service sfs s = Inr False"
  shows "ticked sfs m s f es s"
proof -
  note D = tmr_invD [OF inv] and nxt = nxt_happend [OF tmr_invD(3) [OF inv] m] and H = has_timers_ok [OF tmr_invD(1) [OF inv]]
  have "f v = []" if v: "v < TIMER_WHEEL" "unit_of sfs v dvd m" for v
  proof (cases "tcount s = 0")
    case True
    then have "(\<Sum>w<TIMER_WHEEL. length (f w)) = 0" using D(4) by simp
    then show ?thesis using v(1) by simp
  next
    case False
    have dv: "unit_of sfs u dvd m" if "u \<le> v" for u using unit_dvd [OF that, of sfs] v(2) dvd_trans by blast
    have "v = 0 \<or> v = 1 \<or> v = 2 \<or> v = 3" using v(1) by (auto simp: TIMER_WHEEL_def)
    then show ?thesis
      using np False nxt dv [of 1] dv [of 2] dv [of 3] H [OF wheel_lt(1)] H [OF wheel_lt(2)] H [OF wheel_lt(3)] H [OF wheel_lt(4)]
      by (elim disjE) (simp_all add: timers_pending_for_service_def split: if_split_asm)
  qed
  then have "ahead s f v" if "v < TIMER_WHEEL" for v using mv that by (force simp: moved_def ahead_def)
  then have "(\<forall>v<TIMER_WHEEL. ahead s f v) \<and> set [] = {x. (x, m) \<in> pending sfs s f}"
    by (intro stage_last [OF D(1,3) stage_0])
  then show ?thesis using inv unfolding ticked_def by (intro exI [of _ f] exI [of _ "[]"]) auto
qed

text \<open>
  One tick with everything it causes: with \<^verbatim>\<open>SFS_WANTED\<close> the wheels are processed by the soft
  interrupt, here before the next tick.
\<close>

definition run_tick :: "bool \<Rightarrow> 'z timers_scheme \<Rightarrow> 'z timers_scheme res" where
  "run_tick sfs s = andThen (update_times sfs s) (\<lambda>(b, s).
     if sfs \<and> b then andThen (tm_process_tick_and_update_timers sfs s) (\<lambda>(_, s). Inr s) else Inr s)"

fun run_ticks :: "bool \<Rightarrow> nat \<Rightarrow> 'z timers_scheme \<Rightarrow> 'z timers_scheme res" where
  "run_ticks sfs 0 s = Inr s"
| "run_ticks sfs (Suc k) s = andThen (run_tick sfs s) (run_ticks sfs k)"

lemma pending_total:
  assumes "tmr_inv sfs m s f es"
  shows "\<exists>b. timers_pending_for_service sfs s = Inr b"
  using has_timers_ok [OF tmr_invD(1) [OF assms]] wheel_lt by (auto simp: timers_pending_for_service_def)

lemma tick_ok:
  assumes inv: "tmr_inv sfs n s f es" and ah: "\<And>w. w < TIMER_WHEEL \<Longrightarrow> ahead s f w" and bound: "n + 1025 < 2 ^ 32"
  defines "s0 \<equiv> s\<lparr>clk := tick_clk sfs (clk s)\<rparr>"
  shows "\<exists>p. timers_pending_for_service sfs s0 = Inr p \<and>
     (if p then \<exists>k s'. tm_process_tick_and_update_timers sfs s0 = Inr (k, s') \<and> ticked sfs (Suc n) s0 f es s'
      else ticked sfs (Suc n) s0 f es s0)"
proof -
  have b: "Suc n < 2 ^ 32" "Suc n + 1024 < 2 ^ 32" using bound by simp_all
  note mt = moved_tick [OF inv ah b(1), folded s0_def]
  obtain p where p: "timers_pending_for_service sfs s0 = Inr p" using pending_total [OF mt(1)] by blast
  have "\<exists>k s'. tm_process_tick_and_update_timers sfs s0 = Inr (k, s') \<and> ticked sfs (Suc n) s0 f es s'"
    using process_tick_ok [OF mt(1) _ b(2) mt(2)] by auto
  moreover have "ticked sfs (Suc n) s0 f es s0" if "\<not> p" using not_pending_ticked [OF mt(1) _ mt(2)] p that by simp
  ultimately show ?thesis using p by auto
qed

section \<open>The contract of the timers\<close>

definition timers_ok :: "bool \<Rightarrow> nat \<Rightarrow> 'z timers_scheme \<Rightarrow> (nat \<Rightarrow> nat list) \<Rightarrow> nat list \<Rightarrow> bool" where
  "timers_ok sfs n s f es \<longleftrightarrow> tmr_inv sfs n s f es \<and> (\<forall>w<TIMER_WHEEL. ahead s f w)"

lemma timers_okD:
  assumes "timers_ok sfs n s f es"
  shows "tmr_inv sfs n s f es" and "\<And>w. w < TIMER_WHEEL \<Longrightarrow> ahead s f w"
  using assms by (simp_all add: timers_ok_def)

lemma pending_unique:
  assumes "wheels s f" and "(x, d) \<in> pending sfs s f" and "(x, e) \<in> pending sfs s f"
  shows "d = e"
proof -
  obtain w where w: "w < TIMER_WHEEL" "x \<in> set (f w)" using assms(2) by (auto simp: pending_def)
  show ?thesis using assms(2,3) unfolding pending_at [OF assms(1) w] by simp
qed

lemma pending_later:
  assumes "timers_ok sfs n s f es" and "(x, d) \<in> pending sfs s f"
  shows "n < d"
proof -
  note D = timers_okD [OF assms(1)]
  obtain w where "w < TIMER_WHEEL" "x \<in> set (f w)" using assms(2) by (auto simp: pending_def)
  then show ?thesis using ahead_not_due [OF tmr_invD(1,3) [OF D(1)]] D(2) assms(2) by blast
qed

text \<open>What the clock does to the deadlines.\<close>

lemma ticked_deadlines:
  assumes ok: "timers_ok sfs n s f es" and bound: "Suc n < 2 ^ 32"
    and t: "ticked sfs (Suc n) (s\<lparr>clk := tick_clk sfs (clk s)\<rparr>) f es s'"
  shows "\<exists>f' new. timers_ok sfs (Suc n) s' f' (es @ new) \<and> set new = {x. (x, Suc n) \<in> pending sfs s f} \<and>
     pending sfs s' f' = {(x, d) \<in> pending sfs s f. Suc n < d}"
proof -
  note D = timers_okD [OF ok]
  have same: "pending sfs (s\<lparr>clk := tick_clk sfs (clk s)\<rparr>) f = pending sfs s f" by (rule moved_tick(3) [OF D bound])
  from t obtain f' new where new: "tmr_inv sfs (Suc n) s' f' (es @ new)" "\<forall>v<TIMER_WHEEL. ahead s' f' v"
    "set new = {x. (x, Suc n) \<in> pending sfs s f}" "pending sfs s' f' = {(x, d) \<in> pending sfs s f. x \<notin> set new}"
    unfolding ticked_def same by blast
  have "x \<notin> set new \<longleftrightarrow> Suc n < d" if p: "(x, d) \<in> pending sfs s f" for x d
  proof -
    have "x \<in> set new \<longleftrightarrow> d = Suc n" unfolding new(3) using p pending_unique [OF tmr_invD(1) [OF D(1)] p] by blast
    then show ?thesis using pending_later [OF ok p] by (cases "d = Suc n") auto
  qed
  then have "pending sfs s' f' = {(x, d) \<in> pending sfs s f. Suc n < d}" unfolding new(4) by blast
  then show ?thesis using new(1-3) by (auto simp: timers_ok_def)
qed

lemma tick_expires:
  assumes ok: "timers_ok sfs n s f es" and bound: "n + 1025 < 2 ^ 32"
  shows "\<exists>s' f' new. run_tick sfs s = Inr s' \<and> timers_ok sfs (Suc n) s' f' (es @ new) \<and>
     set new = {x. (x, Suc n) \<in> pending sfs s f} \<and> pending sfs s' f' = {(x, d) \<in> pending sfs s f. Suc n < d}"
proof -
  obtain s' where s': "run_tick sfs s = Inr s'" "ticked sfs (Suc n) (s\<lparr>clk := tick_clk sfs (clk s)\<rparr>) f es s'"
    using tick_ok [OF timers_okD [OF ok] bound]
    by (cases sfs) (auto simp: run_tick_def update_times_def service_timers_def split: if_splits)
  have "Suc n < 2 ^ 32" using bound by simp
  from ticked_deadlines [OF ok this s'(2)] s'(1) show ?thesis by blast
qed

lemma pending_single: "timers_ok sfs n s f es \<Longrightarrow> single_valued (pending sfs s f)"
  using pending_unique [OF tmr_invD(1) [OF timers_okD(1)]] by (meson single_valuedI)

lemma expired_distinct: "timers_ok sfs n s f es \<Longrightarrow> distinct es"
  using tmr_invD(5) [OF timers_okD(1)] by (fastforce simp: dlist_def distinct_map)

text \<open>The timers of \<open>P\<close> that expire up to time \<open>m\<close>, in the order of their deadlines.\<close>

definition expired_by :: "(nat \<times> nat) set \<Rightarrow> nat \<Rightarrow> nat list \<Rightarrow> bool" where
  "expired_by P m new \<longleftrightarrow> distinct new \<and> set new = {x. \<exists>d. (x, d) \<in> P \<and> d \<le> m} \<and>
     sorted_wrt (\<lambda>x y. \<exists>d e. (x, d) \<in> P \<and> (y, e) \<in> P \<and> d \<le> e) new"

lemma expired_by_none: "(\<And>x d. (x, d) \<in> P \<Longrightarrow> m < d) \<Longrightarrow> expired_by P m []"
  by (force simp: expired_by_def)

lemma expired_by_tick:
  assumes "\<And>x d. (x, d) \<in> P \<Longrightarrow> n < d" and "set new = {x. (x, Suc n) \<in> P}" and "distinct new"
  shows "expired_by P (Suc n) new"
proof -
  have "sorted_wrt (\<lambda>x y. \<exists>d e. (x, d) \<in> P \<and> (y, e) \<in> P \<and> d \<le> e) new"
    by (rule sorted_wrt_mono_rel [of _ "\<lambda>_ _. True"]) (use assms(2) in auto)
  moreover have "(\<exists>d. (x, d) \<in> P \<and> d \<le> Suc n) \<longleftrightarrow> (x, Suc n) \<in> P" for x using assms(1) by (metis le_Suc_eq not_le order_refl)
  ultimately show ?thesis using assms(2,3) by (simp add: expired_by_def)
qed

lemma expired_by_append:
  assumes a: "expired_by P m xs" and b: "expired_by {(x, d) \<in> P. m < d} m' ys" and "m \<le> m'" and "single_valued P"
  shows "expired_by P m' (xs @ ys)"
proof -
  have "(\<exists>d. (x, d) \<in> P \<and> d \<le> m') \<longleftrightarrow> (\<exists>d. (x, d) \<in> P \<and> d \<le> m) \<or> (\<exists>d. ((x, d) \<in> P \<and> m < d) \<and> d \<le> m')" for x
    using assms(3) by (meson le_trans not_le)
  then have "set (xs @ ys) = {x. \<exists>d. (x, d) \<in> P \<and> d \<le> m'}" using a b by (auto simp: expired_by_def)
  moreover have "sorted_wrt (\<lambda>x y. \<exists>d e. (x, d) \<in> P \<and> (y, e) \<in> P \<and> d \<le> e) ys"
    by (rule sorted_wrt_mono_rel [OF _ conjunct2 [OF conjunct2 [OF b [unfolded expired_by_def]]]]) blast
  moreover have "\<exists>d e. (x, d) \<in> P \<and> (y, e) \<in> P \<and> d \<le> e" if "x \<in> set xs" "y \<in> set ys" for x y
    using that a b unfolding expired_by_def by (fastforce intro: less_imp_le)
  moreover have "set xs \<inter> set ys = {}" using a b assms(4) unfolding expired_by_def single_valued_def by (fastforce simp: not_le)
  ultimately show ?thesis using a b by (simp add: expired_by_def sorted_wrt_append)
qed

lemma ticks_expire:
  assumes "timers_ok sfs n s f es" and "n + k + 1024 < 2 ^ 32"
  shows "\<exists>s' f' new. run_ticks sfs k s = Inr s' \<and> timers_ok sfs (n + k) s' f' (es @ new) \<and>
     expired_by (pending sfs s f) (n + k) new \<and> pending sfs s' f' = {(x, d) \<in> pending sfs s f. n + k < d}"
  using assms
proof (induction k arbitrary: n s f es)
  case 0
  have "n < d" if "(x, d) \<in> pending sfs s f" for x d using pending_later [OF 0(1) that] .
  then show ?case using 0(1) expired_by_none by (intro exI [of _ s] exI [of _ f] exI [of _ "[]"]) force
next
  case (Suc k)
  let ?P = "pending sfs s f"
  obtain s1 f1 n1 where t: "run_tick sfs s = Inr s1" "timers_ok sfs (Suc n) s1 f1 (es @ n1)"
    "set n1 = {x. (x, Suc n) \<in> ?P}" "pending sfs s1 f1 = {(x, d) \<in> ?P. Suc n < d}"
    using tick_expires [OF Suc.prems(1)] Suc.prems(2) by auto
  obtain s2 f2 n2 where u: "run_ticks sfs k s1 = Inr s2" "timers_ok sfs (Suc n + k) s2 f2 ((es @ n1) @ n2)"
    "expired_by (pending sfs s1 f1) (Suc n + k) n2" "pending sfs s2 f2 = {(x, d) \<in> pending sfs s1 f1. Suc n + k < d}"
    using Suc.IH [OF t(2)] Suc.prems(2) by auto
  have "expired_by ?P (Suc n) n1"
    by (rule expired_by_tick [OF pending_later [OF Suc.prems(1)] t(3)]) (use expired_distinct [OF t(2)] in simp_all)
  from expired_by_append [OF this u(3) [unfolded t(4)] _ pending_single [OF Suc.prems(1)]] have "expired_by ?P (n + Suc k) (n1 @ n2)" by simp
  moreover have "pending sfs s2 f2 = {(x, d) \<in> ?P. n + Suc k < d}" unfolding u(4) t(4) by auto
  ultimately show ?case
    using t(1) u(1,2) by (intro exI [of _ s2] exI [of _ f2] exI [of _ "n1 @ n2"]) simp
qed

end
