(* ===== verification/TimerStart.thy ===== *)
theory TimerStart
  imports TimerClock
begin

unbundle bit_operations_syntax

text \<open>
  Starting and stopping timers: the deadline a new timer gets, and what a stopped timer leaves.
\<close>

section \<open>The deadline of a new timer\<close>

lemma lower_packed:
  assumes "unat ticks < 1024 * (3600 * tps sfs)"
  shows "lower sfs TIMER_WHEEL (packed sfs ticks) = unat ticks"
proof -
  let ?n = "unat ticks" and ?t = "tps sfs"
  have t: "0 < ?t" by (rule tps_pos)
  have "?n div ?t div 3600 < 1024" using assms t by (simp add: div_less_iff_less_mult mult.commute mult.left_commute)
  then have h: "unat (fld 3 (packed sfs ticks)) = ?n div ?t div 60 div 60"
    using fld_packed(4) [of sfs ticks] div_mult2_eq [of "?n div ?t" 60 60] by simp
  have all: "{..<TIMER_WHEEL} = {0, 1, 2, 3}" by (auto simp: TIMER_WHEEL_def)
  have "lower sfs TIMER_WHEEL (packed sfs ticks) =
     ?n mod ?t + (?n div ?t mod 60) * ?t + (?n div ?t div 60 mod 60) * (?t * 60) + (?n div ?t div 60 div 60) * (?t * 60 * 60)"
    using fld_packed(1-3) [of sfs ticks] h
    unfolding lower_def all by (simp add: unit_simps)
  also have "\<dots> = ?n mod ?t + ?t * (?n div ?t mod 60 + 60 * (?n div ?t div 60 mod 60 + 60 * (?n div ?t div 60 div 60)))"
    by (simp only: distrib_left mult_ac add_ac)
  also have "\<dots> = ?n" by (simp only: mod_mult_div_eq)
  finally show ?thesis .
qed

text \<open>The largest unit that is not above the requested time.\<close>

definition granule :: "bool \<Rightarrow> nat \<Rightarrow> nat" where
  "granule sfs k = (if tps sfs * 3600 \<le> k then tps sfs * 3600 else if tps sfs * 60 \<le> k then tps sfs * 60
     else if tps sfs \<le> k then tps sfs else 1)"

lemma packed_slot:
  assumes "0 < unat ticks" and "unat ticks < 1024 * (3600 * tps sfs)"
  shows "\<exists>v t. tmr_slot (packed sfs ticks) = Some (v, t) \<and> unit_of sfs v = granule sfs (unat ticks)"
proof -
  let ?n = "unat ticks" and ?t = "tps sfs" and ?p = "packed sfs ticks"
  have t: "0 < ?t" by (rule tps_pos)
  have h: "?n div ?t div 3600 < 1024" using assms(2) t by (simp add: div_less_iff_less_mult mult.commute mult.left_commute)
  have z: "(fld v ?p = 0) = (unat (fld v ?p) = 0)" for v by (simp add: unat_eq_0)
  have f3: "fld 3 ?p = 0 \<longleftrightarrow> ?n < ?t * 3600" unfolding z fld_packed using h t by (simp add: div_eq_0_iff flip: div_mult2_eq)
  have f2: "fld 2 ?p = 0 \<longleftrightarrow> ?n < ?t * 60" if "?n < ?t * 3600"
    unfolding z fld_packed using that t by (simp add: div_eq_0_iff div_less_iff_less_mult flip: div_mult2_eq)
  have f1: "fld (Suc 0) ?p = 0 \<longleftrightarrow> ?n < ?t" if "?n < ?t * 60"
    unfolding z fld_packed using that t by (simp add: div_eq_0_iff div_less_iff_less_mult mult.commute)
  have f0: "fld 0 ?p \<noteq> 0" if "?n < ?t" unfolding z fld_packed using that assms(1) by simp
  show ?thesis
    using f3 f2 f1 f0 by (auto simp: tmr_slot_def fld_def granule_def unit_of_def not_le)
qed


text \<open>The hours have ten bits, so times are taken modulo 1024 hours.\<close>

definition horizon :: "bool \<Rightarrow> nat" where
  "horizon sfs = 1024 * (3600 * tps sfs)"

lemma div_of_mod: "0 < t \<Longrightarrow> n mod (t * c) div t = n div t mod (c :: nat)"
  by (simp add: mod_mult2_eq)

lemma packed_mod:
  assumes "unat r = unat ticks mod horizon sfs"
  shows "packed sfs r = packed sfs ticks"
proof -
  let ?n = "unat ticks" and ?t = "tps sfs"
  have t: "0 < ?t" by (rule tps_pos)
  have "horizon sfs = ?t * 3686400" by (simp add: horizon_def)
  then have r: "unat r = ?n mod (?t * 3686400)" using assms by simp
  have s: "unat r div ?t = ?n div ?t mod 3686400" unfolding r by (rule div_of_mod [OF t])
  have m: "unat r div ?t div 60 = ?n div ?t div 60 mod 61440" unfolding s using div_of_mod [of 60 "?n div ?t" 61440] by simp
  have h: "unat r div ?t div 3600 = ?n div ?t div 3600 mod 1024" unfolding s using div_of_mod [of 3600 "?n div ?t" 1024] by simp
  have "unat r mod ?t = ?n mod ?t" unfolding r by (rule mod_mod_cancel) simp
  then have "unat (packed sfs r) = unat (packed sfs ticks)"
    unfolding unat_fields [of "packed sfs _"] One_nat_def fld_packed m h unfolding s by (simp add: mod_mod_cancel)
  then show ?thesis by (simp add: word_eq_iff_unsigned [where ?'a = nat])
qed

lemma packed_any:
  shows "lower sfs TIMER_WHEEL (packed sfs ticks) = unat ticks mod horizon sfs"
    and "0 < unat ticks mod horizon sfs \<Longrightarrow>
      \<exists>v t. tmr_slot (packed sfs ticks) = Some (v, t) \<and> unit_of sfs v = granule sfs (unat ticks mod horizon sfs)"
    and "packed sfs ticks = 0 \<longleftrightarrow> unat ticks mod horizon sfs = 0"
proof -
  define r :: u32 where "r = of_nat (unat ticks mod horizon sfs)"
  have "unat ticks < 2 ^ LENGTH(32)" by (rule unsigned_less)
  then have "unat ticks mod horizon sfs < 4294967296" by (intro le_less_trans [OF mod_less_eq_dividend]) simp
  then have r: "unat r = unat ticks mod horizon sfs" unfolding r_def by (subst unat_of_nat) simp
  note p = packed_mod [OF r, symmetric]
  have lt: "unat r < 1024 * (3600 * tps sfs)" using tps_pos(1) [of sfs] r by (simp add: horizon_def)
  note low = lower_packed [OF lt] and slot = packed_slot [OF _ lt]
  show "lower sfs TIMER_WHEEL (packed sfs ticks) = unat ticks mod horizon sfs" using low r p by simp
  show "\<exists>v t. tmr_slot (packed sfs ticks) = Some (v, t) \<and> unit_of sfs v = granule sfs (unat ticks mod horizon sfs)"
    if "0 < unat ticks mod horizon sfs" using slot that r p by simp
  show "packed sfs ticks = 0 \<longleftrightarrow> unat ticks mod horizon sfs = 0"
  proof (cases "unat r = 0")
    case True
    then have "r = 0" by (simp add: unat_eq_0)
    then have "packed sfs r = 0" by (simp add: packed_def SET_HRS_def SET_MINS_def SET_SECS_def SET_TICK_def)
    then show ?thesis using True p r by simp
  next
    case False
    then show ?thesis using slot tmr_slot_None [of "packed sfs ticks"] p r by auto
  qed
qed

section \<open>Arming a timer\<close>

lemma pending_plus:
  assumes "\<And>x d. x \<noteq> a \<Longrightarrow> (x, d) \<in> P' \<longleftrightarrow> (x, d) \<in> P" and "\<And>d. (a, d) \<in> P' \<longleftrightarrow> d = D" and "\<And>d. (a, d) \<notin> P"
  shows "P' = insert (a, D) P"
proof (rule set_eqI)
  fix z show "z \<in> P' \<longleftrightarrow> z \<in> insert (a, D) P" using assms by (cases z; cases "fst z = a") auto
qed

lemma start_time:
  assumes cl: "clock_ok sfs c n" and bound: "n + 1024 < 2 ^ 32"
    and slot: "tmr_slot (packed sfs ticks) = Some (v, t)"
  shows "unat (c v + t) * unit_of sfs v + lower sfs v (packed sfs ticks) = n - n mod unit_of sfs v + unat ticks mod horizon sfs"
    and "c v < c v + t"
proof -
  note slt = tmr_slot_Some [OF slot]
  have cv: "unat (c v) = n div unit_of sfs v" using cl slt(1) by (simp add: clock_ok_def)
  then have "unat (c v) \<le> n" using div_le_dividend by simp
  moreover have "unat t < 1024" using slt(2) by (auto simp: fld_def unat_GET)
  ultimately have sum: "unat (c v + t) = unat (c v) + unat t" using bound by (simp add: unat_word_ariths)
  have "unat ticks mod horizon sfs = unat t * unit_of sfs v + lower sfs v (packed sfs ticks)"
    using lower_slot [OF slot slt(1) order.refl, of sfs] packed_any(1) [of sfs ticks] by simp
  then show "unat (c v + t) * unit_of sfs v + lower sfs v (packed sfs ticks) = n - n mod unit_of sfs v + unat ticks mod horizon sfs"
    unfolding sum cv by (simp add: minus_mod_eq_div_mult algebra_simps)
  show "c v < c v + t" using sum slt(3) by (simp add: word_less_nat_alt unat_gt_0)
qed

lemma calc_time_ok:
  assumes "tapps s a = Some ap" "a_timer ap = Some i" "a_ctime ap = 0" "ttms s i = Some tm"
  shows "calc_time sfs a s = Inr (s\<lparr>tapps := (tapps s)(a \<mapsto> ap\<lparr>a_ctime := packed sfs (t_rmt tm)\<rparr>),
     ttms := (ttms s)(i \<mapsto> tm\<lparr>t_exp := t_rmt tm + clk s 0\<rparr>)\<rparr>)"
  using assms by (simp add: calc_time_def on_app_def on_timer_def packed_def Let_def)

text \<open>An entry that is on no wheel enters wheel \<open>v\<close>.\<close>

lemma ahead_enter:
  assumes only: "only_entry a i s s'" "ttms s i = Some tm" "t_app tm = Some a"
    and free: "\<And>w. w < TIMER_WHEEL \<Longrightarrow> a \<notin> set (f w)" and ah: "\<And>w. w < TIMER_WHEEL \<Longrightarrow> ahead s f w"
    and w: "w < TIMER_WHEEL" and now: "clk s' = clk s" "clk s v < key s' a"
  shows "ahead s' (f(v := enter z a (f v))) w"
  unfolding ahead_def
proof
  fix x assume x: "x \<in> set ((f(v := enter z a (f v))) w)"
  show "clk s' w < key s' x"
  proof (cases "x = a")
    case True
    then have "w = v" using x free [OF w] by (cases "w = v") auto
    then show ?thesis using True now by simp
  next
    case False
    then have "x \<in> set (f w)" using x by (auto simp: set_enter split: if_splits)
    then show ?thesis using ah [OF w] only_entry_keeps(2) [OF only False] now(1) by (simp add: ahead_def)
  qed
qed

lemma pending_enter:
  assumes only: "only_entry a i s s'" and free: "\<And>w. w < TIMER_WHEEL \<Longrightarrow> a \<notin> set (f w)"
    and wh: "wheels s' (f(v := enter z a (f v)))" and v: "v < TIMER_WHEEL"
  shows "pending sfs s' (f(v := enter z a (f v))) = insert (a, deadline sfs s' v a) (pending sfs s f)"
proof (rule pending_plus)
  show "(x, d) \<in> pending sfs s' (f(v := enter z a (f v))) \<longleftrightarrow> (x, d) \<in> pending sfs s f" if "x \<noteq> a" for x d
    by (rule pending_other [OF only that]) (auto simp: set_enter)
  show "(a, d) \<in> pending sfs s' (f(v := enter z a (f v))) \<longleftrightarrow> d = deadline sfs s' v a" for d
    using pending_at [OF wh v, of a] by (simp add: set_enter)
  show "(a, d) \<notin> pending sfs s f" for d using free unfolding pending_def by blast
qed

definition new_deadline :: "bool \<Rightarrow> nat \<Rightarrow> nat \<Rightarrow> nat" where
  "new_deadline sfs n k = n - n mod granule sfs k + k"

lemma arm_ok:
  assumes ok: "timers_ok sfs n s f es" and free: "\<And>w. w < TIMER_WHEEL \<Longrightarrow> a \<notin> set (f w)" "a \<notin> set es"
    and ap: "tapps s a = Some ap" "a_timer ap = Some i" "a_ctime ap = 0" "ttms s i = Some tm" "t_app tm = Some a"
    and k: "0 < unat (t_rmt tm) mod horizon sfs"
    and bound: "n + 1024 < 2 ^ 32" and room: "unat (tcount s) + 1 < 2 ^ 32"
  shows "\<exists>s' f'. arm sfs a s = Inr s' \<and> timers_ok sfs n s' f' es \<and> a_timer (the (tapps s' a)) = Some i \<and>
     pending sfs s' f' = insert (a, new_deadline sfs n (unat (t_rmt tm) mod horizon sfs)) (pending sfs s f)"
proof -
  let ?p = "packed sfs (t_rmt tm)"
  define s1 where "s1 = s\<lparr>tapps := (tapps s)(a \<mapsto> ap\<lparr>a_ctime := ?p\<rparr>),
     ttms := (ttms s)(i \<mapsto> tm\<lparr>t_exp := t_rmt tm + clk s 0\<rparr>)\<rparr>"
  note O = timers_okD [OF ok] and D = tmr_invD [OF timers_okD(1) [OF ok]]
  have o1: "only_entry a i s s1" by (simp add: only_entry_def s1_def)
  have wh1: "wheels s1 f" using D(1) wheels_cong [of s1 s f] by (simp add: s1_def)
  have ent1: "entries_ok s1 f" by (rule entries_only [OF D(2) o1 ap(4,5) free(1)])
  obtain v t where slot: "tmr_slot ?p = Some (v, t)" "unit_of sfs v = granule sfs (unat (t_rmt tm) mod horizon sfs)"
    using packed_any(2) [OF k] by blast
  note v = tmr_slot_Some(1) [OF slot(1)] and time = start_time [OF D(3) bound slot(1)]
  obtain s2 where p: "find_tmr_slot_and_place a s1 = Inr s2" "only_entry a i s1 s2" "tapps s2 a = Some (ap\<lparr>a_ctime := ?p, a_rt := clk s1 v + t\<rparr>)"
    "wheels s2 (f(v := enter s2 a (f v)))" "entries_ok s2 (f(v := enter s2 a (f v)))" "clk s2 = clk s1" "tcount s2 = tcount s1" "expd s2 = expd s1"
    using find_place_ok [OF wh1 ent1 free(1), of "ap\<lparr>a_ctime := ?p\<rparr>" i "tm\<lparr>t_exp := t_rmt tm + clk s 0\<rparr>" v t] ap slot(1)
    by (auto simp: s1_def)
  let ?f = "f(v := enter s2 a (f v))" and ?s = "s2\<lparr>tcount := tcount s2 + 1\<rparr>"
  have keys: "key ?s = key s2" by (simp add: key_fun)
  have o2: "only_entry a i s ?s" using o1 p(2) by (simp add: only_entry_def)
  have key: "key s2 a = clk s v + t" "rest s2 a = ?p" using p(3) by (simp_all add: key_def s1_def)
  have wh: "wheels ?s ?f" using p(4) wheels_cong [of ?s s2 ?f] by simp
  have "tmr_inv sfs n ?s ?f es"
    unfolding tmr_inv_def
  proof (intro conjI allI impI)
    show "entries_ok ?s ?f" using p(5) unfolding entries_ok_def keys by (simp add: entry_ok_def)
    have "unat (tcount s + 1) = unat (tcount s) + 1" using room by (simp add: unat_word_ariths)
    then show "(\<Sum>w<TIMER_WHEEL. length (?f w)) \<le> unat (tcount ?s)"
      using sum_lengths_upd [OF v, of f "enter s2 a (f v)"] D(4) p(7) by (simp add: length_enter s1_def del: fun_upd_apply)
    show "set (?f w) \<inter> set es = {}" if "w < TIMER_WHEEL" for w
      using D(6) [OF that] D(6) [OF v] free(2) by (auto simp: set_enter)
  qed (use wh D(3,5) p(6,8) in \<open>simp_all add: s1_def\<close>)
  moreover have "ahead ?s ?f w" if "w < TIMER_WHEEL" for w
    by (rule ahead_enter [OF o2 ap(4,5) free(1) O(2)]) (use that time(2) key keys p(6) in \<open>simp_all add: s1_def\<close>)
  moreover have "deadline sfs ?s v a = new_deadline sfs n (unat (t_rmt tm) mod horizon sfs)"
    using time(1) unfolding deadline_def keys key new_deadline_def slot(2) [symmetric] by (simp add: key(2))
  then have "pending sfs ?s ?f = insert (a, new_deadline sfs n (unat (t_rmt tm) mod horizon sfs)) (pending sfs s f)"
    using pending_enter [OF o2 free(1) wh v] by simp
  moreover have "arm sfs a s = Inr ?s" using calc_time_ok [OF ap(1-4), of sfs] p(1) by (simp add: arm_def s1_def)
  moreover have "a_timer (the (tapps ?s a)) = Some i" using p(3) ap(2) by simp
  ultimately show ?thesis unfolding timers_ok_def by blast
qed


section \<open>Starting\<close>

lemma calc_time_count: "calc_time sfs a s = Inr s' \<Longrightarrow> tcount s' = tcount s \<and> indx s' = indx s"
  by (auto simp: calc_time_def on_app_def on_timer_def andThen_eq_Inr Let_def)

lemma timer_add_count: "timer_add a w s = Inr s' \<Longrightarrow> tcount s' = tcount s \<and> indx s' = indx s"
  by (auto simp: timer_add_def put_tree_def andThen_eq_Inr Let_def)

lemma place_count: "find_tmr_slot_and_place a s = Inr s' \<Longrightarrow> tcount s' = tcount s \<and> indx s' = indx s"
  using timer_add_count
  by (fastforce simp: find_tmr_slot_and_place_def update_wheel_def on_app_def on_timer_def andThen_eq_Inr split: option.splits)

lemma arm_counts: "arm sfs a s = Inr s' \<Longrightarrow> tcount s' = tcount s + 1 \<and> indx s' = indx s"
  using calc_time_count place_count unfolding arm_def andThen_eq_Inr by fastforce

lemma start_timer_arms:
  assumes "tcount s \<le> MAX_TIMERS" and "indx s \<noteq> - 1"
  shows "start_timer sfs (Some i) (Some a) ticks data h flags s =
     andThen (arm sfs a (s\<lparr>indx := indx s + 1, tbytes := tbytes s + sizeof_TIMER_T + sizeof_APP_TIMER_T,
       tapps := (tapps s)(a \<mapsto> \<lparr>a_timer = Some i, a_ctime = 0, a_rt = 0\<rparr>),
       ttms := (ttms s)(i \<mapsto> zero_timer\<lparr>t_idx := indx s + 1, t_rmt := ticks, t_data := data, t_handler := h,
          t_flags := (if flags \<noteq> 0 then flags else TIMER_ONCE), t_app := Some a\<rparr>),
       expd := INIT_LIST_HEAD (Elist a) (expd s)\<rparr>)) (\<lambda>s. Inr (Some i, s))"
proof -
  have "\<not> MAX_TIMERS < tcount s" using assms(1) by (rule leD)
  then show ?thesis using assms(2)
    by (simp add: start_timer_def alloc_timer_id_def alloc_timer_def alloc_app_def on_app_def on_timer_def Let_def)
qed

text \<open>
  A state that differs from one that satisfies the invariant in an entry and a timer nobody uses.
\<close>

lemma fresh_keeps:
  assumes ok: "timers_ok sfs n s f es" and fresh: "tapps s a = None" "a \<notin> set es"
    and idle: "\<And>w x. w < TIMER_WHEEL \<Longrightarrow> x \<in> set (f w) \<Longrightarrow> a_timer (the (tapps s x)) \<noteq> Some i"
    and same: "\<And>x. x \<noteq> a \<Longrightarrow> tapps s' x = tapps s x" "\<And>j. j \<noteq> i \<Longrightarrow> ttms s' j = ttms s j"
      "rnodes s' = rnodes s" "roots s' = roots s" "clk s' = clk s" "tcount s' = tcount s" "expd s' = INIT_LIST_HEAD (Elist a) (expd s)"
  shows "timers_ok sfs n s' f es" and "pending sfs s' f = pending sfs s f" and "\<And>w. w < TIMER_WHEEL \<Longrightarrow> a \<notin> set (f w)"
proof -
  note O = timers_okD [OF ok] and D = tmr_invD [OF timers_okD(1) [OF ok]]
  show out: "a \<notin> set (f w)" if "w < TIMER_WHEEL" for w using entries_okD(3) [OF D(2) that] fresh(1) by blast
  have app: "tapps s' x = tapps s x" if "w < TIMER_WHEEL" "x \<in> set (f w)" for w x using same(1) out that by metis
  then have key: "key s' x = key s x" if "w < TIMER_WHEEL" "x \<in> set (f w)" for w x using that by (simp add: key_def)
  have "entry_ok s' w x" if wx: "w < TIMER_WHEEL" "x \<in> set (f w)" for w x
  proof -
    have "ttms s' j = ttms s j" if "a_timer (the (tapps s x)) = Some j" for j using same(2) idle [OF wx] that by metis
    then show ?thesis using entries_okD(2) [OF D(2) wx] unfolding entry_ok_def app [OF wx] by fastforce
  qed
  moreover have "map (key s') (f w) = map (key s) (f w)" if "w < TIMER_WHEEL" for w using key [OF that] by simp
  ultimately have "entries_ok s' f" using entries_okD(1) [OF D(2)] unfolding entries_ok_def by metis
  moreover have "wheels s' f" using D(1) wheels_cong [of s' s f] same by simp
  moreover have "dlist (expd s') ExpdHd (map Elist es)"
    unfolding same(7) using D(5) fresh(2) by (intro INIT_LIST_HEAD_other) auto
  ultimately have "tmr_inv sfs n s' f es" using D(3,4,6) same by (simp add: tmr_inv_def)
  then show "timers_ok sfs n s' f es" using O(2) key same(5) by (auto simp: timers_ok_def ahead_def)
  have "deadline sfs s' w x = deadline sfs s w x" if "w < TIMER_WHEEL" "x \<in> set (f w)" for w x
    using key [OF that] app [OF that] by (simp add: deadline_def)
  then show "pending sfs s' f = pending sfs s f" by (auto simp: pending_def)
qed


text \<open>A time of zero modulo 1024 hours: the entry is counted but goes to no tree.\<close>

lemma arm_nothing:
  assumes "tapps s a = Some ap" "a_timer ap = Some i" "a_ctime ap = 0" "ttms s i = Some tm" "unat (t_rmt tm) mod horizon sfs = 0"
  shows "arm sfs a s = Inr (s\<lparr>tapps := (tapps s)(a \<mapsto> ap\<lparr>a_ctime := 0\<rparr>),
     ttms := (ttms s)(i \<mapsto> tm\<lparr>t_exp := t_rmt tm + clk s 0\<rparr>), tcount := tcount s + 1\<rparr>)"
proof -
  have "packed sfs (t_rmt tm) = 0" by (rule iffD2 [OF packed_any(3) assms(5)])
  moreover have "tmr_slot 0 = None" by (simp add: tmr_slot_None)
  ultimately show ?thesis using calc_time_ok [OF assms(1-4), of sfs] by (simp add: arm_def find_tmr_slot_and_place_def)
qed

definition started :: "bool \<Rightarrow> nat \<Rightarrow> nat \<Rightarrow> nat \<Rightarrow> (nat \<times> nat) set \<Rightarrow> (nat \<times> nat) set" where
  "started sfs n a k P = (if k mod horizon sfs = 0 then P else insert (a, new_deadline sfs n (k mod horizon sfs)) P)"

lemma arm_any:
  assumes ok: "timers_ok sfs n s f es" and free: "\<And>w. w < TIMER_WHEEL \<Longrightarrow> a \<notin> set (f w)" "a \<notin> set es"
    and ap: "tapps s a = Some ap" "a_timer ap = Some i" "a_ctime ap = 0" "ttms s i = Some tm" "t_app tm = Some a"
    and bound: "n + 1024 < 2 ^ 32" and room: "unat (tcount s) + 1 < 2 ^ 32"
  shows "\<exists>s' f'. arm sfs a s = Inr s' \<and> timers_ok sfs n s' f' es \<and> a_timer (the (tapps s' a)) = Some i \<and>
     pending sfs s' f' = started sfs n a (unat (t_rmt tm)) (pending sfs s f)"
proof (cases "unat (t_rmt tm) mod horizon sfs = 0")
  case False
  then have k: "0 < unat (t_rmt tm) mod horizon sfs" by simp
  show ?thesis unfolding started_def if_not_P [OF False] by (rule arm_ok [OF ok free ap k bound room])
next
  case True
  define s' where "s' = s\<lparr>tapps := (tapps s)(a \<mapsto> ap\<lparr>a_ctime := 0\<rparr>),
     ttms := (ttms s)(i \<mapsto> tm\<lparr>t_exp := t_rmt tm + clk s 0\<rparr>), tcount := tcount s + 1\<rparr>"
  note O = timers_okD [OF ok] and D = tmr_invD [OF timers_okD(1) [OF ok]]
  have only: "only_entry a i s s'" by (simp add: only_entry_def s'_def)
  have "entries_ok s' f" by (rule entries_only [OF D(2) only ap(4,5) free(1)])
  moreover have "wheels s' f" using D(1) wheels_cong [of s' s f] by (simp add: s'_def)
  moreover have "unat (tcount s') = unat (tcount s) + 1" using room by (simp add: s'_def unat_word_ariths)
  ultimately have "tmr_inv sfs n s' f es" using D(3-6) by (simp add: tmr_inv_def s'_def)
  moreover have "ahead s' f w" if w: "w < TIMER_WHEEL" for w
  proof -
    have "key s' x = key s x" if "x \<in> set (f w)" for x using only_entry_keeps(2) [OF only ap(4,5)] free(1) [OF w] that by metis
    then show ?thesis using O(2) [OF w] by (simp add: ahead_def s'_def)
  qed
  moreover have "pending sfs s' f = pending sfs s f"
  proof -
    have "(x, d) \<in> pending sfs s' f \<longleftrightarrow> (x, d) \<in> pending sfs s f" for x d
      using pending_other [OF only, of x f f d sfs] free(1) by (cases "x = a") (auto simp: pending_def)
    then show ?thesis by auto
  qed
  ultimately show ?thesis using arm_nothing [OF ap(1-4) True] True
    by (intro exI [of _ s'] exI [of _ f]) (simp add: s'_def started_def timers_ok_def ap(2))
qed

lemma start_timer_ok:
  assumes ok: "timers_ok sfs n s f es" and fresh: "tapps s a = None" "ttms s i = None" "a \<notin> set es"
    and bound: "n + 1024 < 2 ^ 32"
    and room: "tcount s \<le> MAX_TIMERS" "indx s \<noteq> - 1"
  shows "\<exists>s' f'. start_timer sfs (Some i) (Some a) ticks data h flags s = Inr (Some i, s') \<and> timers_ok sfs n s' f' es \<and>
     a_timer (the (tapps s' a)) = Some i \<and> pending sfs s' f' = started sfs n a (unat ticks) (pending sfs s f) \<and>
     tcount s' = tcount s + 1"
proof -
  let ?tm = "zero_timer\<lparr>t_idx := indx s + 1, t_rmt := ticks, t_data := data, t_handler := h,
          t_flags := (if flags \<noteq> 0 then flags else TIMER_ONCE), t_app := Some a\<rparr>"
  let ?ap = "\<lparr>a_timer = Some i, a_ctime = 0, a_rt = 0\<rparr>"
  define s1 where "s1 = s\<lparr>indx := indx s + 1, tbytes := tbytes s + sizeof_TIMER_T + sizeof_APP_TIMER_T,
       tapps := (tapps s)(a \<mapsto> ?ap), ttms := (ttms s)(i \<mapsto> ?tm), expd := INIT_LIST_HEAD (Elist a) (expd s)\<rparr>"
  have idle: "a_timer (the (tapps s x)) \<noteq> Some i" if "w < TIMER_WHEEL" "x \<in> set (f w)" for w x
    using entries_okD(2) [OF tmr_invD(2) [OF timers_okD(1) [OF ok]] that] fresh(2) by (auto simp: entry_ok_def)
  have keeps: "timers_ok sfs n s1 f es" "pending sfs s1 f = pending sfs s f" "\<And>w. w < TIMER_WHEEL \<Longrightarrow> a \<notin> set (f w)"
    using fresh_keeps [where s' = s1, OF ok fresh(1,3) idle] by (simp_all add: s1_def)
  have at: "tapps s1 a = Some ?ap" "a_timer ?ap = Some i" "a_ctime ?ap = 0" "ttms s1 i = Some ?tm" "t_app ?tm = Some a" "t_rmt ?tm = ticks"
    by (simp_all add: s1_def)
  have "unat (tcount s1) + 1 < 2 ^ 32" using room(1) by (simp add: s1_def MAX_TIMERS_def word_le_nat_alt)
  then obtain s' f' where "arm sfs a s1 = Inr s'" "timers_ok sfs n s' f' es" "a_timer (the (tapps s' a)) = Some i"
    "pending sfs s' f' = started sfs n a (unat ticks) (pending sfs s1 f)"
    using arm_any [OF keeps(1) keeps(3) fresh(3) at(1-5) bound] unfolding at(6) by blast
  moreover from this(1) have "tcount s' = tcount s + 1" using arm_counts by (fastforce simp: s1_def)
  ultimately show ?thesis using start_timer_arms [OF room, of sfs i a ticks data h flags] keeps(2) by (auto simp: s1_def)
qed

section \<open>Stopping\<close>

lemma stop_timer_ok:
  assumes ok: "timers_ok sfs n s f es" and w: "w < TIMER_WHEEL" and a: "a \<in> set (f w)"
    and i: "a_timer (the (tapps s a)) = Some i"
  shows "\<exists>s' f'. stop_timer i s = Inr (0, s') \<and> timers_ok sfs n s' f' es \<and>
     pending sfs s' f' = {(x, d) \<in> pending sfs s f. x \<noteq> a} \<and> tapps s' a = None"
proof -
  note O = timers_okD [OF ok] and D = tmr_invD [OF timers_okD(1) [OF ok]]
  obtain tm where e: "ttms s i = Some tm" "t_wheel tm = w" "t_app tm = Some a" "tapps s a \<noteq> None"
    using entries_okD(2) [OF D(2) w a] i by (auto simp: entry_ok_def)
  obtain T where T: "timer_del (Some a) w s = Inr (put_tree w T s)" "wheels (put_tree w T s) (f(w := remove1 a (f w)))"
    using timer_del_ok [OF D(1) w a e(4)] by blast
  define s' where "s' = (put_tree w T s)\<lparr>ttms := (ttms s)(i \<mapsto> tm\<lparr>t_running := False\<rparr>),
     tapps := (tapps s)(a := None), tcount := tcount s - 1\<rparr>"
  let ?f = "f(w := remove1 a (f w))"
  have only: "only_entry a i s s'" by (simp add: only_entry_def s'_def)
  note out = removed_out [OF D(1) w a] and sub = removed_sub [of f w a]
  have wh: "wheels s' ?f" using T(2) wheels_cong [of s' "put_tree w T s" ?f] by (simp add: s'_def)
  have srt: "sorted (map (key s) (?f v))" if "v < TIMER_WHEEL" for v
    using entries_okD(1) [OF D(2) that] by (auto intro: sorted_map_remove1)
  have ent0: "entries_ok s ?f" using srt entries_okD(2) [OF D(2)] sub unfolding entries_ok_def by blast
  have "tmr_inv sfs n s' ?f es"
    unfolding tmr_inv_def
  proof (intro conjI allI impI)
    show "entries_ok s' ?f" by (rule entries_only [OF ent0 only e(1,3) out])
    show "(\<Sum>v<TIMER_WHEEL. length (?f v)) \<le> unat (tcount s')" using count_remove [OF w a D(4)] by (simp add: s'_def)
    show "set (?f v) \<inter> set es = {}" if "v < TIMER_WHEEL" for v using D(6) [OF that] sub [of v] by blast
  qed (use wh D(3,5) in \<open>simp_all add: s'_def\<close>)
  moreover have "ahead s' ?f v" if "v < TIMER_WHEEL" for v
    using O(2) [OF that] out [OF that] sub [of v] only_entry_keeps(2) [OF only e(1,3)] by (fastforce simp: ahead_def s'_def)
  moreover have "pending sfs s' ?f = {(x, d) \<in> pending sfs s f. x \<notin> {a}}" by (rule pending_removed [OF only D(1) w a])
  moreover have "stop_timer i s = Inr (0, s')" using e(1-3) w T(1) by (simp add: stop_timer_def on_timer_def s'_def)
  ultimately show ?thesis
    by (intro exI [of _ s'] exI [of _ ?f]) (simp add: timers_ok_def s'_def)
qed

end
