(* ===== verification/TimerProps.thy ===== *)
theory TimerProps
  imports TimerStart
begin

unbundle bit_operations_syntax

text \<open>
  The properties of the timers, and the bottom half that runs the handlers of expired timers.
\<close>

section \<open>The bottom half\<close>

text \<open>
  What the bottom half needs of a time-out handler: it returns, and it leaves the timers that
  exist and the list of expired timers as they are.  It may start timers.
\<close>

definition hdl_keeps :: "(nat \<Rightarrow> nat \<Rightarrow> 'z timers_scheme \<Rightarrow> 'z timers_scheme res) \<Rightarrow> bool" where
  "hdl_keeps hdl \<longleftrightarrow> (\<forall>h d s. \<exists>s'. hdl h d s = Inr s' \<and> (\<forall>x. tapps s x \<noteq> None \<longrightarrow> tapps s' x = tapps s x) \<and>
     (\<forall>i. ttms s i \<noteq> None \<longrightarrow> ttms s' i = ttms s i) \<and>
     (\<forall>xs. dlist (expd s) ExpdHd xs \<longrightarrow> dlist (expd s') ExpdHd xs))"

text \<open>An expired timer that is not to be repeated.\<close>

definition once :: "'z timers_scheme \<Rightarrow> nat \<Rightarrow> bool" where
  "once s a \<longleftrightarrow> (\<exists>ap i tm. tapps s a = Some ap \<and> a_timer ap = Some i \<and> ttms s i = Some tm \<and> t_app tm = Some a \<and>
     (t_flags tm AND TIMER_ONCE \<noteq> 0 \<or> t_flags tm AND TIMER_REPEAT = 0))"

lemma once_other:
  assumes "once s x" and "x \<noteq> a" and "ttms s i = Some tm" and "t_app tm = Some a"
    and "\<And>y. y \<noteq> a \<Longrightarrow> tapps s y \<noteq> None \<Longrightarrow> tapps s' y = tapps s y"
    and "\<And>j. j \<noteq> i \<Longrightarrow> ttms s j \<noteq> None \<Longrightarrow> ttms s' j = ttms s j"
  shows "once s' x"
proof -
  obtain ap j tm' where e: "tapps s x = Some ap" "a_timer ap = Some j" "ttms s j = Some tm'" "t_app tm' = Some x"
    "t_flags tm' AND TIMER_ONCE \<noteq> 0 \<or> t_flags tm' AND TIMER_REPEAT = 0" using assms(1) by (auto simp: once_def)
  then have "j \<noteq> i" using assms(2-4) by auto
  then show ?thesis using e assms(2) assms(5) [of x] assms(6) [of j] by (auto simp: once_def)
qed

lemma expire_one_once:
  assumes h: "hdl_keeps hdl" and a: "once s a" and d: "dlist (expd s) ExpdHd (map Elist (a # es))"
    and rest: "\<forall>x\<in>set es. once s x"
  shows "\<exists>s'. expire_one sfs hdl al a s = Inr s' \<and> dlist (expd s') ExpdHd (map Elist es) \<and> (\<forall>x\<in>set es. once s' x)"
proof -
  obtain ap i tm where e: "tapps s a = Some ap" "a_timer ap = Some i" "ttms s i = Some tm" "t_app tm = Some a"
    "t_flags tm AND TIMER_ONCE \<noteq> 0 \<or> t_flags tm AND TIMER_REPEAT = 0" using a by (auto simp: once_def)
  obtain s1 where s1: "(case t_handler tm of None \<Rightarrow> Inr s | Some h \<Rightarrow> hdl h (t_data tm) s) = Inr s1"
    "\<And>x. tapps s x \<noteq> None \<Longrightarrow> tapps s1 x = tapps s x" "\<And>j. ttms s j \<noteq> None \<Longrightarrow> ttms s1 j = ttms s j"
    "dlist (expd s1) ExpdHd (map Elist (a # es))"
  proof (cases "t_handler tm")
    case None
    then show ?thesis using that [of s] d by simp
  next
    case (Some g)
    then show ?thesis using h d that unfolding hdl_keeps_def by simp metis
  qed
  have del: "dlist (list_del (Elist a) (expd s1)) ExpdHd (map Elist es)"
    using list_del_dlist [OF s1(4), of "Elist a"] by simp
  have at: "tapps s1 a = Some ap" "ttms s1 i = Some tm" using s1(2) [of a] s1(3) [of i] e by simp_all
  have "\<exists>s'. expire_one sfs hdl al a s = Inr s' \<and> expd s' = list_del (Elist a) (expd s1) \<and>
     tapps s' = (tapps s1)(a := None) \<and> (\<forall>j. j \<noteq> i \<longrightarrow> ttms s' j = ttms s1 j)"
    using e at s1(1) by (auto simp: expire_one_def on_timer_def free_timer_def Let_def)
  then obtain s' where s': "expire_one sfs hdl al a s = Inr s'" "expd s' = list_del (Elist a) (expd s1)"
    "tapps s' = (tapps s1)(a := None)" "\<And>j. j \<noteq> i \<Longrightarrow> ttms s' j = ttms s1 j" by blast
  have "a \<notin> set es" using d by (auto simp: dlist_def)
  then have "once s' x" if "x \<in> set es" for x
    using once_other [of s x a i tm s'] that rest e(3,4) s1(2,3) s'(3,4) by auto
  then show ?thesis using s'(1,2) del by auto
qed

lemma expd_loop_ok:
  assumes h: "hdl_keeps hdl" and "dlist (expd s) ExpdHd (map Elist es)" and "\<forall>x\<in>set es. once s x"
    and "p = lnext (expd s) ExpdHd" and "q = lnext (expd s) p"
  shows "\<exists>s'. expd_loop sfs hdl al p q s = Some (Inr s') \<and> dlist (expd s') ExpdHd []"
  using assms(2-)
proof (induction es arbitrary: s p q)
  case Nil
  then have "p = ExpdHd" by (simp add: dlist_def)
  then show ?case using Nil(1) by (subst expd_loop.simps) simp
next
  case (Cons a es)
  have p: "p = Elist a" using Cons.prems(1,3) by (simp add: dlist_def)
  have q: "q = (case es of [] \<Rightarrow> ExpdHd | b # _ \<Rightarrow> Elist b)"
    using Cons.prems(1,4) p by (cases es) (auto simp: dlist_def)
  obtain s1 where s1: "expire_one sfs hdl al a s = Inr s1" "dlist (expd s1) ExpdHd (map Elist es)" "\<forall>x\<in>set es. once s1 x"
    using expire_one_once [OF h _ Cons.prems(1), where sfs = sfs and al = al] Cons.prems(2) by auto
  have "q = lnext (expd s1) ExpdHd" using s1(2) q by (cases es) (auto simp: dlist_def)
  then obtain s' where "expd_loop sfs hdl al q (lnext (expd s1) q) s1 = Some (Inr s')" "dlist (expd s') ExpdHd []"
    using Cons.IH [OF s1(2,3)] by blast
  then show ?case using s1(1) p by (subst expd_loop.simps) simp
qed


section \<open>Properties\<close>

text \<open>The state before the first timer, with arbitrary links of the expired list.\<close>

definition no_timers :: "eaddr lheap \<Rightarrow> timers" where
  "no_timers h = timer_rq_init \<lparr>ttms = (\<lambda>_. None), tapps = (\<lambda>_. None),
     rnodes = (\<lambda>_. \<lparr>rb_par = None, rb_black = False, rb_left = None, rb_right = None\<rparr>), roots = (\<lambda>_. None),
     tcount = 0, clk = (\<lambda>_. 0), indx = 0, expd = h, tbytes = 0\<rparr>"

lemma no_timers_ok: "timers_ok sfs 0 (no_timers h) (\<lambda>_. []) []"
proof -
  have "rep (tree_at w (no_timers h)) [] Lf" for w
    by (simp add: rep_def tree_at_def no_timers_def timer_rq_init_def)
  moreover have "rb_inv Lf" by (simp add: rb_inv_def)
  ultimately have "wheels (no_timers h) (\<lambda>_. [])" by (auto simp: wheels_def intro!: exI [of _ Lf])
  then show ?thesis
    using INIT_LIST_HEAD_dlist [of ExpdHd h]
    by (simp add: timers_ok_def tmr_inv_def entries_ok_def clock_ok_def ahead_def no_timers_def timer_rq_init_def)
qed

lemma no_timers_pending: "pending sfs s (\<lambda>_. []) = {}"
  by (simp add: pending_def)

text \<open>
  C5: the timers implement a set of deadlines.  However the timers are spread over the trees of
  ticks, seconds, minutes and hours, \<open>k\<close> ticks of the clock return without a fault, put
  exactly the timers whose deadline has been reached on the list of expired timers, in the order
  of their deadlines and behind those that were there, and leave all others running with the
  deadline they had.
\<close>

theorem timers_expire_at_deadline:
  assumes "timers_ok sfs n s f es" and "n + k + 1024 < 2 ^ 32"
  shows "\<exists>s' f' new. run_ticks sfs k s = Inr s' \<and> timers_ok sfs (n + k) s' f' (es @ new) \<and>
     distinct new \<and> set new = {x. \<exists>d. (x, d) \<in> pending sfs s f \<and> d \<le> n + k} \<and>
     sorted_wrt (\<lambda>x y. \<exists>d e. (x, d) \<in> pending sfs s f \<and> (y, e) \<in> pending sfs s f \<and> d \<le> e) new \<and>
     pending sfs s' f' = {(x, d) \<in> pending sfs s f. n + k < d}"
  using ticks_expire [OF assms] unfolding expired_by_def by blast

text \<open>
  C6: \<^verbatim>\<open>start_timer\<close> with memory for the timer and the entry returns the timer and adds one
  deadline.  With \<open>k\<close> the requested ticks modulo 1024 hours and \<open>u\<close> the largest of one tick,
  second, minute or hour that is not above \<open>k\<close>, the deadline is \<open>k\<close> ticks after the last
  full \<open>u\<close>: up to one \<open>u\<close> before \<open>k\<close> ticks have passed.  When \<open>k\<close> is zero the timer has no
  deadline and never expires.  In both cases \<^verbatim>\<open>tmrrq.count\<close> counts one timer more.
\<close>

theorem start_timer_deadline:
  assumes "timers_ok sfs n s f es" and "tapps s a = None" and "ttms s i = None" and "a \<notin> set es"
    and "n + 1024 < 2 ^ 32" and "tcount s \<le> MAX_TIMERS" and "indx s \<noteq> - 1"
  shows "\<exists>s' f'. start_timer sfs (Some i) (Some a) ticks data h flags s = Inr (Some i, s') \<and> timers_ok sfs n s' f' es \<and>
     a_timer (the (tapps s' a)) = Some i \<and> pending sfs s' f' = (let k = unat ticks mod (1024 * (3600 * tps sfs)) in
       if k = 0 then pending sfs s f else insert (a, n - n mod granule sfs k + k) (pending sfs s f)) \<and>
     tcount s' = tcount s + 1"
  using start_timer_ok [OF assms] unfolding started_def new_deadline_def horizon_def Let_def .

text \<open>
  C36: \<^verbatim>\<open>stop_timer\<close> on a running timer returns 0, takes exactly that timer off its tree and
  frees its entry; the other timers keep their deadlines.
\<close>

theorem stop_timer_forgets:
  assumes "timers_ok sfs n s f es" and "w < TIMER_WHEEL" and "a \<in> set (f w)" and "a_timer (the (tapps s a)) = Some i"
  shows "\<exists>s' f'. stop_timer i s = Inr (0, s') \<and> timers_ok sfs n s' f' es \<and>
     pending sfs s' f' = {(x, d) \<in> pending sfs s f. x \<noteq> a} \<and> tapps s' a = None"
  using assms by (rule stop_timer_ok)

text \<open>
  the bottom half returns and empties the list of expired timers when none of them is to be
  repeated, for all time-out handlers that return and leave the existing timers alone.
\<close>

theorem btm_hlf_drains:
  assumes "hdl_keeps hdl" and "dlist (expd s) ExpdHd (map Elist es)" and "\<forall>x\<in>set es. once s x"
  shows "\<exists>s'. btm_hlf False hdl al s = Inr s' \<and> list_empty ExpdHd (expd s')"
proof -
  obtain s' where "expd_loop False hdl al (lnext (expd s) ExpdHd) (lnext (expd s) (lnext (expd s) ExpdHd)) s = Some (Inr s')"
    "dlist (expd s') ExpdHd []" using expd_loop_ok [OF assms refl refl] by blast
  then show ?thesis
    by (auto simp: btm_hlf_def process_expd_timers_def returned_def Let_def list_empty_dlist)
qed

text \<open>
  a timer with \<^verbatim>\<open>TIMER_REPEAT\<close> crashes when it expires: \<^verbatim>\<open>timer_restart\<close> does not set
  \<^verbatim>\<open>apptimer->timer\<close>, which \<^verbatim>\<open>calc_time\<close> follows.
\<close>

theorem repeat_timer_faults:
  assumes "tapps s a = Some ap" and "a_timer ap = Some i" and "ttms s i = Some tm" and "t_handler tm = None"
    and "t_flags tm = TIMER_REPEAT" and "\<And>s. al s = Some b" and "a \<noteq> b"
  shows "expire_one sfs hdl al a s = Inl NullDeref"
  using assms
  by (simp add: expire_one_def on_timer_def timer_restart_def alloc_app_def arm_def calc_time_def TIMER_REPEAT_def
      TIMER_ONCE_def Let_def)


section \<open>Witnesses\<close>

text \<open>A timer of 130 ticks, a second and 30 ticks, on an empty system.\<close>

definition demo_timers :: timers where
  "demo_timers = no_timers \<lparr>lnext = id, lprev = id\<rparr>"

lemma demo_timers_simps:
  "tapps demo_timers a = None" "ttms demo_timers i = None" "tcount demo_timers = 0" "indx demo_timers = 0"
  by (simp_all add: demo_timers_def no_timers_def timer_rq_init_def)

lemma demo_timers_ok: "timers_ok sfs 0 demo_timers (\<lambda>_. []) []"
  unfolding demo_timers_def by (rule no_timers_ok)

lemma demo_started:
  "\<exists>s f. start_timer False (Some 0) (Some 0) 130 0 None 0 demo_timers = Inr (Some 0, s) \<and> timers_ok False 0 s f [] \<and>
     a_timer (the (tapps s 0)) = Some 0 \<and> pending False s f = {(0, 130)}"
  using start_timer_ok [OF demo_timers_ok, of 0 0 False 130 0 None 0]
  by (auto simp: demo_timers_simps MAX_TIMERS_def started_def horizon_def new_deadline_def tm_get_ticks_per_second_def no_timers_pending)

lemma beyond: "{d :: nat. d = m \<and> k < d} = (if k < m then {m} else {})"
  by auto

lemma run_ticks_idle: "tcount s = 0 \<Longrightarrow> run_ticks sfs k s = Inr (s\<lparr>clk := (tick_clk sfs ^^ k) (clk s)\<rparr>)"
  by (induction k arbitrary: s) (simp_all add: run_tick_def update_times_def timers_pending_for_service_def funpow_swap1)

theorem timers_expire_at_deadline_witness:
  "\<exists>s s' f'. start_timer False (Some 0) (Some 0) 130 0 None 0 demo_timers = Inr (Some 0, s) \<and>
     run_ticks False 129 s = Inr s' \<and> timers_ok False 129 s' f' [] \<and> pending False s' f' = {(0, 130)} \<and>
     (\<exists>s'' f''. run_ticks False 130 s = Inr s'' \<and> timers_ok False 130 s'' f'' [0] \<and> pending False s'' f'' = {})"
proof -
  obtain s f where s: "start_timer False (Some 0) (Some 0) 130 0 None 0 demo_timers = Inr (Some 0, s)" "timers_ok False 0 s f []"
    "pending False s f = {(0, 130)}" using demo_started by blast
  obtain s1 f1 n1 where a: "run_ticks False 129 s = Inr s1" "timers_ok False 129 s1 f1 n1" "set n1 = {}" "pending False s1 f1 = {(0, 130)}"
    using timers_expire_at_deadline [OF s(2), of 129] s(3) by (auto simp: beyond)
  obtain s2 f2 n2 where b: "run_ticks False 130 s = Inr s2" "timers_ok False 130 s2 f2 n2" "set n2 = {0}" "pending False s2 f2 = {}"
    using timers_expire_at_deadline [OF s(2), of 130] s(3) by (auto simp: beyond)
  have "distinct n2" using expired_distinct [OF b(2)] .
  then have "n2 = [0]" using b(3) by (cases n2 rule: remdups_adj.cases) auto
  with s(1) a b show ?thesis by auto
qed

text \<open>Started one tick before a full second, a timer of one second expires at the next tick.\<close>

theorem start_timer_deadline_witness:
  "\<exists>s s' f'. run_ticks False 199 demo_timers = Inr s \<and>
     start_timer False (Some 0) (Some 0) 100 0 None 0 s = Inr (Some 0, s') \<and> timers_ok False 199 s' f' [] \<and>
     a_timer (the (tapps s' 0)) = Some 0 \<and> pending False s' f' = {(0, 200)} \<and> tcount s' = 1"
proof -
  define s where "s = demo_timers\<lparr>clk := (tick_clk False ^^ 199) (clk demo_timers)\<rparr>"
  have run: "run_ticks False 199 demo_timers = Inr s" unfolding s_def by (rule run_ticks_idle) (rule demo_timers_simps)
  obtain f where ok: "timers_ok False 199 s f []" "pending False s f = {}"
    using ticks_expire [OF demo_timers_ok, of 199 False] run by (auto simp: no_timers_pending expired_by_def)
  have "\<exists>s' f'. start_timer False (Some 0) (Some 0) 100 0 None 0 s = Inr (Some 0, s') \<and> timers_ok False 199 s' f' [] \<and>
     a_timer (the (tapps s' 0)) = Some 0 \<and> pending False s' f' = {(0, 200)} \<and> tcount s' = 1"
    using start_timer_deadline [OF ok(1), of 0 0 100 0 None 0] ok(2)
    by (simp add: s_def demo_timers_simps MAX_TIMERS_def Let_def granule_def tm_get_ticks_per_second_def)
  with run show ?thesis by blast
qed

theorem stop_timer_forgets_witness:
  "\<exists>s s' f'. start_timer False (Some 0) (Some 0) 130 0 None 0 demo_timers = Inr (Some 0, s) \<and>
     stop_timer 0 s = Inr (0, s') \<and> timers_ok False 0 s' f' [] \<and> pending False s' f' = {} \<and> tapps s' 0 = None"
proof -
  obtain s f where s: "start_timer False (Some 0) (Some 0) 130 0 None 0 demo_timers = Inr (Some 0, s)" "timers_ok False 0 s f []"
    "pending False s f = {(0, 130)}" "a_timer (the (tapps s 0)) = Some 0" using demo_started by blast
  have "(0, 130) \<in> pending False s f" using s(3) by simp
  then obtain w where w: "w < TIMER_WHEEL" "0 \<in> set (f w)" by (auto simp: pending_def)
  then show ?thesis using stop_timer_forgets [OF s(2) w s(4)] s(1,3) by auto
qed

text \<open>Two expired timers, linked by hand, with a handler for the first.\<close>

definition demo_expired :: timers where
  "demo_expired = demo_timers\<lparr>
     ttms := [4 \<mapsto> zero_timer\<lparr>t_flags := TIMER_ONCE, t_app := Some 0, t_handler := Some 7\<rparr>,
              5 \<mapsto> zero_timer\<lparr>t_flags := TIMER_FOREVER, t_app := Some 1\<rparr>,
              6 \<mapsto> zero_timer\<lparr>t_flags := TIMER_REPEAT, t_app := Some 2\<rparr>],
     tapps := [0 \<mapsto> \<lparr>a_timer = Some 4, a_ctime = 0, a_rt = 9\<rparr>, 1 \<mapsto> \<lparr>a_timer = Some 5, a_ctime = 0, a_rt = 9\<rparr>,
               2 \<mapsto> \<lparr>a_timer = Some 6, a_ctime = 0, a_rt = 9\<rparr>],
     expd := list_add_tail (Elist 1) ExpdHd (list_add_tail (Elist 0) ExpdHd (expd demo_timers))\<rparr>"

theorem btm_hlf_drains_witness:
  "\<exists>s'. btm_hlf False (\<lambda>h d s. Inr (s\<lparr>indx := indx s + 1\<rparr>)) (\<lambda>_. None) demo_expired = Inr s' \<and> list_empty ExpdHd (expd s')"
proof (rule btm_hlf_drains)
  have "dlist (expd demo_timers) ExpdHd []" using tmr_invD(5) [OF timers_okD(1) [OF demo_timers_ok]] by simp
  from list_add_tail_dlist [OF list_add_tail_dlist [OF this, of "Elist 0"], of "Elist 1"]
  show "dlist (expd demo_expired) ExpdHd (map Elist [0, 1])" by (simp add: demo_expired_def)
  show "hdl_keeps (\<lambda>h d s. Inr (s\<lparr>indx := indx s + 1\<rparr>))" by (simp add: hdl_keeps_def)
  show "\<forall>x\<in>set [0, 1]. once demo_expired x"
    by (simp add: once_def demo_expired_def TIMER_ONCE_def TIMER_REPEAT_def TIMER_FOREVER_def)
qed

theorem repeat_timer_faults_witness:
  "expire_one False (\<lambda>h d s. Inr s) (\<lambda>_. Some 3) 2 demo_expired = Inl NullDeref"
  by (rule repeat_timer_faults [where b = 3 and i = 6 and tm = "zero_timer\<lparr>t_flags := TIMER_REPEAT, t_app := Some 2\<rparr>"
        and ap = "\<lparr>a_timer = Some 6, a_ctime = 0, a_rt = 9\<rparr>"]) (simp_all add: demo_expired_def zero_timer_def)

end
