(* ===== verification/SoftIrq.thy ===== *)
theory SoftIrq
  imports Kernel TimerProps Mempool
begin

unbundle bit_operations_syntax

text \<open>
  The soft interrupts of \<^verbatim>\<open>core/soft_irq.c\<close> and what they connect: the tick interrupt
  (\<^verbatim>\<open>core/interrupt.c\<close>), the timers (\<^verbatim>\<open>TIMERS/src/thr_spec.c\<close>, built with
  \<^verbatim>\<open>SFS_WANTED\<close>), the sleeping calls of \<^verbatim>\<open>core/thread_lib.c\<close> and the start-up of the
  library.

  The state \<open>sys\<close> of the whole library extends the state of the timers by the scheduler, the
  memory pools and the soft interrupts, so that the operations of the timers apply to it as they
  are; the counter of allocated bytes is the sum of \<open>alloc_size\<close> of the scheduler and \<open>tbytes\<close> of
  the timers.  Function pointers are numbers; the two the library itself stores are \<^verbatim>\<open>btm_hlf\<close>, the
  action of the timers' soft interrupt, and \<^verbatim>\<open>wakeup_task\<close>, the handler of a sleep.
\<close>

section \<open>Data\<close>

datatype irq_status = SLEEPING | WAKE_UP

record soft_irq =
  irq_id :: u32
  irq_action :: "nat option"
  irq_stat :: irq_status

text \<open>The nodes of the list: \<^verbatim>\<open>sft_irq\<close> and the \<^verbatim>\<open>nxtirq\<close> of a \<^verbatim>\<open>struct soft_irq\<close>.\<close>

datatype iaddr = SftIrq | Nxtirq u32

record sys = timers +
  ksched :: sched
  kpools :: mempool
  sft_irq :: "iaddr lheap"
  sirqs :: "u32 \<Rightarrow> soft_irq option"
  softirq_d :: "nat option"
  tmr_irq :: u32            \<comment> \<open>the static \<open>irq\<close> of \<open>thr_spec.c\<close>\<close>

definition on_sched :: "(sched \<Rightarrow> sched res) \<Rightarrow> sys \<Rightarrow> sys res" where
  "on_sched g s = andThen (g (ksched s)) (\<lambda>k. Inr (s\<lparr>ksched := k\<rparr>))"

text \<open>The soft interrupt at an address; address 0 is NULL.\<close>

definition irq_at :: "u32 \<Rightarrow> sys \<Rightarrow> soft_irq res" where
  "irq_at p s = (if p = 0 then Inl NullDeref
     else case sirqs s p of None \<Rightarrow> Inl UseAfterFree | Some q \<Rightarrow> Inr q)"

definition set_irq_stat :: "irq_status \<Rightarrow> u32 \<Rightarrow> sys \<Rightarrow> sys res" where
  "set_irq_stat st p s = andThen (irq_at p s) (\<lambda>q. Inr (s\<lparr>sirqs := (sirqs s)(p \<mapsto> q\<lparr>irq_stat := st\<rparr>)\<rparr>))"

section \<open>The soft interrupts\<close>

definition init_soft_irq :: "alloc_env \<Rightarrow> sys \<Rightarrow> sys res" where
  "init_soft_irq ae s =
     (let s = s\<lparr>sft_irq := INIT_LIST_HEAD SftIrq (sft_irq s)\<rparr>
      in andThen (spawn_softirqd ae (ksched s)) (\<lambda>(q, k). Inr (s\<lparr>ksched := k, softirq_d := q\<rparr>)))"

definition sizeof_soft_irq :: u32 where "sizeof_soft_irq = 20"

definition alloc_soft_irq :: "u32 option \<Rightarrow> sys \<Rightarrow> sys" where
  "alloc_soft_irq new s =
     (let s = s\<lparr>ksched := tm_calloc 1 sizeof_soft_irq (ksched s)\<rparr>
      in case new of None \<Rightarrow> s
         | Some p \<Rightarrow> s\<lparr>sirqs := (sirqs s)(p \<mapsto> \<lparr>irq_id = 0, irq_action = None, irq_stat = SLEEPING\<rparr>)\<rparr>)"

definition free_softirq :: "u32 \<Rightarrow> sys \<Rightarrow> sys" where
  "free_softirq p s = s\<lparr>sirqs := (sirqs s)(p := None), ksched := tm_free sizeof_soft_irq (ksched s)\<rparr>"

text \<open>The id is the address; \<^verbatim>\<open>-1\<close> tells that there is no memory.\<close>

definition softirq_create :: "u32 option \<Rightarrow> nat option \<Rightarrow> sys \<Rightarrow> u32 \<times> sys" where
  "softirq_create new action s =
     (let s = alloc_soft_irq new s in
      case new of None \<Rightarrow> (- 1, s)
      | Some p \<Rightarrow>
          (p, s\<lparr>sirqs := (sirqs s)(p \<mapsto> \<lparr>irq_id = p, irq_action = action, irq_stat = SLEEPING\<rparr>),
                sft_irq := list_add_tail (Nxtirq p) SftIrq (INIT_LIST_HEAD (Nxtirq p) (sft_irq s))\<rparr>))"

text \<open>
  One pass of \<^verbatim>\<open>softirqd\<close> over the list.  \<open>act\<close> is what the actions do; the cursor moves on
  after the body of the loop.
\<close>

definition softirq_turn :: "(nat \<Rightarrow> sys \<Rightarrow> sys res) \<Rightarrow> u32 \<Rightarrow> sys \<Rightarrow> sys res" where
  "softirq_turn act p s =
     andThen (irq_at p s) (\<lambda>q.
       case irq_action q of
         None \<Rightarrow> Inr s
       | Some a \<Rightarrow> if irq_stat q = WAKE_UP then andThen (act a s) (set_irq_stat SLEEPING p) else Inr s)"

partial_function (option) softirq_loop :: "(nat \<Rightarrow> sys \<Rightarrow> sys res) \<Rightarrow> iaddr \<Rightarrow> sys \<Rightarrow> sys res option" where
  [code]: "softirq_loop act pnode s =
     (case pnode of SftIrq \<Rightarrow> Some (Inr s)
      | Nxtirq p \<Rightarrow>
          (case softirq_turn act p s of Inl e \<Rightarrow> Some (Inl e)
           | Inr s \<Rightarrow> softirq_loop act (lnext (sft_irq s) pnode) s))"

definition softirq_pass :: "(nat \<Rightarrow> sys \<Rightarrow> sys res) \<Rightarrow> sys \<Rightarrow> sys res" where
  "softirq_pass act s = returned (softirq_loop act (lnext (sft_irq s) SftIrq) s)"

text \<open>One turn of the endless loop of the task, up to the point where it has switched away.\<close>

definition softirqd :: "(nat \<Rightarrow> sys \<Rightarrow> sys res) \<Rightarrow> u32 \<Rightarrow> env \<Rightarrow> sys \<Rightarrow> sys res" where
  "softirqd act now e s =
     andThen (softirq_pass act s) (\<lambda>s.
     andThen (on_sched (add_current_task_wait_Q now) s) (on_sched (schedule e)))"

definition softirq_wakeup :: "u32 \<Rightarrow> sys \<Rightarrow> sys res" where
  "softirq_wakeup now s =
     (case softirq_d s of None \<Rightarrow> Inl NullDeref | Some d \<Rightarrow> on_sched (wakeup_task now d) s)"

definition wake_irq :: "u32 \<Rightarrow> sys \<Rightarrow> sys res" where
  "wake_irq irqid s = set_irq_stat WAKE_UP irqid s"

section \<open>The timers in the library\<close>

definition btm_hlf_fn :: nat where "btm_hlf_fn = 1"
definition wakeup_task_fn :: nat where "wakeup_task_fn = 2"

text \<open>What a stored function does; \<open>app\<close> are the functions of the application.\<close>

definition run_handler :: "u32 \<Rightarrow> (nat \<Rightarrow> nat \<Rightarrow> sys \<Rightarrow> sys res) \<Rightarrow> nat \<Rightarrow> nat \<Rightarrow> sys \<Rightarrow> sys res" where
  "run_handler now app h d s = (if h = wakeup_task_fn then on_sched (wakeup_task now d) s else app h d s)"

definition run_action ::
    "u32 \<Rightarrow> (nat \<Rightarrow> nat \<Rightarrow> sys \<Rightarrow> sys res) \<Rightarrow> (sys \<Rightarrow> nat option) \<Rightarrow> (nat \<Rightarrow> sys \<Rightarrow> sys res) \<Rightarrow> nat \<Rightarrow> sys \<Rightarrow> sys res" where
  "run_action now app al act a s = (if a = btm_hlf_fn then btm_hlf True (run_handler now app) al s else act a s)"

text \<open>The locks of the wheels, which \<^verbatim>\<open>sync_lock\<close> and \<^verbatim>\<open>sync_unlock\<close> never look at, are left out.\<close>

definition init_timer_mgr :: "u32 option \<Rightarrow> sys \<Rightarrow> sys" where
  "init_timer_mgr new s =
     (let (i, s) = softirq_create new (Some btm_hlf_fn) (timer_rq_init s) in s\<lparr>tmr_irq := i\<rparr>)"

text \<open>\<^verbatim>\<open>update_times\<close> with the soft interrupt that \<^verbatim>\<open>service_timers\<close> asks for.\<close>

definition tick_times :: "u32 \<Rightarrow> sys \<Rightarrow> sys res" where
  "tick_times now s =
     andThen (update_times True s) (\<lambda>(b, s).
       if b then andThen (wake_irq (tmr_irq s) s) (softirq_wakeup now) else Inr s)"

definition update_process_time :: "u32 \<Rightarrow> sched \<Rightarrow> sched res" where
  "update_process_time now s = account_task_time_stats now s"

definition tick_tmr_intr :: "u32 \<Rightarrow> env \<Rightarrow> sys \<Rightarrow> sys res" where
  "tick_tmr_intr now e s =
     andThen (on_sched (\<lambda>k. Inr ((signals_block SIGALRM k)\<lparr>jiffies := jiffies k + 1\<rparr>)) s) (\<lambda>s.
     andThen (tick_times now s) (\<lambda>s.
     andThen (on_sched (update_process_time now) s) (\<lambda>s.
       if sched_need (ksched s) then on_sched (schedule e) s
       else on_sched (\<lambda>k. Inr (signals_unblock SIGALRM k)) s)))"

definition TICK_TIMER_GRANULARITY :: u32 where "TICK_TIMER_GRANULARITY = 20"

definition tm_convert_msec_to_tick :: "u32 \<Rightarrow> u32" where
  "tm_convert_msec_to_tick msecs = msecs div TICK_TIMER_GRANULARITY"

text \<open>
  What \<^verbatim>\<open>sleep\<close> and \<^verbatim>\<open>tm_msleep\<close> do before the pass of the scheduler: a timer that wakes
  the caller, whose failure nobody looks at, and the wait queue.
\<close>

definition sleep_park :: "nat option \<Rightarrow> nat option \<Rightarrow> u32 \<Rightarrow> u32 \<Rightarrow> sys \<Rightarrow> sys res" where
  "sleep_park newt newa ticks now s =
     (case current (ksched s) of None \<Rightarrow> Inl NullDeref
      | Some c \<Rightarrow>
          andThen (start_timer True newt newa ticks c (Some wakeup_task_fn) 0 s) (\<lambda>(_, s).
          on_sched (\<lambda>k. add_task_to_wait_Q now (current k) k) s))"

definition sleep_ticks :: "nat option \<Rightarrow> nat option \<Rightarrow> u32 \<Rightarrow> u32 \<Rightarrow> env \<Rightarrow> sys \<Rightarrow> sys res" where
  "sleep_ticks newt newa ticks now e s = andThen (sleep_park newt newa ticks now s) (on_sched (schedule e))"

text \<open>\<^verbatim>\<open>sleep (0)\<close> returns without a value.\<close>

definition sleep :: "nat option \<Rightarrow> nat option \<Rightarrow> u32 \<Rightarrow> u32 \<Rightarrow> env \<Rightarrow> sys \<Rightarrow> (u32 option \<times> sys) res" where
  "sleep newt newa secs now e s =
     (if secs = 0 then Inr (None, s)
      else andThen (sleep_ticks newt newa (secs * tm_get_ticks_per_second True) now e s) (\<lambda>s. Inr (Some 0, s)))"

definition tm_msleep :: "nat option \<Rightarrow> nat option \<Rightarrow> u32 \<Rightarrow> u32 \<Rightarrow> env \<Rightarrow> sys \<Rightarrow> (int \<times> sys) res" where
  "tm_msleep newt newa msecs now e s =
     (if msecs < 20 then Inr (- 1, s)
      else andThen (sleep_ticks newt newa (tm_convert_msec_to_tick msecs) now e s) (\<lambda>s. Inr (0, s)))"

text \<open>
  \<^verbatim>\<open>tmlib_init\<close>: in this build \<^verbatim>\<open>msg_Q_init\<close> is empty, and \<^verbatim>\<open>setup_interrupt\<close> only
  talks to the operating system.
\<close>

definition tmlib_init :: "alloc_env \<Rightarrow> alloc_env \<Rightarrow> alloc_env \<Rightarrow> u32 \<Rightarrow> u32 option \<Rightarrow> sys \<Rightarrow> sys res" where
  "tmlib_init aem aei aes ticks new s =
     andThen (on_sched (\<lambda>k. create_parent_task aem ticks (init_scheduler k)) s) (\<lambda>s.
     andThen (on_sched (create_idle_task aei) s) (\<lambda>s.
     andThen (init_soft_irq aes s) (\<lambda>s.
     andThen (on_sched (\<lambda>k. Inr (init_io k)) s) (\<lambda>s.
     Inr (init_timer_mgr new (s\<lparr>kpools := mem_init (kpools s)\<rparr>))))))"

end
