(* ===== verification/TimerFrame.thy ===== *)
theory TimerFrame
  imports TimerProps
begin

unbundle bit_operations_syntax

text \<open>
  What the clock leaves alone: a timer keeps its handler, data and flags and an entry its timer
  until the bottom half handles them, and the state around the timers does not change.
\<close>

section \<open>Views of a timer\<close>

definition same_view :: "(tm_timer \<Rightarrow> 'v) \<Rightarrow> 'z timers_scheme \<Rightarrow> 'z timers_scheme \<Rightarrow> bool" where
  "same_view view s s' \<longleftrightarrow> map_option view \<circ> ttms s' = map_option view \<circ> ttms s \<and>
     map_option a_timer \<circ> tapps s' = map_option a_timer \<circ> tapps s \<and> timers.more s' = timers.more s"

lemma same_view_refl [simp]: "same_view view s s"
  by (simp add: same_view_def)

lemma same_view_trans [trans]: "same_view view s s' \<Longrightarrow> same_view view s' s'' \<Longrightarrow> same_view view s s''"
  by (simp add: same_view_def)

lemma same_view_fields [simp]:
  "same_view view s (s'\<lparr>tcount := c\<rparr>) = same_view view s s'" "same_view view s (s'\<lparr>clk := k\<rparr>) = same_view view s s'"
  "same_view view s (s'\<lparr>expd := h\<rparr>) = same_view view s s'" "same_view view s (put_tree w t s') = same_view view s s'"
  by (simp_all add: same_view_def put_tree_def)

lemma same_view_timer: "same_view view s s' \<Longrightarrow> ttms s i = Some tm \<Longrightarrow> \<exists>tm'. ttms s' i = Some tm' \<and> view tm' = view tm"
  by (auto simp: same_view_def fun_eq_iff dest!: spec [of _ i])

lemma on_timer_view:
  assumes "on_timer q g s = Inr s'" and "\<And>t. view (g t) = view t"
  shows "same_view view s s'"
  using assms by (auto simp: on_timer_def fault_simps same_view_def fun_eq_iff)

lemma on_app_view:
  assumes "on_app q g s = Inr s'" and "\<And>a. a_timer (g a) = a_timer a"
  shows "same_view view s s'"
  using assms by (auto simp: on_app_def fault_simps same_view_def fun_eq_iff)

lemma timer_add_view: "timer_add a w s = Inr s' \<Longrightarrow> same_view view s s'"
  by (auto simp: timer_add_def fault_simps Let_def)

lemma timer_del_view: "timer_del q w s = Inr s' \<Longrightarrow> same_view view s s'"
  by (auto simp: timer_del_def fault_simps)

section \<open>The frame of the clock\<close>

text \<open>The clock changes the wheel of a timer and whether it runs, and nothing that a view without these sees.\<close>

locale timer_view =
  fixes view :: "tm_timer \<Rightarrow> 'v"
  assumes view_wheel: "view (t\<lparr>t_wheel := w\<rparr>) = view t"
    and view_running: "view (t\<lparr>t_running := b\<rparr>) = view t"
begin

lemma placed:
  assumes "find_tmr_slot_and_place a s = Inr s'"
  shows "same_view view s s'"
proof -
  obtain ap where ap: "tapps s a = Some ap" using assms by (auto simp: find_tmr_slot_and_place_def fault_simps)
  show ?thesis
  proof (cases "tmr_slot (a_ctime ap)")
    case None
    then show ?thesis using assms ap by (simp add: find_tmr_slot_and_place_def)
  next
    case (Some wt)
    obtain w t where wt: "wt = (w, t)" by (cases wt)
    obtain s1 s2 s3 where c: "on_app (Some a) (\<lambda>ap. ap\<lparr>a_rt := clk s w + t\<rparr>) s = Inr s1"
      "on_timer (a_timer ap) (\<lambda>t. t\<lparr>t_wheel := w\<rparr>) s1 = Inr s2"
      "on_timer (a_timer ap) (\<lambda>t. t\<lparr>t_running := True\<rparr>) s2 = Inr s3" "timer_add a w s3 = Inr s'"
      using assms ap Some wt by (auto simp: find_tmr_slot_and_place_def update_wheel_def andThen_eq_Inr)
    have "same_view view s s1" by (rule on_app_view [OF c(1)]) simp
    also have "same_view view s1 s2" by (rule on_timer_view [OF c(2)]) (rule view_wheel)
    also have "same_view view s2 s3" by (rule on_timer_view [OF c(3)]) (rule view_running)
    also have "same_view view s3 s'" by (rule timer_add_view [OF c(4)])
    finally show ?thesis .
  qed
qed

lemma processed_one:
  assumes "process_one w a s = Inr s'"
  shows "same_view view s s'"
proof -
  obtain s1 s2 where c: "clear_wheel_timer a s = Inr s1" "timer_del (Some a) w s1 = Inr s2" "timer_expiry_action a s2 = Inr s'"
    using assms by (auto simp: process_one_def fault_simps)
  have "same_view view s s1" using c(1) on_app_view [of "Some a" _ s s1 view] by (auto simp: clear_wheel_timer_def andThen_eq_Inr split: if_splits)
  also have "same_view view s1 s2" by (rule timer_del_view [OF c(2)])
  also have "same_view view s2 s'"
  proof (cases "a_ctime (the (tapps s2 a)) = 0")
    case True
    obtain ap where "tapps s2 a = Some ap" using c(3) by (auto simp: timer_expiry_action_def fault_simps)
    with c(3) True obtain s3 where "on_timer (a_timer ap) (\<lambda>t. t\<lparr>t_running := False\<rparr>) (s2\<lparr>tcount := tcount s2 - 1\<rparr>) = Inr s3"
      "s' = s3\<lparr>expd := list_add_tail (Elist a) ExpdHd (expd s3)\<rparr>"
      by (auto simp: timer_expiry_action_def andThen_eq_Inr)
    moreover from this(1) have "same_view view (s2\<lparr>tcount := tcount s2 - 1\<rparr>) s3" by (rule on_timer_view) (rule view_running)
    ultimately show ?thesis by (simp add: same_view_def)
  next
    case False
    with c(3) show ?thesis using placed by (auto simp: timer_expiry_action_def fault_simps split: if_splits)
  qed
  finally show ?thesis .
qed

lemma processed_loop:
  assumes "process_loop w k n s = Some r"
  shows "\<forall>m s'. r = Inr (m, s') \<longrightarrow> same_view view s s'"
proof (rule process_loop.raw_induct [OF _ assms])
  fix f :: "nat \<Rightarrow> u32 \<Rightarrow> int \<Rightarrow> 'a timers_scheme \<Rightarrow> (int \<times> 'a timers_scheme) res option" and w k n s y
  assume IH: "\<And>w k n s y. f w k n s = Some y \<Longrightarrow> \<forall>m s'. y = Inr (m, s') \<longrightarrow> same_view view s s'"
    and step: "(case timer_tree_walk w k s of Inl e \<Rightarrow> Some (Inl e) | Inr None \<Rightarrow> Some (Inr (n, s))
      | Inr (Some a) \<Rightarrow> (case process_one w a s of Inl e \<Rightarrow> Some (Inl e) | Inr s \<Rightarrow> f w k (n + 1) s)) = Some y"
  show "\<forall>m s'. y = Inr (m, s') \<longrightarrow> same_view view s s'"
    using step IH processed_one same_view_trans by (auto split: sum.splits option.splits) blast
qed

lemma processed: "process_timers w k s = Inr (n, s') \<Longrightarrow> same_view view s s'"
  using processed_loop [of w k 0 s] by (auto simp: process_timers_def returned_def split: option.splits)

lemma ticked_view:
  assumes "tm_process_tick_and_update_timers sfs s = Inr (n, s')"
  shows "same_view view s s'"
  using assms processed same_view_trans
  by (auto simp: tm_process_tick_and_update_timers_def andThen_eq_Inr split: if_splits) blast+

lemma run_tick_view:
  assumes "run_tick sfs s = Inr s'"
  shows "same_view view s s'"
proof -
  let ?s = "s\<lparr>clk := tick_clk sfs (clk s)\<rparr>"
  obtain b s1 where s1: "update_times sfs s = Inr (b, s1)" "(if sfs \<and> b then andThen (tm_process_tick_and_update_timers sfs s1) (\<lambda>(_, s). Inr s) else Inr s1) = Inr s'"
    using assms by (auto simp: run_tick_def andThen_eq_Inr)
  have "same_view view s ?s" by simp
  also have "same_view view ?s s1" using s1(1) ticked_view by (auto simp: update_times_def service_timers_def andThen_eq_Inr Let_def split: if_splits)
  also have "same_view view s1 s'" using s1(2) ticked_view by (auto simp: andThen_eq_Inr split: if_splits)
  finally show ?thesis .
qed

lemma run_ticks_view: "run_ticks sfs k s = Inr s' \<Longrightarrow> same_view view s s'"
proof (induction k arbitrary: s)
  case (Suc k)
  then obtain s1 where "run_tick sfs s = Inr s1" "run_ticks sfs k s1 = Inr s'" by (auto simp: andThen_eq_Inr)
  then show ?case using run_tick_view Suc.IH same_view_trans by blast
qed simp

end

text \<open>What makes a timer: its number, flags, handler and data, and its entry.\<close>

definition ident :: "tm_timer \<Rightarrow> int \<times> u32 \<times> nat \<times> nat option \<times> nat option" where
  "ident t = (t_idx t, t_flags t, t_data t, t_app t, t_handler t)"

abbreviation same_ids :: "'z timers_scheme \<Rightarrow> 'z timers_scheme \<Rightarrow> bool" where
  "same_ids \<equiv> same_view ident"

interpretation ids: timer_view ident
  by unfold_locales (simp_all add: ident_def)

text \<open>The time that was asked for and the one at which it is over.\<close>

interpretation times: timer_view "\<lambda>t. (t_rmt t, t_exp t)"
  by unfold_locales simp_all

lemma arm_ids:
  assumes "arm sfs a s = Inr s'"
  shows "same_ids s s'"
proof -
  obtain s1 s2 where c: "calc_time sfs a s = Inr s1" "find_tmr_slot_and_place a s1 = Inr s2" "s' = s2\<lparr>tcount := tcount s2 + 1\<rparr>"
    using assms by (auto simp: arm_def fault_simps)
  obtain ap tm where at: "tapps s a = Some ap" "deref (ttms s) (a_timer ap) = Inr tm"
    using c(1) by (auto simp: calc_time_def fault_simps Let_def)
  define x where "x = (\<lambda>ap :: app_timer. let tick = t_rmt tm; secs = tick div tm_get_ticks_per_second sfs; mins = secs div 60
     in SET_HRS (SET_MINS (SET_SECS (SET_TICK sfs (a_ctime ap) tick) secs) mins) (mins div 60))"
  obtain s0 where d: "on_app (Some a) (\<lambda>ap. ap\<lparr>a_ctime := x ap\<rparr>) s = Inr s0"
    "on_timer (a_timer ap) (\<lambda>t. t\<lparr>t_exp := t_rmt tm + clk s0 TICK_TIMERS\<rparr>) s0 = Inr s1"
    using c(1) at by (auto simp: calc_time_def andThen_eq_Inr Let_def x_def)
  have "same_ids s s0" by (rule on_app_view [OF d(1)]) simp
  also have "same_ids s0 s1" by (rule on_timer_view [OF d(2)]) (simp add: ident_def)
  also have "same_ids s1 s'" using ids.placed [OF c(2)] c(3) by simp
  finally show ?thesis .
qed

end
