(* ===== verification/SoftIrqProps.thy ===== *)
theory SoftIrqProps
  imports SoftIrq TimerFrame
begin

unbundle bit_operations_syntax

text \<open>
  What a pass of the soft interrupt task does, and the frame of the calls that reach the timers
  and the scheduler through it.
\<close>

section \<open>A pass of the soft interrupt task\<close>

definition irqs_ok :: "sys \<Rightarrow> u32 list \<Rightarrow> bool" where
  "irqs_ok s ps \<longleftrightarrow> dlist (sft_irq s) SftIrq (map Nxtirq ps) \<and> (\<forall>p\<in>set ps. p \<noteq> 0 \<and> sirqs s p \<noteq> None)"

definition woken :: "sys \<Rightarrow> u32 \<Rightarrow> bool" where
  "woken s p \<longleftrightarrow> (\<exists>q. sirqs s p = Some q \<and> irq_action q \<noteq> None \<and> irq_stat q = WAKE_UP)"

text \<open>An action leaves the soft interrupts alone; it may do anything else to the library.\<close>

definition keeps_irqs :: "(nat \<Rightarrow> sys \<Rightarrow> sys res) \<Rightarrow> bool" where
  "keeps_irqs act \<longleftrightarrow> (\<forall>a s s'. act a s = Inr s' \<longrightarrow> sft_irq s' = sft_irq s \<and> sirqs s' = sirqs s)"

text \<open>The reference: the actions of the given soft interrupts one after the other.\<close>

fun run_irqs :: "(nat \<Rightarrow> sys \<Rightarrow> sys res) \<Rightarrow> u32 list \<Rightarrow> sys \<Rightarrow> sys res" where
  "run_irqs act [] s = Inr s"
| "run_irqs act (p # ps) s =
     andThen (act (the (irq_action (the (sirqs s p)))) s) (\<lambda>s.
     andThen (set_irq_stat SLEEPING p s) (run_irqs act ps))"

lemma set_irq_stat_Some [simp]:
  "p \<noteq> 0 \<Longrightarrow> sirqs s p = Some q \<Longrightarrow> set_irq_stat st p s = Inr (s\<lparr>sirqs := (sirqs s)(p \<mapsto> q\<lparr>irq_stat := st\<rparr>)\<rparr>)"
  by (simp add: set_irq_stat_def irq_at_def)

lemma softirq_turn_asleep:
  assumes "p \<noteq> 0" and "sirqs s p \<noteq> None" and "\<not> woken s p"
  shows "softirq_turn act p s = Inr s"
  using assms by (auto simp: softirq_turn_def irq_at_def woken_def split: option.splits)

lemma softirq_turn_woken:
  assumes "p \<noteq> 0" and "woken s p"
  shows "softirq_turn act p s = andThen (act (the (irq_action (the (sirqs s p)))) s) (set_irq_stat SLEEPING p)"
  using assms by (auto simp: softirq_turn_def irq_at_def woken_def)

lemma softirq_loop_eq:
  assumes k: "keeps_irqs act"
    and "lseg (sft_irq s) b (map Nxtirq ps) SftIrq" "distinct ps" "\<forall>p\<in>set ps. p \<noteq> 0 \<and> sirqs s p \<noteq> None"
  shows "softirq_loop act (lnext (sft_irq s) b) s = Some (run_irqs act (filter (woken s) ps) s)"
  using assms(2-)
proof (induction ps arbitrary: s b)
  case Nil
  then show ?case by (subst softirq_loop.simps) simp
next
  case (Cons p ps)
  have p: "lnext (sft_irq s) b = Nxtirq p" "p \<noteq> 0" "sirqs s p \<noteq> None" using Cons.prems by simp_all
  show ?case
  proof (cases "woken s p")
    case False
    have "softirq_loop act (lnext (sft_irq s) (Nxtirq p)) s = Some (run_irqs act (filter (woken s) ps) s)"
      using Cons.IH [of s "Nxtirq p"] Cons.prems by simp
    then show ?thesis using False softirq_turn_asleep [OF p(2,3) False, of act] p(1) by (subst softirq_loop.simps) simp
  next
    case True
    let ?a = "the (irq_action (the (sirqs s p)))"
    show ?thesis
    proof (cases "act ?a s")
      case (Inl e)
      then show ?thesis using softirq_turn_woken [OF p(2) True, of act] True p(1) by (subst softirq_loop.simps) simp
    next
      case (Inr s1)
      then have s1: "sft_irq s1 = sft_irq s" "sirqs s1 = sirqs s" using k by (auto simp: keeps_irqs_def)
      then obtain q where q: "sirqs s1 p = Some q" using p(3) by auto
      let ?s = "s1\<lparr>sirqs := (sirqs s1)(p \<mapsto> q\<lparr>irq_stat := SLEEPING\<rparr>)\<rparr>"
      have "filter (woken ?s) ps = filter (woken s) ps"
        using Cons.prems(2) s1 by (intro filter_cong) (auto simp: woken_def)
      then have "softirq_loop act (lnext (sft_irq ?s) (Nxtirq p)) ?s = Some (run_irqs act (filter (woken s) ps) ?s)"
        using Cons.IH [of ?s "Nxtirq p"] Cons.prems s1 by auto
      then show ?thesis
        using softirq_turn_woken [OF p(2) True, of act] True p(1,2) Inr q by (subst softirq_loop.simps) simp
    qed
  qed
qed

lemma softirq_pass_eq:
  assumes "keeps_irqs act" and "irqs_ok s ps"
  shows "softirq_pass act s = run_irqs act (filter (woken s) ps) s"
  using softirq_loop_eq [OF assms(1), of s SftIrq ps] assms(2)
  by (auto simp: softirq_pass_def irqs_ok_def dlist_def distinct_map returned_def)

lemma run_irqs_asleep:
  assumes "keeps_irqs act" and "irqs_ok s ps" and "set qs \<subseteq> set ps" and "run_irqs act qs s = Inr s'"
  shows "irqs_ok s' ps \<and> (\<forall>p. woken s' p \<longleftrightarrow> woken s p \<and> p \<notin> set qs)"
  using assms(2-)
proof (induction qs arbitrary: s)
  case Nil
  then show ?case by simp
next
  case (Cons p qs)
  obtain s1 s2 where c: "act (the (irq_action (the (sirqs s p)))) s = Inr s1" "set_irq_stat SLEEPING p s1 = Inr s2"
    "run_irqs act qs s2 = Inr s'" using Cons.prems(3) by (auto simp: andThen_eq_Inr)
  have s1: "sft_irq s1 = sft_irq s" "sirqs s1 = sirqs s" using c(1) assms(1) by (auto simp: keeps_irqs_def)
  obtain q where q: "sirqs s1 p = Some q" "p \<noteq> 0" using Cons.prems(1,2) s1 by (auto simp: irqs_ok_def)
  then have s2: "s2 = s1\<lparr>sirqs := (sirqs s1)(p \<mapsto> q\<lparr>irq_stat := SLEEPING\<rparr>)\<rparr>" using c(2) by simp
  have "irqs_ok s2 ps" using Cons.prems(1) s1 by (simp add: irqs_ok_def s2)
  moreover have "woken s2 x \<longleftrightarrow> woken s x \<and> x \<noteq> p" for x using s1 by (auto simp: woken_def s2)
  ultimately show ?case using Cons.IH [of s2] Cons.prems(2) c(3) by auto
qed

text \<open>
  a pass of the soft interrupt task ends and runs the actions of exactly those soft
  interrupts that were woken when it began, each once and in the order of their creation; when
  it returns, none is left woken.  A soft interrupt without action or not woken is passed over.
\<close>

theorem softirq_pass_runs_woken:
  assumes "keeps_irqs act" and "irqs_ok s ps"
  shows "softirq_pass act s = run_irqs act (filter (woken s) ps) s \<and>
     (\<forall>s'. softirq_pass act s = Inr s' \<longrightarrow> irqs_ok s' ps \<and> (\<forall>p\<in>set ps. \<not> woken s' p))"
proof -
  have "irqs_ok s' ps \<and> (\<forall>p\<in>set ps. \<not> woken s' p)" if "run_irqs act (filter (woken s) ps) s = Inr s'" for s'
    using run_irqs_asleep [OF assms _ that] by simp
  then show ?thesis unfolding softirq_pass_eq [OF assms] by blast
qed

text \<open>
  a soft interrupt that is woken while its action runs is not run again: the mark it gets
  is overwritten when the action has returned.
\<close>

theorem softirq_wakeup_lost:
  assumes "p \<noteq> 0" and "woken s p" and "act (the (irq_action (the (sirqs s p)))) s = Inr s1" and "woken s1 p"
  shows "\<exists>s'. softirq_turn act p s = Inr s' \<and> \<not> woken s' p"
  using assms by (auto simp: softirq_turn_woken woken_def)

section \<open>Witnesses\<close>

text \<open>Two soft interrupts, the second one woken.\<close>

definition demo_irqs :: sys where
  "demo_irqs = \<lparr>ttms = (\<lambda>_. None), tapps = (\<lambda>_. None),
     rnodes = (\<lambda>_. \<lparr>rb_par = None, rb_black = False, rb_left = None, rb_right = None\<rparr>), roots = (\<lambda>_. None),
     tcount = 0, clk = (\<lambda>_. 0), indx = 0, expd = \<lparr>lnext = id, lprev = id\<rparr>, tbytes = 0,
     ksched = static_sched \<lparr>lnext = id, lprev = id\<rparr>, kpools = demo_pools,
     sft_irq = list_add_tail (Nxtirq 8) SftIrq (list_add_tail (Nxtirq 4) SftIrq (INIT_LIST_HEAD SftIrq \<lparr>lnext = id, lprev = id\<rparr>)),
     sirqs = [4 \<mapsto> \<lparr>irq_id = 4, irq_action = Some 6, irq_stat = SLEEPING\<rparr>,
              8 \<mapsto> \<lparr>irq_id = 8, irq_action = Some 7, irq_stat = WAKE_UP\<rparr>],
     softirq_d = None, tmr_irq = 4\<rparr>"

lemma demo_irqs_ok: "irqs_ok demo_irqs [4, 8]"
  using list_add_tail_dlist [OF list_add_tail_dlist [OF INIT_LIST_HEAD_dlist, of "Nxtirq 4" SftIrq "\<lparr>lnext = id, lprev = id\<rparr>"],
      of "Nxtirq 8"]
  by (simp add: irqs_ok_def demo_irqs_def)

theorem softirq_pass_runs_woken_witness:
  "\<exists>s'. softirq_pass (\<lambda>a s. Inr (s\<lparr>indx := indx s + int a\<rparr>)) demo_irqs = Inr s' \<and> indx s' = 7 \<and> \<not> woken s' 8"
proof -
  let ?act = "\<lambda>a s. Inr (s\<lparr>indx := indx s + int a\<rparr>) :: sys res"
  have k: "keeps_irqs ?act" by (simp add: keeps_irqs_def)
  have "filter (woken demo_irqs) [4, 8] = [8]" by (simp add: woken_def demo_irqs_def)
  then show ?thesis
    using softirq_pass_runs_woken [OF k demo_irqs_ok] by (auto simp: demo_irqs_def)
qed

theorem softirq_wakeup_lost_witness:
  "\<exists>s1 s'. wake_irq 8 demo_irqs = Inr s1 \<and> woken s1 8 \<and> softirq_turn (\<lambda>a. wake_irq 8) 8 demo_irqs = Inr s' \<and> \<not> woken s' 8"
proof -
  have ne: "(8 :: u32) \<noteq> 0" and w: "woken demo_irqs 8" by (simp_all add: woken_def demo_irqs_def)
  obtain s1 where s1: "wake_irq 8 demo_irqs = Inr s1" "woken s1 8"
    by (simp add: wake_irq_def set_irq_stat_def irq_at_def demo_irqs_def woken_def)
  then show ?thesis using softirq_wakeup_lost [OF ne w, of "\<lambda>a. wake_irq 8" s1] by blast
qed

end
