(* ===== verification/TimerExpiry.thy ===== *)
theory TimerExpiry
  imports TimerFrame
begin

unbundle bit_operations_syntax

text \<open>
  The bottom half and the time-out handlers.  What the handlers do is the affair of their owner;
  the locale \<open>timeout_handlers\<close> says what the bottom half relies on, and what it then does.
\<close>

section \<open>Timers that run once\<close>

text \<open>A handler, when there is one, and its argument.\<close>

type_synonym timeout = "nat option \<times> nat"

text \<open>Entry \<open>x\<close> belongs to a timer that runs once and then makes the call \<open>c\<close>.\<close>

definition once_timer :: "'z timers_scheme \<Rightarrow> nat \<Rightarrow> timeout \<Rightarrow> bool" where
  "once_timer s x c \<longleftrightarrow> (\<exists>ap i tm. tapps s x = Some ap \<and> a_timer ap = Some i \<and> ttms s i = Some tm \<and> t_app tm = Some x \<and>
     t_flags tm = TIMER_ONCE \<and> c = (t_handler tm, t_data tm))"

lemma once_timer_unique: "once_timer s x c \<Longrightarrow> once_timer s x c' \<Longrightarrow> c = c'"
  by (auto simp: once_timer_def)

lemma once_timer_cong: "tapps s' = tapps s \<Longrightarrow> ttms s' = ttms s \<Longrightarrow> once_timer s' x c = once_timer s x c"
  by (simp add: once_timer_def)

lemma once_timer_ids:
  assumes "same_ids s s'" and "once_timer s x c"
  shows "once_timer s' x c"
proof -
  obtain ap i tm where e: "tapps s x = Some ap" "a_timer ap = Some i" "ttms s i = Some tm" "t_app tm = Some x"
    "t_flags tm = TIMER_ONCE" "c = (t_handler tm, t_data tm)" using assms(2) by (auto simp: once_timer_def)
  have "map_option a_timer (tapps s' x) = Some (Some i)" "map_option ident (ttms s' i) = Some (ident tm)"
    using assms(1) e(1-3) by (auto simp: same_view_def fun_eq_iff)
  then show ?thesis using e by (auto simp: once_timer_def ident_def)
qed

lemma once_timer_only:
  assumes "only_entry a i s s'" and "ttms s i = Some tm" "t_app tm = Some a" and "x \<noteq> a" and "once_timer s x c"
  shows "once_timer s' x c"
proof -
  obtain ap j tm' where e: "tapps s x = Some ap" "a_timer ap = Some j" "ttms s j = Some tm'" "t_app tm' = Some x"
    "t_flags tm' = TIMER_ONCE" "c = (t_handler tm', t_data tm')" using assms(5) by (auto simp: once_timer_def)
  then have "j \<noteq> i" using assms(2-4) by auto
  then show ?thesis using e assms(1,4) by (auto simp: once_timer_def only_entry_def)
qed

lemma timers_ok_cong:
  assumes "rnodes s' = rnodes s" "roots s' = roots s" "tapps s' = tapps s" "ttms s' = ttms s" "clk s' = clk s"
    "tcount s' = tcount s" "expd s' = expd s"
  shows "timers_ok sfs n s' f es = timers_ok sfs n s f es" and "pending sfs s' f = pending sfs s f"
proof -
  have [simp]: "wheels s' f = wheels s f" "key s' = key s" "entry_ok s' w a = entry_ok s w a" for w a
    using wheels_cong [of s' s f] entry_ok_cong [of s' s] assms by (auto simp: key_fun)
  show "timers_ok sfs n s' f es = timers_ok sfs n s f es"
    using assms by (simp add: timers_ok_def tmr_inv_def entries_ok_def ahead_def)
  show "pending sfs s' f = pending sfs s f" using assms by (simp add: pending_def deadline_def)
qed

lemma expired_forgotten:
  assumes ok: "timers_ok sfs n s f (a # es)" and only: "only_entry a i s s'" and tm: "ttms s i = Some tm" "t_app tm = Some a"
    and same: "rnodes s' = rnodes s" "roots s' = roots s" "clk s' = clk s" "tcount s' = tcount s"
      "expd s' = list_del (Elist a) (expd s)"
  shows "timers_ok sfs n s' f es" and "pending sfs s' f = pending sfs s f"
proof -
  note O = timers_okD [OF ok] and D = tmr_invD [OF timers_okD(1) [OF ok]]
  have out: "a \<notin> set (f w)" if "w < TIMER_WHEEL" for w using D(6) [OF that] by auto
  have "dlist (expd s') ExpdHd (map Elist es)" using list_del_dlist [OF D(5), of "Elist a"] same(5) by simp
  moreover have "entries_ok s' f" by (rule entries_only [OF D(2) only tm out])
  moreover have "wheels s' f" using D(1) wheels_cong [of s' s f] same by simp
  ultimately have "tmr_inv sfs n s' f es" using D(3,4,6) same by (simp add: tmr_inv_def)
  moreover have "ahead s' f w" if "w < TIMER_WHEEL" for w
    unfolding ahead_def same(3)
  proof
    fix x assume x: "x \<in> set (f w)"
    then have "x \<noteq> a" using out [OF that] by auto
    then show "clk s w < key s' x" using O(2) [OF that] x only_entry_keeps(2) [OF only tm] by (auto simp: ahead_def)
  qed
  ultimately show "timers_ok sfs n s' f es" by (simp add: timers_ok_def)
  have "deadline sfs s' w x = deadline sfs s w x" if "w < TIMER_WHEEL" "x \<in> set (f w)" for w x
    using only_entry_keeps(4) [OF only tm] out [OF that(1)] that(2) by metis
  then show "pending sfs s' f = pending sfs s f" by (auto simp: pending_def)
qed

lemma expired_list: "timers_ok sfs n s f es \<Longrightarrow> timers_ok sfs m s' f' es' \<Longrightarrow> expd s' = expd s \<Longrightarrow> es' = es"
  using dlist_unique [of "expd s" ExpdHd "map Elist es" "map Elist es'"] tmr_invD(5) [OF timers_okD(1)]
  by (metis eaddr.inject injI inj_map_eq_map)

section \<open>Starting a timer, and no timers\<close>

lemma start_timer_more:
  assumes "start_timer sfs (Some i) (Some a) ticks data h flags s = Inr (Some i, s')" and "tcount s \<le> MAX_TIMERS" "indx s \<noteq> - 1"
  shows "timers.more s' = timers.more s"
    and "a_timer (the (tapps s' a)) = Some i" "tapps s' a \<noteq> None"
    and "\<exists>tm. ttms s' i = Some tm \<and> ident tm = (indx s + 1, if flags \<noteq> 0 then flags else TIMER_ONCE, data, Some a, h)"
    and "\<And>x. x \<noteq> a \<Longrightarrow> map_option a_timer (tapps s' x) = map_option a_timer (tapps s x)"
    and "\<And>j. j \<noteq> i \<Longrightarrow> map_option ident (ttms s' j) = map_option ident (ttms s j)"
proof -
  let ?tm = "zero_timer\<lparr>t_idx := indx s + 1, t_rmt := ticks, t_data := data, t_handler := h,
          t_flags := (if flags \<noteq> 0 then flags else TIMER_ONCE), t_app := Some a\<rparr>"
  let ?s = "s\<lparr>indx := indx s + 1, tbytes := tbytes s + sizeof_TIMER_T + sizeof_APP_TIMER_T,
       tapps := (tapps s)(a \<mapsto> \<lparr>a_timer = Some i, a_ctime = 0, a_rt = 0\<rparr>), ttms := (ttms s)(i \<mapsto> ?tm),
       expd := INIT_LIST_HEAD (Elist a) (expd s)\<rparr>"
  have "arm sfs a ?s = Inr s'" using assms(1) start_timer_arms [OF assms(2,3), of sfs i a ticks data h flags] by (auto simp: andThen_eq_Inr)
  from arm_ids [OF this] have ids: "map_option ident (ttms s' j) = map_option ident (ttms ?s j)"
    "map_option a_timer (tapps s' x) = map_option a_timer (tapps ?s x)" "timers.more s' = timers.more ?s" for j x
    by (auto simp: same_view_def fun_eq_iff)
  show "timers.more s' = timers.more s" using ids(3) by simp
  show "a_timer (the (tapps s' a)) = Some i" "tapps s' a \<noteq> None" using ids(2) [of a] by auto
  show "\<exists>tm. ttms s' i = Some tm \<and> ident tm = (indx s + 1, if flags \<noteq> 0 then flags else TIMER_ONCE, data, Some a, h)"
    using ids(1) [of i] by (auto simp: ident_def)
  show "map_option a_timer (tapps s' x) = map_option a_timer (tapps s x)" if "x \<noteq> a" for x using ids(2) [of x] that by simp
  show "map_option ident (ttms s' j) = map_option ident (ttms s j)" if "j \<noteq> i" for j using ids(1) [of j] that by simp
qed

lemma start_timer_once:
  assumes st: "start_timer sfs (Some i) (Some a) ticks data h 0 s = Inr (Some i, s')"
    and room: "tcount s \<le> MAX_TIMERS" "indx s \<noteq> - 1" and fresh: "tapps s a = None" "ttms s i = None"
  shows "once_timer s' a (h, data)" and "once_timer s x c \<Longrightarrow> once_timer s' x c"
proof -
  note m = start_timer_more [OF st room]
  show "once_timer s' a (h, data)" using m(2-4) by (auto simp: once_timer_def ident_def)
  assume "once_timer s x c"
  then obtain ap j tm where e: "tapps s x = Some ap" "a_timer ap = Some j" "ttms s j = Some tm" "t_app tm = Some x"
    "t_flags tm = TIMER_ONCE" "c = (t_handler tm, t_data tm)" by (auto simp: once_timer_def)
  then have "x \<noteq> a" "j \<noteq> i" using fresh by auto
  then have "map_option a_timer (tapps s' x) = Some (Some j)" "map_option ident (ttms s' j) = Some (ident tm)"
    using m(5) [of x] m(6) [of j] e(1-3) by auto
  then show "once_timer s' x c" using e by (auto simp: once_timer_def ident_def)
qed

lemma no_deadlines:
  assumes "roots s = (\<lambda>_. None)" and "clk s = (\<lambda>_. 0)" and "dlist (expd s) ExpdHd []"
  shows "timers_ok sfs 0 s (\<lambda>_. []) []"
proof -
  have "rep (tree_at w s) [] Lf" for w using assms(1) by (simp add: rep_def tree_at_def)
  moreover have "rb_inv Lf" by (simp add: rb_inv_def)
  ultimately have "wheels s (\<lambda>_. [])" by (auto simp: wheels_def intro!: exI [of _ Lf])
  then show ?thesis using assms by (simp add: timers_ok_def tmr_inv_def entries_ok_def clock_ok_def ahead_def)
qed

section \<open>What the bottom half relies on\<close>

definition same_timers :: "'z timers_scheme \<Rightarrow> 'z timers_scheme \<Rightarrow> bool" where
  "same_timers s s' \<longleftrightarrow> rnodes s' = rnodes s \<and> roots s' = roots s \<and> tapps s' = tapps s \<and> ttms s' = ttms s \<and> clk s' = clk s \<and>
     tcount s' = tcount s \<and> expd s' = expd s"

definition call_handler :: "(nat \<Rightarrow> nat \<Rightarrow> 'z timers_scheme \<Rightarrow> 'z timers_scheme res) \<Rightarrow> timeout \<Rightarrow> 'z timers_scheme \<Rightarrow> 'z timers_scheme res" where
  "call_handler hdl c s = (case fst c of None \<Rightarrow> Inr s | Some h \<Rightarrow> hdl h (snd c) s)"

text \<open>
  \<open>inv\<close> is the invariant of the state around the timers, \<open>ready c\<close> says that the call \<open>c\<close> can be
  made, \<open>did cs\<close> relates the states before and after the calls \<open>cs\<close>.
\<close>

locale timeout_handlers =
  fixes hdl :: "nat \<Rightarrow> nat \<Rightarrow> 'z timers_scheme \<Rightarrow> 'z timers_scheme res"
    and inv :: "'z timers_scheme \<Rightarrow> bool"
    and ready :: "timeout \<Rightarrow> 'z timers_scheme \<Rightarrow> bool"
    and did :: "timeout list \<Rightarrow> 'z timers_scheme \<Rightarrow> 'z timers_scheme \<Rightarrow> bool"
  assumes call: "inv s \<Longrightarrow> ready c s \<Longrightarrow> \<exists>s'. call_handler hdl c s = Inr s' \<and> same_timers s s' \<and> did [c] s s'"
    and did_append: "did cs s s' \<Longrightarrow> did cs' s' s'' \<Longrightarrow> did (cs @ cs') s s''"
    and did_Nil: "inv s \<Longrightarrow> did [] s s"
    and did_inv: "did cs s s' \<Longrightarrow> inv s'"
    and did_ready: "did cs s s' \<Longrightarrow> ready c s \<Longrightarrow> ready c s'"
    and did_more: "did cs s s' \<Longrightarrow> timers.more t' = timers.more s' \<Longrightarrow> did cs s t'"
begin

lemma expire_one_did:
  assumes ok: "timers_ok sfs n s f (a # es)" and a: "once_timer s a c" and k: "inv s" "ready c s"
  shows "\<exists>s'. expire_one sfs' hdl al a s = Inr s' \<and> timers_ok sfs n s' f es \<and> pending sfs s' f = pending sfs s f \<and>
     did [c] s s' \<and> (\<forall>x c. x \<noteq> a \<longrightarrow> once_timer s x c \<longrightarrow> once_timer s' x c)"
proof -
  obtain ap i tm where e: "tapps s a = Some ap" "a_timer ap = Some i" "ttms s i = Some tm" "t_app tm = Some a"
    "t_flags tm = TIMER_ONCE" "c = (t_handler tm, t_data tm)" using a by (auto simp: once_timer_def)
  obtain s1 where s1: "call_handler hdl c s = Inr s1" "same_timers s s1" "did [c] s s1" using call [OF k] by blast
  define s' where "s' = s1\<lparr>expd := list_del (Elist a) (expd s), ttms := (ttms s)(i := None),
     tbytes := tbytes s1 - sizeof_TIMER_T, tapps := (tapps s)(a := None)\<rparr>"
  have h: "(case t_handler tm of None \<Rightarrow> Inr s | Some h \<Rightarrow> hdl h (t_data tm) s) = Inr s1"
    using s1(1) e(6) by (cases "t_handler tm") (simp_all add: call_handler_def)
  have "expire_one sfs' hdl al a s = Inr s'"
    using e(1-5) s1(2) unfolding expire_one_def by (simp add: h on_timer_def free_timer_def TIMER_ONCE_def s'_def same_timers_def)
  moreover have only: "only_entry a i s s'" using s1(2) by (simp add: only_entry_def s'_def same_timers_def)
  moreover have "did [c] s s'" by (rule did_more [OF s1(3)]) (simp add: s'_def)
  moreover have "once_timer s' x c" if "x \<noteq> a" "once_timer s x c" for x c
    using once_timer_only [OF only e(3,4)] that by blast
  ultimately show ?thesis
    using expired_forgotten [OF ok only e(3,4)] s1(2) by (auto simp: s'_def same_timers_def)
qed

lemma expd_loop_did:
  assumes "timers_ok sfs n s f es" and "\<forall>x\<in>set es. once_timer s x (C x) \<and> ready (C x) s" and "inv s"
    and "p = lnext (expd s) ExpdHd" and "q = lnext (expd s) p"
  shows "\<exists>s'. expd_loop sfs' hdl al p q s = Some (Inr s') \<and> timers_ok sfs n s' f [] \<and> pending sfs s' f = pending sfs s f \<and>
     did (map C es) s s' \<and> (\<forall>x c. x \<notin> set es \<longrightarrow> once_timer s x c \<longrightarrow> once_timer s' x c)"
  using assms
proof (induction es arbitrary: s p q)
  case Nil
  have "p = ExpdHd" using tmr_invD(5) [OF timers_okD(1) [OF Nil(1)]] Nil(4) by (simp add: dlist_def)
  then show ?case using Nil did_Nil by (subst expd_loop.simps) simp
next
  case (Cons a es)
  have d: "dlist (expd s) ExpdHd (map Elist (a # es))" by (rule tmr_invD(5) [OF timers_okD(1) [OF Cons.prems(1)]])
  have p: "p = Elist a" and q: "q = (case es of [] \<Rightarrow> ExpdHd | b # _ \<Rightarrow> Elist b)"
    using d Cons.prems(4,5) by (cases es; auto simp: dlist_def)+
  have da: "a \<notin> set es" using d by (auto simp: dlist_def)
  obtain s1 where s1: "expire_one sfs' hdl al a s = Inr s1" "timers_ok sfs n s1 f es" "pending sfs s1 f = pending sfs s f"
    "did [C a] s s1" "\<And>x c. x \<noteq> a \<Longrightarrow> once_timer s x c \<Longrightarrow> once_timer s1 x c"
    using expire_one_did [OF Cons.prems(1) _ Cons.prems(3)] Cons.prems(2) by (metis list.set_intros(1))
  have rest: "\<forall>x\<in>set es. once_timer s1 x (C x) \<and> ready (C x) s1"
    using Cons.prems(2) s1(5) da did_ready [OF s1(4)] by (metis list.set_intros(2))
  have "dlist (expd s1) ExpdHd (map Elist es)" by (rule tmr_invD(5) [OF timers_okD(1) [OF s1(2)]])
  then have "q = lnext (expd s1) ExpdHd" using q by (cases es) (auto simp: dlist_def)
  then obtain s' where s': "expd_loop sfs' hdl al q (lnext (expd s1) q) s1 = Some (Inr s')"
    "timers_ok sfs n s' f []" "pending sfs s' f = pending sfs s1 f" "did (map C es) s1 s'"
    "\<And>x c. x \<notin> set es \<Longrightarrow> once_timer s1 x c \<Longrightarrow> once_timer s' x c"
    using Cons.IH [OF s1(2) rest did_inv [OF s1(4)]] by blast
  have "did (map C (a # es)) s s'" using did_append [OF s1(4) s'(4)] by simp
  then show ?case using s1(1,3,5) s' p by (subst expd_loop.simps) simp
qed

text \<open>The bottom half: all expired timers are handled, in the order of the list.\<close>

lemma drain_did:
  assumes "timers_ok sfs n s f es" and "\<forall>x\<in>set es. once_timer s x (C x) \<and> ready (C x) s" and "inv s"
  shows "\<exists>s'. (if \<not> list_empty ExpdHd (expd s) then process_expd_timers sfs' hdl al s else Inr s) = Inr s' \<and>
     timers_ok sfs n s' f [] \<and> pending sfs s' f = pending sfs s f \<and>
     did (map C es) s s' \<and> (\<forall>x c. x \<notin> set es \<longrightarrow> once_timer s x c \<longrightarrow> once_timer s' x c)"
proof -
  obtain s' where s': "expd_loop sfs' hdl al (lnext (expd s) ExpdHd) (lnext (expd s) (lnext (expd s) ExpdHd)) s = Some (Inr s')"
    "timers_ok sfs n s' f []" "pending sfs s' f = pending sfs s f" "did (map C es) s s'"
    "\<forall>x c. x \<notin> set es \<longrightarrow> once_timer s x c \<longrightarrow> once_timer s' x c"
    using expd_loop_did [OF assms refl refl] by blast
  have "s' = s" if "list_empty ExpdHd (expd s)" using that s'(1) by (simp add: list_empty_def expd_loop.simps)
  then have "(if \<not> list_empty ExpdHd (expd s) then process_expd_timers sfs' hdl al s else Inr s) = Inr s'"
    using s'(1) by (simp add: process_expd_timers_def returned_def Let_def)
  with s' show ?thesis by blast
qed

end

end
