(* ===== verification/SysTime.thy ===== *)
theory SysTime
  imports SoftIrqProps TimerExpiry
begin

unbundle bit_operations_syntax

text \<open>
  Sleeping tasks: the tick interrupt, the soft interrupt of the timers and the handlers that wake
  tasks, put together.
\<close>

lemma more_fields:
  assumes "timers.more s' = timers.more (s :: sys)"
  shows "ksched s' = ksched s" "sft_irq s' = sft_irq s" "sirqs s' = sirqs s" "softirq_d s' = softirq_d s"
    "tmr_irq s' = tmr_irq s" "kpools s' = kpools s"
  using assms by (cases s; cases s'; simp)+

lemma same_ids_more:
  assumes "same_ids s (s' :: sys)"
  shows "ksched s' = ksched s" "sft_irq s' = sft_irq s" "sirqs s' = sirqs s" "softirq_d s' = softirq_d s"
    "tmr_irq s' = tmr_irq s" "kpools s' = kpools s"
  using more_fields [of s' s] assms by (simp_all add: same_view_def)

section \<open>Waking tasks\<close>

definition runnable :: "sched \<Rightarrow> nat \<Rightarrow> bool" where
  "runnable k p \<longleftrightarrow> (\<exists>t. tsks k p = Some t \<and> onrq t \<noteq> 0)"

definition wakeable :: "sched \<Rightarrow> nat \<Rightarrow> bool" where
  "wakeable k p \<longleftrightarrow> tsks k p \<noteq> None \<and> idle k \<noteq> Some p"

text \<open>What waking the tasks \<open>Q\<close> does to the library.\<close>

definition woke :: "nat set \<Rightarrow> sys \<Rightarrow> sys \<Rightarrow> bool" where
  "woke Q s s' \<longleftrightarrow> kinv (ksched s') \<and> idle (ksched s') = idle (ksched s) \<and> current (ksched s') = current (ksched s) \<and>
     (\<forall>q\<in>Q. runnable (ksched s') q) \<and> (\<forall>q. q \<notin> Q \<longrightarrow> tsks (ksched s') q = tsks (ksched s) q) \<and>
     (\<forall>q. tsks (ksched s') q = None \<longleftrightarrow> tsks (ksched s) q = None) \<and>
     sft_irq s' = sft_irq s \<and> sirqs s' = sirqs s \<and> softirq_d s' = softirq_d s \<and> tmr_irq s' = tmr_irq s \<and> kpools s' = kpools s"

lemma woke_refl: "kinv (ksched s) \<Longrightarrow> woke {} s s"
  by (simp add: woke_def)

lemma woke_trans:
  assumes "woke P s s'" and "woke Q s' s''"
  shows "woke (P \<union> Q) s s''"
proof -
  have "runnable (ksched s'') q" if "q \<in> P \<union> Q" for q
    using that assms by (cases "q \<in> Q") (auto simp: woke_def runnable_def)
  then show ?thesis using assms by (auto simp: woke_def)
qed

lemma wokeD:
  assumes "woke Q s s'"
  shows "kinv (ksched s')" and "q \<in> Q \<Longrightarrow> runnable (ksched s') q" and "wakeable (ksched s') p \<longleftrightarrow> wakeable (ksched s) p"
    and "irqs_ok s' ps \<longleftrightarrow> irqs_ok s ps" and "woken s' i \<longleftrightarrow> woken s i"
  using assms by (auto simp: woke_def wakeable_def irqs_ok_def woken_def)

lemma need_sched_for_frame:
  "need_sched_for p k = Inr k' \<Longrightarrow> tsks k' = tsks k \<and> idle k' = idle k \<and> current k' = current k"
  by (auto simp: need_sched_for_def andThen_eq_Inr)

lemma note_imm_task_frame:
  "note_imm_task p k = Inr k' \<Longrightarrow> tsks k' = tsks k \<and> idle k' = idle k \<and> current k' = current k"
  by (auto simp: note_imm_task_def andThen_eq_Inr split: option.splits)

lemma wakeup_task_frame:
  assumes "wakeup_task now p k = Inr k'"
  shows "idle k' = idle k \<and> current k' = current k \<and> (\<forall>q. q \<noteq> p \<longrightarrow> tsks k' q = tsks k q) \<and> runnable k' p"
proof -
  obtain t where t: "tsks k p = Some t" using assms by (auto simp: wakeup_task_def fault_simps)
  obtain k1 k2 k3 where c: "need_sched_for p k1 = Inr k2" "note_imm_task p k2 = Inr k3"
      "modify (Some p) (\<lambda>t. t\<lparr>stime := now - stime t\<rparr>) k3 = Inr k'"
      and k1: "idle k1 = idle k" "current k1 = current k" "\<forall>q. q \<noteq> p \<longrightarrow> tsks k1 q = tsks k q" "runnable k1 p"
    using assms t by (cases "onrq t = 0") (auto simp: wakeup_task_def andThen_eq_Inr runnable_def)
  show ?thesis
    using k1 need_sched_for_frame [OF c(1)] note_imm_task_frame [OF c(2)] c(3)
    by (auto simp: modify_Inr runnable_def)
qed

lemma wake_step:
  assumes k: "kinv (ksched s)" and p: "wakeable (ksched s) p"
  shows "\<exists>k'. wakeup_task now p (ksched s) = Inr k' \<and> woke {p} s (s\<lparr>ksched := k'\<rparr>)"
proof -
  obtain f u where inv: "sched_inv f u (ksched s)" using k by (auto simp: kinv_def)
  obtain t where t: "tsks (ksched s) p = Some t" "idle (ksched s) \<noteq> Some p" using p by (auto simp: wakeable_def)
  obtain k' where k': "wakeup_task now p (ksched s) = Inr k'"
    using wakeup_task_sleeping [OF inv t, of now] wakeup_task_runnable [OF inv t(1), of now] by blast
  have "kinv k'" by (rule wakeup_task_keeps [OF inv k' t(2)])
  with wakeup_task_frame [OF k'] have "woke {p} s (s\<lparr>ksched := k'\<rparr>)"
    using t(1) by (auto simp: woke_def runnable_def) (metis option.distinct(1))+
  with k' show ?thesis by blast
qed

section \<open>Expiry of a sleep\<close>

text \<open>Entry \<open>x\<close> is the timer of a sleep of task \<open>p\<close>.\<close>

definition wake_timer :: "'z timers_scheme \<Rightarrow> nat \<Rightarrow> nat \<Rightarrow> bool" where
  "wake_timer s x p \<longleftrightarrow> once_timer s x (Some wakeup_task_fn, p)"

lemma wake_timer_unique: "wake_timer s x p \<Longrightarrow> wake_timer s x q \<Longrightarrow> p = q"
  using once_timer_unique unfolding wake_timer_def by blast

lemma wake_timer_ids: "same_ids s s' \<Longrightarrow> wake_timer s x p \<Longrightarrow> wake_timer s' x p"
  unfolding wake_timer_def by (rule once_timer_ids)

lemma wake_timer_cong: "tapps s' = tapps s \<Longrightarrow> ttms s' = ttms s \<Longrightarrow> wake_timer s' x p = wake_timer s x p"
  unfolding wake_timer_def by (rule once_timer_cong)

text \<open>The handlers of sleeps fulfil what the bottom half needs of handlers.\<close>

lemma woke_more:
  assumes "woke Q s s'" and "timers.more t = timers.more s" "timers.more t' = timers.more s'"
  shows "woke Q t t'"
  using assms(1) unfolding woke_def more_fields [OF assms(2)] more_fields [OF assms(3)] .

abbreviation (input) sleep_ready :: "timeout \<Rightarrow> sys \<Rightarrow> bool" where
  "sleep_ready c s \<equiv> fst c = Some wakeup_task_fn \<and> wakeable (ksched s) (snd c)"

lemma sleep_call:
  assumes "kinv (ksched s)" and "sleep_ready c s"
  shows "\<exists>s'. call_handler (run_handler now app) c s = Inr s' \<and> same_timers s s' \<and> woke (snd ` set [c]) s s'"
proof -
  obtain k' where "wakeup_task now (snd c) (ksched s) = Inr k'" "woke {snd c} s (s\<lparr>ksched := k'\<rparr>)"
    using wake_step assms by blast
  then show ?thesis using assms(2)
    by (intro exI [of _ "s\<lparr>ksched := k'\<rparr>"]) (simp add: call_handler_def run_handler_def on_sched_def same_timers_def)
qed

interpretation sleeps: timeout_handlers "run_handler now app" "\<lambda>s. kinv (ksched s)" sleep_ready "\<lambda>cs. woke (snd ` set cs)"
  for now app
proof (unfold_locales, goal_cases)
  case (1 s c)
  then show ?case by (rule sleep_call)
next
  case (2 cs s s' cs' s'')
  from woke_trans [OF this] show ?case by (simp add: image_Un)
next
  case (3 s)
  then show ?case using woke_refl by simp
next
  case (4 cs s s')
  then show ?case by (rule wokeD(1))
next
  case (5 cs s s' c)
  then show ?case using wokeD(3) by blast
next
  case (6 cs s s' t')
  then show ?case using woke_more by blast
qed

section \<open>A tick and its soft interrupt\<close>

lemma softirq_loop_skip:
  assumes "lseg (sft_irq s) b (map Nxtirq us) c" and "\<forall>p\<in>set us. p \<noteq> 0 \<and> sirqs s p \<noteq> None \<and> \<not> woken s p"
  shows "softirq_loop act (lnext (sft_irq s) b) s = softirq_loop act c s"
  using assms
proof (induction us arbitrary: b)
  case (Cons p us)
  have "lnext (sft_irq s) b = Nxtirq p" "softirq_turn act p s = Inr s" using Cons.prems softirq_turn_asleep by simp_all
  then show ?case using Cons.IH [of "Nxtirq p"] Cons.prems by (subst softirq_loop.simps) simp
qed simp

text \<open>A pass with one soft interrupt to serve, whose action leaves the soft interrupts alone.\<close>

lemma softirq_pass_one:
  assumes irqs: "irqs_ok s ps" and p: "p \<in> set ps" and w: "\<forall>x\<in>set ps. woken s x \<longleftrightarrow> x = p"
    and act: "act (the (irq_action (the (sirqs s p)))) s = Inr s1" "sft_irq s1 = sft_irq s" "sirqs s1 = sirqs s"
    and q: "sirqs s p = Some q"
  shows "softirq_pass act s = Inr (s1\<lparr>sirqs := (sirqs s)(p \<mapsto> q\<lparr>irq_stat := SLEEPING\<rparr>)\<rparr>)"
proof -
  have l: "lseg (sft_irq s) SftIrq (map Nxtirq ps) SftIrq" "distinct ps" using irqs by (auto simp: irqs_ok_def dlist_def distinct_map)
  obtain us vs where ps: "ps = us @ p # vs" using p by (auto dest: split_list)
  have ne: "p \<noteq> 0" using irqs p by (auto simp: irqs_ok_def)
  let ?s = "s1\<lparr>sirqs := (sirqs s)(p \<mapsto> q\<lparr>irq_stat := SLEEPING\<rparr>)\<rparr>"
  have "woken ?s x \<longleftrightarrow> woken s x" if "x \<noteq> p" for x using that act(3) by (simp add: woken_def)
  moreover have "p \<notin> set vs" using l(2) ps by simp
  ultimately have asleep: "\<forall>x\<in>set vs. x \<noteq> 0 \<and> sirqs ?s x \<noteq> None \<and> \<not> woken ?s x"
    using irqs w ps by (auto simp: irqs_ok_def)
  have "softirq_loop act (lnext (sft_irq s) SftIrq) s = softirq_loop act (Nxtirq p) s"
    using softirq_loop_skip [of s SftIrq us "Nxtirq p"] l irqs w ps by (auto simp: irqs_ok_def)
  also have "\<dots> = softirq_loop act (lnext (sft_irq ?s) (Nxtirq p)) ?s"
    using softirq_turn_woken [OF ne, of s act] w p act q ne by (subst softirq_loop.simps) simp
  also have "\<dots> = softirq_loop act SftIrq ?s"
    using softirq_loop_skip [OF _ asleep, of "Nxtirq p" SftIrq] l(1) ps act(2) by simp
  also have "\<dots> = Some (Inr ?s)" by (simp add: softirq_loop.simps)
  finally show ?thesis by (simp add: softirq_pass_def returned_def)
qed

lemma softirq_pass_none:
  assumes "irqs_ok s ps" and "\<forall>x\<in>set ps. \<not> woken s x"
  shows "softirq_pass act s = Inr s"
  using softirq_loop_skip [of s SftIrq ps SftIrq act] assms
  by (auto simp: softirq_pass_def irqs_ok_def dlist_def returned_def softirq_loop.simps [of act SftIrq])

end
