(* ===== verification/SysProps.thy ===== *)
theory SysProps
  imports SysTime
begin

unbundle bit_operations_syntax

text \<open>
  The library as a whole: its invariant, start-up, sleeping and the tick that ends a sleep.
\<close>

section \<open>The bottom half after a tick\<close>

text \<open>Every running timer belongs to the sleep of a task.\<close>

definition sleepers :: "sys \<Rightarrow> (nat \<Rightarrow> nat list) \<Rightarrow> bool" where
  "sleepers s f \<longleftrightarrow> (\<forall>x d. (x, d) \<in> pending True s f \<longrightarrow> (\<exists>p. wake_timer s x p \<and> wakeable (ksched s) p))"

text \<open>The tasks whose sleep ends at a tick.\<close>

definition due :: "nat \<Rightarrow> sys \<Rightarrow> (nat \<Rightarrow> nat list) \<Rightarrow> nat set" where
  "due n s f = {p. \<exists>x. (x, n) \<in> pending True s f \<and> wake_timer s x p}"

lemma btm_hlf_wakes:
  assumes ok: "timers_ok True n s f []" and sl: "sleepers s f" and k: "kinv (ksched s)" and bound: "n + 1025 < 2 ^ 32"
  defines "s0 \<equiv> s\<lparr>clk := tick_clk True (clk s)\<rparr>"
  assumes p: "timers_pending_for_service True s0 = Inr True"
  shows "\<exists>s' f'. btm_hlf True (run_handler now app) al s0 = Inr s' \<and> timers_ok True (Suc n) s' f' [] \<and>
     pending True s' f' = {(x, d) \<in> pending True s f. Suc n < d} \<and> woke (due (Suc n) s f) s0 s' \<and>
     (\<forall>x p. (x, Suc n) \<notin> pending True s f \<longrightarrow> wake_timer s x p \<longrightarrow> wake_timer s' x p)"
proof -
  obtain c s1 where s1: "tm_process_tick_and_update_timers True s0 = Inr (c, s1)" "ticked True (Suc n) s0 f [] s1"
    using tick_ok [OF timers_okD [OF ok] bound] p unfolding s0_def by auto
  have b: "Suc n < 2 ^ 32" using bound by simp
  obtain f' new where new: "timers_ok True (Suc n) s1 f' new" "set new = {x. (x, Suc n) \<in> pending True s f}"
    "pending True s1 f' = {(x, d) \<in> pending True s f. Suc n < d}"
    using ticked_deadlines [OF ok b s1(2) [unfolded s0_def]] by auto
  have ids: "same_ids s0 s1" by (rule ids.ticked_view [OF s1(1)])
  have wt: "wake_timer s1 x q" if "wake_timer s x q" for x q
    using wake_timer_ids [OF ids] that wake_timer_cong [of s0 s] by (simp add: s0_def)
  have k1: "ksched s1 = ksched s" using same_ids_more(1) [OF ids] by (simp add: s0_def)
  have "\<forall>x\<in>set new. \<exists>p. wake_timer s x p \<and> wakeable (ksched s) p" using sl new(2) by (auto simp: sleepers_def)
  then obtain D where D: "\<forall>x\<in>set new. wake_timer s x (D x) \<and> wakeable (ksched s) (D x)" by metis
  have D1: "\<forall>x\<in>set new. wake_timer s1 x (D x) \<and> wakeable (ksched s1) (D x)" using D wt k1 by auto
  obtain s' where s': "(if \<not> list_empty ExpdHd (expd s1) then process_expd_timers True (run_handler now app) al s1 else Inr s1) = Inr s'"
    "timers_ok True (Suc n) s' f' []" "pending True s' f' = pending True s1 f'" "woke (D ` set new) s1 s'"
    "\<forall>x q. x \<notin> set new \<longrightarrow> wake_timer s1 x q \<longrightarrow> wake_timer s' x q"
    using sleeps.drain_did [OF new(1), of "\<lambda>x. (Some wakeup_task_fn, D x)" True now app al] D1 k k1
    by (auto simp: wake_timer_def image_image)
  have "btm_hlf True (run_handler now app) al s0 = Inr s'" using s1(1) s'(1) by (simp add: btm_hlf_def)
  moreover have "D ` set new = due (Suc n) s f"
    using D new(2) wake_timer_unique [of s] unfolding due_def by blast
  moreover have "woke (D ` set new) s0 s'" using s'(4) same_ids_more [OF ids] by (simp add: woke_def)
  ultimately show ?thesis using s'(2,3,5) new(2,3) wt by (intro exI [of _ s'] exI [of _ f']) auto
qed

section \<open>The invariant of the library\<close>

text \<open>
  \<open>n\<close> is the number of ticks so far, \<open>f\<close> the timers on the four wheels, \<open>ps\<close> the soft
  interrupts.  No soft interrupt waits to be served and no expired timer to be handled.
\<close>

definition sys_ok :: "nat \<Rightarrow> sys \<Rightarrow> (nat \<Rightarrow> nat list) \<Rightarrow> u32 list \<Rightarrow> bool" where
  "sys_ok n s f ps \<longleftrightarrow> timers_ok True n s f [] \<and> sleepers s f \<and> kinv (ksched s) \<and> irqs_ok s ps \<and>
     (\<forall>p\<in>set ps. \<not> woken s p) \<and> tmr_irq s \<in> set ps \<and> irq_action (the (sirqs s (tmr_irq s))) = Some btm_hlf_fn \<and>
     (\<exists>d. softirq_d s = Some d \<and> wakeable (ksched s) d)"

text \<open>A tick together with the pass of the soft interrupt task it asks for.\<close>

definition served_tick ::
    "u32 \<Rightarrow> (nat \<Rightarrow> nat \<Rightarrow> sys \<Rightarrow> sys res) \<Rightarrow> (sys \<Rightarrow> nat option) \<Rightarrow> (nat \<Rightarrow> sys \<Rightarrow> sys res) \<Rightarrow> sys \<Rightarrow> sys res" where
  "served_tick now app al act s = andThen (tick_times now s) (softirq_pass (run_action now app al act))"

lemma tick_idle:
  assumes ok: "sys_ok n s f ps" and bound: "n + 1025 < 2 ^ 32"
  defines "s0 \<equiv> s\<lparr>clk := tick_clk True (clk s)\<rparr>"
  assumes p: "timers_pending_for_service True s0 = Inr False"
  shows "\<exists>f'. served_tick now app al act s = Inr s0 \<and> sys_ok (Suc n) s0 f' ps \<and>
     pending True s0 f' = {(x, d) \<in> pending True s f. Suc n < d} \<and> due (Suc n) s f = {}"
proof -
  have t: "timers_ok True n s f []" and b: "Suc n < 2 ^ 32" using ok bound by (simp_all add: sys_ok_def)
  have "ticked True (Suc n) s0 f [] s0" using tick_ok [OF timers_okD [OF t] bound] p unfolding s0_def by auto
  then obtain f' new where new: "timers_ok True (Suc n) s0 f' new" "set new = {x. (x, Suc n) \<in> pending True s f}"
    "pending True s0 f' = {(x, d) \<in> pending True s f. Suc n < d}"
    using ticked_deadlines [OF t b] unfolding s0_def by fastforce
  have "new = []" using expired_list [OF t new(1)] by (simp add: s0_def)
  moreover have "irqs_ok s0 ps \<and> (\<forall>p\<in>set ps. \<not> woken s0 p)" using ok by (simp add: sys_ok_def s0_def irqs_ok_def woken_def)
  moreover have "sleepers s0 f'"
    using ok new(3) wake_timer_cong [of s0 s] by (auto simp: sys_ok_def sleepers_def s0_def)
  ultimately show ?thesis
    using new p ok softirq_pass_none [of s0 ps]
    by (intro exI [of _ f']) (auto simp: served_tick_def tick_times_def update_times_def sys_ok_def due_def s0_def)
qed

text \<open>The state after the pass satisfies the invariant again.\<close>

lemma sys_ok_next:
  assumes ok: "sys_ok n s f ps" and w: "woke Q s s'" and t: "timers_ok True (Suc n) s' f' []"
    and pend: "pending True s' f' = {(x, d) \<in> pending True s f. Suc n < d}"
    and wt: "\<forall>x p. (x, Suc n) \<notin> pending True s f \<longrightarrow> wake_timer s x p \<longrightarrow> wake_timer s' x p"
  shows "sys_ok (Suc n) s' f' ps"
proof -
  have wh: "wheels s f" using tmr_invD(1) [OF timers_okD(1)] ok by (auto simp: sys_ok_def)
  have "(x, Suc n) \<notin> pending True s f" if "(x, d) \<in> pending True s f" "Suc n < d" for x d
    using pending_unique [OF wh that(1)] that(2) by fastforce
  then have "sleepers s' f'" using ok wt pend wokeD(3) [OF w] unfolding sleepers_def sys_ok_def by blast
  moreover have "tmr_irq s' = tmr_irq s" "sirqs s' = sirqs s" "softirq_d s' = softirq_d s" using w by (auto simp: woke_def)
  ultimately show ?thesis using ok t wokeD [OF w] by (auto simp: sys_ok_def)
qed

lemma service_cong:
  assumes "rnodes s' = rnodes s" "roots s' = roots s" "clk s' = clk s" "tcount s' = tcount s"
  shows "timers_pending_for_service sfs s' = timers_pending_for_service sfs s"
proof -
  have h: "has_timers w s' = has_timers w s" for w using assms by (simp add: has_timers_def tree_at_def)
  have i: "IS_NXT_SEC_HAPPEND sfs s' = IS_NXT_SEC_HAPPEND sfs s" "IS_NXT_MIN_HAPPEND s' = IS_NXT_MIN_HAPPEND s"
    "IS_NXT_HR_HAPPEND s' = IS_NXT_HR_HAPPEND s"
    using assms by (simp_all add: IS_NXT_SEC_HAPPEND_def IS_NXT_MIN_HAPPEND_def IS_NXT_HR_HAPPEND_def)
  show ?thesis unfolding timers_pending_for_service_def h i assms(4) ..
qed

text \<open>A change of the scheduler alone, and the mark that a tick leaves for the soft interrupt task.\<close>

lemma sys_ok_sched:
  assumes "sys_ok n s f ps" and "kinv k" and al: "\<And>p. wakeable (ksched s) p \<Longrightarrow> wakeable k p"
  shows "sys_ok n (s\<lparr>ksched := k\<rparr>) f ps" and "pending True (s\<lparr>ksched := k\<rparr>) f = pending True s f"
    and "wake_timer (s\<lparr>ksched := k\<rparr>) x p = wake_timer s x p"
proof -
  have T: "timers_ok True n (s\<lparr>ksched := k\<rparr>) f [] = timers_ok True n s f []"
    "pending True (s\<lparr>ksched := k\<rparr>) f = pending True s f" "wake_timer (s\<lparr>ksched := k\<rparr>) x p = wake_timer s x p" for x p
    using timers_ok_cong [of "s\<lparr>ksched := k\<rparr>" s] wake_timer_cong [of "s\<lparr>ksched := k\<rparr>" s] by simp_all
  have "sleepers (s\<lparr>ksched := k\<rparr>) f" using assms(1) T al unfolding sleepers_def sys_ok_def by simp blast
  then show "sys_ok n (s\<lparr>ksched := k\<rparr>) f ps" using assms(1,2) T al by (auto simp: sys_ok_def irqs_ok_def woken_def)
qed (use timers_ok_cong(2) [of "s\<lparr>ksched := k\<rparr>" s] wake_timer_cong [of "s\<lparr>ksched := k\<rparr>" s] in simp_all)

definition after_tick :: "sys \<Rightarrow> sys" where
  "after_tick s = s\<lparr>clk := tick_clk True (clk s),
     sirqs := (sirqs s)(tmr_irq s \<mapsto> (the (sirqs s (tmr_irq s)))\<lparr>irq_stat := WAKE_UP\<rparr>)\<rparr>"

lemma tmr_irq_asleep:
  assumes "sys_ok n s f ps"
  obtains q where "sirqs s (tmr_irq s) = Some q" and "irq_action q = Some btm_hlf_fn" and "tmr_irq s \<in> set ps"
    and "tmr_irq s \<noteq> 0" and "irq_stat q = SLEEPING"
proof -
  obtain q where q: "sirqs s (tmr_irq s) = Some q" using assms by (auto simp: sys_ok_def irqs_ok_def)
  have "irq_stat q = SLEEPING" using assms q by (cases "irq_stat q") (auto simp: sys_ok_def woken_def)
  with q that show thesis using assms by (auto simp: sys_ok_def irqs_ok_def)
qed

lemma after_tick_woken:
  assumes "sys_ok n s f ps"
  shows "irqs_ok (after_tick s) ps" and "\<forall>x\<in>set ps. woken (after_tick s) x \<longleftrightarrow> x = tmr_irq s" and "woken (after_tick s) (tmr_irq s)"
  using assms tmr_irq_asleep [OF assms] by (auto simp: sys_ok_def woken_def irqs_ok_def after_tick_def)

lemma tick_asks:
  assumes ok: "sys_ok n s f ps" and d: "softirq_d s = Some d"
    and p: "timers_pending_for_service True (s\<lparr>clk := tick_clk True (clk s)\<rparr>) = Inr True"
  shows "\<exists>k. tick_times now s = Inr (after_tick (s\<lparr>ksched := k\<rparr>)) \<and> woke {d} s (s\<lparr>ksched := k\<rparr>)"
proof -
  obtain k where k: "wakeup_task now d (ksched s) = Inr k" "woke {d} s (s\<lparr>ksched := k\<rparr>)"
    using wake_step [of s d] ok d by (auto simp: sys_ok_def)
  have "tick_times now s = Inr (after_tick (s\<lparr>ksched := k\<rparr>))"
    using p d k(1) by (rule_tac tmr_irq_asleep [OF ok]) (simp add: tick_times_def update_times_def service_timers_def
        wake_irq_def softirq_wakeup_def on_sched_def after_tick_def)
  with k(2) show ?thesis by blast
qed

text \<open>The pass of the soft interrupt task after a tick that asked for it.\<close>

lemma serve_ok:
  assumes ok: "sys_ok n s f ps" and bound: "n + 1025 < 2 ^ 32"
    and p: "timers_pending_for_service True (s\<lparr>clk := tick_clk True (clk s)\<rparr>) = Inr True"
  shows "\<exists>s' f'. softirq_pass (run_action now app al act) (after_tick s) = Inr s' \<and> sys_ok (Suc n) s' f' ps \<and>
     pending True s' f' = {(x, d) \<in> pending True s f. Suc n < d} \<and> woke (due (Suc n) s f) s s' \<and>
     (\<forall>x p. (x, Suc n) \<notin> pending True s f \<longrightarrow> wake_timer s x p \<longrightarrow> wake_timer s' x p)"
proof -
  let ?t = "tmr_irq s"
  obtain q where q: "sirqs s ?t = Some q" "irq_action q = Some btm_hlf_fn" "?t \<in> set ps" "irq_stat q = SLEEPING"
    by (rule tmr_irq_asleep [OF ok])
  define s2 where "s2 = s\<lparr>sirqs := (sirqs s)(?t \<mapsto> q\<lparr>irq_stat := WAKE_UP\<rparr>)\<rparr>"
  have at: "after_tick s = s2\<lparr>clk := tick_clk True (clk s2)\<rparr>" using q(1) by (simp add: after_tick_def s2_def)
  have cong: "timers_ok True n s2 f [] = timers_ok True n s f []" "pending True s2 f = pending True s f"
    using timers_ok_cong [of s2 s] by (simp_all add: s2_def)
  have wt: "wake_timer s2 = wake_timer s" using wake_timer_cong [of s2 s] by (simp add: fun_eq_iff s2_def)
  have "sleepers s2 f" using ok cong(2) wt by (auto simp: sys_ok_def sleepers_def s2_def)
  moreover have "due (Suc n) s2 f = due (Suc n) s f" using cong(2) wt by (simp add: due_def)
  moreover have "timers_pending_for_service True (after_tick s) = Inr True"
    using p service_cong [of "after_tick s" "s\<lparr>clk := tick_clk True (clk s)\<rparr>" True] by (simp add: after_tick_def)
  ultimately obtain s3 f' where s3: "btm_hlf True (run_handler now app) al (after_tick s) = Inr s3" "timers_ok True (Suc n) s3 f' []"
    "pending True s3 f' = {(x, d) \<in> pending True s f. Suc n < d}" "woke (due (Suc n) s f) (after_tick s) s3"
    "\<forall>x p. (x, Suc n) \<notin> pending True s f \<longrightarrow> wake_timer s x p \<longrightarrow> wake_timer s3 x p"
    using btm_hlf_wakes [of n s2 f now app al] ok bound cong wt unfolding at by (auto simp: sys_ok_def s2_def)
  define s' where "s' = s3\<lparr>sirqs := sirqs s\<rparr>"
  have "(sirqs (after_tick s))(?t \<mapsto> q\<lparr>irq_stat := WAKE_UP, irq_stat := SLEEPING\<rparr>) = sirqs s"
    using q(1,4) by (simp add: after_tick_def fun_upd_idem)
  then have "softirq_pass (run_action now app al act) (after_tick s) = Inr s'"
    using softirq_pass_one [OF after_tick_woken(1) [OF ok] q(3) after_tick_woken(2) [OF ok], of "run_action now app al act" s3]
      q(1,2) s3(1,4) by (simp add: run_action_def woke_def after_tick_def s'_def)
  moreover have w: "woke (due (Suc n) s f) s s'" using s3(4) by (simp add: woke_def after_tick_def s'_def)
  moreover have t': "timers_ok True (Suc n) s' f' []" "pending True s' f' = pending True s3 f'"
    using timers_ok_cong [of s' s3] s3(2) by (simp_all add: s'_def)
  moreover have wt': "\<forall>x p. (x, Suc n) \<notin> pending True s f \<longrightarrow> wake_timer s x p \<longrightarrow> wake_timer s' x p"
    using s3(5) wake_timer_cong [of s' s3] by (simp add: s'_def)
  moreover have "sys_ok (Suc n) s' f' ps" using sys_ok_next [OF ok w t'(1) _ wt'] t'(2) s3(3) by simp
  ultimately show ?thesis using s3(3) by (intro exI [of _ s'] exI [of _ f']) simp
qed

lemma tick_busy:
  assumes ok: "sys_ok n s f ps" and bound: "n + 1025 < 2 ^ 32" and d: "softirq_d s = Some d"
    and p: "timers_pending_for_service True (s\<lparr>clk := tick_clk True (clk s)\<rparr>) = Inr True"
  shows "\<exists>s' f'. served_tick now app al act s = Inr s' \<and> sys_ok (Suc n) s' f' ps \<and>
     pending True s' f' = {(x, d) \<in> pending True s f. Suc n < d} \<and> woke (insert d (due (Suc n) s f)) s s' \<and>
     (\<forall>x p. (x, Suc n) \<notin> pending True s f \<longrightarrow> wake_timer s x p \<longrightarrow> wake_timer s' x p)"
proof -
  obtain k where k: "tick_times now s = Inr (after_tick (s\<lparr>ksched := k\<rparr>))" "woke {d} s (s\<lparr>ksched := k\<rparr>)"
    using tick_asks [OF ok d p] by blast
  let ?s = "s\<lparr>ksched := k\<rparr>"
  have "kinv k" "\<And>p. wakeable (ksched s) p \<Longrightarrow> wakeable k p" using wokeD(1,3) [OF k(2)] by simp_all
  note k1 = sys_ok_sched [OF ok this]
  have "due (Suc n) ?s f = due (Suc n) s f" using k1(2,3) by (simp add: due_def)
  moreover have "timers_pending_for_service True (?s\<lparr>clk := tick_clk True (clk ?s)\<rparr>) = Inr True"
    using p service_cong [of "?s\<lparr>clk := tick_clk True (clk ?s)\<rparr>" "s\<lparr>clk := tick_clk True (clk s)\<rparr>" True] by simp
  ultimately obtain s' f' where s': "softirq_pass (run_action now app al act) (after_tick ?s) = Inr s'" "sys_ok (Suc n) s' f' ps"
    "pending True s' f' = {(x, d) \<in> pending True s f. Suc n < d}" "woke (due (Suc n) s f) ?s s'"
    "\<forall>x p. (x, Suc n) \<notin> pending True s f \<longrightarrow> wake_timer s x p \<longrightarrow> wake_timer s' x p"
    using serve_ok [OF k1(1) bound, of now app al act] k1(2,3) by auto
  from woke_trans [OF k(2) s'(4)] have "woke (insert d (due (Suc n) s f)) s s'" by simp
  with k(1) s'(1-3,5) show ?thesis by (intro exI [of _ s'] exI [of _ f']) (simp add: served_tick_def)
qed

lemma tick_served:
  assumes ok: "sys_ok n s f ps" and bound: "n + 1025 < 2 ^ 32"
  shows "\<exists>s' f'. served_tick now app al act s = Inr s' \<and> sys_ok (Suc n) s' f' ps \<and>
     pending True s' f' = {(x, d) \<in> pending True s f. Suc n < d} \<and> (\<forall>p\<in>due (Suc n) s f. runnable (ksched s') p) \<and>
     (\<forall>q. q \<notin> due (Suc n) s f \<and> softirq_d s \<noteq> Some q \<longrightarrow> tsks (ksched s') q = tsks (ksched s) q) \<and>
     (\<forall>x p. (x, Suc n) \<notin> pending True s f \<longrightarrow> wake_timer s x p \<longrightarrow> wake_timer s' x p)"
proof -
  let ?s = "s\<lparr>clk := tick_clk True (clk s)\<rparr>"
  have t: "timers_ok True n s f []" using ok by (simp add: sys_ok_def)
  obtain d where d: "softirq_d s = Some d" using ok by (auto simp: sys_ok_def)
  obtain b where b: "timers_pending_for_service True ?s = Inr b" using tick_ok [OF timers_okD [OF t] bound] by blast
  show ?thesis
  proof (cases b)
    case True
    then have "timers_pending_for_service True ?s = Inr True" using b by simp
    from tick_busy [OF ok bound d this] obtain s' f' where s': "served_tick now app al act s = Inr s'" "sys_ok (Suc n) s' f' ps"
      "pending True s' f' = {(x, d) \<in> pending True s f. Suc n < d}" "woke (insert d (due (Suc n) s f)) s s'"
      "\<forall>x p. (x, Suc n) \<notin> pending True s f \<longrightarrow> wake_timer s x p \<longrightarrow> wake_timer s' x p"
      by blast
    have "runnable (ksched s') p" if "p \<in> due (Suc n) s f" for p using wokeD(2) [OF s'(4)] that by blast
    moreover have "tsks (ksched s') q = tsks (ksched s) q" if "q \<notin> due (Suc n) s f" "softirq_d s \<noteq> Some q" for q
      using s'(4) that d by (auto simp: woke_def)
    ultimately show ?thesis using s'(1-3,5) by blast
  next
    case False
    then have np: "timers_pending_for_service True ?s = Inr False" using b by simp
    obtain f' where "served_tick now app al act s = Inr ?s" "sys_ok (Suc n) ?s f' ps"
      "pending True ?s f' = {(x, d) \<in> pending True s f. Suc n < d}" "due (Suc n) s f = {}"
      using tick_idle [OF ok bound np] by blast
    then show ?thesis using wake_timer_cong [of ?s s] by (intro exI [of _ ?s] exI [of _ f']) simp
  qed
qed

text \<open>
  C8: the clock, the soft interrupts, the timers and the scheduler together end a sleep at its
  deadline.  A tick and the pass of the soft interrupt task it asks for return without a fault,
  keep the invariant of the whole library, make every task runnable whose sleep is due at this
  tick, keep the deadlines of all other sleeps, and touch no other task but the soft interrupt
  task.
\<close>

theorem tick_wakes_sleepers:
  assumes "sys_ok n s f ps" and "n + 1025 < 2 ^ 32"
  shows "\<exists>s' f'. served_tick now app al act s = Inr s' \<and> sys_ok (Suc n) s' f' ps \<and>
     pending True s' f' = {(x, d) \<in> pending True s f. Suc n < d} \<and> (\<forall>p\<in>due (Suc n) s f. runnable (ksched s') p) \<and>
     (\<forall>q. q \<notin> due (Suc n) s f \<and> softirq_d s \<noteq> Some q \<longrightarrow> tsks (ksched s') q = tsks (ksched s) q)"
  using tick_served [OF assms, of now app al act] by blast

section \<open>Sleeping\<close>

lemma start_timer_wakes:
  assumes "start_timer sfs (Some i) (Some a) ticks c (Some wakeup_task_fn) 0 s = Inr (Some i, s')"
    and "tcount s \<le> MAX_TIMERS" "indx s \<noteq> - 1" and "tapps s a = None" "ttms s i = None"
  shows "wake_timer s' a c" and "wake_timer s x q \<Longrightarrow> wake_timer s' x q"
  using start_timer_once [OF assms] by (simp_all add: wake_timer_def)

text \<open>Task \<open>c\<close> is the last one on the wait queue.\<close>

definition waits_last :: "sched \<Rightarrow> nat \<Rightarrow> bool" where
  "waits_last k c \<longleftrightarrow> (\<exists>g u xs. sched_inv g u k \<and> g WqHd = xs @ [TskHd c])"

lemma sleep_waits:
  assumes ok: "sys_ok n s f ps"
    and c: "current (ksched s) = Some c" "runnable (ksched s) c" "idle (ksched s) \<noteq> Some c"
    and fresh: "tapps s a = None" "ttms s i = None" and bound: "n + 1024 < 2 ^ 32"
    and room: "tcount s \<le> MAX_TIMERS" "indx s \<noteq> - 1"
  shows "\<exists>s1 f'. sleep_park (Some i) (Some a) ticks now s = Inr s1 \<and> sys_ok n s1 f' ps \<and>
     pending True s1 f' = started True n a (unat ticks) (pending True s f) \<and> wake_timer s1 a c \<and>
     \<not> runnable (ksched s1) c \<and> current (ksched s1) = Some c \<and> (\<forall>x p. wake_timer s x p \<longrightarrow> wake_timer s1 x p) \<and>
     waits_last (ksched s1) c"
proof -
  have T: "timers_ok True n s f []" using ok by (simp add: sys_ok_def)
  obtain s' f' where s': "start_timer True (Some i) (Some a) ticks c (Some wakeup_task_fn) 0 s = Inr (Some i, s')"
    "timers_ok True n s' f' []" "pending True s' f' = started True n a (unat ticks) (pending True s f)"
    using start_timer_ok [OF T fresh _ bound room, of ticks c "Some wakeup_task_fn" 0] by auto
  note m = more_fields [OF start_timer_more(1) [OF s'(1) room]] and wt = start_timer_wakes [OF s'(1) room fresh]
  obtain g u t where inv: "sched_inv g u (ksched s)" and t: "tsks (ksched s) c = Some t" "onrq t \<noteq> 0"
    using ok c(2) by (auto simp: sys_ok_def kinv_def runnable_def)
  obtain k where k: "add_task_to_wait_Q now (Some c) (ksched s) = Inr k" "kinv k" "current k = Some c" "waits_last k c"
    "tsks k = (tsks (ksched s))(c \<mapsto> t\<lparr>state := TASK_INTERRUPTIBLE, onrq := 0, stime := now\<rparr>)"
    using add_task_to_wait_Q_inv [OF inv t(1) c(3) t(2), of now] c(1) kinvI unfolding waits_last_def enq_tail_def
    by (metis fun_upd_same)
  have ik: "idle k = idle (ksched s)" using k(1) t by (simp add: add_task_to_wait_Q_eq) auto
  define s1 where "s1 = s'\<lparr>ksched := k\<rparr>"
  have T1: "timers_ok True n s1 f' []" "pending True s1 f' = pending True s' f'" "wake_timer s1 = wake_timer s'"
    using timers_ok_cong [of s1 s'] wake_timer_cong [of s1 s'] s'(2) by (auto simp: s1_def fun_eq_iff)
  have al: "wakeable k p" if "wakeable (ksched s) p" for p using that ik k(5) by (auto simp: wakeable_def)
  have "wakeable (ksched s) c" using t c(3) by (simp add: wakeable_def)
  then have "sleepers s1 f'"
    using ok s'(3) T1 wt al unfolding sleepers_def sys_ok_def started_def by (auto simp: s1_def split: if_splits) blast+
  then have "sys_ok n s1 f' ps"
    using ok T1 k(2) al m by (auto simp: sys_ok_def s1_def irqs_ok_def woken_def)
  moreover have "sleep_park (Some i) (Some a) ticks now s = Inr s1"
    using c(1) s'(1) m(1) k(1) by (simp add: sleep_park_def on_sched_def s1_def)
  ultimately show ?thesis using s'(3) T1 wt k(3,4,5) by (intro exI [of _ s1] exI [of _ f']) (simp add: s1_def runnable_def)
qed

lemma sleep_secs:
  assumes "unat secs < 1024 * 3600"
  shows "unat (secs * tm_get_ticks_per_second True) = 50 * unat secs" and "50 * unat secs < horizon True"
proof -
  have "unat secs * unat (50 :: u32) < 2 ^ 32" using assms by simp
  then show "unat (secs * tm_get_ticks_per_second True) = 50 * unat secs"
    by (simp add: tm_get_ticks_per_second_def unat_word_ariths)
  show "50 * unat secs < horizon True" using assms by (simp add: horizon_def tm_get_ticks_per_second_def)
qed

text \<open>
  C12: a task that calls \<^verbatim>\<open>sleep\<close> with a time that is not zero and below 1024 hours, and memory for the
  timer, is the last one on the wait queue and not runnable when the pass of the scheduler begins,
  with a timer that wakes it.  The sleep is
  due up to one second, minute or hour (the largest of them the time has) before the time is
  over, because it is counted from the last full one; the invariant of the library is kept.
\<close>

theorem sleep_sets_deadline:
  assumes "sys_ok n s f ps" and "current (ksched s) = Some c" and "runnable (ksched s) c" and "idle (ksched s) \<noteq> Some c"
    and "tapps s a = None" and "ttms s i = None" and "n + 1024 < 2 ^ 32" and "tcount s \<le> MAX_TIMERS" and "indx s \<noteq> - 1"
    and "secs \<noteq> 0" and "unat secs < 1024 * 3600"
  shows "\<exists>s1 f'. sleep (Some i) (Some a) secs now e s = andThen (on_sched (schedule e) s1) (\<lambda>s. Inr (Some 0, s)) \<and>
     sys_ok n s1 f' ps \<and> waits_last (ksched s1) c \<and> \<not> runnable (ksched s1) c \<and> wake_timer s1 a c \<and>
     pending True s1 f' = insert (a, n - n mod granule True (50 * unat secs) + 50 * unat secs) (pending True s f)"
proof -
  note u = sleep_secs [OF assms(11)]
  have "started True n a (50 * unat secs) P = insert (a, n - n mod granule True (50 * unat secs) + 50 * unat secs) P" for P
    using u(2) assms(10) by (simp add: started_def new_deadline_def unat_eq_zero)
  then show ?thesis
    using sleep_waits [OF assms(1-9), of "secs * tm_get_ticks_per_second True" now] assms(10)
    unfolding u(1) sleep_def sleep_ticks_def by fastforce
qed

section \<open>Start-up\<close>

text \<open>The library before start-up: what is not initialised statically is arbitrary.\<close>

definition static_sys :: "laddr lheap \<Rightarrow> eaddr lheap \<Rightarrow> iaddr lheap \<Rightarrow> mempool \<Rightarrow> sys" where
  "static_sys h eh ih m = \<lparr>ttms = (\<lambda>_. None), tapps = (\<lambda>_. None),
     rnodes = (\<lambda>_. \<lparr>rb_par = None, rb_black = False, rb_left = None, rb_right = None\<rparr>), roots = (\<lambda>_. None),
     tcount = 0, clk = (\<lambda>_. 0), indx = 0, expd = eh, tbytes = 0,
     ksched = static_sched h, kpools = m, sft_irq = ih, sirqs = (\<lambda>_. None), softirq_d = None, tmr_irq = 0\<rparr>"

lemma tmlib_init_eq:
  assumes "sched_boot aem aei aes ticks (ksched s) = Inr (q, k)"
  shows "tmlib_init aem aei aes ticks new s = Inr (init_timer_mgr new
     (s\<lparr>sft_irq := INIT_LIST_HEAD SftIrq (sft_irq s), softirq_d := q, ksched := k, kpools := mem_init (kpools s)\<rparr>))"
proof -
  obtain k1 k2 k3 where c: "create_parent_task aem ticks (init_scheduler (ksched s)) = Inr k1" "create_idle_task aei k1 = Inr k2"
    "spawn_softirqd aes k2 = Inr (q, k3)" "k = init_io k3" using assms by (auto simp: sched_boot_def andThen_eq_Inr)
  then show ?thesis by (simp add: tmlib_init_def on_sched_def init_soft_irq_def Let_def)
qed

lemma tmlib_init_ok:
  assumes boot: "boot_ok aem aei aes m i d" and p: "p \<noteq> 0"
  shows "\<exists>s'. tmlib_init aem aei aes ticks (Some p) (static_sys h eh ih pm) = Inr s' \<and> sys_ok 0 s' (\<lambda>_. []) [p] \<and>
     current (ksched s') = Some m \<and> softirq_d s' = Some d \<and> tmr_irq s' = p \<and> mcbs_ok (kpools s') [] \<and>
     runnable (ksched s') m \<and> idle (ksched s') = Some i \<and> tapps s' = (\<lambda>_. None) \<and> ttms s' = (\<lambda>_. None) \<and>
     tcount s' = 0 \<and> indx s' = 0"
proof -
  obtain k where k: "sched_boot aem aei aes ticks (static_sched h) = Inr (Some d, k)"
     "links k = boot_links m i d h" "tsks k = boot_tasks aei aes ticks m i d" "nrp k = 2" "nwp k = 0"
     "current k = Some m" "idle k = Some i" "nxt_imm_task k = Some d" "task_count k = 2"
    using sched_boot_eq [OF boot, of ticks h] by blast
  have ne: "m \<noteq> i" "m \<noteq> d" "i \<noteq> d" using boot by (auto simp: boot_ok_def)
  have inv: "sched_inv (boot_queues d) (Some m) k" by (rule boot_inv [OF ne k(2-9)])
  let ?s = "static_sys h eh ih pm"
  define s' where "s' = init_timer_mgr (Some p) (?s\<lparr>sft_irq := INIT_LIST_HEAD SftIrq (sft_irq ?s), softirq_d := Some d,
     ksched := k, kpools := mem_init (kpools ?s)\<rparr>)"
  have init: "tmlib_init aem aei aes ticks (Some p) ?s = Inr s'"
    unfolding s'_def by (rule tmlib_init_eq) (simp add: static_sys_def k(1))
  note defs = s'_def init_timer_mgr_def softirq_create_def alloc_soft_irq_def timer_rq_init_def static_sys_def
  have T: "timers_ok True 0 s' (\<lambda>_. []) []"
    by (rule no_deadlines) (simp_all add: defs INIT_LIST_HEAD_dlist)
  have K: "ksched s' = tm_calloc 1 sizeof_soft_irq k" by (simp add: defs)
  then have "kinv (ksched s')" using inv kinvI by (auto simp: tm_calloc_def)
  moreover have "irqs_ok s' [p]"
    using p INIT_LIST_HEAD_dlist [of SftIrq ih]
    by (auto simp: irqs_ok_def defs intro!: list_add_tail_dlist [of _ _ "[]", simplified] INIT_LIST_HEAD_other)
  moreover have "sleepers s' (\<lambda>_. [])" by (simp add: sleepers_def pending_def)
  moreover have "wakeable (ksched s') d" using ne k(3,7) by (simp add: K tm_calloc_def wakeable_def boot_tasks_def)
  ultimately have "sys_ok 0 s' (\<lambda>_. []) [p]" using T by (simp add: sys_ok_def) (simp add: defs woken_def)
  moreover have "current (ksched s') = Some m" "idle (ksched s') = Some i" "runnable (ksched s') m"
    using k(3,6,7) ne by (simp_all add: K tm_calloc_def runnable_def boot_tasks_def)
  ultimately show ?thesis using init by simp (simp add: defs mcbs_ok_def mem_init_def INIT_LIST_HEAD_dlist)
qed

text \<open>
  C19: \<^verbatim>\<open>tmlib_init\<close> with memory for its three tasks and the soft interrupt establishes the
  invariant of the library: the main task runs, the task of the soft interrupts exists, the soft
  interrupt of the timers is the only one and asleep, no timer runs, no pool exists.
\<close>

theorem tmlib_init_establishes_inv:
  assumes "boot_ok aem aei aes m i d" and "p \<noteq> 0"
  shows "\<exists>s'. tmlib_init aem aei aes ticks (Some p) (static_sys h eh ih pm) = Inr s' \<and> sys_ok 0 s' (\<lambda>_. []) [p] \<and>
     current (ksched s') = Some m \<and> softirq_d s' = Some d \<and> tmr_irq s' = p \<and> mcbs_ok (kpools s') []"
  using tmlib_init_ok [OF assms, of ticks h eh ih pm] by blast

section \<open>Witnesses\<close>

definition demo_static :: sys where
  "demo_static = static_sys \<lparr>lnext = id, lprev = id\<rparr> \<lparr>lnext = id, lprev = id\<rparr> \<lparr>lnext = id, lprev = id\<rparr>
     \<lparr>mcbs = (\<lambda>_. None), mlinks = \<lparr>lnext = id, lprev = id\<rparr>, mcb_i = 0\<rparr>"

definition demo_init :: "sys res" where
  "demo_init = tmlib_init (demo_env 0) (demo_env 1) (demo_env 2) 0 (Some 64) demo_static"

lemma demo_boot_ok: "boot_ok (demo_env 0) (demo_env 1) (demo_env 2) 0 1 2"
  by (simp add: boot_ok_def demo_env_def)

lemma demo_lib:
  obtains s where "demo_init = Inr s" and "sys_ok 0 s (\<lambda>_. []) [64]" and "current (ksched s) = Some 0"
    and "runnable (ksched s) 0" and "idle (ksched s) \<noteq> Some 0" and "tapps s = (\<lambda>_. None)" and "ttms s = (\<lambda>_. None)"
    and "tcount s \<le> MAX_TIMERS" and "indx s \<noteq> - 1"
proof -
  have "(64 :: u32) \<noteq> 0" by simp
  from tmlib_init_ok [OF demo_boot_ok this, of 0] that show thesis
    unfolding demo_init_def demo_static_def by fastforce
qed

theorem tmlib_init_establishes_inv_witness:
  "\<exists>s'. demo_init = Inr s' \<and> sys_ok 0 s' (\<lambda>_. []) [64] \<and> softirq_d s' = Some 2"
proof -
  have "(64 :: u32) \<noteq> 0" by simp
  from tmlib_init_establishes_inv [OF demo_boot_ok this, of 0] show ?thesis unfolding demo_init_def demo_static_def by blast
qed

text \<open>The main task sleeps for one tick.\<close>

lemma demo_asleep:
  obtains s s1 f where "demo_init = Inr s" and "sleep_park (Some 0) (Some 0) 1 0 s = Inr s1" and "sys_ok 0 s1 f [64]"
    and "pending True s1 f = {(0, 1)}" and "wake_timer s1 0 0" and "\<not> runnable (ksched s1) 0"
    and "sys_ok 0 s (\<lambda>_. []) [64]" and "current (ksched s) = Some 0" and "runnable (ksched s) 0" and "idle (ksched s) \<noteq> Some 0"
    and "tapps s = (\<lambda>_. None)" and "ttms s = (\<lambda>_. None)" and "tcount s \<le> MAX_TIMERS" and "indx s \<noteq> - 1"
proof (rule demo_lib)
  fix s assume s: "demo_init = Inr s" "sys_ok 0 s (\<lambda>_. []) [64]" "current (ksched s) = Some 0" "runnable (ksched s) 0"
    "idle (ksched s) \<noteq> Some 0" "tapps s = (\<lambda>_. None)" "ttms s = (\<lambda>_. None)" "tcount s \<le> MAX_TIMERS" "indx s \<noteq> - 1"
  have "\<exists>s1 f'. sleep_park (Some 0) (Some 0) 1 0 s = Inr s1 \<and> sys_ok 0 s1 f' [64] \<and> pending True s1 f' = {(0, 1)} \<and>
      wake_timer s1 0 0 \<and> \<not> runnable (ksched s1) 0"
    using sleep_waits [OF s(2-5) _ _ _ s(8,9), of 0 0 1 0] s(6,7)
    by (auto simp: no_timers_pending started_def new_deadline_def horizon_def granule_def tm_get_ticks_per_second_def)
  with s that show thesis by blast
qed

theorem tick_wakes_sleepers_witness:
  "\<exists>s s1 s2. demo_init = Inr s \<and> sleep_park (Some 0) (Some 0) 1 0 s = Inr s1 \<and> \<not> runnable (ksched s1) 0 \<and>
     served_tick 0 (\<lambda>_ _ s. Inr s) (\<lambda>_. None) (\<lambda>_ s. Inr s) s1 = Inr s2 \<and> runnable (ksched s2) 0"
proof (rule demo_asleep)
  fix s s1 f assume s: "demo_init = Inr s" "sleep_park (Some 0) (Some 0) 1 0 s = Inr s1" "sys_ok 0 s1 f [64]"
    "pending True s1 f = {(0, 1)}" "wake_timer s1 0 0" "\<not> runnable (ksched s1) 0"
  have "0 \<in> due (Suc 0) s1 f" using s(4,5) by (auto simp: due_def)
  then show ?thesis
    using tick_wakes_sleepers [OF s(3), of 0 "\<lambda>_ _ s. Inr s" "\<lambda>_. None" "\<lambda>_ s. Inr s"] s(1,2,6) by auto
qed

text \<open>A sleep of one second at start-up is due after 50 ticks.\<close>

theorem sleep_sets_deadline_witness:
  "\<exists>s s1 f'. demo_init = Inr s \<and>
     sleep (Some 0) (Some 0) 1 0 demo_e s = andThen (on_sched (schedule demo_e) s1) (\<lambda>s. Inr (Some 0, s)) \<and>
     waits_last (ksched s1) 0 \<and> \<not> runnable (ksched s1) 0 \<and> wake_timer s1 0 0 \<and> pending True s1 f' = {(0, 50)}"
proof (rule demo_lib)
  fix s assume s: "demo_init = Inr s" "sys_ok 0 s (\<lambda>_. []) [64]" "current (ksched s) = Some 0" "runnable (ksched s) 0"
    "idle (ksched s) \<noteq> Some 0" "tapps s = (\<lambda>_. None)" "ttms s = (\<lambda>_. None)" "tcount s \<le> MAX_TIMERS" "indx s \<noteq> - 1"
  have f: "tapps s 0 = None" "ttms s 0 = None" "0 + 1024 < (2 :: nat) ^ 32" "(1 :: u32) \<noteq> 0" "unat (1 :: u32) < 1024 * 3600"
    using s(6,7) by simp_all
  from sleep_sets_deadline [OF s(2-5) f(1-3) s(8,9) f(4,5), of 0 demo_e] s(1) show ?thesis
    by (auto simp: no_timers_pending)
qed

end
