(* ===== verification/SysReach.thy ===== *)
theory SysReach
  imports SysProps
begin

unbundle bit_operations_syntax

text \<open>
  The library as a state machine: ticks, passes of the soft interrupt task, calls that sleep, and
  the calls and interrupts of the scheduler (theory Kernel), in any order, except that a tick and a
  sleep wait until a soft interrupt that is outstanding has been served.
\<close>

section \<open>Calls of the scheduler do not lose tasks\<close>

definition keeps_tasks :: "sched \<Rightarrow> sched \<Rightarrow> bool" where
  "keeps_tasks k k' \<longleftrightarrow> idle k' = idle k \<and> (\<forall>p. tsks k p \<noteq> None \<longrightarrow> tsks k' p \<noteq> None)"

named_theorems task_frames \<open>what the calls of the scheduler keep of the tasks\<close>

lemma keeps_refl [simp]: "keeps_tasks k k"
  by (simp add: keeps_tasks_def)

lemma keeps_trans [trans]: "keeps_tasks k k' \<Longrightarrow> keeps_tasks k' k'' \<Longrightarrow> keeps_tasks k k''"
  by (simp add: keeps_tasks_def)

lemma keeps_same: "tsks k' = tsks k \<Longrightarrow> idle k' = idle k \<Longrightarrow> keeps_tasks k k'"
  by (simp add: keeps_tasks_def)

lemma keeps_modify [task_frames]: "modify q g k = Inr k' \<Longrightarrow> keeps_tasks k k'"
  by (auto simp: modify_Inr keeps_tasks_def)

lemma keeps_wakeup [task_frames]: "wakeup_task now p k = Inr k' \<Longrightarrow> keeps_tasks k k'"
  using wakeup_task_frame [of now p k k'] by (auto simp: keeps_tasks_def runnable_def)

lemma keeps_masks [task_frames]:
  "keeps_tasks k (signals_block sg k)" "keeps_tasks k (signals_unblock sg k)"
  by (simp_all add: signals_block_def signals_unblock_def set_mask_def keeps_tasks_def)

lemma keeps_wait_Q [task_frames]: "add_current_task_wait_Q now k = Inr k' \<Longrightarrow> keeps_tasks k k'"
  by (auto simp: add_current_task_wait_Q_def add_task_to_wait_Q_def fault_simps keeps_tasks_def split: if_splits)

lemma keeps_park [task_frames]: "park_on_fd fd k = Inr k' \<Longrightarrow> keeps_tasks k k'"
  by (auto simp: park_on_fd_def add_task_to_IO_wait_Q_def io_hd_def fault_simps keeps_tasks_def split: if_splits)

lemma keeps_wake_loop:
  assumes "wake_loop now head pos n k = Some r"
  shows "\<forall>k'. r = Inr k' \<longrightarrow> keeps_tasks k k'"
proof (rule wake_loop.raw_induct [OF _ assms])
  fix f :: "u32 \<Rightarrow> laddr \<Rightarrow> laddr \<Rightarrow> laddr \<Rightarrow> sched \<Rightarrow> sched res option" and now head pos n k y
  assume IH: "\<And>now head pos n k y. f now head pos n k = Some y \<Longrightarrow> \<forall>k'. y = Inr k' \<longrightarrow> keeps_tasks k k'"
    and step: "(if pos = head then Some (Inr k)
      else case list_entry pos of None \<Rightarrow> Some (Inl NullDeref)
        | Some p \<Rightarrow> (case wakeup_task now p (k\<lparr>links := list_del (TskHd p) (links k)\<rparr>) of Inl err \<Rightarrow> Some (Inl err)
            | Inr s1 \<Rightarrow> f now head n (lnext (links s1) n) s1)) = Some y"
  show "\<forall>k'. y = Inr k' \<longrightarrow> keeps_tasks k k'"
  proof (intro allI impI)
    fix k' assume y: "y = Inr k'"
    show "keeps_tasks k k'"
    proof (cases "pos = head")
      case True
      then show ?thesis using step y by simp
    next
      case False
      then obtain p k1 where k1: "wakeup_task now p (k\<lparr>links := list_del (TskHd p) (links k)\<rparr>) = Inr k1"
        "f now head n (lnext (links k1) n) k1 = Some (Inr k')"
        using step y by (auto split: option.splits sum.splits)
      have "keeps_tasks k (k\<lparr>links := list_del (TskHd p) (links k)\<rparr>)" by (simp add: keeps_same)
      also have "keeps_tasks \<dots> k1" by (rule keeps_wakeup [OF k1(1)])
      also have "keeps_tasks k1 k'" using IH [OF k1(2)] by simp
      finally show ?thesis .
    qed
  qed
qed

lemma keeps_io [task_frames]:
  assumes "io_interrupt now sg i k = Inr k'"
  shows "keeps_tasks k k'"
proof -
  have io: "keeps_tasks k k'" if "wake_io_task now fd k = Inr k'" for fd k k'
    using that keeps_wake_loop by (auto simp: wake_io_task_def andThen_eq_Inr Let_def returned_def split: if_splits option.splits)
  let ?k = "signals_block SIGIO k"
  obtain k1 where k1: "(if sg = SIGIO then (case i of MesgQ mqid \<Rightarrow> wake_io_task now mqid ?k | Fd fd \<Rightarrow> wake_io_task now fd ?k)
      else Inr ?k) = Inr k1" "k' = signals_unblock SIGIO k1"
    using assms unfolding io_interrupt_def Let_def andThen_eq_Inr by blast
  have "keeps_tasks k ?k" by (rule keeps_masks)
  also have "keeps_tasks ?k k1" using k1(1) io by (auto split: if_splits io_info.splits)
  also have "keeps_tasks k1 k'" unfolding k1(2) by (rule keeps_masks)
  finally show ?thesis .
qed

lemma keeps_post [task_frames]: "post_event now i ev k = Inr (r, k') \<Longrightarrow> keeps_tasks k k'"
  using keeps_trans keeps_modify keeps_wakeup
  by (auto simp: post_event_def andThen_eq_Inr split: option.splits) blast

lemma keeps_signal [task_frames]:
  assumes "tm_signal mem sg h k = Inr (r, k')"
  shows "keeps_tasks k k'"
proof -
  have 0: "keeps_tasks k (tm_malloc sizeof_signal_s k)" by (simp add: keeps_same tm_malloc_def tm_calloc_def)
  show ?thesis
  proof (cases mem)
    case False
    with assms 0 show ?thesis by (auto simp: tm_signal_def andThen_eq_Inr)
  next
    case True
    then obtain b k1 k2 k3 where c: "modify (current (tm_malloc sizeof_signal_s k))
        (\<lambda>t. t\<lparr>sig_hd := (sg, h) # sig_hd t\<rparr>) (tm_malloc sizeof_signal_s k) = Inr k1"
      "set_current_signal_mask b k1 = Inr k2" "set_idle_signal_mask b k2 = Inr k3"
      "k' = k3 \<or> k' = k3\<lparr>reg_signals := reg_signals k3 OR b\<rparr>"
      using assms by (auto simp: tm_signal_def andThen_eq_Inr Let_def split: if_splits)
    note 0
    also note keeps_modify [OF c(1)]
    also note keeps_modify [OF c(2) [unfolded set_current_signal_mask_def]]
    also note keeps_modify [OF c(3) [unfolded set_idle_signal_mask_def]]
    also have "keeps_tasks k3 k'" using c(4) by (auto intro: keeps_same)
    finally show ?thesis .
  qed
qed




section \<open>Steps of the library\<close>

text \<open>
  The state with the number of ticks so far.  Between a tick and the pass that serves its soft
  interrupt the scheduler may do anything; the next tick and the next sleep come after it.
\<close>

inductive sys_step :: "nat \<times> sys \<Rightarrow> nat \<times> sys \<Rightarrow> bool" where
  tick: "n + 1025 < 2 ^ 32 \<Longrightarrow> \<not> woken s (tmr_irq s) \<Longrightarrow> tick_times now s = Inr s' \<Longrightarrow> sys_step (n, s) (Suc n, s')"
| serve: "softirq_pass (run_action now app al act) s = Inr s' \<Longrightarrow> sys_step (n, s) (n, s')"
| sleep: "current (ksched s) = Some c \<Longrightarrow> runnable (ksched s) c \<Longrightarrow> idle (ksched s) \<noteq> Some c \<Longrightarrow>
     tapps s a = None \<Longrightarrow> ttms s i = None \<Longrightarrow> tcount s \<le> MAX_TIMERS \<Longrightarrow> indx s \<noteq> - 1 \<Longrightarrow> n + 1024 < 2 ^ 32 \<Longrightarrow>
     \<not> woken s (tmr_irq s) \<Longrightarrow>
     sleep_park (Some i) (Some a) ticks now s = Inr s' \<Longrightarrow> sys_step (n, s) (n, s')"
| sched: "kstep (ksched s) k \<Longrightarrow> sys_step (n, s) (n, s\<lparr>ksched := k\<rparr>)"

inductive_cases sys_stepE: "sys_step (n, s) (n', s')"



lemma after_tick_tmr_irq [simp]: "tmr_irq (after_tick s) = tmr_irq s"
  by (simp add: after_tick_def)














section \<open>Every sleep ends\<close>





section \<open>Witnesses\<close>




end
