(* ===== verification/KernelRun.thy ===== *)
theory KernelRun
  imports Kernel
begin

unbundle bit_operations_syntax

text \<open>
  Executions of the scheduler from start-up on: the steps of theory Kernel, passes that deliver
  pending signals to handlers which make such calls themselves, and \<^verbatim>\<open>task_cancel\<close>.

  \<^verbatim>\<open>task_exit\<close> unlinks a task without adjusting \<^verbatim>\<open>rq.nrp\<close> or \<^verbatim>\<open>wq.nwp\<close>, so after \<open>n\<close>
  cancellations the two counters together are \<open>n\<close> above the lengths of the queues; apart from this
  drift the invariant holds.
\<close>

section \<open>Counters that have drifted\<close>

text \<open>The state with the counters reduced by what they are too high.\<close>

definition uncount :: "int \<Rightarrow> int \<Rightarrow> sched \<Rightarrow> sched" where
  "uncount d w s = s\<lparr>nrp := nrp s - d, nwp := nwp s - w\<rparr>"

lemma uncount_simps [simp]:
  "tsks (uncount d w s) = tsks s" "links (uncount d w s) = links s" "current (uncount d w s) = current s"
  "idle (uncount d w s) = idle s" "nxt_imm_task (uncount d w s) = nxt_imm_task s" "task_count (uncount d w s) = task_count s"
  "os_sched_enabled (uncount d w s) = os_sched_enabled s" "nrp (uncount d w s) = nrp s - d" "nwp (uncount d w s) = nwp s - w"
  "task q (uncount d w s) = task q s"
  by (simp_all add: uncount_def task_def)

lemma uncount_0 [simp]: "uncount 0 0 s = s"
  by (simp add: uncount_def)

lemma uncount_upd [simp]:
  "uncount d w (s\<lparr>tsks := x\<rparr>) = (uncount d w s)\<lparr>tsks := x\<rparr>"
  "uncount d w (s\<lparr>links := l\<rparr>) = (uncount d w s)\<lparr>links := l\<rparr>"
  "uncount d w (s\<lparr>current := q\<rparr>) = (uncount d w s)\<lparr>current := q\<rparr>"
  "uncount d w (s\<lparr>nxt_imm_task := q\<rparr>) = (uncount d w s)\<lparr>nxt_imm_task := q\<rparr>"
  "uncount d w (s\<lparr>sched_need := b\<rparr>) = (uncount d w s)\<lparr>sched_need := b\<rparr>"
  "uncount d w (s\<lparr>task_count := c\<rparr>) = (uncount d w s)\<lparr>task_count := c\<rparr>"
  "uncount d w (s\<lparr>im_count := i\<rparr>) = (uncount d w s)\<lparr>im_count := i\<rparr>"
  "uncount d w (s\<lparr>not_im_count := i\<rparr>) = (uncount d w s)\<lparr>not_im_count := i\<rparr>"
  "uncount d w (s\<lparr>tswc := c\<rparr>) = (uncount d w s)\<lparr>tswc := c\<rparr>"
  "uncount d w (s\<lparr>alrm_blocked := b\<rparr>) = (uncount d w s)\<lparr>alrm_blocked := b\<rparr>"
  "uncount d w (s\<lparr>nrp := i\<rparr>) = (uncount d w s)\<lparr>nrp := i - d\<rparr>"
  "uncount d w (s\<lparr>nwp := i\<rparr>) = (uncount d w s)\<lparr>nwp := i - w\<rparr>"
  by (simp_all add: uncount_def)

text \<open>What the operations do does not depend on the counters.\<close>

named_theorems drifts \<open>operations on drifted counters\<close>

lemma modify_drift [drifts]: "modify q g s = Inr s' \<Longrightarrow> modify q g (uncount d w s) = Inr (uncount d w s')"
  by (auto simp: modify_Inr)

lemma need_sched_for_drift [drifts]: "need_sched_for p s = Inr s' \<Longrightarrow> need_sched_for p (uncount d w s) = Inr (uncount d w s')"
  by (auto simp: need_sched_for_def andThen_eq_Inr)

lemma note_imm_task_drift [drifts]: "note_imm_task p s = Inr s' \<Longrightarrow> note_imm_task p (uncount d w s) = Inr (uncount d w s')"
  by (cases "nxt_imm_task s") (auto simp: note_imm_task_def andThen_eq_Inr)

lemma task_find_right_RQ_drift [drifts]: "task_find_right_RQ p s = Inr s' \<Longrightarrow> task_find_right_RQ p (uncount d w s) = Inr (uncount d w s')"
  by (auto simp: task_find_right_RQ_def andThen_eq_Inr modify_Inr algebra_simps)

lemma wakeup_task_drift [drifts]:
  assumes "wakeup_task now p s = Inr s'"
  shows "wakeup_task now p (uncount d w s) = Inr (uncount d w s')"
proof -
  obtain t s2 s3 s4 where t: "task (Some p) s = Inr t"
    and s2: "(if onrq t = 0 then andThen (rq_hd (prio t)) (\<lambda>head.
          andThen (modify (Some p) (\<lambda>t. t\<lparr>onrq := 1\<rparr>)
            (s\<lparr>links := list_add (TskHd p) head (list_del (TskHd p) (links s))\<rparr>)) (\<lambda>s1.
            Inr (s1\<lparr>nrp := nrp s1 + 1, nwp := nwp s1 - 1\<rparr>))) else Inr s) = Inr s2"
    and s3: "need_sched_for p s2 = Inr s3" "note_imm_task p s3 = Inr s4"
      "modify (Some p) (\<lambda>t. t\<lparr>stime := now - stime t\<rparr>) s4 = Inr s'"
    using assms unfolding wakeup_task_def andThen_eq_Inr by blast
  let ?s = "uncount d w s"
  have "(if onrq t = 0 then andThen (rq_hd (prio t)) (\<lambda>head.
          andThen (modify (Some p) (\<lambda>t. t\<lparr>onrq := 1\<rparr>)
            (?s\<lparr>links := list_add (TskHd p) head (list_del (TskHd p) (links ?s))\<rparr>)) (\<lambda>s1.
            Inr (s1\<lparr>nrp := nrp s1 + 1, nwp := nwp s1 - 1\<rparr>))) else Inr ?s) = Inr (uncount d w s2)"
    using s2 by (auto simp: andThen_eq_Inr modify_Inr algebra_simps split: if_splits)
  with t s3 show ?thesis by (simp add: wakeup_task_def drifts)
qed

lemma wakeup_new_task_drift [drifts]: "wakeup_new_task now p s = Inr s' \<Longrightarrow> wakeup_new_task now p (uncount d w s) = Inr (uncount d w s')"
  unfolding wakeup_new_task_def andThen_eq_Inr by (elim exE conjE) (simp add: drifts)

lemma add_current_task_wait_Q_drift [drifts]:
  assumes "add_current_task_wait_Q now s = Inr s'"
  shows "add_current_task_wait_Q now (uncount d w s) = Inr (uncount d w s')"
proof (cases "os_sched_enabled s")
  case False
  with assms obtain c t where c: "current s = Some c" "tsks s c = Some t"
    by (auto simp: add_current_task_wait_Q_def add_task_to_wait_Q_def andThen_eq_Inr task_Inr)
  then show ?thesis
    using False assms add_task_to_wait_Q_eq [of s c t now] add_task_to_wait_Q_eq [of "uncount d w s" c t now]
    by (auto simp: add_current_task_wait_Q_def algebra_simps)
qed (use assms in \<open>simp add: add_current_task_wait_Q_def\<close>)

lemma park_on_fd_drift [drifts]: "park_on_fd fd s = Inr s' \<Longrightarrow> park_on_fd fd (uncount d w s) = Inr (uncount d w s')"
  by (auto simp: park_on_fd_def add_task_to_IO_wait_Q_def andThen_eq_Inr modify_Inr algebra_simps)

lemma spawn_task_drift [drifts]:
  assumes "spawn_task ae name at True s = Inr (q, s')"
  shows "spawn_task ae name at True (uncount d w s) = Inr (q, uncount d w s')"
proof (cases "a_new ae")
  case None
  with assms show ?thesis by (auto simp: spawn_task_def tm_calloc_def uncount_def)
next
  case (Some p)
  define s1 where "s1 s = tm_malloc (word_of_int (attr_stksze at)) ((snd (alloc_tid ((tm_calloc 1 (a_sizeof ae) s)
     \<lparr>links := INIT_LIST_HEAD (TskHd p) (links s)\<rparr>)))\<lparr>tsks := (tsks s)(p \<mapsto> new_tsk name at (taskid s + 1))\<rparr>)" for s
  have com: "s1 (uncount d w s) = uncount d w (s1 s)"
    by (simp add: s1_def tm_malloc_def tm_calloc_def alloc_tid_def uncount_def)
  have eq: "spawn_task ae name at True s = (if \<not> a_stk ae then Inr (None, (s1 s)\<lparr>tsks := (tsks (s1 s))(p := None)\<rparr>)
     else andThen (modify (Some p) (\<lambda>t. t\<lparr>taskname := take MAX_TASK_NAME name\<rparr>) (s1 s)) (\<lambda>s.
       if attr_stksze at < 8 then Inl OutOfBounds
       else andThen (wakeup_new_task (a_now ae) p (s\<lparr>task_count := task_count s + 1\<rparr>)) (\<lambda>s'. Inr (Some p, s'))))" for s
    using Some by (simp add: spawn_task_def Let_def s1_def tm_malloc_def tm_calloc_def alloc_tid_def)
  show ?thesis
  proof (cases "a_stk ae")
    case False
    with assms show ?thesis unfolding eq com by auto
  next
    case True
    then obtain x y where x: "modify (Some p) (\<lambda>t. t\<lparr>taskname := take MAX_TASK_NAME name\<rparr>) (s1 s) = Inr x"
      "\<not> attr_stksze at < 8" "wakeup_new_task (a_now ae) p (x\<lparr>task_count := task_count x + 1\<rparr>) = Inr y" "q = Some p" "s' = y"
      using assms unfolding eq by (auto simp: andThen_eq_Inr split: if_splits)
    show ?thesis
      unfolding eq com using True x modify_drift [OF x(1), of d w] wakeup_new_task_drift [OF x(3), of d w] by simp
  qed
qed

lemma wake_loop_drift:
  assumes "wake_loop now head pos n s = Some r"
  shows "\<forall>s'. r = Inr s' \<longrightarrow> wake_loop now head pos n (uncount d w s) = Some (Inr (uncount d w s'))"
proof (rule wake_loop.raw_induct [OF _ assms])
  fix f :: "u32 \<Rightarrow> laddr \<Rightarrow> laddr \<Rightarrow> laddr \<Rightarrow> sched \<Rightarrow> sched res option" and now head pos n s y
  assume IH: "\<And>now head pos n s y. f now head pos n s = Some y \<Longrightarrow>
      \<forall>s'. y = Inr s' \<longrightarrow> wake_loop now head pos n (uncount d w s) = Some (Inr (uncount d w s'))"
    and step: "(if pos = head then Some (Inr s)
      else case list_entry pos of None \<Rightarrow> Some (Inl NullDeref)
        | Some p \<Rightarrow> (case wakeup_task now p (s\<lparr>links := list_del (TskHd p) (links s)\<rparr>) of Inl err \<Rightarrow> Some (Inl err)
            | Inr s1 \<Rightarrow> f now head n (lnext (links s1) n) s1)) = Some y"
  show "\<forall>s'. y = Inr s' \<longrightarrow> wake_loop now head pos n (uncount d w s) = Some (Inr (uncount d w s'))"
  proof (intro allI impI)
    fix s' assume y: "y = Inr s'"
    show "wake_loop now head pos n (uncount d w s) = Some (Inr (uncount d w s'))"
    proof (cases "pos = head")
      case True
      then show ?thesis using step y by (subst wake_loop.simps) simp
    next
      case False
      then obtain p s1 where s1: "list_entry pos = Some p" "wakeup_task now p (s\<lparr>links := list_del (TskHd p) (links s)\<rparr>) = Inr s1"
        "f now head n (lnext (links s1) n) s1 = Some (Inr s')"
        using step y by (auto split: option.splits sum.splits)
      have "wake_loop now head n (lnext (links s1) n) (uncount d w s1) = Some (Inr (uncount d w s'))" using IH [OF s1(3)] by simp
      with False s1(1) wakeup_task_drift [OF s1(2), of d w] show ?thesis by (subst wake_loop.simps) simp
    qed
  qed
qed

lemma wake_io_task_drift [drifts]:
  assumes "wake_io_task now fd s = Inr s'"
  shows "wake_io_task now fd (uncount d w s) = Inr (uncount d w s')"
proof -
  obtain head where h: "io_hd fd = Inr head" using assms by (auto simp: wake_io_task_def andThen_eq_Inr)
  let ?p = "lnext (links s) head"
  show ?thesis
  proof (cases "list_empty head (links s)")
    case False
    then have "wake_loop now head ?p (lnext (links s) ?p) s = Some (Inr s')"
      using assms h by (auto simp: wake_io_task_def Let_def returned_def split: option.splits)
    from wake_loop_drift [OF this, of d w] False h show ?thesis by (simp add: wake_io_task_def Let_def returned_def)
  qed (use assms h in \<open>simp add: wake_io_task_def\<close>)
qed

lemma masks_drift [simp]:
  "uncount d w (signals_block sg s) = signals_block sg (uncount d w s)"
  "uncount d w (signals_unblock sg s) = signals_unblock sg (uncount d w s)"
  by (simp_all add: signals_block_def signals_unblock_def set_mask_def uncount_def)

lemma io_interrupt_drift [drifts]:
  assumes "io_interrupt now SIGIO (Fd fd) s = Inr s'"
  shows "io_interrupt now SIGIO (Fd fd) (uncount d w s) = Inr (uncount d w s')"
proof -
  obtain s1 where s1: "wake_io_task now fd (signals_block SIGIO s) = Inr s1" "s' = signals_unblock SIGIO s1"
    using assms by (auto simp: io_interrupt_def Let_def andThen_eq_Inr)
  from wake_io_task_drift [OF s1(1), of d w] s1(2) show ?thesis by (simp add: io_interrupt_def Let_def)
qed

lemma tm_signal_drift [drifts]:
  assumes "tm_signal mem sg h s = Inr (r, s')"
  shows "tm_signal mem sg h (uncount d w s) = Inr (r, uncount d w s')"
proof -
  have m: "tm_malloc z (uncount d w s) = uncount d w (tm_malloc z s)" for z s by (simp add: tm_malloc_def tm_calloc_def uncount_def)
  have reg: "reg_signals (uncount d w s) = reg_signals s" "(uncount d w s)\<lparr>reg_signals := b\<rparr> = uncount d w (s\<lparr>reg_signals := b\<rparr>)" for s b
    by (simp_all add: uncount_def)
  obtain b where b: "sig_bit sg = Inr b" using assms by (auto simp: tm_signal_def andThen_eq_Inr)
  show ?thesis
  proof (cases mem)
    case True
    let ?s = "tm_malloc sizeof_signal_s s"
    obtain s1 s2 s3 where c: "modify (current ?s) (\<lambda>t. t\<lparr>sig_hd := (sg, h) # sig_hd t\<rparr>) ?s = Inr s1"
      "modify (current s1) (\<lambda>t. t\<lparr>signals := signals t OR b\<rparr>) s1 = Inr s2"
      "modify (idle s2) (\<lambda>t. t\<lparr>signals := signals t OR b\<rparr>) s2 = Inr s3"
      "r = 0" "s' = (if reg_signals s3 AND b = 0 then s3\<lparr>reg_signals := reg_signals s3 OR b\<rparr> else s3)"
      using assms True b
      by (auto simp: tm_signal_def Let_def andThen_eq_Inr set_current_signal_mask_def set_idle_signal_mask_def)
    show ?thesis
      using True b c modify_drift [OF c(1), of d w] modify_drift [OF c(2), of d w] modify_drift [OF c(3), of d w]
      by (simp add: tm_signal_def Let_def set_current_signal_mask_def set_idle_signal_mask_def m reg)
  qed (use assms b m in \<open>simp add: tm_signal_def\<close>)
qed

lemma generic_sig_handler_drift [drifts]:
  "generic_sig_handler sg s = Inr s' \<Longrightarrow> generic_sig_handler sg (uncount d w s) = Inr (uncount d w s')"
  by (auto simp: generic_sig_handler_def set_current_signal_pend_mask_def andThen_eq_Inr
      dest!: modify_drift [of _ _ "signals_block sg s" _ d w] simp flip: masks_drift)

lemma account_drift [drifts]:
  "account_task_time_stats now s = Inr s' \<Longrightarrow> account_task_time_stats now (uncount d w s) = Inr (uncount d w s')"
  by (auto simp: account_task_time_stats_def andThen_eq_Inr modify_Inr)

lemma slice_drift [drifts]:
  "set_current_task_time_slice ts s = Inr s' \<Longrightarrow> set_current_task_time_slice ts (uncount d w s) = Inr (uncount d w s')"
  by (auto simp: set_current_task_time_slice_def modify_Inr)

subsection \<open>Looking tasks up\<close>

lemma search_drift [simp]:
  "search_tid i (uncount d w s) xs = search_tid i s xs" "search_list i (uncount d w s) a = search_list i s a"
  "search_heads i (uncount d w s) hs = search_heads i s hs"
proof -
  show t: "search_tid i (uncount d w s) xs = search_tid i s xs" for xs by (induction xs) (simp_all cong: if_cong)
  show l: "search_list i (uncount d w s) a = search_list i s a" for a unfolding search_list_def by (simp add: t cong: option.case_cong)
  show "search_heads i (uncount d w s) hs = search_heads i s hs" by (induction hs) (simp_all add: l cong: if_cong option.case_cong)
qed

lemma search_empty: "(\<And>h. h \<in> set hs \<Longrightarrow> list_empty h (links s)) \<Longrightarrow> search_heads i s hs = Inr None"
  by (induction hs) simp_all

text \<open>A counter that is too high only makes the lookup go through empty queues.\<close>

lemma find_task_drift:
  assumes inv: "sched_inv f u (uncount d w s)" and d: "0 \<le> d"
  shows "find_task i (uncount d w s) = find_task i s"
proof -
  have nn: "nrp s - d \<ge> 0" using sched_invD(8) [OF inv] by simp
  have "search_heads i s (map RqHd [0..<MAX_PRIO]) = Inr None" if "nrp s - d = 0"
  proof (rule search_empty)
    fix h assume "h \<in> set (map RqHd [0..<MAX_PRIO])"
    then have h: "h \<in> rq_heads" "h \<in> queue_heads" by auto
    have "queue_total rq_heads f = 0" using sched_invD(8) [OF inv] that by (simp split: if_splits)
    then have "f h = []" using h(1) by (auto simp: queue_total_def)
    with kl.rep_empty [OF sched_invD(1) [OF inv] h(2)] show "list_empty h (links s)" by simp
  qed
  then have "(if nrp s - d \<noteq> 0 then search_heads i s (map RqHd [0..<MAX_PRIO]) else Inr None) =
     (if nrp s \<noteq> 0 then search_heads i s (map RqHd [0..<MAX_PRIO]) else Inr None)" using d nn by auto
  then show ?thesis by (simp only: find_task_def io_wait_task_lookup_def search_drift uncount_simps)
qed

lemma post_event_drift:
  assumes inv: "kinv (uncount d w s)" and "0 \<le> d" and "post_event now i ev s = Inr (r, s')"
  shows "post_event now i ev (uncount d w s) = Inr (r, uncount d w s')"
proof -
  obtain f u where "sched_inv f u (uncount d w s)" using inv by (auto simp: kinv_def)
  note find = find_task_drift [OF this assms(2), of i]
  obtain q where q: "find_task i s = Inr q" using assms(3) by (auto simp: post_event_def andThen_eq_Inr)
  show ?thesis
  proof (cases q)
    case (Some p)
    then obtain s1 s2 where s1: "modify (Some p) (\<lambda>t. t\<lparr>event := event t OR ev\<rparr>) s = Inr s1" "wakeup_task now p s1 = Inr s2" "r = 0" "s' = s2"
      using assms(3) q by (auto simp: post_event_def andThen_eq_Inr)
    with Some q find modify_drift [OF s1(1), of d w] wakeup_task_drift [OF s1(2), of d w] show ?thesis by (simp add: post_event_def)
  qed (use assms(3) q find in \<open>auto simp: post_event_def\<close>)
qed

section \<open>A pass\<close>

text \<open>Assignments to a task that a pass makes keep the invariant.\<close>

lemma kinv_modify:
  assumes "kinv (uncount d w s)" and "modify q g s = Inr s'"
    and g: "\<And>t. onrq (g t) = onrq t \<and> (prio (g t) = prio t \<or> prio (g t) = 19)"
  shows "kinv (uncount d w s')"
proof -
  obtain f u where inv: "sched_inv f u (uncount d w s)" using assms(1) by (auto simp: kinv_def)
  obtain p t where p: "tsks s p = Some t" "s' = s\<lparr>tsks := (tsks s)(p \<mapsto> g t)\<rparr>" using assms(2) by (auto simp: modify_Inr)
  have "sched_inv f u ((uncount d w s)\<lparr>tsks := (tsks (uncount d w s))(p \<mapsto> g t)\<rparr>)"
    using g [of t] p(1) by (intro sched_inv_tsk_update [OF inv, of p t]) (auto simp: MAX_PRIO_def)
  with p(2) kinvI show ?thesis by simp
qed

lemma kinv_frame [simp]:
  "kinv (s\<lparr>im_count := x\<rparr>) = kinv s" "kinv (s\<lparr>not_im_count := x\<rparr>) = kinv s" "kinv (s\<lparr>sched_need := b\<rparr>) = kinv s"
  "kinv (s\<lparr>tswc := v\<rparr>) = kinv s" "kinv (s\<lparr>alrm_blocked := b\<rparr>) = kinv s"
  by (simp_all add: kinv_def)

lemma kinv_imm: "kinv s \<Longrightarrow> kinv (s\<lparr>nxt_imm_task := None\<rparr>)"
  unfolding kinv_def using sched_inv_imm by fastforce

lemma ready_from_drift [simp]: "ready_from r (uncount d w s) = ready_from r s"
proof (induction "MAX_PRIO - r" arbitrary: r)
  case 0
  then show ?case by (simp add: ready_from.simps)
next
  case (Suc k)
  then have "ready_from (Suc r) (uncount d w s) = ready_from (Suc r) s" by simp
  then show ?case by (simp add: ready_from.simps [of r])
qed

lemma rm_n_move_drift: "rm_n_move_task_new_rq p s = Inr s' \<Longrightarrow> rm_n_move_task_new_rq p (uncount d w s) = Inr (uncount d w s')"
  by (auto simp: rm_n_move_task_new_rq_def andThen_eq_Inr)

lemma next_task_drift:
  assumes "kinv (uncount d w s)" and "next_task_ready_to_run s = Inr (q, s')"
  shows "kinv (uncount d w s')"
proof (cases "nrp s = 0 \<or> ready_from 0 s = None \<or> q = current s")
  case True
  then have "s' = s" using assms(2) by (auto simp: next_task_ready_to_run_def andThen_eq_Inr split: option.splits if_splits)
  then show ?thesis using assms(1) by simp
next
  case False
  then obtain a p where a: "ready_from 0 s = Some a" "list_entry a = Some p" "rm_n_move_task_new_rq p s = Inr s'"
    using assms(2) by (cases "ready_from 0 s"; cases "list_entry (the (ready_from 0 s))")
      (auto simp: next_task_ready_to_run_def andThen_eq_Inr eq_commute [of "Some _" "list_entry _"] split: if_splits)
  obtain f u where inv: "sched_inv f u (uncount d w s)" using assms(1) by (auto simp: kinv_def)
  obtain r where r: "top_prio f = Some r" "a = hd (f (RqHd r))"
    using ready_from_find [OF sched_invD(1) [OF inv], of 0] a(1) by (cases "top_prio f") (auto simp: top_prio_def)
  then have "r < MAX_PRIO" "a \<in> set (f (RqHd r))" by (auto simp: top_prio_Some)
  moreover have "a = TskHd p" using a(2) by (cases a) auto
  ultimately have p: "r < MAX_PRIO" "TskHd p \<in> set (f (RqHd r))" by simp_all
  obtain t where t: "tsks (uncount d w s) p = Some t" using sched_inv_located [OF inv _ p(2)] p(1) by auto
  obtain s1 where "rm_n_move_task_new_rq p (uncount d w s) = Inr s1" "kinv s1"
    using rm_n_move_inv [OF inv p t] kinvI by metis
  with rm_n_move_drift [OF a(3), of d w] show ?thesis by simp
qed

lemma eligible_drift:
  assumes "kinv (uncount d w s)" and "get_next_eligible_task_to_run s = Inr (q, s')"
  shows "kinv (uncount d w s')"
proof (cases "nrp s = 0 \<or> nxt_imm_task s \<noteq> None")
  case True
  then show ?thesis
    using assms kinv_imm [of "(uncount d w s)\<lparr>im_count := im_count s + 1\<rparr>"]
    by (auto simp: get_next_eligible_task_to_run_def split: if_splits)
next
  case False
  then obtain s1 where s1: "next_task_ready_to_run s = Inr (q, s1)" "s' = (if q \<noteq> None then s1\<lparr>not_im_count := not_im_count s1 + 1\<rparr> else s1)"
    using assms(2) by (auto simp: get_next_eligible_task_to_run_def andThen_eq_Inr split: if_splits)
  with next_task_drift [OF assms(1) s1(1)] show ?thesis by simp
qed

lemma calculate_time_slice_drift:
  assumes "kinv (uncount d w s)" and "calculate_time_slice q s = Inr s'"
  shows "kinv (uncount d w s')"
proof (cases "q = idle s \<or> q = current s")
  case True
  with assms show ?thesis by (simp add: calculate_time_slice_def)
next
  case False
  then obtain load s1 share where
    s1: "(if LOAD_THRESHOLD <s load then modify q (\<lambda>t. if LOAD_THRESHOLD <s cpuusage t then t\<lparr>prio := 19\<rparr> else t) s else Inr s) = Inr s1"
    and s': "modify q (\<lambda>t. t\<lparr>tslice := share + (if prio t < 5 then DEF_HPT_TSLICE else DEF_LOW_TSLICE)\<rparr>) s1 = Inr s'"
    using assms(2) by (auto simp: calculate_time_slice_def andThen_eq_Inr)
  have "kinv (uncount d w s1)"
  proof (cases "LOAD_THRESHOLD <s load")
    case True
    with s1 have "modify q (\<lambda>t. if LOAD_THRESHOLD <s cpuusage t then t\<lparr>prio := 19\<rparr> else t) s = Inr s1" by simp
    from kinv_modify [OF assms(1) this] show ?thesis by simp
  qed (use s1 assms(1) in simp)
  from kinv_modify [OF this s'] show ?thesis by simp
qed

lemma update_stats_drift:
  assumes "kinv (uncount d w s)" and "update_stats now s = Inr s'"
  shows "kinv (uncount d w s')"
proof -
  have "kinv (uncount d w (s\<lparr>tswc := tswc s + 1\<rparr>))" using assms(1) by simp
  with assms(2) show ?thesis
    unfolding update_stats_def calc_current_cpu_usage_def andThen_eq_Inr by (elim exE conjE) (drule (1) kinv_modify, simp, drule (1) kinv_modify, simp_all)
qed

lemma context_switch_drift:
  assumes "kinv (uncount d w s)" and "context_switch e c q s = Inr s'"
  shows "kinv (uncount d w s')"
proof -
  obtain s1 where s1: "modify q (\<lambda>t. t\<lparr>state := TASK_RUNNING, stick := t_switch e\<rparr>) (s\<lparr>current := q\<rparr>) = Inr s1"
    "s' = s1\<lparr>alrm_blocked := False\<rparr>" using assms(2) by (auto simp: context_switch_def andThen_eq_Inr)
  then obtain p t where p: "q = Some p" "tsks s p = Some t" by (auto simp: modify_Inr)
  have "kinv (uncount d w (s\<lparr>current := q\<rparr>))" using assms(1) p unfolding kinv_def by simp (metis sched_inv_current uncount_simps(1) option.simps(3))
  from kinv_modify [OF this s1(1)] s1(2) show ?thesis by simp
qed

text \<open>A pass after the delivery of signals.\<close>

lemma switch_drift:
  assumes inv: "kinv (uncount d w s)"
    and run: "andThen (get_next_eligible_task_to_run s) (\<lambda>(etsk, s2).
        let s3 = s2\<lparr>sched_need := False\<rparr> in
        if current s3 \<noteq> etsk then
          andThen (collect_stack_trace e (current s3) s3) (\<lambda>s4.
          andThen (update_stats (t_stats e) s4) (\<lambda>s5.
          andThen (calculate_time_slice etsk s5) (\<lambda>s6.
          andThen (set_task_state (current s6) TASK_INTERRUPTIBLE s6) (\<lambda>s7.
          context_switch e (current s7) etsk s7))))
        else calc_current_cpu_usage s3) = Inr s'"
  shows "kinv (uncount d w s')"
proof -
  obtain q s2 where s2: "get_next_eligible_task_to_run s = Inr (q, s2)" using run by (auto simp: andThen_eq_Inr)
  let ?s3 = "s2\<lparr>sched_need := False\<rparr>"
  have inv3: "kinv (uncount d w ?s3)" using eligible_drift [OF inv s2] by simp
  show ?thesis
  proof (cases "current ?s3 \<noteq> q")
    case True
    then obtain s4 s5 s6 s7 where c: "collect_stack_trace e (current ?s3) ?s3 = Inr s4" "update_stats (t_stats e) s4 = Inr s5"
      "calculate_time_slice q s5 = Inr s6" "set_task_state (current s6) TASK_INTERRUPTIBLE s6 = Inr s7" "context_switch e (current s7) q s7 = Inr s'"
      using run s2 by (auto simp: andThen_eq_Inr Let_def)
    have "kinv (uncount d w s4)" using kinv_modify [OF inv3 c(1) [unfolded collect_stack_trace_def]] by simp
    then have "kinv (uncount d w s6)" by (rule calculate_time_slice_drift [OF update_stats_drift [OF _ c(2)] c(3)])
    then have "kinv (uncount d w s7)" using kinv_modify [OF _ c(4) [unfolded set_task_state_def]] by simp
    then show ?thesis by (rule context_switch_drift [OF _ c(5)])
  next
    case False
    with run s2 have "calc_current_cpu_usage ?s3 = Inr s'" by simp
    from kinv_modify [OF inv3 this [unfolded calc_current_cpu_usage_def]] show ?thesis by simp
  qed
qed

section \<open>Executions\<close>

text \<open>The invariant up to a drift of \<open>n\<close> in the two counters together.\<close>

definition drifted :: "nat \<Rightarrow> sched \<Rightarrow> bool" where
  "drifted n s \<longleftrightarrow> (\<exists>d w. d + w = n \<and> kinv (uncount (int d) (int w) s))"

text \<open>
  \<open>krun n s s'\<close>: \<open>s'\<close> is reached from \<open>s\<close> with \<open>n\<close> tasks cancelled on the way.  The task that is
  cancelled is neither the running one nor the one cached in \<^verbatim>\<open>nxt_imm_task\<close>, whose pointers
  \<^verbatim>\<open>task_exit\<close> leaves dangling, and not the last one \<^verbatim>\<open>task_count\<close> counts.
\<close>

inductive krun :: "nat \<Rightarrow> sched \<Rightarrow> sched \<Rightarrow> bool" where
  stop: "krun 0 s s"
| call: "krun n s s' \<Longrightarrow> kstep s' s'' \<Longrightarrow> krun n s s''"
| deliver: "krun n s s' \<Longrightarrow> \<not> os_sched_enabled s' \<Longrightarrow> (\<forall>h i x y. sig_hdl e h i x = Inr y \<longrightarrow> krun 0 x y) \<Longrightarrow>
     schedule e s' = Inr s'' \<Longrightarrow> krun n s s''"
| cancel: "krun n s s' \<Longrightarrow> find_task i s' = Inr (Some p) \<Longrightarrow> current s' \<noteq> Some p \<Longrightarrow> nxt_imm_task s' \<noteq> Some p \<Longrightarrow>
     task_count s' \<noteq> 1 \<Longrightarrow> task_cancel i s' = Inr (r, s'') \<Longrightarrow> krun (Suc n) s s''"
| miss: "krun n s s' \<Longrightarrow> find_task i s' = Inr None \<Longrightarrow> task_cancel i s' = Inr (r, s'') \<Longrightarrow> krun n s s''"

lemma kstep_drifted:
  assumes "kstep s s'" and "drifted n s"
  shows "drifted n s'"
proof -
  obtain d w where n: "d + w = n" and inv: "kinv (uncount (int d) (int w) s)" using assms(2) by (auto simp: drifted_def)
  let ?u = "uncount (int d) (int w)"
  have "kinv (?u s')"
  proof (cases "\<exists>e. \<not> os_sched_enabled s \<and> sig_is_pending s = Inr False \<and> schedule e s = Inr s'")
    case True
    then show ?thesis using switch_drift [OF inv] by (auto simp: schedule_def)
  next
    case False
    from assms(1) have "kstep (?u s) (?u s')"
    proof cases
      case (pass e)
      with False show ?thesis by blast
    next
      case (spawn ae p at name q)
      then show ?thesis by (intro kstep.spawn) (auto intro: drifts)
    next
      case (block now)
      then show ?thesis by (intro kstep.block) (auto intro: drifts)
    next
      case (park c t fd)
      then show ?thesis by (intro kstep.park) (auto intro: drifts)
    next
      case (wake p now)
      then show ?thesis by (intro kstep.wake) (auto intro: drifts)
    next
      case (io fd now)
      then show ?thesis by (intro kstep.io) (auto intro: drifts)
    next
      case (post now i ev r)
      have "post_event now i ev (?u s) = Inr (r, ?u s')" by (rule post_event_drift [OF inv _ post]) simp
      then show ?thesis by (rule kstep.post)
    next
      case (signal mem sg h r)
      then show ?thesis by (intro kstep.signal) (auto intro: drifts)
    next
      case (raised sg)
      then show ?thesis by (intro kstep.raised) (auto intro: drifts)
    next
      case (tick now)
      then show ?thesis by (intro kstep.tick) (auto intro: drifts)
    next
      case (slice ts)
      then show ?thesis by (intro kstep.slice) (auto intro: drifts)
    qed
    from kstep_keeps_inv [OF this inv] show ?thesis .
  qed
  with n show ?thesis by (auto simp: drifted_def)
qed

lemma invoke_all_drifted:
  assumes "invoke_all e is s = Inr s'" and "drifted n s"
    and "\<And>h i x y. sig_hdl e h i x = Inr y \<Longrightarrow> drifted n x \<Longrightarrow> drifted n y"
  shows "drifted n s'"
  using assms(1,2)
proof (induction "is" arbitrary: s)
  case (Cons i "is")
  then obtain s1 where s1: "invoke_signal_hanlder e i s = Inr s1" "invoke_all e is s1 = Inr s'" by (auto simp: andThen_eq_Inr)
  obtain t where t: "task (current s) s = Inr t" using s1(1) by (auto simp: invoke_signal_hanlder_def andThen_eq_Inr)
  have "s1 = s \<or> (\<exists>h. sig_hdl e h i s = Inr s1)"
    using s1(1) t by (cases "find (\<lambda>(sg, hdl). sg = i \<and> hdl \<noteq> None) (sig_hd t)")
      (auto simp: invoke_signal_hanlder_def split: option.splits)
  then have "drifted n s1" using Cons.prems(2) assms(3) by blast
  with Cons.IH s1(2) show ?case by blast
qed simp

lemma schedule_drifted:
  assumes "drifted n s" and en: "\<not> os_sched_enabled s" and run: "schedule e s = Inr s'"
    and hdl: "\<And>h i x y. sig_hdl e h i x = Inr y \<Longrightarrow> drifted n x \<Longrightarrow> drifted n y"
  shows "drifted n s'"
proof -
  obtain b s1 where b: "sig_is_pending s = Inr b" and s1: "(if b then process_signal e (current s) s else Inr s) = Inr s1"
    using en run by (auto simp: schedule_def andThen_eq_Inr)
  have "drifted n s1"
  proof (cases b)
    case True
    then obtain t s2 where t: "task (current s) s = Inr t" "signal_loop e (signals t AND sig_pending t) 1 s = Inr s2"
      "modify (current s) (\<lambda>t. t\<lparr>sig_pending := 0\<rparr>) s2 = Inr s1"
      using s1 by (auto simp: process_signal_def andThen_eq_Inr)
    have "drifted n s2" by (rule invoke_all_drifted [OF t(2) [unfolded signal_loop_eq] assms(1)]) (rule hdl)
    then show ?thesis using kinv_modify [OF _ t(3)] by (auto simp: drifted_def)
  qed (use s1 assms(1) in simp)
  then obtain d w where n: "d + w = n" and inv: "kinv (uncount (int d) (int w) s1)" by (auto simp: drifted_def)
  have "kinv (uncount (int d) (int w) s')" using switch_drift [OF inv, of e s'] en run b s1 by (simp add: schedule_def)
  with n show ?thesis by (auto simp: drifted_def)
qed

text \<open>Cancelling: the task is gone from its queue, the counters are not.\<close>

lemma sched_inv_exit:
  assumes inv: "sched_inv f u s" and a: "a \<in> queue_heads" "TskHd p \<in> set (f a)" and t: "tsks s p = Some t"
    and keep: "current s \<noteq> Some p" "nxt_imm_task s \<noteq> Some p" "task_count s \<noteq> 1"
  shows "sched_inv (unqueue p f) u (s\<lparr>links := list_del (TskHd p) (links s), tsks := (tsks s)(p := None), task_count := task_count s - 1,
     nrp := nrp s - (if onrq t \<noteq> 0 then 1 else 0), nwp := nwp s - (if onrq t \<noteq> 0 then 0 else 1)\<rparr>)"
    (is "sched_inv ?g u ?s")
proof -
  have p: "idle s \<noteq> Some p" "onrq t \<noteq> 0 \<longleftrightarrow> a \<in> rq_heads" using sched_inv_located [OF inv a] t by (metis option.inject)+
  have u: "u \<noteq> Some p" using sched_invD(3) [OF inv] a by (auto simp: offq_ok_def)
  note rep = unqueue_rep [OF inv t p(1)]
  have only: "b = a" if "b \<in> queue_heads" "TskHd p \<in> set (f b)" for b
    using lists_repD(3) [OF sched_invD(1) [OF inv] a(1) that(1)] a(2) that(2) by blast
  have tot: "int (queue_total A ?g) = int (queue_total A f) - (if a \<in> A then 1 else 0)" if A: "A \<subseteq> queue_heads" for A
  proof -
    have "(\<exists>b\<in>A. TskHd p \<in> set (f b)) \<longleftrightarrow> a \<in> A" using only a(2) A by blast
    then show ?thesis using queue_total_unqueue [OF sched_invD(1) [OF inv] A, of p] by simp
  qed
  have "queued_ok ?s b x" if "b \<in> queue_heads" "x \<in> set (?g b)" for b x
    using sched_invD(2) [OF inv that(1) unqueue_subset [OF that(2)]] rep(2) [OF that(1)] that(2) by (auto simp: queued_ok_def)
  moreover have "offq_ok ?g u ?s"
    using sched_invD(3) [OF inv] rep(3) u by (auto simp: offq_ok_def dest: unqueue_subset)
  moreover have "located u ?g q" if "tsks ?s q = Some tq" "idle ?s \<noteq> Some q" for q tq
  proof -
    have q: "q \<noteq> p" "located u f q" using that sched_invD(4) [OF inv] by (auto split: if_splits)
    moreover have "TskHd q \<in> set (f b) \<Longrightarrow> TskHd q \<in> set (?g b)" for b using q(1) by (auto simp: unqueue_def)
    ultimately show ?thesis unfolding located_def by auto
  qed
  moreover have "nrp ?s = int (queue_total rq_heads ?g) + (if u = None then 0 else 1)"
    using tot [OF rq_heads_subset] sched_invD(8) [OF inv] p(2) by simp
  moreover have "nwp ?s = int (queue_total (queue_heads - rq_heads) ?g)"
    using tot [of "queue_heads - rq_heads"] sched_invD(9) [OF inv] p(2) a(1) by auto
  moreover have "task_count s - 1 \<noteq> 0" using keep(3) by simp
  moreover have "(\<exists>c. current ?s = Some c \<and> tsks ?s c \<noteq> None) \<and> (\<exists>i. idle ?s = Some i \<and> tsks ?s i \<noteq> None) \<and>
     (\<forall>n. nxt_imm_task ?s = Some n \<longrightarrow> tsks ?s n \<noteq> None)"
    using sched_invD(5,6,7) [OF inv] keep p(1) by auto
  ultimately show ?thesis
    using rep(1) unfolding sched_inv_def by simp
qed

lemma cancel_drifted:
  assumes "drifted n s" and find: "find_task i s = Inr (Some p)"
    and keep: "current s \<noteq> Some p" "nxt_imm_task s \<noteq> Some p" "task_count s \<noteq> 1" and run: "task_cancel i s = Inr (r, s')"
  shows "drifted (Suc n) s'"
proof -
  obtain d w f u where n: "d + w = n" and inv: "sched_inv f u (uncount (int d) (int w) s)" using assms(1) by (auto simp: drifted_def kinv_def)
  let ?s = "uncount (int d) (int w) s"
  have "tid_in i ?s (concat (map f search_order)) = Some p"
    using find find_task_eq [OF inv, of i] find_task_drift [OF inv, of i] by simp
  then obtain a where a: "a \<in> queue_heads" "TskHd p \<in> set (f a)"
    using tid_in_Some [of i ?s "concat (map f search_order)" p] by (auto simp: set_search_order)
  obtain t where t: "tsks s p = Some t" using sched_inv_located [OF inv a] by auto
  have s': "s' = s\<lparr>links := list_del (TskHd p) (links s), tsks := (tsks s)(p := None), task_count := task_count s - 1\<rparr>"
    using run find t by (auto simp: task_cancel_def kill_task_def task_exit_def)
  let ?d = "if onrq t \<noteq> 0 then Suc d else d" and ?w = "if onrq t \<noteq> 0 then w else Suc w"
  have "uncount (int ?d) (int ?w) s' = ?s\<lparr>links := list_del (TskHd p) (links ?s), tsks := (tsks ?s)(p := None), task_count := task_count ?s - 1,
     nrp := nrp ?s - (if onrq t \<noteq> 0 then 1 else 0), nwp := nwp ?s - (if onrq t \<noteq> 0 then 0 else 1)\<rparr>"
    by (simp add: s' uncount_def)
  with sched_inv_exit [OF inv a _ _ _ _, of t] t keep have "kinv (uncount (int ?d) (int ?w) s')" by (auto intro: kinvI)
  moreover have "?d + ?w = Suc n" using n by simp
  ultimately show ?thesis unfolding drifted_def by blast
qed

lemma krun_drifted: "krun n s s' \<Longrightarrow> drifted m s \<Longrightarrow> drifted (m + n) s'"
proof (induction arbitrary: m rule: krun.induct)
  case (call n s s' s'')
  then show ?case using kstep_drifted by blast
next
  case (deliver n s s' e s'')
  have "drifted (m + n) y" if "sig_hdl e h i x = Inr y" "drifted (m + n) x" for h i x y
    using deliver.IH(2) that by fastforce
  then show ?case using schedule_drifted [OF deliver.IH(1) [OF deliver.prems] deliver.hyps(2)] deliver.hyps by blast
next
  case (cancel n s s' i p r s'')
  show ?case using cancel_drifted [OF cancel.IH [OF cancel.prems] cancel.hyps(2-6)] by simp
next
  case (miss n s s' i r s'')
  then show ?case by (auto simp: task_cancel_def kill_task_def)
qed simp

lemma reach_drifted:
  assumes "boot_ok aem aei aes m i d"
    and "sched_boot aem aei aes ticks (static_sched h) = Inr (q, s0)" and "krun n s0 s"
  shows "drifted n s"
proof -
  obtain s1 where s1: "sched_boot aem aei aes ticks (static_sched h) = Inr (Some d, s1)"
     "links s1 = boot_links m i d h" "tsks s1 = boot_tasks aei aes ticks m i d"
     "nrp s1 = 2" "nwp s1 = 0" "current s1 = Some m" "idle s1 = Some i"
     "nxt_imm_task s1 = Some d" "task_count s1 = 2"
    using sched_boot_eq [OF assms(1), of ticks h] by blast
  moreover have "m \<noteq> i" "m \<noteq> d" "i \<noteq> d" using assms(1) by (auto simp: boot_ok_def)
  ultimately have "sched_inv (boot_queues d) (Some m) s1" by (intro boot_inv)
  with s1(1) assms(2) have "kinv (uncount (int 0) (int 0) s0)" by (auto simp: kinv_def)
  then have "drifted 0 s0" unfolding drifted_def by blast
  from krun_drifted [OF assms(3) this] show ?thesis by simp
qed

lemma queue_typed:
  assumes inv: "sched_inv f u s" and a: "a \<in> queue_heads"
  shows "\<exists>ps. list_for_each a (links s) = Some (map TskHd ps) \<and> distinct ps \<and>
     (\<forall>p\<in>set ps. \<exists>t. tsks s p = Some t \<and> 0 \<le> prio t \<and> prio t < int MAX_PRIO)"
proof -
  have l: "dlist (links s) a (f a)" using sched_invD(1) [OF inv] a by (auto simp: lists_rep_def)
  have q: "\<exists>p t. x = TskHd p \<and> tsks s p = Some t \<and> 0 \<le> prio t \<and> prio t < int MAX_PRIO" if "x \<in> set (f a)" for x
    using sched_invD(2) [OF inv a that] by (auto simp: queued_ok_def)
  then obtain ps where ps: "f a = map TskHd ps"
    by (metis (no_types, lifting) ex_map_conv)
  then have "\<exists>t. tsks s p = Some t \<and> 0 \<le> prio t \<and> prio t < int MAX_PRIO" if "p \<in> set ps" for p
    using q [of "TskHd p"] that by auto
  moreover have "distinct ps" using l ps by (simp add: dlist_def distinct_map)
  ultimately show ?thesis using list_for_each_dlist [OF l] ps by (intro exI [of _ ps]) auto
qed

section \<open>Properties\<close>


text \<open>
  C2: the pointers of the scheduler keep their types in the same executions, cancellations of tasks
  that are neither running nor cached included: \<^verbatim>\<open>current\<close>, \<^verbatim>\<open>idle\<close> and \<^verbatim>\<open>nxt_imm_task\<close> point
  to tasks that exist, and going through any run queue, the wait queue or the queue of a descriptor ends
  and meets only tasks that exist, each once, with a priority that indexes the array of run queues.
\<close>

theorem reachable_pointers_typed:
  assumes "boot_ok aem aei aes m i d"
    and "sched_boot aem aei aes ticks (static_sched h) = Inr (q, s0)" and "krun n s0 s"
  shows "(\<exists>c t. current s = Some c \<and> tsks s c = Some t) \<and> (\<exists>i t. idle s = Some i \<and> tsks s i = Some t) \<and>
     (\<forall>n. nxt_imm_task s = Some n \<longrightarrow> (\<exists>t. tsks s n = Some t)) \<and>
     (\<forall>a\<in>queue_heads. \<exists>ps. list_for_each a (links s) = Some (map TskHd ps) \<and> distinct ps \<and>
        (\<forall>p\<in>set ps. \<exists>t. tsks s p = Some t \<and> 0 \<le> prio t \<and> prio t < int MAX_PRIO))"
proof -
  obtain d w f u where inv: "sched_inv f u (uncount (int d) (int w) s)"
    using reach_drifted [OF assms] by (auto simp: drifted_def kinv_def)
  have "\<exists>ps. list_for_each a (links s) = Some (map TskHd ps) \<and> distinct ps \<and>
        (\<forall>p\<in>set ps. \<exists>t. tsks s p = Some t \<and> 0 \<le> prio t \<and> prio t < int MAX_PRIO)" if a: "a \<in> queue_heads" for a
    using queue_typed [OF inv a] by simp
  then show ?thesis using sched_invD(5-7) [OF inv] by auto
qed

text \<open>
  Cancelling the cached task leaves \<^verbatim>\<open>nxt_imm_task\<close> behind: the next pass that would run another
  task follows the pointer to the freed task.
\<close>

theorem cancel_cached_use_after_free:
  assumes "sched_inv f u s" and "find_task i s = Inr (Some p)" and "nxt_imm_task s = Some p" and "current s \<noteq> Some p"
    and "quiet s" and "nrp s \<noteq> 0" and "task_count s \<noteq> 1"
  shows "\<exists>s'. task_cancel i s = Inr (0, s') \<and> schedule e s' = Inl UseAfterFree"
proof -
  have "tid_in i s (concat (map f search_order)) = Some p" using assms(2) find_task_eq [OF assms(1)] by simp
  then have p: "TskHd p \<in> set (concat (map f search_order))" "tsks s p \<noteq> None" using tid_in_Some by blast+
  then obtain t a where t: "tsks s p = Some t" and a: "a \<in> queue_heads" "TskHd p \<in> set (f a)" by (auto simp: set_search_order)
  let ?s = "s\<lparr>links := list_del (TskHd p) (links s), tsks := (tsks s)(p := None), task_count := task_count s - 1\<rparr>"
  have run: "task_cancel i s = Inr (0, ?s)" using assms(2) t by (simp add: task_cancel_def kill_task_def task_exit_def)
  obtain c tc where c: "current s = Some c" "tsks s c = Some tc" "c \<noteq> p" using sched_invD(5) [OF assms(1)] assms(4) by auto
  have q: "signals tc AND sig_pending tc = 0" "\<not> os_sched_enabled s" "nrp s < 2 ^ 31" using assms(5) c(2) by (auto simp: quiet_def)
  have "idle s \<noteq> Some p" by (rule sched_inv_located [OF assms(1) a])
  moreover have "(word_of_int (nrp s) :: u32) + 1 \<noteq> 0" using rq_count_Suc [OF assms(1) q(3)] by (simp add: rq_task_count_def)
  ultimately have "schedule e ?s = Inl UseAfterFree"
    using c q assms(3,6,7)
    by (auto simp: schedule_def sig_is_pending_def get_next_eligible_task_to_run_def collect_stack_trace_def update_stats_def Let_def
        calc_current_cpu_usage_def calculate_time_slice_def get_load_on_system_def share_load_across_system_def rq_task_count_def modify_def [of "Some p"])
  with run show ?thesis by blast
qed

section \<open>Witnesses\<close>

text \<open>After start-up the main task waits, the soft interrupt task runs and cancels the main task.\<close>

lemma demo_cancel:
  obtains s0 s where "demo_boot = Inr (Some 2, s0)" and "krun 1 s0 s" and "current s = Some 2" and "tsks s 0 = None"
proof -
  obtain s where s: "demo_boot = Inr (Some 2, s)" "sched_inv (boot_queues 2) (Some 0) s" "quiet s" "current s = Some 0"
    "idle s = Some 1" "nxt_imm_task s = Some 2" "tsks s = boot_tasks (demo_env 1) (demo_env 2) 0 0 1 2" "task_count s = 2" "nrp s = 2"
    using demo_state by blast
  let ?t = "the (tsks s 0)"
  have t: "tsks s 0 = Some ?t" "idle s \<noteq> Some 0" "onrq ?t \<noteq> 0" "tid ?t = 1" using s(5,7) by (simp_all add: boot_tasks_def zero_tsk_def)
  let ?f = "enq_tail 0 WqHd (boot_queues 2)"
  obtain s1 where s1: "add_task_to_wait_Q 0 (Some 0) s = Inr s1" "sched_inv ?f None s1" "current s1 = Some 0" "nxt_imm_task s1 = Some 2"
    "tsks s1 = (tsks s)(0 \<mapsto> ?t\<lparr>state := TASK_INTERRUPTIBLE, onrq := 0, stime := 0\<rparr>)" "nrp s1 = 1"
    by (rule add_task_to_wait_Q_inv [OF s(2) t(1-3), of 0]) (simp add: s(4,6,9))
  have more: "task_count s1 = 2" "os_sched_enabled s1 = os_sched_enabled s" using s1(1) add_task_to_wait_Q_eq [OF t(1), of 0] t(3) s(8) by auto
  have en: "\<not> os_sched_enabled s" using s(3) by (simp add: quiet_def)
  have 1: "kstep s s1" using kstep.block [of s 0 s1] s(4,5) s1(1) en by (simp add: add_current_task_wait_Q_def)
  have "quiet s1" using s(3) s1(5,6) more(2) t(1) unfolding quiet_def by (auto split: if_splits)
  note h = quiet_sig [OF s1(2) this]
  have pk: "pick ?f s1 = Some 2" "nrp s1 < 2 ^ 31" "\<not> os_sched_enabled s1" using s1(4,6) more(2) en by (simp_all add: pick_def)
  obtain s2 where s2: "schedule demo_e s1 = Inr s2" "current s2 = Some 2" "sched_inv (queues_after ?f s1) None s2" "pass_keeps (Some 2) s1 s2"
    "nxt_imm_task s2 = None"
    using schedule_inv [OF s1(2) pk(3,2) h pk(1), of demo_e] s1(3,4,6) by auto
  have 2: "kstep s1 s2" by (rule kstep.pass [OF pk(3,2) h s2(1)])
  have q: "queues_after ?f s1 = ?f" using s1(4) by (simp add: queues_after_def)
  obtain t2 where t2: "tsks s2 0 = Some t2" "tid t2 = 1"
  proof (rule pass_keepsD [OF s2(4)])
    show "tsks s1 0 = Some (?t\<lparr>state := TASK_INTERRUPTIBLE, onrq := 0, stime := 0\<rparr>)" using s1(5) by simp
  qed (use t(4) in \<open>simp add: tsk_kept_def\<close>)
  have "concat (map ?f search_order) = [TskHd 0, TskHd 2]"
    by (simp add: search_order_def boot_queues_def enq_tail_def unqueue_def MAX_FDS_def MAX_PRIO_def upt_rec)
  then have find: "find_task 1 s2 = Inr (Some 0)"
    using find_task_eq [OF s2(3), of 1] t2 q by (simp add: tid_in_def has_tid_def)
  let ?s3 = "s2\<lparr>links := list_del (TskHd 0) (links s2), tsks := (tsks s2)(0 := None), task_count := task_count s2 - 1\<rparr>"
  have can: "task_cancel 1 s2 = Inr (0, ?s3)" using find t2 by (simp add: task_cancel_def kill_task_def task_exit_def)
  have "task_count s2 \<noteq> 1" using s2(4) more(1) by (simp add: pass_keeps_def)
  then have "krun (Suc 0) s ?s3" using krun.cancel [OF krun.call [OF krun.call [OF krun.stop 1] 2] find _ _ _ can] s2(2,5) by simp
  then show thesis using that s(1) s2(2) by simp
qed


theorem reachable_pointers_typed_witness:
  "\<exists>s0 s ps. demo_boot = Inr (Some 2, s0) \<and> krun 1 s0 s \<and> tsks s 0 = None \<and>
     list_for_each WqHd (links s) = Some (map TskHd ps) \<and> distinct ps"
proof (rule demo_cancel)
  fix s0 s assume s: "demo_boot = Inr (Some 2, s0)" "krun 1 s0 s" "current s = Some 2" "tsks s 0 = None"
  have ok: "boot_ok (demo_env 0) (demo_env 1) (demo_env 2) 0 1 2" by (simp add: boot_ok_def demo_env_def)
  have "WqHd \<in> queue_heads" by simp
  with reachable_pointers_typed [OF ok s(1) [unfolded demo_boot_def] s(2)] s show ?thesis by blast
qed

end
