(* ===== verification/TimerReuse.thy ===== *)
theory TimerReuse
  imports TimerExpiry
begin

unbundle bit_operations_syntax

text \<open>
  Timers that are set up once and armed again and again (\<^verbatim>\<open>setup_timer\<close>, \<^verbatim>\<open>mod_timer\<close>), and what the
  user is told: the remaining time of a timer and the time since start-up.
\<close>

section \<open>The time since start-up\<close>

definition show_uptime :: "bool \<Rightarrow> 'z timers_scheme \<Rightarrow> u32 \<times> u32 \<times> u32 \<times> u32" where
  "show_uptime sfs s = (get_hrs s, get_mins s mod 60, get_secs s mod 60, get_ticks s mod tm_get_ticks_per_second sfs)"

lemma uptime_ok:
  assumes "clock_ok sfs (clk s) n" and "show_uptime sfs s = (h, m, sec, t)"
  shows "unat m < 60" "unat sec < 60" "unat t < tps sfs" "((unat h * 60 + unat m) * 60 + unat sec) * tps sfs + unat t = n"
proof -
  let ?T = "tps sfs"
  have c: "unat (clk s 0) = n" "unat (clk s 1) = n div ?T" "unat (clk s 2) = n div ?T div 60" "unat (clk s 3) = n div ?T div 60 div 60"
    using assms(1) by (auto simp: clock_ok_def TIMER_WHEEL_def unit_of_def div_mult2_eq)
  have u: "unat h = n div ?T div 60 div 60" "unat m = n div ?T div 60 mod 60" "unat sec = n div ?T mod 60" "unat t = n mod ?T"
    using assms(2) c by (auto simp: show_uptime_def get_hrs_def get_mins_def get_secs_def get_ticks_def unat_mod_distrib)
  show "unat m < 60" "unat sec < 60" "unat t < ?T" using tps_pos [of sfs] by (simp_all add: u)
  show "((unat h * 60 + unat m) * 60 + unat sec) * ?T + unat t = n" unfolding u by (simp only: div_mult_mod_eq)
qed

text \<open>
  C37: the time that \<^verbatim>\<open>show_uptime\<close> prints is the number of ticks since start-up, in hours, minutes, seconds
  and ticks, each below the next unit.
\<close>

theorem uptime_counts_ticks:
  assumes "timers_ok sfs n s f es" and "n + k + 1024 < 2 ^ 32"
  shows "\<exists>s' h m sec t. run_ticks sfs k s = Inr s' \<and> show_uptime sfs s' = (h, m, sec, t) \<and> unat m < 60 \<and> unat sec < 60 \<and>
     unat t < tps sfs \<and> ((unat h * 60 + unat m) * 60 + unat sec) * tps sfs + unat t = n + k"
proof -
  obtain s' f' new where s': "run_ticks sfs k s = Inr s'" "timers_ok sfs (n + k) s' f' (es @ new)"
    using ticks_expire [OF assms] by blast
  obtain h m sec t where up: "show_uptime sfs s' = (h, m, sec, t)" by (cases "show_uptime sfs s'")
  note tmr_invD(3) [OF timers_okD(1) [OF s'(2)]]
  from uptime_ok [OF this up] s'(1) up show ?thesis by blast
qed

section \<open>The remaining time\<close>

lemma running_exp:
  assumes ok: "timers_ok sfs n s f es" and "(a, d) \<in> pending sfs s f" and "a_timer (the (tapps s a)) = Some i"
  obtains tm where "ttms s i = Some tm" "t_app tm = Some a" "t_running tm"
proof -
  obtain w where "w < TIMER_WHEEL" "a \<in> set (f w)" using assms(2) by (auto simp: pending_def)
  then show thesis using that entries_okD(2) [OF tmr_invD(2) [OF timers_okD(1) [OF ok]]] assms(3) by (fastforce simp: entry_ok_def)
qed

lemma arm_exp:
  assumes "arm sfs a s = Inr s'" and "tapps s a = Some ap" "a_timer ap = Some i" "a_ctime ap = 0" "ttms s i = Some tm"
  shows "\<exists>tm'. ttms s' i = Some tm' \<and> t_exp tm' = t_rmt tm + clk s 0"
proof -
  obtain s1 s2 where c: "calc_time sfs a s = Inr s1" "find_tmr_slot_and_place a s1 = Inr s2" "s' = s2\<lparr>tcount := tcount s2 + 1\<rparr>"
    using assms(1) by (auto simp: arm_def fault_simps)
  have "\<exists>tm'. ttms s1 i = Some tm' \<and> t_exp tm' = t_rmt tm + clk s 0" using c(1) calc_time_ok [OF assms(2-5), of sfs] by auto
  then show ?thesis using same_view_timer [OF times.placed [OF c(2)]] c(3) by fastforce
qed

lemma start_timer_exp:
  assumes "start_timer sfs (Some i) (Some a) ticks data h flags s = Inr (Some i, s')" and "tcount s \<le> MAX_TIMERS" "indx s \<noteq> - 1"
  shows "\<exists>tm. ttms s' i = Some tm \<and> t_exp tm = ticks + clk s 0"
  using assms(1) arm_exp [where a = a and i = i and sfs = sfs and s' = s'] unfolding start_timer_arms [OF assms(2,3)]
  by (fastforce simp: andThen_eq_Inr)

lemma run_ticks_clk: "timers_ok sfs n s f es \<Longrightarrow> clk s 0 = of_nat n"
  using tmr_invD(3) [OF timers_okD(1)] by (fastforce simp: clock_ok_def TIMER_WHEEL_def unit_of_def word_unat_eq_iff unat_of_nat)

text \<open>
  the remaining time that a running timer reports does not fit its deadline: with \<open>d\<close> ticks left until it
  expires it reports \<open>d\<close> and the ticks that had passed, when it was started, since the last full unit of
  its wheel; the timer expires while this many ticks are said to remain.
\<close>

theorem remaining_time_too_long:
  assumes ok: "timers_ok sfs n s f es" and fresh: "tapps s a = None" "ttms s i = None" "a \<notin> set es"
    and room: "tcount s \<le> MAX_TIMERS" "indx s \<noteq> - 1"
    and ticks: "0 < unat ticks" "unat ticks < horizon sfs" "n + j + 1024 < 2 ^ 32"
    and j: "n + j < n - n mod granule sfs (unat ticks) + unat ticks"
  shows "\<exists>s1 s2 f2 r. start_timer sfs (Some i) (Some a) ticks data h flags s = Inr (Some i, s1) \<and> run_ticks sfs j s1 = Inr s2 \<and>
     (\<exists>d. (a, n + j + d) \<in> pending sfs s2 f2 \<and> timer_get_remaining_time (Some i) s2 = Inr r \<and>
        unat r = d + n mod granule sfs (unat ticks))"
proof -
  let ?D = "n - n mod granule sfs (unat ticks) + unat ticks"
  have b: "n + 1024 < 2 ^ 32" using ticks(3) by simp
  obtain s1 f1 where s1: "start_timer sfs (Some i) (Some a) ticks data h flags s = Inr (Some i, s1)" "timers_ok sfs n s1 f1 es"
    "a_timer (the (tapps s1 a)) = Some i" "pending sfs s1 f1 = insert (a, ?D) (pending sfs s f)"
    using start_timer_ok [OF ok fresh b room, of ticks data h flags] ticks(1,2) by (auto simp: started_def new_deadline_def)
  obtain s2 f2 new where s2: "run_ticks sfs j s1 = Inr s2" "timers_ok sfs (n + j) s2 f2 (es @ new)"
    "pending sfs s2 f2 = {(x, d) \<in> pending sfs s1 f1. n + j < d}" using ticks_expire [OF s1(2) ticks(3)] by blast
  have p: "(a, ?D) \<in> pending sfs s2 f2" using s1(4) s2(3) j by simp
  obtain tm1 where tm1: "ttms s1 i = Some tm1" "t_exp tm1 = ticks + clk s 0" using start_timer_exp [OF s1(1) room] by blast
  have "map_option a_timer (tapps s2 a) = map_option a_timer (tapps s1 a)" 
    using times.run_ticks_view [OF s2(1)] by (auto simp: same_view_def fun_eq_iff)
  moreover have "tapps s1 a \<noteq> None" using start_timer_more(3) [OF s1(1) room] .
  ultimately have i2: "a_timer (the (tapps s2 a)) = Some i" using s1(3) by (cases "tapps s1 a"; cases "tapps s2 a") auto
  obtain tm2 where tm2: "ttms s2 i = Some tm2" "t_running tm2" using running_exp [OF s2(2) p i2] by metis
  have e: "t_exp tm2 = ticks + clk s 0" using same_view_timer [OF times.run_ticks_view [OF s2(1)] tm1(1)] tm1(2) tm2(1) by auto
  define r where "r = t_exp tm2 - get_ticks s2"
  have "r = ticks - of_nat j" using run_ticks_clk [OF ok] run_ticks_clk [OF s2(2)] by (simp add: r_def e get_ticks_def)
  moreover have lt: "j < unat ticks" using j by simp
  moreover have small: "unat ticks < 2 ^ 31" using ticks(2) by (simp add: horizon_def tm_get_ticks_per_second_def split: if_splits)
  ultimately have r: "unat r = unat ticks - j" by (simp add: unat_sub word_le_nat_alt unat_of_nat)
  have "sint r = uint r"
  proof -
    have "unat r < 2 ^ 31" using r small by linarith
    then have "int (unat r) < int (2 ^ 31)" by (rule iffD2 [OF of_nat_less_iff])
    then have "uint r < 2 ^ 31" by (simp only: uint_nat of_nat_power of_nat_numeral)
    moreover have "- (2 ^ 31) \<le> uint r" by (rule order.trans [of _ 0]) simp_all
    ultimately show ?thesis by (simp add: sint_uint signed_take_bit_int_eq_self)
  qed
  then have "\<not> r <s 0" by (simp add: word_sless_alt)
  then have "timer_get_remaining_time (Some i) s2 = Inr r" using tm2 by (simp add: timer_get_remaining_time_def r_def Let_def)
  moreover have "(a, n + j + (?D - (n + j))) \<in> pending sfs s2 f2" using p j by simp
  moreover have "unat r = (?D - (n + j)) + n mod granule sfs (unat ticks)" using r j lt by simp
  ultimately show ?thesis using s1(1) s2(1) by blast
qed

section \<open>Timers that are armed again\<close>

text \<open>\<open>idle_timer\<close>: no entry on the wheels belongs to timer \<open>i\<close>.\<close>

definition idle_timer :: "'z timers_scheme \<Rightarrow> (nat \<Rightarrow> nat list) \<Rightarrow> nat \<Rightarrow> bool" where
  "idle_timer s f i \<longleftrightarrow> (\<forall>w<TIMER_WHEEL. \<forall>x\<in>set (f w). a_timer (the (tapps s x)) \<noteq> Some i)"

lemma mod_timer_arms:
  assumes "ttms s i = Some tm"
  shows "mod_timer sfs (Some a) (Some i) secs s =
     andThen (arm sfs a (s\<lparr>tbytes := tbytes s + sizeof_APP_TIMER_T, expd := INIT_LIST_HEAD (Elist a) (expd s),
       tapps := (tapps s)(a \<mapsto> \<lparr>a_timer = Some i, a_ctime = 0, a_rt = 0\<rparr>),
       ttms := (ttms s)(i \<mapsto> tm\<lparr>t_rmt := secs * tm_get_ticks_per_second sfs, t_app := Some a\<rparr>)\<rparr>)) (\<lambda>s. Inr (0, s))"
  using assms by (simp add: mod_timer_def alloc_app_def on_app_def on_timer_def Let_def)

lemma mod_timer_ok:
  assumes ok: "timers_ok sfs n s f es" and fresh: "tapps s a = None" "a \<notin> set es" and tm: "ttms s i = Some tm" and idle: "idle_timer s f i"
    and bound: "n + 1024 < 2 ^ 32" and room: "unat (tcount s) + 1 < 2 ^ 32"
  shows "\<exists>s' f'. mod_timer sfs (Some a) (Some i) secs s = Inr (0, s') \<and> timers_ok sfs n s' f' es \<and> a_timer (the (tapps s' a)) = Some i \<and>
     pending sfs s' f' = started sfs n a (unat (secs * tm_get_ticks_per_second sfs)) (pending sfs s f) \<and>
     (\<forall>x. x \<noteq> a \<longrightarrow> map_option a_timer (tapps s' x) = map_option a_timer (tapps s x)) \<and>
     (\<exists>tm'. ttms s' i = Some tm' \<and> t_flags tm' = t_flags tm \<and> t_app tm' = Some a)"
proof -
  let ?ap = "\<lparr>a_timer = Some i, a_ctime = 0, a_rt = 0\<rparr>" and ?tm = "tm\<lparr>t_rmt := secs * tm_get_ticks_per_second sfs, t_app := Some a\<rparr>"
  define s1 where "s1 = s\<lparr>tbytes := tbytes s + sizeof_APP_TIMER_T, expd := INIT_LIST_HEAD (Elist a) (expd s),
       tapps := (tapps s)(a \<mapsto> ?ap), ttms := (ttms s)(i \<mapsto> ?tm)\<rparr>"
  have keeps: "timers_ok sfs n s1 f es" "pending sfs s1 f = pending sfs s f" "\<And>w. w < TIMER_WHEEL \<Longrightarrow> a \<notin> set (f w)"
    using fresh_keeps [where s' = s1 and i = i, OF ok fresh] idle by (simp_all add: s1_def idle_timer_def)
  have at: "tapps s1 a = Some ?ap" "a_timer ?ap = Some i" "a_ctime ?ap = 0" "ttms s1 i = Some ?tm" "t_app ?tm = Some a"
    "t_rmt ?tm = secs * tm_get_ticks_per_second sfs" by (simp_all add: s1_def)
  have "unat (tcount s1) + 1 < 2 ^ 32" using room by (simp add: s1_def)
  then obtain s' f' where s': "arm sfs a s1 = Inr s'" "timers_ok sfs n s' f' es" "a_timer (the (tapps s' a)) = Some i"
    "pending sfs s' f' = started sfs n a (unat (secs * tm_get_ticks_per_second sfs)) (pending sfs s1 f)"
    using arm_any [OF keeps(1) keeps(3) fresh(2) at(1-5) bound] unfolding at(6) by blast
  note ids = arm_ids [OF s'(1)]
  have "map_option a_timer (tapps s' x) = map_option a_timer (tapps s x)" if "x \<noteq> a" for x
  proof -
    have "map_option a_timer (tapps s' x) = map_option a_timer (tapps s1 x)" using ids by (simp add: same_view_def fun_eq_iff)
    then show ?thesis using that by (simp add: s1_def)
  qed
  moreover have "\<exists>tm'. ttms s' i = Some tm' \<and> t_flags tm' = t_flags tm \<and> t_app tm' = Some a"
    using same_view_timer [OF ids at(4)] by (auto simp: ident_def)
  moreover have "mod_timer sfs (Some a) (Some i) secs s = Inr (0, s')" using s'(1) mod_timer_arms [OF tm] by (simp add: s1_def)
  ultimately show ?thesis using s'(2-4) keeps(2) by (intro exI [of _ s'] exI [of _ f']) simp
qed

lemma setup_timer_ok:
  assumes ok: "timers_ok sfs n s f es" and fresh: "ttms s i = None" and room: "tcount s \<le> MAX_TIMERS" "indx s \<noteq> - 1"
  shows "\<exists>s' tm. setup_timer (Some i) h d s = Inr (0, Some i, s') \<and> timers_ok sfs n s' f es \<and> pending sfs s' f = pending sfs s f \<and>
     idle_timer s' f i \<and> ttms s' i = Some tm \<and> t_flags tm = TIMER_FOREVER \<and> t_handler tm = h \<and> t_data tm = d \<and> tapps s' = tapps s \<and>
     tcount s' = tcount s"
proof -
  let ?tm = "zero_timer\<lparr>t_idx := indx s + 1, t_rmt := 0, t_data := d, t_handler := h, t_flags := TIMER_FOREVER, t_wheel := WAIT_TIMERS\<rparr>"
  define s' where "s' = s\<lparr>indx := indx s + 1, tbytes := tbytes s + sizeof_TIMER_T, ttms := (ttms s)(i \<mapsto> ?tm)\<rparr>"
  note O = timers_okD [OF ok] and D = tmr_invD [OF timers_okD(1) [OF ok]]
  have e: "entry_ok s' w x" "a_timer (the (tapps s x)) \<noteq> Some i" if wx: "w < TIMER_WHEEL" "x \<in> set (f w)" for w x
  proof -
    obtain ap j t where *: "tapps s x = Some ap" "a_timer ap = Some j" "ttms s j = Some t" "t_wheel t = w" "t_app t = Some x" "t_running t"
      "\<forall>v. w < v \<longrightarrow> v < TIMER_WHEEL \<longrightarrow> fld v (a_ctime ap) = 0" using entries_okD(2) [OF D(2) wx] by (auto simp: entry_ok_def)
    then have "j \<noteq> i" using fresh by auto
    with * show "entry_ok s' w x" "a_timer (the (tapps s x)) \<noteq> Some i" by (auto simp: entry_ok_def s'_def)
  qed
  have key: "key s' = key s" by (simp add: key_fun s'_def)
  have "entries_ok s' f" using e(1) entries_okD(1) [OF D(2)] by (simp add: entries_ok_def key)
  moreover have "wheels s' f" using D(1) wheels_cong [of s' s f] by (simp add: s'_def)
  ultimately have "timers_ok sfs n s' f es" using D(3-6) O(2) by (simp add: timers_ok_def tmr_inv_def ahead_def key) (simp add: s'_def)
  moreover have "pending sfs s' f = pending sfs s f" unfolding pending_def deadline_def key by (simp add: s'_def)
  moreover have "setup_timer (Some i) h d s = Inr (0, Some i, s')"
    using room leD [OF room(1)] by (simp add: setup_timer_def alloc_timer_id_def alloc_timer_def on_timer_def update_wheel_def s'_def Let_def)
  moreover have "idle_timer s' f i" using e(2) by (auto simp: idle_timer_def s'_def)
  ultimately show ?thesis by (intro exI [of _ s'] exI [of _ ?tm]) (simp add: s'_def)
qed

text \<open>
  C7: a timer that \<^verbatim>\<open>setup_timer\<close> has made has no deadline; \<^verbatim>\<open>mod_timer\<close> gives it one, counted like those
  of \<^verbatim>\<open>start_timer\<close>, and the other timers keep theirs.
\<close>

theorem setup_mod_timer_deadline:
  assumes "timers_ok sfs n s f es" and "ttms s i = None" and "tapps s a = None" and "a \<notin> set es"
    and "n + 1024 < 2 ^ 32" and "tcount s \<le> MAX_TIMERS" and "indx s \<noteq> - 1"
  shows "\<exists>s1 s2 f2. setup_timer (Some i) h d s = Inr (0, Some i, s1) \<and> timers_ok sfs n s1 f es \<and> pending sfs s1 f = pending sfs s f \<and>
     mod_timer sfs (Some a) (Some i) secs s1 = Inr (0, s2) \<and> timers_ok sfs n s2 f2 es \<and>
     pending sfs s2 f2 = (let k = unat (secs * tm_get_ticks_per_second sfs) mod (1024 * (3600 * tps sfs)) in
       if k = 0 then pending sfs s f else insert (a, n - n mod granule sfs k + k) (pending sfs s f))"
proof -
  obtain s1 tm where s1: "setup_timer (Some i) h d s = Inr (0, Some i, s1)" "timers_ok sfs n s1 f es" "pending sfs s1 f = pending sfs s f"
    "idle_timer s1 f i" "ttms s1 i = Some tm" "tapps s1 = tapps s" "tcount s1 = tcount s"
    using setup_timer_ok [OF assms(1,2,6,7)] by blast
  have "unat (tcount s1) + 1 < 2 ^ 32" using assms(6) s1(7) by (simp add: MAX_TIMERS_def word_le_nat_alt)
  moreover have "tapps s1 a = None" using assms(3) s1(6) by simp
  ultimately show ?thesis using mod_timer_ok [OF s1(2) _ assms(4) s1(5,4) assms(5), of secs] s1(1,2,3)
    unfolding started_def new_deadline_def horizon_def Let_def by auto
qed

text \<open>
  C40: a timer that its own handler arms again, as the demonstration program does, cannot be deleted any
  more: after the handler the bottom half forgets the entry of the timer, so the timer runs, and
  \<^verbatim>\<open>del_timer\<close> leaves it running.
\<close>

theorem rearmed_timer_not_deleted:
  assumes ok: "timers_ok sfs n s f (a # es)" and ap: "tapps s a = Some ap" "a_timer ap = Some i"
    and tm: "ttms s i = Some tm" "t_flags tm = TIMER_FOREVER" "t_handler tm = Some h"
    and hdl: "hdl h (t_data tm) s = andThen (mod_timer sfs (Some b) (Some i) secs s) (\<lambda>(_, s). Inr s)"
    and fresh: "tapps s b = None" "b \<notin> set es" and idle: "idle_timer s f i"
    and k: "k = unat (secs * tm_get_ticks_per_second sfs) mod horizon sfs" "k \<noteq> 0"
    and bound: "n + 1024 < 2 ^ 32" and room: "unat (tcount s) + 1 < 2 ^ 32"
  shows "\<exists>s' f'. expire_one sfs hdl al a s = Inr s' \<and> pending sfs s' f' = insert (b, n - n mod granule sfs k + k) (pending sfs s f) \<and>
     timer_pending (Some i) s' = Inr True \<and> del_timer i s' = Inr s'"
proof -
  have ba: "b \<noteq> a" "b \<notin> set (a # es)" using fresh ap(1) by auto
  obtain s1 f1 tm1 where s1: "mod_timer sfs (Some b) (Some i) secs s = Inr (0, s1)" "timers_ok sfs n s1 f1 (a # es)"
    "a_timer (the (tapps s1 b)) = Some i" "pending sfs s1 f1 = insert (b, n - n mod granule sfs k + k) (pending sfs s f)"
    "map_option a_timer (tapps s1 a) = Some (Some i)" "ttms s1 i = Some tm1" "t_flags tm1 = TIMER_FOREVER"
    using mod_timer_ok [OF ok fresh(1) ba(2) tm(1) idle bound room, of secs] ba(1) ap tm(2)
    unfolding started_def new_deadline_def k(1) [symmetric] if_not_P [OF k(2)] by fastforce
  have "(b, n - n mod granule sfs k + k) \<in> pending sfs s1 f1" using s1(4) by simp
  then have run: "t_running tm1" using running_exp [OF s1(2) _ s1(3)] s1(6) by auto
  obtain ap1 where ap1: "tapps s1 a = Some ap1" "a_timer ap1 = Some i" using s1(5) by auto
  define s' where "s' = s1\<lparr>expd := list_del (Elist a) (expd s1), ttms := (ttms s1)(i \<mapsto> tm1\<lparr>t_app := None\<rparr>), tapps := (tapps s1)(a := None)\<rparr>"
  have "expire_one sfs hdl al a s = Inr s'"
    using ap tm(1,3) hdl s1(1,6,7) ap1
    by (simp add: expire_one_def on_timer_def TIMER_FOREVER_def TIMER_ONCE_def TIMER_REPEAT_def s'_def Let_def)
  moreover have "pending sfs s' f1 = pending sfs s1 f1"
  proof -
    have "deadline sfs s' w x = deadline sfs s1 w x" if "w < TIMER_WHEEL" "x \<in> set (f1 w)" for w x
      using tmr_invD(6) [OF timers_okD(1) [OF s1(2)] that(1)] that(2) by (auto simp: deadline_def key_def s'_def)
    then show ?thesis by (auto simp: pending_def)
  qed
  moreover have "timer_pending (Some i) s' = Inr True" "del_timer i s' = Inr s'"
    using run by (simp_all add: timer_pending_def del_timer_def s'_def)
  ultimately show ?thesis using s1(4) by auto
qed

section \<open>Witnesses\<close>

theorem uptime_counts_ticks_witness:
  "\<exists>s h m sec t. run_ticks True 180123 demo_timers = Inr s \<and> show_uptime True s = (h, m, sec, t) \<and>
     ((unat h * 60 + unat m) * 60 + unat sec) * 50 + unat t = 180123"
  using uptime_counts_ticks [OF demo_timers_ok, of 180123 True] by (fastforce simp: tm_get_ticks_per_second_def)

text \<open>A timer of one second started half a second after a full one: at the next tick but one it expires, and 51 ticks are said to remain.\<close>

theorem remaining_time_too_long_witness:
  "\<exists>s s1 s2 f2 r. run_ticks False 50 demo_timers = Inr s \<and> start_timer False (Some 0) (Some 0) 100 0 None 0 s = Inr (Some 0, s1) \<and>
     run_ticks False 49 s1 = Inr s2 \<and> (\<exists>d. (0, 99 + d) \<in> pending False s2 f2 \<and> timer_get_remaining_time (Some 0) s2 = Inr r \<and> unat r = d + 50)"
proof -
  define s where "s = demo_timers\<lparr>clk := (tick_clk False ^^ 50) (clk demo_timers)\<rparr>"
  have run: "run_ticks False 50 demo_timers = Inr s" unfolding s_def by (rule run_ticks_idle) (rule demo_timers_simps)
  obtain f where ok: "timers_ok False 50 s f []" using ticks_expire [OF demo_timers_ok, of 50 False] run by (auto simp: no_timers_pending expired_by_def)
  have "\<exists>s1 s2 f2 r. start_timer False (Some 0) (Some 0) 100 0 None 0 s = Inr (Some 0, s1) \<and> run_ticks False 49 s1 = Inr s2 \<and>
     (\<exists>d. (0, 50 + 49 + d) \<in> pending False s2 f2 \<and> timer_get_remaining_time (Some 0) s2 = Inr r \<and> unat r = d + 50 mod granule False (unat (100 :: u32)))"
    by (rule remaining_time_too_long [OF ok])
      (simp_all add: s_def demo_timers_simps MAX_TIMERS_def horizon_def granule_def tm_get_ticks_per_second_def)
  with run show ?thesis by (simp add: granule_def tm_get_ticks_per_second_def)
qed

lemma demo_set_up:
  obtains s tm where "setup_timer (Some 0) (Some 7) 5 demo_timers = Inr (0, Some 0, s)" "timers_ok False 0 s (\<lambda>_. []) []" "idle_timer s (\<lambda>_. []) 0"
    "ttms s 0 = Some tm" "t_flags tm = TIMER_FOREVER" "t_handler tm = Some 7" "t_data tm = 5" "tapps s = (\<lambda>_. None)" "tcount s = 0"
  using setup_timer_ok [OF demo_timers_ok, of 0 "Some 7" 5 False] demo_timers_simps by (fastforce simp: MAX_TIMERS_def)

theorem setup_mod_timer_deadline_witness:
  "\<exists>s1 s2 f2. setup_timer (Some 0) (Some 7) 5 demo_timers = Inr (0, Some 0, s1) \<and> mod_timer False (Some 0) (Some 0) 2 s1 = Inr (0, s2) \<and>
     pending False s2 f2 = {(0, 200)}"
  using setup_mod_timer_deadline [OF demo_timers_ok, of 0 0 "Some 7" 5 False 2]
  by (auto simp: demo_timers_simps MAX_TIMERS_def granule_def tm_get_ticks_per_second_def no_timers_pending Let_def)

text \<open>The timer of \<open>demo_set_up\<close> with an entry that has just expired; its handler arms it for two seconds.\<close>

lemma demo_expired:
  obtains s :: timers and tm where "timers_ok False 0 s (\<lambda>_. []) [0]" "tapps s 0 = Some \<lparr>a_timer = Some 0, a_ctime = 0, a_rt = 0\<rparr>" "tapps s 1 = None" "ttms s 0 = Some tm" "t_flags tm = TIMER_FOREVER"
    "t_handler tm = Some 7" "tcount s = 0"
proof (rule demo_set_up)
  fix s :: timers and tm assume s: "timers_ok False 0 s (\<lambda>_. []) []" "ttms s 0 = Some tm" "t_flags tm = TIMER_FOREVER" "t_handler tm = Some 7"
    "tapps s = (\<lambda>_. None)" "tcount s = 0"
  note D = tmr_invD [OF timers_okD(1) [OF s(1)]]
  define s' where "s' = s\<lparr>tapps := [0 \<mapsto> \<lparr>a_timer = Some 0, a_ctime = 0, a_rt = 0\<rparr>], expd := list_add_tail (Elist 0) ExpdHd (expd s)\<rparr>"
  have "dlist (expd s') ExpdHd (map Elist [0])" using list_add_tail_dlist [OF D(5), of "Elist 0"] by (simp add: s'_def)
  moreover have "wheels s' (\<lambda>_. [])" using D(1) wheels_cong [of s' s "\<lambda>_. []"] by (simp add: s'_def)
  ultimately have "timers_ok False 0 s' (\<lambda>_. []) [0]" using D(3) by (simp add: timers_ok_def tmr_inv_def entries_ok_def ahead_def s'_def)
  then show thesis using that [of s'] s by (simp add: s'_def)
qed

theorem rearmed_timer_not_deleted_witness:
  "\<exists>(s :: timers) s' f'. timers_ok False 0 s (\<lambda>_. []) [0] \<and>
     expire_one False (\<lambda>h d s. andThen (mod_timer False (Some 1) (Some 0) 2 s) (\<lambda>(_, s). Inr s)) (\<lambda>_. None) 0 s = Inr s' \<and>
     pending False s' f' = {(1, 200)} \<and> del_timer 0 s' = Inr s'"
proof (rule demo_expired)
  fix s :: timers and tm
  assume s: "timers_ok False 0 s (\<lambda>_. []) [0]" "tapps s 0 = Some \<lparr>a_timer = Some 0, a_ctime = 0, a_rt = 0\<rparr>" "tapps s 1 = None"
    "ttms s 0 = Some tm" "t_flags tm = TIMER_FOREVER" "t_handler tm = Some 7" "tcount s = 0"
  have k: "200 = unat (2 * tm_get_ticks_per_second False) mod horizon False" "(200 :: nat) \<noteq> 0"
    by (simp_all add: tm_get_ticks_per_second_def horizon_def)
  have "idle_timer s (\<lambda>_. []) 0" by (simp add: idle_timer_def)
  from rearmed_timer_not_deleted [where hdl = "\<lambda>h d s. andThen (mod_timer False (Some 1) (Some 0) 2 s) (\<lambda>(_, s). Inr s)" and al = "\<lambda>_. None",
      OF s(1,2) _ s(4-6) refl s(3) _ this k] s(1,7)
  show ?thesis by (auto simp: no_timers_pending granule_def tm_get_ticks_per_second_def)
qed

end
