(* ===== verification/TimerLate.thy ===== *)
theory TimerLate
  imports TimerReuse
begin

text \<open>
  What happens when the soft interrupt of a tick is served late.  The trees are searched for entries
  with exactly the present time, so an entry whose tick has passed is not found any more.
\<close>

section \<open>Entries whose tick has passed\<close>

text \<open>Entry \<open>x\<close> is on wheel \<open>v\<close> with the contents \<open>ap\<close>, in a state that satisfies the invariant of the trees.\<close>

definition sits ::
    "bool \<Rightarrow> nat \<Rightarrow> nat \<Rightarrow> nat \<Rightarrow> app_timer option \<Rightarrow> 'z timers_scheme \<Rightarrow> (nat \<Rightarrow> nat list) \<Rightarrow> nat list \<Rightarrow> bool" where
  "sits sfs m x v ap s f es \<longleftrightarrow> tmr_inv sfs m s f es \<and> x \<in> set (f v) \<and> tapps s x = ap"

definition passed :: "bool \<Rightarrow> nat \<Rightarrow> nat \<Rightarrow> app_timer option \<Rightarrow> bool" where
  "passed sfs m v ap \<longleftrightarrow> v < TIMER_WHEEL \<and> unat (a_rt (the ap)) * unit_of sfs v < m"

text \<open>One entry of a wheel is handled; the entry whose tick has passed is another one and stays.\<close>

lemma one_keeps:
  assumes st: "sits sfs m x v ap s f es" and od: "passed sfs m v ap" and w: "w < TIMER_WHEEL" and a: "a \<in> set (f w)"
    and now: "unat (key s a) * unit_of sfs w = m" and bound: "m + 1024 < 2 ^ 32"
  shows "\<exists>s' f' es'. process_one w a s = Inr s' \<and> sits sfs m x v ap s' f' es' \<and> clk s' = clk s \<and> f' w = remove1 a (f w)"
proof -
  have inv: "tmr_inv sfs m s f es" and x: "x \<in> set (f v)" "tapps s x = ap" using st by (simp_all add: sits_def)
  have v: "v < TIMER_WHEEL" using od by (simp add: passed_def)
  note wh = tmr_invD(1) [OF inv]
  have same: "u = v" if "u < TIMER_WHEEL" "x \<in> set (f u)" for u using wheels_other [OF wh that(1) v _ x(1)] that(2) by blast
  have ne: "x \<noteq> a" using now od same [OF w] a x(2) by (auto simp: passed_def key_def)
  obtain s' f' new where s': "process_one w a s = Inr s'" "tmr_inv sfs m s' f' (es @ new)" "turned sfs m w a s f s' f' new"
    using process_one_ok [OF inv w a now bound] by blast
  have t: "f' w = remove1 a (f w)" "\<And>u. w < u \<Longrightarrow> f' u = f u" "tapps s' x = ap" "\<And>u. u < w \<Longrightarrow> set (f' u) \<subseteq> insert a (set (f u))"
    "clk s' = clk s" "x \<notin> set new" "pending sfs s' f' = {(x, d) \<in> pending sfs s f. x \<notin> set new}"
    using s'(3) ne x(2) by (auto simp: turned_def)
  obtain d where "(x, d) \<in> pending sfs s f" using v x(1) by (auto simp: pending_def)
  then have "(x, d) \<in> pending sfs s' f'" using t(6,7) by simp
  then obtain u where u: "u < TIMER_WHEEL" "x \<in> set (f' u)" by (auto simp: pending_def)
  have "x \<in> set (f u)"
    using u(2) t(1) t(2) [of u] t(4) [of u] ne set_remove1_subset [of a "f w"] by (cases u w rule: linorder_cases) auto
  then have "x \<in> set (f' v)" using u same by blast
  then show ?thesis using s'(1,2) t(1,3,5) by (auto simp: sits_def)
qed

lemma loop_keeps:
  assumes "sits sfs m x v ap s f es" and od: "passed sfs m v ap" and w: "w < TIMER_WHEEL"
    and "unat (clk s w) * unit_of sfs w = m" and bound: "m + 1024 < 2 ^ 32"
  shows "\<exists>k' s' f' es'. process_loop w (clk s w) k s = Some (Inr (k', s')) \<and> sits sfs m x v ap s' f' es'"
  using assms(1,4)
proof (induction "length (f w)" arbitrary: s f es k rule: less_induct)
  case less
  have inv: "tmr_inv sfs m s f es" using less.prems(1) by (simp add: sits_def)
  note D = tmr_invD [OF inv]
  obtain r where r: "timer_tree_walk w (clk s w) s = Inr r" "case r of None \<Rightarrow> True | Some x \<Rightarrow> x \<in> set (f w) \<and> key s x = clk s w"
    using timer_tree_walk_ok [OF D(1) w entries_okD(1) [OF D(2) w], of "clk s w"] entries_okD(3) [OF D(2) w]
    by (fastforce split: option.splits)
  show ?case
  proof (cases r)
    case None
    then show ?thesis using r(1) less.prems(1) by (subst process_loop.simps) auto
  next
    case (Some a)
    then have a: "a \<in> set (f w)" "key s a = clk s w" using r(2) by auto
    obtain s1 f1 es1 where one: "process_one w a s = Inr s1" "sits sfs m x v ap s1 f1 es1" "clk s1 = clk s" "f1 w = remove1 a (f w)"
      using one_keeps [OF less.prems(1) od w a(1) _ bound] a(2) less.prems(2) by auto
    have "length (f1 w) < length (f w)" using one(4) a(1) length_pos_if_in_set [OF a(1)] by (simp add: length_remove1)
    from less.hyps [OF this one(2), of "k + 1"] less.prems(2) one(1,3) r(1) Some show ?thesis
      by (subst process_loop.simps) auto
  qed
qed

lemma process_keeps:
  assumes "sits sfs m x v ap s f es" and "passed sfs m v ap" and "w < TIMER_WHEEL" and "unit_of sfs w dvd m" and "m + 1024 < 2 ^ 32"
  shows "\<exists>k s' f' es'. process_timers w (clk s w) s = Inr (k, s') \<and> sits sfs m x v ap s' f' es'"
proof -
  have "unat (clk s w) * unit_of sfs w = m" using assms(1,3,4) tmr_invD(3) [of sfs m s f es] by (simp add: sits_def clock_ok_def)
  from loop_keeps [OF assms(1-3) this assms(5), of 0] show ?thesis by (fastforce simp: process_timers_def returned_def)
qed

text \<open>The service of all wheels.\<close>

lemma service_keeps:
  assumes st: "sits sfs m x v ap s f es" and od: "passed sfs m v ap" and m: "0 < m" and bound: "m + 1024 < 2 ^ 32"
  shows "\<exists>k s' f' es'. tm_process_tick_and_update_timers sfs s = Inr (k, s') \<and> sits sfs m x v ap s' f' es'"
proof -
  note go = process_keeps [OF _ od _ _ bound]
  have nxt: "IS_NXT_SEC_HAPPEND sfs s \<longleftrightarrow> unit_of sfs 1 dvd m"
    "unit_of sfs 1 dvd m \<Longrightarrow> IS_NXT_MIN_HAPPEND s \<longleftrightarrow> unit_of sfs 2 dvd m"
    "unit_of sfs 2 dvd m \<Longrightarrow> IS_NXT_HR_HAPPEND s \<longleftrightarrow> unit_of sfs 3 dvd m" if "sits sfs m x v ap s f es" for s :: "'a timers_scheme" and f es
    using nxt_happend [OF _ m, of sfs s] tmr_invD(3) [of sfs m s f es] that by (simp_all add: sits_def)
  have d: "unit_of sfs 0 dvd m" "unit_of sfs 2 dvd m \<Longrightarrow> unit_of sfs 1 dvd m" "unit_of sfs 3 dvd m \<Longrightarrow> unit_of sfs 2 dvd m"
    using unit_dvd [of 1 2 sfs] unit_dvd [of 2 3 sfs] dvd_trans by (auto simp: unit_simps)
  obtain k0 s0 f0 e0 where p0: "process_timers 0 (clk s 0) s = Inr (k0, s0)" "sits sfs m x v ap s0 f0 e0"
    using go [OF st wheel_lt(1) d(1)] by blast
  show ?thesis
  proof (cases "unit_of sfs 1 dvd m")
    case False
    then show ?thesis using p0 nxt(1) [OF p0(2)] by (auto simp: tm_process_tick_and_update_timers_def)
  next
    case u1: True
    obtain k1 s1 f1 e1 where p1: "process_timers 1 (clk s0 1) s0 = Inr (k1, s1)" "sits sfs m x v ap s1 f1 e1"
      using go [OF p0(2) wheel_lt(2) u1] by blast
    show ?thesis
    proof (cases "unit_of sfs 2 dvd m")
      case False
      then show ?thesis using p0 p1 nxt(1) [OF p0(2)] nxt(2) [OF p1(2)] u1 by (auto simp: tm_process_tick_and_update_timers_def)
    next
      case u2: True
      obtain k2 s2 f2 e2 where p2: "process_timers 2 (clk s1 2) s1 = Inr (k2, s2)" "sits sfs m x v ap s2 f2 e2"
        using go [OF p1(2) wheel_lt(3) u2] by blast
      show ?thesis
      proof (cases "unit_of sfs 3 dvd m")
        case False
        then show ?thesis using p0 p1 p2 nxt(1) [OF p0(2)] nxt(2) [OF p1(2)] nxt(3) [OF p2(2)] u1 u2
          by (auto simp: tm_process_tick_and_update_timers_def)
      next
        case u3: True
        obtain k3 s3 f3 e3 where p3: "process_timers 3 (clk s2 3) s2 = Inr (k3, s3)" "sits sfs m x v ap s3 f3 e3"
          using go [OF p2(2) wheel_lt(4) u3] by blast
        then show ?thesis using p0 p1 p2 nxt(1) [OF p0(2)] nxt(2) [OF p1(2)] nxt(3) [OF p2(2)] u1 u2 u3
          by (auto simp: tm_process_tick_and_update_timers_def)
      qed
    qed
  qed
qed

text \<open>The clock moves on.\<close>

lemma clock_keeps:
  assumes "sits True n x v ap s f es" and "Suc n < 2 ^ 32"
  defines "s0 \<equiv> s\<lparr>clk := tick_clk True (clk s)\<rparr>"
  shows "\<exists>b. update_times True s = Inr (b, s0)" and "sits True (Suc n) x v ap s0 f es"
  using assms tick_inv(1) [of True n s f es] pending_total [OF tick_inv(1), of True n s f es]
  by (auto simp: sits_def s0_def update_times_def service_timers_def Let_def)

lemma ticks_keep:
  assumes "sits True n x v ap s f es" and "passed True n v ap" and "n + k + 1024 < 2 ^ 32"
  shows "\<exists>s' f' es'. run_ticks True k s = Inr s' \<and> sits True (n + k) x v ap s' f' es'"
  using assms
proof (induction k arbitrary: n s f es)
  case (Suc k)
  let ?s = "s\<lparr>clk := tick_clk True (clk s)\<rparr>"
  have b: "Suc n < 2 ^ 32" "Suc n + 1024 < 2 ^ 32" using Suc.prems(3) by simp_all
  note clock = clock_keeps [OF Suc.prems(1) b(1)]
  have od: "passed True (Suc n) v ap" using Suc.prems(2) by (auto simp: passed_def)
  obtain b where b': "update_times True s = Inr (b, ?s)" using clock(1) by blast
  obtain s1 f1 es1 where "run_tick True s = Inr s1" "sits True (Suc n) x v ap s1 f1 es1"
    using service_keeps [OF clock(2) od _ b(2)] clock(2) b' by (cases b) (auto simp: run_tick_def)
  then show ?case using Suc.IH [OF _ od, of s1 f1 es1] Suc.prems(3) by simp
qed auto

text \<open>
  C39: a timer is lost when the soft interrupt of its tick is served only after the next tick.  A timer that
  is due at tick \<open>n + 1\<close> is not found by the service when two ticks have passed before it, whatever other
  timers run; the clock and the services that follow each further tick, for as many ticks as the 32 bits of the
  tick counter allow, find the timers whose time comes and leave this one in its tree: it is not
  put on the list of expired timers, and its deadline lies further and further back.
\<close>

theorem late_service_loses_timers:
  assumes ok: "timers_ok True n s f es" and due: "(x, Suc n) \<in> pending True s f" and bound: "n + 2 + k + 1024 < 2 ^ 32"
  shows "\<exists>b1 s1 b2 s2 c s3 s4 f' es'. update_times True s = Inr (b1, s1) \<and> update_times True s1 = Inr (b2, s2) \<and>
     tm_process_tick_and_update_timers True s2 = Inr (c, s3) \<and> run_ticks True k s3 = Inr s4 \<and>
     tmr_inv True (n + 2 + k) s4 f' es' \<and> (x, Suc n) \<in> pending True s4 f' \<and> x \<notin> set es'"
proof -
  obtain v where v: "v < TIMER_WHEEL" "x \<in> set (f v)" using due by (auto simp: pending_def)
  note inv = timers_okD(1) [OF ok]
  have dl: "deadline True s v x = Suc n" using due unfolding pending_at [OF tmr_invD(1) [OF inv] v] by simp
  let ?ap = "tapps s x"
  have od: "passed True (Suc (Suc n)) v ?ap" using dl v(1) by (simp add: passed_def deadline_def key_def)
  have b: "Suc n < 2 ^ 32" "Suc (Suc n) < 2 ^ 32" "Suc (Suc n) + 1024 < 2 ^ 32" "Suc (Suc n) + k + 1024 < 2 ^ 32"
    using bound by simp_all
  have 0: "sits True n x v ?ap s f es" using inv v(2) by (simp add: sits_def)
  note t1 = clock_keeps [OF 0 b(1)]
  note t2 = clock_keeps [OF t1(2) b(2)]
  let ?s1 = "s\<lparr>clk := tick_clk True (clk s)\<rparr>"
  let ?s2 = "?s1\<lparr>clk := tick_clk True (clk ?s1)\<rparr>"
  obtain c s3 f3 e3 where t3: "tm_process_tick_and_update_timers True ?s2 = Inr (c, s3)" "sits True (Suc (Suc n)) x v ?ap s3 f3 e3"
    using service_keeps [OF t2(2) od _ b(3)] by blast
  obtain s4 f' es' where t4: "run_ticks True k s3 = Inr s4" "sits True (Suc (Suc n) + k) x v ?ap s4 f' es'"
    using ticks_keep [OF t3(2) od b(4)] by blast
  then have inv4: "tmr_inv True (n + 2 + k) s4 f' es'" and x4: "x \<in> set (f' v)" "tapps s4 x = tapps s x" by (simp_all add: sits_def)
  have "deadline True s4 v x = Suc n" using dl x4(2) by (simp add: deadline_def key_def)
  then have "(x, Suc n) \<in> pending True s4 f'" unfolding pending_at [OF tmr_invD(1) [OF inv4] v(1) x4(1)] by simp
  moreover have "x \<notin> set es'" using tmr_invD(6) [OF inv4 v(1)] x4(1) by auto
  ultimately show ?thesis using t1(1) t2(1) t3(1) t4(1) inv4 by blast
qed

section \<open>Witness\<close>

text \<open>A timer of one tick and one of fifty; ten thousand ticks later the first one still runs.\<close>

theorem late_service_loses_timers_witness:
  "\<exists>s0 s b1 s1 b2 s2 c s3 s4 f. start_timer True (Some 0) (Some 0) 1 0 None 0 demo_timers = Inr (Some 0, s0) \<and>
     start_timer True (Some 1) (Some 1) 50 0 None 0 s0 = Inr (Some 1, s) \<and>
     update_times True s = Inr (b1, s1) \<and> update_times True s1 = Inr (b2, s2) \<and> tm_process_tick_and_update_timers True s2 = Inr (c, s3) \<and>
     run_ticks True 10000 s3 = Inr s4 \<and> (0, 1) \<in> pending True s4 f"
proof -
  obtain s0 f0 where s0: "start_timer True (Some 0) (Some 0) 1 0 None 0 demo_timers = Inr (Some 0, s0)" "timers_ok True 0 s0 f0 []"
    "pending True s0 f0 = {(0, 1)}" "tcount s0 = 1"
    using start_timer_ok [OF demo_timers_ok, of 0 0 True 1 0 None 0]
    by (auto simp: demo_timers_simps MAX_TIMERS_def started_def horizon_def new_deadline_def granule_def tm_get_ticks_per_second_def no_timers_pending)
  have room: "tcount demo_timers \<le> MAX_TIMERS" "indx demo_timers \<noteq> - 1" by (simp_all add: demo_timers_simps MAX_TIMERS_def)
  note more = start_timer_more [OF s0(1) room]
  have fresh: "tapps s0 1 = None" "ttms s0 1 = None" using more(5) [of 1] more(6) [of 1] by (simp_all add: demo_timers_simps)
  have "indx s0 = 1" using s0(1) arm_counts unfolding start_timer_arms [OF room] by (fastforce simp: andThen_eq_Inr demo_timers_simps)
  then obtain s f where s: "start_timer True (Some 1) (Some 1) 50 0 None 0 s0 = Inr (Some 1, s)" "timers_ok True 0 s f []" "(0, 1) \<in> pending True s f"
    using start_timer_ok [OF s0(2) fresh, of 50 0 None 0] s0(3,4) by (auto simp: MAX_TIMERS_def started_def)
  from late_service_loses_timers [OF s(2), of 0 10000] s(3) s0(1) s(1) show ?thesis by fastforce
qed

end
