(* ===== verification/OsSwitch.thy ===== *)
theory OsSwitch
  imports Kernel
begin

unbundle bit_operations_syntax

text \<open>
  The routines of \<^verbatim>\<open>core/sched.c\<close> that go through all tasks: the table of tasks and the stack
  traces, and the hand-over of all tasks to threads of the operating system and back
  (\<^verbatim>\<open>core/switch_to_os.c\<close>).

  The bodies of the loops do not change the queues, so a routine first collects the tasks it
  goes through.  What is printed and which threads are created or cancelled is the result of the
  definitions; what \<^verbatim>\<open>pthread_create\<close> returns for a task is a parameter.
\<close>

section \<open>Going through the queues\<close>

fun entries :: "laddr list \<Rightarrow> nat list res" where
  "entries [] = Inr []"
| "entries (a # as) = (case list_entry a of None \<Rightarrow> Inl NullDeref
     | Some p \<Rightarrow> andThen (entries as) (\<lambda>ps. Inr (p # ps)))"

definition visit :: "laddr \<Rightarrow> sched \<Rightarrow> nat list res" where
  "visit head s = (case list_for_each head (links s) of None \<Rightarrow> Inl NoReturn | Some as \<Rightarrow> entries as)"

text \<open>The loop over the priorities.\<close>

function visit_rqs :: "nat \<Rightarrow> sched \<Rightarrow> nat list res" where
  "visit_rqs pr s =
     (if pr < MAX_PRIO
      then andThen (if \<not> list_empty (RqHd pr) (links s) then visit (RqHd pr) s else Inr []) (\<lambda>ps.
           andThen (visit_rqs (Suc pr) s) (\<lambda>qs. Inr (ps @ qs)))
      else Inr [])"
  by pat_completeness auto
termination
  by (relation "measure (\<lambda>(pr, s). MAX_PRIO - pr)") auto

declare visit_rqs.simps [simp del]

text \<open>The descriptor is counted up before it is looked at; callers start at \<open>- 1\<close>.\<close>

function io_get_next_non_empty_task_list :: "int \<Rightarrow> sched \<Rightarrow> int \<times> laddr option" where
  "io_get_next_non_empty_task_list fd s =
     (if fd + 1 < int MAX_FDS
      then if \<not> list_empty (IoHd (nat (fd + 1))) (links s) then (fd + 1, Some (IoHd (nat (fd + 1))))
           else io_get_next_non_empty_task_list (fd + 1) s
      else (fd + 1, None))"
  by pat_completeness auto
termination
  by (relation "measure (\<lambda>(fd, s). nat (int MAX_FDS - fd))") auto

declare io_get_next_non_empty_task_list.simps [simp del]

lemma io_next_greater:
  "io_get_next_non_empty_task_list fd s = (fd', Some a) \<Longrightarrow> fd < fd' \<and> fd' < int MAX_FDS"
proof (induction fd s rule: io_get_next_non_empty_task_list.induct)
  case (1 fd s)
  show ?case using 1(2) 1(1) by (subst (asm) (1) io_get_next_non_empty_task_list.simps) (auto split: if_splits)
qed

function visit_io :: "int \<Rightarrow> sched \<Rightarrow> nat list res" where
  "visit_io fd s =
     (case io_get_next_non_empty_task_list fd s of
        (_, None) \<Rightarrow> Inr []
      | (fd', Some head) \<Rightarrow>
          andThen (visit head s) (\<lambda>ps. andThen (visit_io fd' s) (\<lambda>qs. Inr (ps @ qs))))"
  by pat_completeness auto
termination
  by (relation "measure (\<lambda>(fd, s). nat (int MAX_FDS - fd))") (auto dest: io_next_greater [OF sym])

declare visit_io.simps [simp del]

definition visit_ready :: "sched \<Rightarrow> nat list res" where
  "visit_ready s = (if nrp s \<noteq> 0 then visit_rqs 0 s else Inr [])"

section \<open>The table of tasks\<close>

definition int_mod :: "u32 \<Rightarrow> u32 \<Rightarrow> u32" where
  "int_mod a b = word_of_int (sint a smod sint b)"

text \<open>The array of names has six entries; \<^const>\<open>TASK_DEBUG\<close> is the seventh state.\<close>

fun state_name :: "tsk_state \<Rightarrow> string res" where
  "state_name TASK_INIT = Inr ''INIT''"
| "state_name TASK_RUNNING = Inr ''R''"
| "state_name TASK_RUNNABLE = Inr ''R+''"
| "state_name TASK_STOPPED = Inr ''T''"
| "state_name TASK_INTERRUPTIBLE = Inr ''S''"
| "state_name TASK_UNINTERRUPTIBLE = Inr ''S+''"
| "state_name TASK_DEBUG = Inl OutOfBounds"

record task_line =
  tl_name :: string
  tl_tid :: int
  tl_event :: u32
  tl_stack :: int
  tl_state :: string
  tl_prio :: int
  tl_secs :: u32
  tl_msecs :: u32
  tl_switches :: u32
  tl_cpu :: u32

definition print_task_info :: "nat option \<Rightarrow> sched \<Rightarrow> task_line res" where
  "print_task_info q s =
     andThen (task q s) (\<lambda>t.
     andThen (state_name (state t)) (\<lambda>st.
       let rt = trt t + currt t in
       Inr \<lparr>tl_name = taskname t, tl_tid = tid t, tl_event = event t, tl_stack = stksize t, tl_state = st,
            tl_prio = prio t, tl_secs = int_div rt 1000, tl_msecs = int_mod rt 1000, tl_switches = swct t,
            tl_cpu = cpuusage t\<rparr>))"

fun print_all :: "nat option list \<Rightarrow> sched \<Rightarrow> task_line list res" where
  "print_all [] s = Inr []"
| "print_all (q # qs) s = andThen (print_task_info q s) (\<lambda>l. andThen (print_all qs s) (\<lambda>ls. Inr (l # ls)))"

text \<open>The tasks of the table in its order.\<close>

definition table_tasks :: "sched \<Rightarrow> nat option list res" where
  "table_tasks s =
     andThen (visit WqHd s) (\<lambda>ws.
     andThen (visit_ready s) (\<lambda>rs.
     andThen (visit_io (- 1) s) (\<lambda>is.
       Inr (idle s # map Some ws @ filter (\<lambda>q. q \<noteq> current s) (map Some rs) @ map Some is @ [current s]))))"

text \<open>The table, the two counters and the bytes in use; the time and the hit rate are left out.\<close>

definition dump_task_info :: "sched \<Rightarrow> (task_line list \<times> int \<times> int \<times> u32 \<times> u32) res" where
  "dump_task_info s =
     andThen (table_tasks s) (\<lambda>qs.
     andThen (print_all qs s) (\<lambda>ls.
       Inr (ls, nrp s, nwp s, alloc_size s div 1024, alloc_size s mod 1024)))"

text \<open>The lines after the name of a task; the first frame is left out.\<close>

definition print_task_stack_trace :: "nat option \<Rightarrow> sched \<Rightarrow> string list res" where
  "print_task_stack_trace q s =
     andThen (task q s) (\<lambda>t.
       Inr (case stk_trc_sym t of [] \<Rightarrow> [] | _ # syms \<Rightarrow> taskname t # takeWhile (\<lambda>l. l \<noteq> ''[(nil)]'') syms))"

fun trace_all :: "nat option list \<Rightarrow> sched \<Rightarrow> string list res" where
  "trace_all [] s = Inr []"
| "trace_all (q # qs) s = andThen (print_task_stack_trace q s) (\<lambda>l. andThen (trace_all qs s) (\<lambda>ls. Inr (l @ ls)))"

definition stack_trace :: "sched \<Rightarrow> (string list \<times> task_line list \<times> int \<times> int \<times> u32 \<times> u32) res" where
  "stack_trace s =
     andThen (table_tasks s) (\<lambda>qs.
     andThen (trace_all qs s) (\<lambda>ls.
     andThen (dump_task_info s) (\<lambda>d. Inr (ls, d))))"

definition print_task_count :: "sched \<Rightarrow> int \<times> int" where
  "print_task_count s = (nrp s, nwp s)"

definition get_current_task_id :: "sched \<Rightarrow> int res" where
  "get_current_task_id s = andThen (task (current s) s) (\<lambda>t. Inr (tid t))"

definition task_selfid :: "sched \<Rightarrow> int res" where
  "task_selfid s = andThen (task (current s) s) (\<lambda>t. Inr (tid t))"

text \<open>\<^verbatim>\<open>task_debug\<close> of \<^verbatim>\<open>core/debug.c\<close>; \<open>dbg_state\<close> says whether debugging is switched on.\<close>

definition task_debug :: "bool \<Rightarrow> nat option \<Rightarrow> sched \<Rightarrow> sched res" where
  "task_debug dbg_state q s = (if dbg_state then Inr s else set_task_state q TASK_DEBUG s)"

section \<open>Threads of the operating system\<close>

text \<open>
  A thread is created with the stack size and the priority of its task, which is its argument.
  \<open>pc\<close> gives for a task what \<^verbatim>\<open>pthread_create\<close> returns (0 when there is a new thread) and the id
  of the thread, which is stored in \<^verbatim>\<open>p->ptid\<close>; \<open>ptid\<close> is that field of all tasks.  The field is an
  \<^verbatim>\<open>int\<close> that is written as a \<^verbatim>\<open>pthread_t\<close>; the two have the same size here.
\<close>

record os_thread =
  os_arg :: nat
  os_stacksize :: int
  os_priority :: int
  os_id :: int

definition create_os_thread ::
    "(nat \<Rightarrow> int \<times> int) \<Rightarrow> nat option \<Rightarrow> sched \<Rightarrow> (nat \<Rightarrow> int) \<Rightarrow> (int \<times> os_thread option \<times> (nat \<Rightarrow> int)) res" where
  "create_os_thread pc q s ptid =
     andThen (task q s) (\<lambda>t.
       let p = the q; (r, i) = pc p in
       Inr (if r \<noteq> 0 then (- 1, None, ptid)
            else (0, Some \<lparr>os_arg = p, os_stacksize = stksize t, os_priority = prio t, os_id = i\<rparr>, ptid(p := i))))"

text \<open>The calls of \<^verbatim>\<open>switch_to_os_threading\<close>, which does not look at the result.\<close>

fun create_os_threads ::
    "(nat \<Rightarrow> int \<times> int) \<Rightarrow> nat option list \<Rightarrow> sched \<Rightarrow> (nat \<Rightarrow> int) \<Rightarrow> (os_thread list \<times> (nat \<Rightarrow> int)) res" where
  "create_os_threads pc [] s ptid = Inr ([], ptid)"
| "create_os_threads pc (q # qs) s ptid =
     andThen (create_os_thread pc q s ptid) (\<lambda>(_, th, ptid).
     andThen (create_os_threads pc qs s ptid) (\<lambda>(ths, ptid).
       Inr (case th of None \<Rightarrow> ths | Some x \<Rightarrow> x # ths, ptid)))"

definition os_tasks :: "sched \<Rightarrow> nat option list res" where
  "os_tasks s =
     andThen (visit WqHd s) (\<lambda>ws.
     andThen (visit_ready s) (\<lambda>rs.
     andThen (visit_io (- 1) s) (\<lambda>is.
       Inr ((if idle s \<noteq> current s then [idle s] else []) @
            filter (\<lambda>q. q \<noteq> parent s) (map Some ws) @
            filter (\<lambda>q. q \<noteq> current s \<and> q \<noteq> parent s) (map Some (rs @ is)) @ [current s]))))"

text \<open>
  The threads that are created and the fields \<^verbatim>\<open>ptid\<close>.  The caller goes on in the context of the
  parent.  The signals are unblocked where \<^verbatim>\<open>nsetjmp\<close> returns for the second time: in the new thread of
  the running task, if there is one, or in the caller when the running task is the parent itself.
\<close>

definition switch_to_os_threading ::
    "(nat \<Rightarrow> int \<times> int) \<Rightarrow> (nat \<Rightarrow> int) \<Rightarrow> sched \<Rightarrow> (os_thread list \<times> (nat \<Rightarrow> int) \<times> sched) res" where
  "switch_to_os_threading pc ptid s =
     (if os_sched_enabled s then Inr ([], ptid, s)
      else let s = (signals_block SIGIO (signals_block SIGALRM s))\<lparr>os_sched_enabled := True\<rparr> in
        andThen (os_tasks s) (\<lambda>qs.
        andThen (create_os_threads pc qs s ptid) (\<lambda>(ths, ptid).
        andThen (task (parent s) s) (\<lambda>_.
          Inr (ths, ptid,
            if current s \<in> (Some \<circ> os_arg) ` set ths \<or> parent s = current s
            then signals_unblock SIGALRM (signals_unblock SIGIO s) else s)))))"

text \<open>\<^verbatim>\<open>pthread_cancel (p->ptid)\<close> for the tasks of a list: the ids that are cancelled.\<close>

fun cancel_os_threads :: "(nat \<Rightarrow> int) \<Rightarrow> nat option list \<Rightarrow> sched \<Rightarrow> int list res" where
  "cancel_os_threads ptid [] s = Inr []"
| "cancel_os_threads ptid (q # qs) s =
     andThen (task q s) (\<lambda>_. andThen (cancel_os_threads ptid qs s) (\<lambda>is. Inr (ptid (the q) # is)))"

definition set_switch_back :: "sched \<Rightarrow> sched" where
  "set_switch_back s = s\<lparr>switch_bk := True\<rparr>"

text \<open>
  The last loop of \<^verbatim>\<open>switch_back\<close> runs while there is no list: with a list it is left at once,
  without one \<^verbatim>\<open>list_for_each\<close> follows NULL.
\<close>

definition switch_back :: "(nat \<Rightarrow> int) \<Rightarrow> sched \<Rightarrow> (int list \<times> sched) res" where
  "switch_back ptid s =
     (let s = (signals_block SIGIO (signals_block SIGALRM s))\<lparr>os_sched_enabled := False\<rparr> in
      andThen (visit WqHd s) (\<lambda>ws.
      andThen (visit_ready s) (\<lambda>rs.
      andThen (cancel_os_threads ptid (filter (\<lambda>q. q \<noteq> current s) (map Some (ws @ rs))) s) (\<lambda>is.
      andThen (case io_get_next_non_empty_task_list (- 1) s of (_, None) \<Rightarrow> Inl NullDeref | (_, Some _) \<Rightarrow> Inr ()) (\<lambda>_.
      andThen (cancel_os_threads ptid (if idle s \<noteq> current s then [idle s] else []) s) (\<lambda>js.
        Inr (is @ js, signals_unblock SIGIO (signals_unblock SIGALRM s))))))))"

text \<open>A turn of the idle task with its way back from the threads.\<close>

definition idle_task_turn :: "env \<Rightarrow> (nat \<Rightarrow> int) \<Rightarrow> sched \<Rightarrow> sched res" where
  "idle_task_turn e ptid s =
     andThen (idle_turn e s) (\<lambda>s.
       if switch_bk s then andThen (switch_back ptid s) (\<lambda>(_, s). Inr (s\<lparr>switch_bk := False\<rparr>)) else Inr s)"

end
