(* ===== verification/OsProps.thy ===== *)
theory OsProps
  imports OsSwitch
begin

text \<open>
  What the routines that go through all tasks reach: every task, and none twice.
\<close>

section \<open>The tasks of the queues\<close>

definition tasks_at :: "(laddr \<Rightarrow> laddr list) \<Rightarrow> laddr \<Rightarrow> nat list" where
  "tasks_at f a = map (the \<circ> list_entry) (f a)"

lemma entries_ok: "(\<And>x. x \<in> set xs \<Longrightarrow> \<exists>p. x = TskHd p) \<Longrightarrow> entries xs = Inr (map (the \<circ> list_entry) xs)"
proof (induction xs)
  case (Cons x xs)
  then obtain p where "x = TskHd p" by auto
  with Cons show ?case by simp
qed simp

lemma queue_tasks:
  assumes "sched_inv f u s" and "a \<in> queue_heads"
  shows "f a = map TskHd (tasks_at f a)"
proof -
  have "TskHd (the (list_entry x)) = x" if "x \<in> set (f a)" for x
    using sched_invD(2) [OF assms that] by (auto simp: queued_ok_def)
  then show ?thesis by (simp add: tasks_at_def map_idI)
qed

lemma in_queue_tasks: "sched_inv f u s \<Longrightarrow> a \<in> queue_heads \<Longrightarrow> p \<in> set (tasks_at f a) \<longleftrightarrow> TskHd p \<in> set (f a)"
  using queue_tasks [of f u s a] by (metis image_iff laddr.inject(4) list.set_map)

lemma visit_ok:
  assumes inv: "sched_inv f u s" and a: "a \<in> queue_heads"
  shows "visit a s = Inr (tasks_at f a)"
proof -
  have "list_for_each a (links s) = Some (f a)"
    by (rule list_for_each_dlist [OF lists_repD(1) [OF sched_invD(1) [OF inv] a]])
  moreover have "\<exists>p. x = TskHd p" if "x \<in> set (f a)" for x
    using sched_invD(2) [OF inv a that] by (auto simp: queued_ok_def)
  ultimately show ?thesis by (simp add: visit_def entries_ok tasks_at_def)
qed

lemma empty_ok: "sched_inv f u s \<Longrightarrow> a \<in> queue_heads \<Longrightarrow> list_empty a (links s) \<longleftrightarrow> tasks_at f a = []"
  using kl.rep_empty [OF sched_invD(1)] by (simp add: tasks_at_def)

lemma visit_rqs_ok:
  assumes inv: "sched_inv f u s"
  shows "visit_rqs pr s = Inr (concat (map (tasks_at f \<circ> RqHd) [pr..<MAX_PRIO]))"
proof (induction "MAX_PRIO - pr" arbitrary: pr)
  case 0
  then show ?case by (simp add: visit_rqs.simps)
next
  case (Suc k)
  then have pr: "pr < MAX_PRIO" "visit_rqs (Suc pr) s = Inr (concat (map (tasks_at f \<circ> RqHd) [Suc pr..<MAX_PRIO]))" by auto
  have "visit (RqHd pr) s = Inr (tasks_at f (RqHd pr))" "list_empty (RqHd pr) (links s) \<longleftrightarrow> tasks_at f (RqHd pr) = []"
    using visit_ok [OF inv] empty_ok [OF inv] pr(1) by simp_all
  then show ?case using pr by (simp add: visit_rqs.simps [of pr] upt_conv_Cons)
qed

lemma io_next_spec:
  assumes inv: "sched_inv f u s"
  shows "io_get_next_non_empty_task_list fd s = (fd', r) \<Longrightarrow> - 1 \<le> fd \<Longrightarrow> fd < int MAX_FDS \<Longrightarrow> fd < fd' \<and>
     concat (map (tasks_at f \<circ> IoHd) [nat (fd + 1)..<nat fd']) = [] \<and>
     (case r of None \<Rightarrow> fd' = int MAX_FDS | Some a \<Rightarrow> a = IoHd (nat fd') \<and> fd' < int MAX_FDS \<and> tasks_at f a \<noteq> [])"
proof (induction "nat (int MAX_FDS - fd)" arbitrary: fd)
  case 0
  then show ?case by simp
next
  case (Suc k)
  show ?case
  proof (cases "fd + 1 < int MAX_FDS \<and> list_empty (IoHd (nat (fd + 1))) (links s)")
    case False
    have "list_empty (IoHd (nat (fd + 1))) (links s) \<longleftrightarrow> tasks_at f (IoHd (nat (fd + 1))) = []" if "fd + 1 < int MAX_FDS"
      using empty_ok [OF inv] that Suc.prems(2) by (simp add: nat_less_iff)
    then show ?thesis using False Suc.prems by (auto simp: io_get_next_non_empty_task_list.simps [of fd] split: if_splits)
  next
    case True
    have e: "tasks_at f (IoHd (nat (fd + 1))) = []"
      using empty_ok [OF inv, of "IoHd (nat (fd + 1))"] True Suc.prems(2) by (simp add: nat_less_iff)
    have "io_get_next_non_empty_task_list (fd + 1) s = (fd', r)"
      using Suc.prems(1) True by (simp add: io_get_next_non_empty_task_list.simps [of fd])
    then have "fd + 1 < fd' \<and> concat (map (tasks_at f \<circ> IoHd) [nat (fd + 2)..<nat fd']) = [] \<and>
      (case r of None \<Rightarrow> fd' = int MAX_FDS | Some a \<Rightarrow> a = IoHd (nat fd') \<and> fd' < int MAX_FDS \<and> tasks_at f a \<noteq> [])"
      using Suc.hyps(1) [of "fd + 1"] Suc.hyps(2) Suc.prems(2) True by (simp add: add.commute)
    moreover have "[nat (fd + 1)..<nat fd'] = nat (fd + 1) # [nat (fd + 2)..<nat fd']" if "fd + 1 < fd'"
      using that Suc.prems(2) by (subst upt_conv_Cons) (auto simp: nat_add_distrib Suc_nat_eq_nat_zadd1 add.commute)
    ultimately show ?thesis using e by auto
  qed
qed

lemma visit_io_ok:
  assumes inv: "sched_inv f u s" and "- 1 \<le> fd" and "fd < int MAX_FDS"
  shows "visit_io fd s = Inr (concat (map (tasks_at f \<circ> IoHd) [nat (fd + 1)..<MAX_FDS]))"
  using assms(2,3)
proof (induction "nat (int MAX_FDS - fd)" arbitrary: fd rule: less_induct)
  case less
  obtain fd' r where n: "io_get_next_non_empty_task_list fd s = (fd', r)" by force
  note spec = io_next_spec [OF inv n less.prems]
  show ?case
  proof (cases r)
    case None
    then have "nat fd' = MAX_FDS" using spec by simp
    then show ?thesis using None spec n by (simp add: visit_io.simps [of fd])
  next
    case (Some a)
    have a: "fd < fd'" "a = IoHd (nat fd')" "fd' < int MAX_FDS" using spec Some by simp_all
    have "visit a s = Inr (tasks_at f a)" using visit_ok [OF inv, of a] a less.prems by (simp add: nat_less_iff)
    moreover have "visit_io fd' s = Inr (concat (map (tasks_at f \<circ> IoHd) [nat (fd' + 1)..<MAX_FDS]))"
      using less.hyps [of fd'] a less.prems by simp
    moreover have "[nat (fd + 1)..<MAX_FDS] = [nat (fd + 1)..<nat fd'] @ nat fd' # [nat (fd' + 1)..<MAX_FDS]"
    proof -
      have "nat (fd + 1) \<le> nat fd'" "nat fd' < MAX_FDS" "nat (fd' + 1) = Suc (nat fd')" using a less.prems by simp_all
      then show ?thesis using upt_add_eq_append [of "nat (fd + 1)" "nat fd'" "MAX_FDS - nat fd'"] upt_conv_Cons by simp
    qed
    ultimately show ?thesis using Some spec n a(2) by (simp add: visit_io.simps [of fd])
  qed
qed

lemma visit_ready_ok:
  assumes inv: "sched_inv f u s"
  shows "visit_ready s = Inr (concat (map (tasks_at f \<circ> RqHd) [0..<MAX_PRIO]))"
proof (cases "nrp s = 0")
  case True
  then have "queue_total rq_heads f = 0" using sched_invD(8) [OF inv] by (simp split: if_splits)
  then have "tasks_at f (RqHd pr) = []" if "pr < MAX_PRIO" for pr
    using that by (auto simp: queue_total_def rq_heads_def tasks_at_def)
  then have "concat (map (tasks_at f \<circ> RqHd) [0..<MAX_PRIO]) = []" by simp
  then show ?thesis using True by (simp only: visit_ready_def if_not_P not_not if_False)
next
  case False
  then show ?thesis using visit_rqs_ok [OF inv, of 0] by (simp add: visit_ready_def)
qed

text \<open>All queues, in the order the routines go through them.\<close>

definition walk_order :: "laddr list" where
  "walk_order = WqHd # map RqHd [0..<MAX_PRIO] @ map IoHd [0..<MAX_FDS]"

lemma walk_order_heads: "set walk_order = queue_heads" "distinct walk_order"
  by (auto simp: walk_order_def queue_heads_def distinct_map inj_on_def)

lemma distinct_tasks:
  assumes inv: "sched_inv f u s" and "set hs \<subseteq> queue_heads" and "distinct hs"
  shows "distinct (concat (map (tasks_at f) hs))"
  using assms(2,3)
proof (induction hs)
  case (Cons a hs)
  have d: "distinct (f a)" using lists_repD(1) [OF sched_invD(1) [OF inv], of a] Cons.prems by (simp add: dlist_def)
  have "f a = map TskHd (tasks_at f a)" using queue_tasks [OF inv] Cons.prems by simp
  with d have "distinct (tasks_at f a)" by (metis distinct_map)
  moreover have "p \<notin> set (tasks_at f b)" if "p \<in> set (tasks_at f a)" "b \<in> set hs" for p b
  proof -
    have "a \<in> queue_heads" "b \<in> queue_heads" "b \<noteq> a" using Cons.prems that(2) by auto
    then show ?thesis
      using lists_repD(3) [OF sched_invD(1) [OF inv], of a b] that(1) in_queue_tasks [OF inv] by blast
  qed
  ultimately show ?case using Cons by auto
qed simp

text \<open>The three parts the routines put together.\<close>

definition waiting :: "(laddr \<Rightarrow> laddr list) \<Rightarrow> nat list" where
  "waiting f = tasks_at f WqHd"

definition ready :: "(laddr \<Rightarrow> laddr list) \<Rightarrow> nat list" where
  "ready f = concat (map (tasks_at f \<circ> RqHd) [0..<MAX_PRIO])"

definition on_fds :: "(laddr \<Rightarrow> laddr list) \<Rightarrow> nat list" where
  "on_fds f = concat (map (tasks_at f \<circ> IoHd) [0..<MAX_FDS])"

lemma walk_parts: "concat (map (tasks_at f) walk_order) = waiting f @ ready f @ on_fds f"
  by (simp add: walk_order_def waiting_def ready_def on_fds_def)

lemma visits:
  assumes inv: "sched_inv f u s"
  shows "visit WqHd s = Inr (waiting f)" and "visit_ready s = Inr (ready f)" and "visit_io (- 1) s = Inr (on_fds f)"
  using visit_ok [OF inv, of WqHd] visit_ready_ok [OF inv] visit_io_ok [OF inv, of "- 1"]
  by (simp_all add: waiting_def ready_def on_fds_def MAX_FDS_def)

lemma parts_distinct: "sched_inv f u s \<Longrightarrow> distinct (waiting f @ ready f @ on_fds f)"
  unfolding walk_parts [symmetric] by (rule distinct_tasks) (simp_all add: walk_order_heads)

lemma parts_set:
  assumes inv: "sched_inv f u s"
  shows "set (waiting f @ ready f @ on_fds f) = {p. tsks s p \<noteq> None \<and> idle s \<noteq> Some p \<and> u \<noteq> Some p}"
proof -
  have "p \<in> set (waiting f @ ready f @ on_fds f) \<longleftrightarrow> (\<exists>a\<in>queue_heads. TskHd p \<in> set (f a))" for p
    unfolding walk_parts [symmetric] using in_queue_tasks [OF inv] walk_order_heads(1) by auto
  moreover have "(\<exists>a\<in>queue_heads. TskHd p \<in> set (f a)) \<longleftrightarrow> tsks s p \<noteq> None \<and> idle s \<noteq> Some p \<and> u \<noteq> Some p" for p
  proof
    assume "\<exists>a\<in>queue_heads. TskHd p \<in> set (f a)"
    then obtain a where a: "a \<in> queue_heads" "TskHd p \<in> set (f a)" by blast
    then have "u \<noteq> Some p" using sched_invD(3) [OF inv] by (auto simp: offq_ok_def)
    moreover have "tsks s p \<noteq> None" "idle s \<noteq> Some p" using sched_inv_located [OF inv a] by blast+
    ultimately show "tsks s p \<noteq> None \<and> idle s \<noteq> Some p \<and> u \<noteq> Some p" by blast
  next
    assume "tsks s p \<noteq> None \<and> idle s \<noteq> Some p \<and> u \<noteq> Some p"
    then show "\<exists>a\<in>queue_heads. TskHd p \<in> set (f a)" using sched_invD(4) [OF inv, of p] by (auto simp: located_def)
  qed
  ultimately show ?thesis by blast
qed

text \<open>A task that is runnable and not off its queue is on a run queue.\<close>

lemma runnable_part:
  assumes inv: "sched_inv f u s" and t: "tsks s p = Some t" "idle s \<noteq> Some p" "onrq t \<noteq> 0"
  shows "p \<notin> set (waiting f @ on_fds f)"
proof -
  have out: "TskHd p \<notin> set (f a)" if "a \<in> queue_heads" "a \<notin> rq_heads" for a
    using sched_inv_located [OF inv that(1)] that(2) t(1,3) by (metis option.inject)
  have "p \<notin> set (tasks_at f WqHd)" "\<And>fd. fd < MAX_FDS \<Longrightarrow> p \<notin> set (tasks_at f (IoHd fd))"
    using in_queue_tasks [OF inv] out by simp_all
  then show ?thesis unfolding waiting_def on_fds_def by auto
qed

section \<open>Properties\<close>

lemma print_all_ok:
  assumes "\<forall>p\<in>set ps. \<exists>t. tsks s p = Some t \<and> state t \<noteq> TASK_DEBUG"
  shows "\<exists>ls. print_all (map Some ps) s = Inr ls \<and> map tl_tid ls = map (\<lambda>p. tid (the (tsks s p))) ps"
  using assms
proof (induction ps)
  case (Cons p ps)
  then obtain t ls where t: "tsks s p = Some t" "state t \<noteq> TASK_DEBUG"
    and ls: "print_all (map Some ps) s = Inr ls" "map tl_tid ls = map (\<lambda>p. tid (the (tsks s p))) ps" by auto
  have "\<exists>st. state_name (state t) = Inr st" using t(2) by (cases "state t") auto
  then obtain l where "print_task_info (Some p) s = Inr l" "tl_tid l = tid t"
    using t(1) by (auto simp: print_task_info_def Let_def)
  then show ?case using ls t(1) by simp
qed simp

lemma table_ok:
  assumes "sched_inv f u s" and "current s = Some c" and "tsks s c = Some t" and "onrq t \<noteq> 0" and "idle s \<noteq> Some c"
  shows "\<exists>ps. table_tasks s = Inr (map Some ps) \<and> distinct ps \<and> set ps = {p. tsks s p \<noteq> None \<and> (u = Some p \<longrightarrow> p = c)}"
proof -
  obtain i where i: "idle s = Some i" "tsks s i \<noteq> None" using sched_invD(6) [OF assms(1)] by auto
  let ?R = "filter (\<lambda>p. p \<noteq> c) (ready f)"
  define ps where "ps = i # waiting f @ ?R @ on_fds f @ [c]"
  have tab: "table_tasks s = Inr (map Some ps)"
    using visits [OF assms(1)] i(1) assms(2) by (simp add: table_tasks_def ps_def filter_map comp_def)
  note out = runnable_part [OF assms(1,3,5,4)] and P = parts_set [OF assms(1)]
  have "i \<notin> set (waiting f @ ready f @ on_fds f)" unfolding P using i(1) by simp
  then have d: "distinct ps" using parts_distinct [OF assms(1)] out i(1) assms(5) by (auto simp: ps_def)
  have "u = Some i \<Longrightarrow> False" using sched_invD(3) [OF assms(1)] i(1) by (auto simp: offq_ok_def)
  then have set: "set ps = {p. tsks s p \<noteq> None \<and> (u = Some p \<longrightarrow> p = c)}"
    using P i assms(3,5) by (auto simp: ps_def)
  with tab d show ?thesis by blast
qed

lemma print_all_debug:
  assumes "\<forall>p\<in>set ps. tsks s p \<noteq> None" and "\<exists>p\<in>set ps. state (the (tsks s p)) = TASK_DEBUG"
  shows "print_all (map Some ps) s = Inl OutOfBounds"
  using assms
proof (induction ps)
  case (Cons p ps)
  then obtain t where t: "tsks s p = Some t" by auto
  show ?case
  proof (cases "state t = TASK_DEBUG")
    case True
    then show ?thesis using t by (simp add: print_task_info_def)
  next
    case False
    then have "\<exists>st. state_name (state t) = Inr st" by (cases "state t") auto
    then show ?thesis using Cons t False by (auto simp: print_task_info_def Let_def)
  qed
qed simp

text \<open>
  when the running task is on a run queue or off its queue, the table of tasks lists every
  task exactly once: idle first, then the waiting tasks, the ready ones in the order of their
  priorities, those that wait for descriptors, and the running task.  The only task it can miss
  is the main task that was never queued, while another task runs.  The table is printed without
  a fault when no task is in the state \<^verbatim>\<open>TASK_DEBUG\<close>.
\<close>

theorem dump_lists_every_task_once:
  assumes "sched_inv f u s" and "current s = Some c" and "tsks s c = Some t" and "onrq t \<noteq> 0" and "idle s \<noteq> Some c"
    and "\<And>p t. tsks s p = Some t \<Longrightarrow> state t \<noteq> TASK_DEBUG"
  shows "\<exists>ps ls. table_tasks s = Inr (map Some ps) \<and> distinct ps \<and>
     set ps = {p. tsks s p \<noteq> None \<and> (u = Some p \<longrightarrow> p = c)} \<and>
     dump_task_info s = Inr (ls, nrp s, nwp s, alloc_size s div 1024, alloc_size s mod 1024) \<and>
     map tl_tid ls = map (\<lambda>p. tid (the (tsks s p))) ps"
proof -
  obtain ps where ps: "table_tasks s = Inr (map Some ps)" "distinct ps" "set ps = {p. tsks s p \<noteq> None \<and> (u = Some p \<longrightarrow> p = c)}"
    using table_ok [OF assms(1-5)] by blast
  have "\<forall>p\<in>set ps. \<exists>t. tsks s p = Some t \<and> state t \<noteq> TASK_DEBUG" using ps(3) assms(6) by auto
  from print_all_ok [OF this] obtain ls where "print_all (map Some ps) s = Inr ls"
    "map tl_tid ls = map (\<lambda>p. tid (the (tsks s p))) ps" by blast
  with ps show ?thesis by (intro exI [of _ ps] exI [of _ ls]) (simp add: dump_task_info_def)
qed

text \<open>
  marking the running task with \<^verbatim>\<open>task_debug\<close>, which happens while debugging is switched off, makes the
  table of tasks read past the array of the names of the states.
\<close>

theorem task_debug_breaks_table:
  assumes "sched_inv f u s" and "current s = Some c" and "tsks s c = Some t" and "onrq t \<noteq> 0" and "idle s \<noteq> Some c"
  shows "\<exists>s'. task_debug False (Some c) s = Inr s' \<and> dump_task_info s' = Inl OutOfBounds"
proof -
  let ?t = "t\<lparr>state := TASK_DEBUG\<rparr>"
  let ?s = "s\<lparr>tsks := (tsks s)(c \<mapsto> ?t)\<rparr>"
  have d: "task_debug False (Some c) s = Inr ?s" using assms(3) by (simp add: task_debug_def set_task_state_def modify_def task_def)
  have "sched_inv f u ?s" using sched_inv_tsk_update [OF assms(1,3), of ?t] by simp
  from table_ok [OF this, of c ?t] assms(2,4,5) obtain ps where ps: "table_tasks ?s = Inr (map Some ps)"
    "set ps = {p. tsks ?s p \<noteq> None \<and> (u = Some p \<longrightarrow> p = c)}" by auto
  have "print_all (map Some ps) ?s = Inl OutOfBounds" by (rule print_all_debug) (use ps(2) in auto)
  with d ps(1) show ?thesis by (intro exI [of _ ?s]) (simp add: dump_task_info_def)
qed




lemma cancel_os_threads_ok:
  "\<forall>p\<in>set ps. tsks s p \<noteq> None \<Longrightarrow> cancel_os_threads ptid (map Some ps) s = Inr (map ptid ps)"
  by (induction ps) auto

lemma sched_inv_os [simp]: "sched_inv f u (s\<lparr>os_sched_enabled := b\<rparr>) = sched_inv f u s"
  by (simp add: sched_inv_def queued_ok_def offq_ok_def)

lemma os_state:
  fixes b :: bool
  assumes "sched_inv f u s"
  defines "s0 \<equiv> (signals_block SIGIO (signals_block SIGALRM s))\<lparr>os_sched_enabled := b\<rparr>"
  shows "sched_inv f u s0" and "tsks s0 = tsks s" "idle s0 = idle s" "current s0 = current s" "parent s0 = parent s"
  using assms(1) by (simp add: s0_def) (simp_all add: s0_def signals_block_def set_mask_def)


text \<open>
  the way back from the threads of the operating system fails when no task waits for a
  descriptor: the loop over the descriptors has its condition inverted and follows NULL.
\<close>

theorem switch_back_faults:
  assumes "sched_inv f u s" and "\<And>fd. fd < MAX_FDS \<Longrightarrow> f (IoHd fd) = []"
  shows "switch_back ptid s = Inl NullDeref"
proof -
  let ?s = "(signals_block SIGIO (signals_block SIGALRM s))\<lparr>os_sched_enabled := False\<rparr>"
  note os = os_state [OF assms(1), of False]
  obtain fd r where n: "io_get_next_non_empty_task_list (- 1) ?s = (fd, r)" by force
  have "r = None"
    using io_next_spec [OF os(1) n] assms(2) by (auto simp: tasks_at_def MAX_FDS_def nat_less_iff split: option.splits)
  let ?qs = "filter (\<lambda>p. Some p \<noteq> current s) (waiting f @ ready f)"
  have "cancel_os_threads ptid (map Some ?qs) ?s = Inr (map ptid ?qs)"
    by (rule cancel_os_threads_ok) (use parts_set [OF assms(1)] os(2) in auto)
  moreover have "filter (\<lambda>q. q \<noteq> current ?s) (map Some (waiting f @ ready f)) = map Some ?qs"
    unfolding os(4) by (simp add: filter_map comp_def)
  ultimately show ?thesis
    using \<open>r = None\<close> visits(1,2) [OF os(1)] n unfolding switch_back_def Let_def by simp
qed

section \<open>Witnesses\<close>

text \<open>The state after start-up: main (0) runs, idle is 1, the soft interrupt task is 2.\<close>

theorem dump_lists_every_task_once_witness:
  "\<exists>s ps. demo_boot = Inr (Some 2, s) \<and> table_tasks s = Inr (map Some ps) \<and> distinct ps \<and> set ps = {0, 1, 2}"
proof (rule demo_state)
  fix s assume s: "demo_boot = Inr (Some 2, s)" "sched_inv (boot_queues 2) (Some 0) s" "current s = Some 0" "idle s = Some 1"
    "tsks s = boot_tasks (demo_env 1) (demo_env 2) 0 0 1 2"
  have t: "\<exists>t. tsks s 0 = Some t \<and> onrq t \<noteq> 0" "idle s \<noteq> Some 0" "\<And>p t. tsks s p = Some t \<Longrightarrow> state t \<noteq> TASK_DEBUG"
    and all: "{p. tsks s p \<noteq> None \<and> (Some 0 = Some p \<longrightarrow> p = 0)} = {0, 1, 2}"
    using s(4,5) by (auto simp: boot_tasks_def zero_tsk_def split: if_splits)
  then obtain t where t': "tsks s 0 = Some t" "onrq t \<noteq> 0" by blast
  have nd: "state t \<noteq> TASK_DEBUG" if "tsks s p = Some t" for p t by (rule t(3) [OF that])
  have "\<exists>ps ls. table_tasks s = Inr (map Some ps) \<and> distinct ps \<and> set ps = {p. tsks s p \<noteq> None \<and> (Some 0 = Some p \<longrightarrow> p = 0)} \<and>
     dump_task_info s = Inr (ls, nrp s, nwp s, alloc_size s div 1024, alloc_size s mod 1024) \<and>
     map tl_tid ls = map (\<lambda>p. tid (the (tsks s p))) ps"
    by (rule dump_lists_every_task_once [OF s(2,3) t' t(2)]) (rule nd)
  then show ?thesis using s(1) unfolding all by blast
qed



theorem switch_back_faults_witness:
  "\<exists>s. demo_boot = Inr (Some 2, s) \<and> switch_back (\<lambda>_. 0) s = Inl NullDeref"
proof (rule demo_state)
  fix s assume s: "demo_boot = Inr (Some 2, s)" "sched_inv (boot_queues 2) (Some 0) s"
  have "boot_queues 2 (IoHd fd) = []" for fd by (simp add: boot_queues_def)
  from switch_back_faults [OF s(2) this] s(1) show ?thesis by blast
qed

theorem task_debug_breaks_table_witness:
  "\<exists>s s'. demo_boot = Inr (Some 2, s) \<and> task_debug False (Some 0) s = Inr s' \<and> dump_task_info s' = Inl OutOfBounds"
proof (rule demo_state)
  fix s assume s: "demo_boot = Inr (Some 2, s)" "sched_inv (boot_queues 2) (Some 0) s" "current s = Some 0" "idle s = Some 1"
    "tsks s = boot_tasks (demo_env 1) (demo_env 2) 0 0 1 2"
  have t: "tsks s 0 = Some (the (tsks s 0))" "onrq (the (tsks s 0)) \<noteq> 0" "idle s \<noteq> Some 0"
    using s(4,5) by (simp_all add: boot_tasks_def zero_tsk_def)
  from task_debug_breaks_table [OF s(2,3) t] s(1) show ?thesis by blast
qed

end
