(* ===== verification/IoSetup.thy ===== *)
theory IoSetup
  imports Kernel
begin

unbundle bit_operations_syntax

text \<open>
  How descriptors and signals are set up (\<^verbatim>\<open>core/interrupt.c\<close>, \<^verbatim>\<open>core/iostream.c\<close>), the select
  call, the message queues built with \<^verbatim>\<open>SFS_WANTED\<close> (\<^verbatim>\<open>core/msg_queue.c\<close>), which are those of
  the operating system, and the wrappers of the build without it (\<^verbatim>\<open>core/common.c\<close>).

  The operating system is what the code has told it (\<open>osys\<close>) and what it answers: the results of
  system calls are arguments.
\<close>

section \<open>Signals and descriptors\<close>

datatype sig_fn = Fn_io_interrupt | Fn_tick_tmr_intr | Fn_generic_sig_handler

text \<open>
  The handlers by signal, the status flags, the signal and the owner of a descriptor, the interval
  of the timer in microseconds, the message queues that ask for a signal, and the names of the
  queues that exist.
\<close>

record osys =
  sig_acts :: "int \<Rightarrow> sig_fn option"
  fd_flags :: "int \<Rightarrow> u32"
  fd_sig :: "int \<Rightarrow> int option"
  fd_owned :: "int set"
  itimer :: "int option"
  mq_notified :: "int set"
  mq_names :: "string set"

definition O_NONBLOCK :: u32 where "O_NONBLOCK = 0x800"
definition O_ASYNC :: u32 where "O_ASYNC = 0x2000"

definition os_register_signal_handler :: "int \<Rightarrow> sig_fn \<Rightarrow> osys \<Rightarrow> osys" where
  "os_register_signal_handler signo h os = os\<lparr>sig_acts := (sig_acts os)(signo \<mapsto> h)\<rparr>"

text \<open>
  \<open>setfl\<close> and \<open>setsig\<close> are the results of the two calls of \<^verbatim>\<open>fcntl\<close> that are looked at; the flags
  are negative, \<^term>\<open>None\<close>, for a descriptor that is not open.
\<close>

definition setup_io_interrupt :: "u32 option \<Rightarrow> int \<Rightarrow> int \<Rightarrow> int \<Rightarrow> osys \<Rightarrow> int \<times> osys" where
  "setup_io_interrupt flags setfl setsig fd os =
     (case flags of None \<Rightarrow> (- 1, os)
      | Some fl \<Rightarrow>
          if fd \<ge> 16 then (- 1, os)
          else if setfl < 0 then (- 1, os)
          else let os = os\<lparr>fd_flags := (fd_flags os)(fd := fl OR (O_ASYNC OR O_NONBLOCK))\<rparr> in
            if setsig < 0 then (- 1, os)
            else let os = os\<lparr>fd_sig := (fd_sig os)(fd \<mapsto> SIGIO), fd_owned := insert fd (fd_owned os)\<rparr>
                 in (0, os_register_signal_handler SIGIO Fn_io_interrupt os))"

definition init_tick_timer :: "osys \<Rightarrow> int \<times> osys" where
  "init_tick_timer os = (0, os\<lparr>sig_acts := (sig_acts os)(SIGALRM \<mapsto> Fn_tick_tmr_intr)\<rparr>)"

text \<open>The interval of \<^verbatim>\<open>TICK_TIMER_GRANULARITY\<close> milliseconds.\<close>

definition tick_timer :: "osys \<Rightarrow> int \<times> osys" where
  "tick_timer os = (0, os\<lparr>itimer := Some (20 * 1000)\<rparr>)"

definition setup_interrupt :: "u32 option \<Rightarrow> int \<Rightarrow> int \<Rightarrow> osys \<Rightarrow> osys" where
  "setup_interrupt flags setfl setsig os =
     snd (tick_timer (snd (init_tick_timer (snd (setup_io_interrupt flags setfl setsig 0 os)))))"

text \<open>\<open>sock\<close> is the result of \<^verbatim>\<open>socket\<close>; nobody looks at the one of \<^verbatim>\<open>setup_io_interrupt\<close>.\<close>

definition tm_socket :: "int \<Rightarrow> u32 option \<Rightarrow> int \<Rightarrow> int \<Rightarrow> osys \<Rightarrow> int \<times> osys" where
  "tm_socket sock flags setfl setsig os =
     (if sock = - 1 then (- 1, os) else (sock, snd (setup_io_interrupt flags setfl setsig sock os)))"

definition tm_write :: int where "tm_write = - 1"
definition tm_open :: int where "tm_open = - 1"
definition tm_getline :: int where "tm_getline = - 1"
definition tm_close :: int where "tm_close = - 1"

section \<open>Select\<close>

record timeval =
  tv_sec :: u32
  tv_usec :: u32

text \<open>
  \<open>sel i\<close> is the result of the \<open>i\<close>th call of \<^verbatim>\<open>select\<close>, which waits for one time slice; the sets of
  descriptors are copied before each call and the copies are never given back.  The loop subtracts
  microseconds from the seconds.
\<close>

partial_function (option) select_loop :: "(nat \<Rightarrow> int) \<Rightarrow> u32 \<Rightarrow> nat \<Rightarrow> timeval option \<Rightarrow> (int \<times> timeval option) res option" where
  [code]: "select_loop sel usec i t =
     (if sel i \<le> 0 then
        case t of None \<Rightarrow> Some (Inl NullDeref)
        | Some tv \<Rightarrow>
            (let tv = tv\<lparr>tv_sec := tv_sec tv - usec\<rparr> in
             if tv_sec tv = 0 \<and> tv_usec tv = 0 then Some (Inr (sel i, Some tv)) else select_loop sel usec (Suc i) (Some tv))
      else Some (Inr (sel i, t)))"

definition get_current_task_tslice :: "sched \<Rightarrow> u32 res" where
  "get_current_task_tslice s = andThen (task (current s) s) (\<lambda>t. Inr (tslice t))"

definition tm_select :: "(nat \<Rightarrow> int) \<Rightarrow> timeval option \<Rightarrow> sched \<Rightarrow> (int \<times> timeval option) res" where
  "tm_select sel t s =
     andThen (get_current_task_tslice s) (\<lambda>ts. returned (select_loop sel (ts * 1000) 0 t))"

section \<open>Message queues of the operating system\<close>

text \<open>\<open>r\<close> is the result of \<^verbatim>\<open>mq_notify\<close>.\<close>

definition setup_mq_notify :: "int \<Rightarrow> int \<Rightarrow> osys \<Rightarrow> int \<times> osys" where
  "setup_mq_notify r mqid os = (if r < 0 then (- 1, os) else (0, os\<lparr>mq_notified := insert mqid (mq_notified os)\<rparr>))"

text \<open>\<open>m\<close> is the result of \<^verbatim>\<open>mq_open\<close>, which gets the flags with \<^verbatim>\<open>O_NONBLOCK\<close> and creates the queue.\<close>

definition tm_mq_open :: "int \<Rightarrow> int \<Rightarrow> string \<Rightarrow> osys \<Rightarrow> int \<times> osys" where
  "tm_mq_open m r name os =
     (if m = - 1 then (- 1, os)
      else (m, snd (setup_mq_notify r m (os\<lparr>mq_names := insert name (mq_names os), fd_flags := (fd_flags os)(m := O_NONBLOCK)\<rparr>))))"

definition MAX_MQ_NAME :: nat where "MAX_MQ_NAME = 12"

text \<open>\<^verbatim>\<open>sprintf\<close> writes a slash, the name and a 0 into \<open>MAX_MQ_NAME\<close> characters.\<close>

definition msg_create_Q_sfs :: "int \<Rightarrow> int \<Rightarrow> string \<Rightarrow> osys \<Rightarrow> (int \<times> osys) res" where
  "msg_create_Q_sfs m r name os =
     (if length name + 2 > MAX_MQ_NAME then Inl OutOfBounds
      else let mq_name = CHR ''/'' # name;
               (qid, os) = tm_mq_open m r mq_name (os\<lparr>mq_names := mq_names os - {mq_name}\<rparr>)
           in Inr (if qid = - 1 then (- 1, os) else (qid, os)))"

definition msg_rcv_sfs :: "env \<Rightarrow> int \<Rightarrow> int \<Rightarrow> sched \<Rightarrow> (int io_turn \<times> sched) res" where
  "msg_rcv_sfs e qid rval s = tm_mq_receive_turn e qid rval s"

text \<open>The result of \<^verbatim>\<open>mq_send\<close> only decides whether a message is printed.\<close>

definition msg_send_sfs :: "int \<Rightarrow> int" where "msg_send_sfs r = 0"

section \<open>The wrappers of the other build\<close>

text \<open>\<open>rcv i\<close> is the result of the \<open>i\<close>th call of \<^verbatim>\<open>recvfrom\<close>.\<close>

partial_function (option) tm_recvfrom_loop :: "(nat \<Rightarrow> int) \<Rightarrow> nat \<Rightarrow> int option" where
  [code]: "tm_recvfrom_loop rcv i = (if rcv i > 40 then Some (rcv i) else tm_recvfrom_loop rcv (Suc i))"

definition tm_mq_open_normal :: "int \<Rightarrow> int" where
  "tm_mq_open_normal m = (if m = - 1 then - 1 else m)"

end
