(* ===== verification/IoProps.thy ===== *)
theory IoProps
  imports IoSetup
begin

unbundle bit_operations_syntax

text \<open>
  What the set-up of descriptors achieves, and where waiting for them goes wrong.
\<close>

section \<open>Set-up\<close>

text \<open>
  \<^verbatim>\<open>setup_io_interrupt\<close> succeeds exactly for an open descriptor of the table whose calls succeed,
  and then the descriptor does not block, raises \<^verbatim>\<open>SIGIO\<close>, and the interrupt routine handles that
  signal; a descriptor beyond the table is refused and left as it is.
\<close>

theorem setup_io_interrupt_correct:
  "(fst (setup_io_interrupt flags setfl setsig fd os) = 0 \<longleftrightarrow> flags \<noteq> None \<and> fd < int MAX_FDS \<and> 0 \<le> setfl \<and> 0 \<le> setsig) \<and>
   (fst (setup_io_interrupt flags setfl setsig fd os) = 0 \<longrightarrow>
      (let os' = snd (setup_io_interrupt flags setfl setsig fd os) in
       fd_flags os' fd AND O_NONBLOCK = O_NONBLOCK \<and> fd_flags os' fd AND O_ASYNC = O_ASYNC \<and>
       fd_sig os' fd = Some SIGIO \<and> sig_acts os' SIGIO = Some Fn_io_interrupt)) \<and>
   (int MAX_FDS \<le> fd \<longrightarrow> setup_io_interrupt flags setfl setsig fd os = (- 1, os))"
proof -
  have bits: "(x OR (O_ASYNC OR O_NONBLOCK)) AND O_NONBLOCK = O_NONBLOCK" "(x OR (O_ASYNC OR O_NONBLOCK)) AND O_ASYNC = O_ASYNC" for x :: u32
    by (rule bit_word_eqI, auto simp: bit_simps)+
  show ?thesis
    by (auto simp: setup_io_interrupt_def os_register_signal_handler_def MAX_FDS_def Let_def bits split: option.splits)
qed

text \<open>
  a socket whose descriptor is beyond the table is handed to the caller all the same, and the
  first read that has to wait for it leaves the array of wait queues.
\<close>

theorem tm_socket_beyond_table:
  assumes "int MAX_FDS \<le> fd" and "current s = Some c" and "tsks s c = Some t"
  shows "tm_socket fd flags setfl setsig os = (fd, os) \<and> tm_read_turn e fd (- 1) False s = Inl OutOfBounds"
  using assms by (simp add: tm_socket_def setup_io_interrupt_def MAX_FDS_def tm_read_turn_def wait_on_fd_def park_on_fd_def add_task_to_IO_wait_Q_def io_hd_def task_def split: option.splits)

section \<open>Select\<close>

lemma select_waits:
  assumes "\<And>j. j < k \<Longrightarrow> sel (i + j) \<le> 0" and "tv_usec tv \<noteq> 0"
  shows "\<exists>tv'. tv_usec tv' = tv_usec tv \<and> select_loop sel usec i (Some tv) = select_loop sel usec (i + k) (Some tv')"
  using assms
proof (induction k arbitrary: i tv)
  case (Suc k)
  have "sel i \<le> 0" using Suc.prems(1) [of 0] by simp
  then have "select_loop sel usec i (Some tv) = select_loop sel usec (Suc i) (Some (tv\<lparr>tv_sec := tv_sec tv - usec\<rparr>))"
    using Suc.prems(2) by (subst select_loop.simps) (simp add: Let_def)
  moreover have "sel (Suc i + j) \<le> 0" if "j < k" for j using Suc.prems(1) [of "Suc j"] that by simp
  ultimately show ?case using Suc.IH [of "Suc i" "tv\<lparr>tv_sec := tv_sec tv - usec\<rparr>"] Suc.prems(2) by auto
qed auto

lemma select_no_return:
  assumes "select_loop sel usec i t = Some r"
  shows "(\<forall>j. sel j \<le> 0) \<longrightarrow> (\<forall>tv. t = Some tv \<longrightarrow> tv_usec tv = 0)"
proof (rule select_loop.raw_induct [OF _ assms])
  fix f :: "(nat \<Rightarrow> int) \<Rightarrow> u32 \<Rightarrow> nat \<Rightarrow> timeval option \<Rightarrow> (int \<times> timeval option) res option" and sel usec i t y
  assume IH: "\<And>sel usec i t y. f sel usec i t = Some y \<Longrightarrow> (\<forall>j. sel j \<le> 0) \<longrightarrow> (\<forall>tv. t = Some tv \<longrightarrow> tv_usec tv = 0)"
    and step: "(if sel i \<le> 0 then case t of None \<Rightarrow> Some (Inl NullDeref)
        | Some tv \<Rightarrow> (let tv = tv\<lparr>tv_sec := tv_sec tv - usec\<rparr> in
             if tv_sec tv = 0 \<and> tv_usec tv = 0 then Some (Inr (sel i, Some tv)) else f sel usec (Suc i) (Some tv))
      else Some (Inr (sel i, t))) = Some y"
  show "(\<forall>j. sel j \<le> 0) \<longrightarrow> (\<forall>tv. t = Some tv \<longrightarrow> tv_usec tv = 0)"
    using step IH by (fastforce simp: Let_def split: if_splits option.splits)
qed

text \<open>
  the time limit of \<^verbatim>\<open>tm_select\<close> is lost when it has a part of a second: the call then returns with
  the first \<^verbatim>\<open>select\<close> that finds a descriptor, however long that takes, and when none is ever found
  it never returns.
\<close>

theorem tm_select_ignores_limit:
  assumes "current s = Some c" and "tsks s c = Some t" and "tv_usec tv \<noteq> 0"
  shows "((\<forall>i. sel i \<le> 0) \<longrightarrow> tm_select sel (Some tv) s = Inl NoReturn) \<and>
     (\<forall>i. 0 < sel i \<and> (\<forall>j<i. sel j \<le> 0) \<longrightarrow> (\<exists>tv'. tm_select sel (Some tv) s = Inr (sel i, Some tv')))"
proof -
  have ts: "tm_select sel (Some tv) s = returned (select_loop sel (tslice t * 1000) 0 (Some tv))"
    using assms(1,2) by (simp add: tm_select_def get_current_task_tslice_def task_def)
  have "select_loop sel (tslice t * 1000) 0 (Some tv) = None" if "\<forall>i. sel i \<le> 0"
    using select_no_return [of sel "tslice t * 1000" 0 "Some tv"] that assms(3)
    by (cases "select_loop sel (tslice t * 1000) 0 (Some tv)") auto
  moreover have "\<exists>tv'. select_loop sel (tslice t * 1000) 0 (Some tv) = Some (Inr (sel i, Some tv'))"
    if i: "0 < sel i" "\<forall>j<i. sel j \<le> 0" for i
  proof -
    obtain tv' where "select_loop sel (tslice t * 1000) 0 (Some tv) = select_loop sel (tslice t * 1000) i (Some tv')"
      using select_waits [of i sel 0 tv "tslice t * 1000"] i(2) assms(3) by auto
    moreover have "select_loop sel (tslice t * 1000) i (Some tv') = Some (Inr (sel i, Some tv'))"
      using i(1) by (subst select_loop.simps) simp
    ultimately show ?thesis by auto
  qed
  ultimately show ?thesis unfolding ts by (fastforce simp: returned_def)
qed


section \<open>Waiting for data\<close>

text \<open>
  C24: the interrupt for a descriptor is lost when it comes after a read has found nothing and before
  the reader waits: it finds nobody to wake, and the reader then waits although there is data.
\<close>

theorem read_wakeup_lost:
  assumes inv: "sched_inv f u s" and c: "current s = Some c" "tsks s c = Some t" "idle s \<noteq> Some c" and "onrq t \<noteq> 0"
    and fd: "0 \<le> fd" "fd < int MAX_FDS" and "f (IoHd (nat fd)) = []"
  shows "\<exists>s1 s2 f'. io_interrupt now SIGIO (Fd fd) s = Inr s1 \<and> tm_read_turn e fd (- 1) False s1 = andThen (schedule e s2) (\<lambda>s. Inr (Waited, s)) \<and>
     sched_inv f' (if u = Some c then None else u) s2 \<and> f' (IoHd (nat fd)) = [TskHd c] \<and> onrq (the (tsks s2 c)) = 0"
proof -
  define s1 where "s1 = signals_unblock SIGIO (signals_block SIGIO s)"
  have inv1: "sched_inv f u s1" "current s1 = Some c" "tsks s1 c = Some t" "idle s1 \<noteq> Some c"
    using inv c by (simp_all add: s1_def) (simp_all add: signals_block_def signals_unblock_def set_mask_def)
  have "dlist (links s) (IoHd (nat fd)) (f (IoHd (nat fd)))"
    using sched_invD(1) [OF inv] fd by (auto simp: lists_rep_def nat_less_iff)
  then have "list_empty (IoHd (nat fd)) (links (signals_block SIGIO s))"
    using assms(8) by (simp add: list_empty_dlist signals_block_def set_mask_def SIGIO_def SIGALRM_def)
  then have "io_interrupt now SIGIO (Fd fd) s = Inr s1" using fd by (simp add: io_interrupt_def wake_io_task_def s1_def)
  moreover obtain s2 where s2: "park_on_fd fd s1 = Inr s2" "sched_inv (enq_tail c (IoHd (nat fd)) f) (if u = Some c then None else u) s2"
    "tsks s2 = (tsks s1)(c \<mapsto> t\<lparr>onrq := 0\<rparr>)" using park_on_fd_inv [OF inv1 assms(5) fd] by blast
  moreover have "enq_tail c (IoHd (nat fd)) f (IoHd (nat fd)) = [TskHd c]" using assms(8) by (simp add: enq_tail_def unqueue_def)
  ultimately show ?thesis
    by (intro exI [of _ s1] exI [of _ s2] exI [of _ "enq_tail c (IoHd (nat fd)) f"]) (simp add: tm_read_turn_def wait_on_fd_def)
qed

lemma recvfrom_first:
  assumes "40 < rcv (i + k)" and "\<And>j. j < k \<Longrightarrow> rcv (i + j) \<le> 40"
  shows "tm_recvfrom_loop rcv i = Some (rcv (i + k))"
  using assms
proof (induction k arbitrary: i)
  case 0
  then show ?case by (subst tm_recvfrom_loop.simps) simp
next
  case (Suc k)
  have "rcv i \<le> 40" using Suc.prems(2) [of 0] by simp
  moreover have "rcv (Suc i + j) \<le> 40" if "j < k" for j using Suc.prems(2) [of "Suc j"] that by simp
  ultimately show ?case using Suc.IH [of "Suc i"] Suc.prems(1) by (subst tm_recvfrom_loop.simps) simp
qed

lemma recvfrom_none: "tm_recvfrom_loop rcv i = Some r \<Longrightarrow> \<exists>j. 40 < rcv j"
  by (rule tm_recvfrom_loop.raw_induct [where P = "\<lambda>rcv i r. \<exists>j. 40 < rcv j"]) (auto split: if_splits)

text \<open>
  without \<^verbatim>\<open>SFS_WANTED\<close>, \<^verbatim>\<open>tm_recvfrom\<close> returns the first packet of more than 40 bytes; shorter ones
  are thrown away, an error is tried again, and when no such packet comes it never returns.
\<close>

theorem tm_recvfrom_long_packets:
  "((\<forall>i. rcv i \<le> 40) \<longrightarrow> tm_recvfrom_loop rcv 0 = None) \<and>
   (\<forall>i. 40 < rcv i \<and> (\<forall>j<i. rcv j \<le> 40) \<longrightarrow> tm_recvfrom_loop rcv 0 = Some (rcv i))"
proof -
  have "tm_recvfrom_loop rcv 0 = None" if "\<forall>i. rcv i \<le> 40"
    using recvfrom_none [of rcv 0] that by (cases "tm_recvfrom_loop rcv 0") (simp, meson not_le)
  moreover have "tm_recvfrom_loop rcv 0 = Some (rcv i)" if "40 < rcv i" "\<forall>j<i. rcv j \<le> 40" for i
    using recvfrom_first [of rcv 0 i] that by simp
  ultimately show ?thesis by blast
qed

section \<open>Witnesses\<close>

definition demo_os :: osys where
  "demo_os = \<lparr>sig_acts = (\<lambda>_. None), fd_flags = (\<lambda>_. 0), fd_sig = (\<lambda>_. None), fd_owned = {}, itimer = None, mq_notified = {}, mq_names = {}\<rparr>"

theorem setup_io_interrupt_correct_witness:
  "sig_acts (snd (setup_io_interrupt (Some 2) 0 0 5 demo_os)) SIGIO = Some Fn_io_interrupt \<and>
   setup_io_interrupt (Some 2) 0 0 16 demo_os = (- 1, demo_os)"
  using setup_io_interrupt_correct [of "Some 2" 0 0 5 demo_os] setup_io_interrupt_correct [of "Some 2" 0 0 16 demo_os]
  by (simp add: MAX_FDS_def Let_def)

lemma demo_current:
  obtains s t where "sched_inv (boot_queues 2) (Some 0) s" and "demo_boot = Inr (Some 2, s)" and "current s = Some 0" and "tsks s 0 = Some t" and "idle s \<noteq> Some 0"
    and "onrq t \<noteq> 0"
proof (rule demo_state)
  fix s assume s: "sched_inv (boot_queues 2) (Some 0) s" "demo_boot = Inr (Some 2, s)" "current s = Some 0" "idle s = Some 1"
    "tsks s = boot_tasks (demo_env 1) (demo_env 2) 0 0 1 2"
  then show thesis using that [of s "the (tsks s 0)"] by (simp add: boot_tasks_def zero_tsk_def)
qed

theorem tm_socket_beyond_table_witness:
  "\<exists>s. demo_boot = Inr (Some 2, s) \<and> tm_socket 16 (Some 2) 0 0 demo_os = (16, demo_os) \<and>
     tm_read_turn \<lparr>t_stats = 0, t_switch = 0, bt_syms = [], sig_hdl = (\<lambda>_ _ s. Inr s)\<rparr> 16 (- 1) False s = Inl OutOfBounds"
proof (rule demo_current)
  fix s t assume s: "demo_boot = Inr (Some 2, s)" "current s = Some 0" "tsks s 0 = Some t"
  have "int MAX_FDS \<le> 16" by (simp add: MAX_FDS_def)
  from tm_socket_beyond_table [OF this s(2,3)] s(1) show ?thesis by blast
qed

theorem tm_select_ignores_limit_witness:
  "\<exists>s. demo_boot = Inr (Some 2, s) \<and> tm_select (\<lambda>_. 0) (Some \<lparr>tv_sec = 1, tv_usec = 500000\<rparr>) s = Inl NoReturn \<and>
     (\<exists>tv. tm_select (\<lambda>i. if i = 7 then 1 else 0) (Some \<lparr>tv_sec = 0, tv_usec = 1\<rparr>) s = Inr (1, Some tv))"
proof (rule demo_current)
  fix s t assume s: "demo_boot = Inr (Some 2, s)" "current s = Some 0" "tsks s 0 = Some t"
  have "tm_select (\<lambda>_. 0) (Some \<lparr>tv_sec = 1, tv_usec = 500000\<rparr>) s = Inl NoReturn"
    using tm_select_ignores_limit [OF s(2,3), of "\<lparr>tv_sec = 1, tv_usec = 500000\<rparr>" "\<lambda>_. 0"] by simp
  moreover have "\<exists>tv. tm_select (\<lambda>i. if i = 7 then 1 else 0) (Some \<lparr>tv_sec = 0, tv_usec = 1\<rparr>) s = Inr (1, Some tv)"
    using spec [OF conjunct2 [OF tm_select_ignores_limit [OF s(2,3), of "\<lparr>tv_sec = 0, tv_usec = 1\<rparr>" "\<lambda>i. if i = 7 then 1 else 0"]], of 7]
    by simp
  ultimately show ?thesis using s(1) by blast
qed

theorem read_wakeup_lost_witness:
  "\<exists>s s1. demo_boot = Inr (Some 2, s) \<and> io_interrupt 0 SIGIO (Fd 3) s = Inr s1 \<and>
     (\<exists>s2 f. sched_inv f None s2 \<and> f (IoHd 3) = [TskHd 0])"
proof (rule demo_current)
  fix s t assume s: "sched_inv (boot_queues 2) (Some 0) s" "demo_boot = Inr (Some 2, s)" "current s = Some 0" "tsks s 0 = Some t"
    "idle s \<noteq> Some 0" "onrq t \<noteq> 0"
  have f: "boot_queues 2 (IoHd (nat 3)) = []" by (simp add: boot_queues_def)
  have "\<exists>s1 s2 f'. io_interrupt 0 SIGIO (Fd 3) s = Inr s1 \<and> sched_inv f' None s2 \<and> f' (IoHd 3) = [TskHd 0]"
    using read_wakeup_lost [OF s(1,3-6) _ _ f, of 0 \<open>\<lparr>t_stats = 0, t_switch = 0, bt_syms = [], sig_hdl = (\<lambda>_ _ s. Inr s)\<rparr>\<close>]
    by (auto simp: MAX_FDS_def)
  with s(2) show ?thesis by blast
qed

theorem tm_recvfrom_long_packets_witness:
  "tm_recvfrom_loop (\<lambda>_. 40) 0 = None \<and> tm_recvfrom_loop (\<lambda>i. if i = 2 then 60 else - 1) 0 = Some 60"
  using tm_recvfrom_long_packets [of "\<lambda>_. 40"] spec [OF conjunct2 [OF tm_recvfrom_long_packets [of "\<lambda>i. if i = 2 then 60 else - 1"]], of 2]
  by simp

end
