(* ===== verification/RbAugment.thy ===== *)
theory RbAugment
  imports RbWalk
begin

text \<open>
  The augmented trees of \<^verbatim>\<open>cmn/rbtree.c\<close>: every node carries data computed from the data of its
  children, and after a change of the tree a function of the user recomputes it along a path to
  the root.  The function is an argument; it changes the data \<open>d\<close> and not the tree.
\<close>

section \<open>The routines\<close>

partial_function (option) rb_augment_path :: "(nat \<Rightarrow> 'd \<Rightarrow> 'd) \<Rightarrow> nat \<Rightarrow> rbt \<Rightarrow> 'd \<Rightarrow> 'd option" where
  [code]: "rb_augment_path func node s d =
     (let d = func node d in
      case rb_par (nodes s node) of None \<Rightarrow> Some d
      | Some parent \<Rightarrow>
          rb_augment_path func parent s
            (case (rb_left (nodes s parent), rb_right (nodes s parent)) of
               (Some l, Some r) \<Rightarrow> if l = node then func r d else func l d
             | (Some l, None) \<Rightarrow> func l d
             | (None, _) \<Rightarrow> d))"

definition rb_augment_insert :: "(nat \<Rightarrow> 'd \<Rightarrow> 'd) \<Rightarrow> nat \<Rightarrow> rbt \<Rightarrow> 'd \<Rightarrow> 'd option" where
  "rb_augment_insert func node s d =
     (let node = (case rb_left (nodes s node) of Some l \<Rightarrow> l
                  | None \<Rightarrow> (case rb_right (nodes s node) of Some r \<Rightarrow> r | None \<Rightarrow> node))
      in rb_augment_path func node s d)"

text \<open>The deepest node whose data the removal of \<open>node\<close> changes; \<^verbatim>\<open>rb_next\<close> is NULL for no node with a right child.\<close>

definition rb_augment_erase_begin :: "nat \<Rightarrow> rbt \<Rightarrow> nat option res" where
  "rb_augment_erase_begin node s =
     (case (rb_left (nodes s node), rb_right (nodes s node)) of
        (None, None) \<Rightarrow> Inr (rb_par (nodes s node))
      | (Some l, None) \<Rightarrow> Inr (Some l)
      | (None, Some r) \<Rightarrow> Inr (Some r)
      | (Some l, Some r) \<Rightarrow>
          (case rb_next node s of None \<Rightarrow> Inl NoReturn
           | Some None \<Rightarrow> Inl NullDeref
           | Some (Some deepest) \<Rightarrow>
               Inr (case rb_right (nodes s deepest) of Some x \<Rightarrow> Some x
                    | None \<Rightarrow> if rb_par (nodes s deepest) \<noteq> Some node then rb_par (nodes s deepest) else Some deepest)))"

definition rb_augment_erase_end :: "(nat \<Rightarrow> 'd \<Rightarrow> 'd) \<Rightarrow> nat option \<Rightarrow> rbt \<Rightarrow> 'd \<Rightarrow> 'd option" where
  "rb_augment_erase_end func q s d = (case q of None \<Rightarrow> Some d | Some node \<Rightarrow> rb_augment_path func node s d)"

section \<open>Data that fits the tree\<close>

text \<open>A function of the user: the data of a node from the data of its children.\<close>

definition agg :: "(nat \<Rightarrow> 'v option \<Rightarrow> 'v option \<Rightarrow> 'v) \<Rightarrow> rbt \<Rightarrow> nat \<Rightarrow> (nat \<Rightarrow> 'v) \<Rightarrow> (nat \<Rightarrow> 'v)" where
  "agg F s a d = d(a := F a (map_option d (rb_left (nodes s a))) (map_option d (rb_right (nodes s a))))"

definition top_val :: "(nat \<Rightarrow> 'v) \<Rightarrow> tree \<Rightarrow> 'v option" where
  "top_val d t = (case t of Lf \<Rightarrow> None | Nd l a c r \<Rightarrow> Some (d a))"

fun fits :: "(nat \<Rightarrow> 'v option \<Rightarrow> 'v option \<Rightarrow> 'v) \<Rightarrow> (nat \<Rightarrow> 'v) \<Rightarrow> tree \<Rightarrow> bool" where
  "fits F d Lf = True"
| "fits F d (Nd l a c r) = (d a = F a (top_val d l) (top_val d r) \<and> fits F d l \<and> fits F d r)"

text \<open>Everything fits but the data of the root.\<close>

definition fits_below :: "(nat \<Rightarrow> 'v option \<Rightarrow> 'v option \<Rightarrow> 'v) \<Rightarrow> (nat \<Rightarrow> 'v) \<Rightarrow> tree \<Rightarrow> bool" where
  "fits_below F d t = (case t of Lf \<Rightarrow> True | Nd l a c r \<Rightarrow> fits F d l \<and> fits F d r)"

lemma top_val_cong: "(\<And>x. x \<in> set (inord t) \<Longrightarrow> d' x = d x) \<Longrightarrow> top_val d' t = top_val d t"
  by (cases t) (auto simp: top_val_def)

lemma fits_cong: "(\<And>x. x \<in> set (inord t) \<Longrightarrow> d' x = d x) \<Longrightarrow> fits F d' t = fits F d t"
proof (induction t)
  case (Nd l a c r)
  then show ?case using top_val_cong [of l d' d] top_val_cong [of r d' d] by simp
qed simp

lemma fits_below_cong: "(\<And>x. x \<in> set (inord t) \<Longrightarrow> d' x = d x) \<Longrightarrow> fits_below F d' t = fits_below F d t"
  using fits_cong [of _ d' d] by (cases t) (auto simp: fits_below_def)

lemma trep_top_val: "trep h par t q \<Longrightarrow> map_option d q = top_val d t"
  by (cases t) (auto simp: top_val_def)

text \<open>Recomputing the root of a subtree that fits below makes it fit.\<close>

lemma agg_fits:
  assumes "trep (nodes s) par (Nd l a c r) q" and "distinct (inord (Nd l a c r))" and "fits F d l" "fits F d r"
  shows "fits F (agg F s a d) (Nd l a c r)" and "x \<noteq> a \<Longrightarrow> agg F s a d x = d x"
proof -
  let ?d = "agg F s a d"
  have same: "?d x = d x" if "x \<noteq> a" for x using that by (simp add: agg_def)
  then show "x \<noteq> a \<Longrightarrow> ?d x = d x" .
  have "?d a = F a (top_val d l) (top_val d r)"
    using assms(1) trep_top_val [of "nodes s" "Some a" l _ d] trep_top_val [of "nodes s" "Some a" r _ d] by (simp add: agg_def)
  moreover have l: "?d x = d x" if "x \<in> set (inord l)" for x by (rule same) (use that assms(2) in auto)
  moreover have r: "?d x = d x" if "x \<in> set (inord r)" for x by (rule same) (use that assms(2) in auto)
  note top_val_cong [OF l] top_val_cong [OF r] fits_cong [OF l] fits_cong [OF r]
  ultimately show "fits F ?d (Nd l a c r)" using assms(3,4) by simp
qed

lemma agg_idem: "trep (nodes s) par (Nd l a c r) q \<Longrightarrow> fits F d (Nd l a c r) \<Longrightarrow> agg F s a d = d"
  using trep_top_val [of "nodes s" "Some a" l "rb_left (nodes s a)" d] trep_top_val [of "nodes s" "Some a" r "rb_right (nodes s a)" d]
  by (simp add: agg_def fun_upd_idem)

text \<open>
  From the focus upwards: the focus fits below, and beside the path every subtree fits below.
\<close>

lemma augment_path_ok:
  assumes "rep s ctx (Nd l n c r)" and "fits F d l" "fits F d r" and "\<forall>(b, a, k, u)\<in>set ctx. fits_below F d u"
  shows "\<exists>d'. rb_augment_path (agg F s) n s d = Some d' \<and> fits F d' (plug ctx (Nd l n c r)) \<and>
     (\<forall>x. x \<notin> set (inord (plug ctx (Nd l n c r))) \<longrightarrow> d' x = d x)"
  using assms
proof (induction ctx arbitrary: l n c r d)
  case Nil
  have par: "rb_par (nodes s n) = None" using rep_top [OF Nil(1)] by simp
  have t: "trep (nodes s) None (Nd l n c r) (Some n)" "distinct (inord (Nd l n c r))" using Nil(1) by (auto simp: rep_def)
  show ?case using agg_fits [OF t Nil(2,3)] par by (subst rb_augment_path.simps) (simp add: Let_def)
next
  case (Cons st ctx)
  obtain b a k u where st: "st = (b, a, k, u)" by (metis surj_pair)
  obtain par q where cr: "crep (nodes s) (rb_node s) ((b, a, k, u) # ctx) par q" "trep (nodes s) par (Nd l n c r) q"
    and dist: "distinct (inord (Nd l n c r) @ a # inord u @ ctx_nodes ctx)"
    using Cons.prems(1) st by (auto simp: rep_def)
  define d1 where "d1 = agg F s n d"
  have n: "fits F d1 (Nd l n c r)" "\<And>x. x \<noteq> n \<Longrightarrow> d1 x = d x"
    using agg_fits [OF cr(2) _ Cons.prems(2,3)] dist by (auto simp: d1_def)
  have "d1 x = d x" if "x \<in> set (inord u)" for x by (rule n(2)) (use that dist in auto)
  from fits_below_cong [of u d1 d F, OF this] have u1: "fits_below F d1 u" using Cons.prems(4) st by auto
  let ?t = "Nd l n c r"
  note rd = rep_reads [OF Cons.prems(1) [unfolded st]]
  define d2 where "d2 = (case (rb_left (nodes s a), rb_right (nodes s a)) of
     (Some x, Some y) \<Rightarrow> if x = n then agg F s y d1 else agg F s x d1 | (Some x, None) \<Rightarrow> agg F s x d1 | (None, _) \<Rightarrow> d1)"
  have d2: "fits F d2 ?t \<and> fits F d2 u \<and> (\<forall>x. x \<notin> set (inord ?t @ inord u) \<longrightarrow> d2 x = d1 x)"
  proof (cases u)
    case Lf
    then have "d2 = (if b then agg F s n d1 else d1)" using rd(4-7) by (cases b) (auto simp: d2_def rt_of_def split: option.splits)
    moreover have "agg F s n d1 = d1" by (rule agg_idem [OF cr(2) n(1)])
    ultimately show ?thesis using n Lf by simp
  next
    case (Nd ul m cm ur)
    then have d2m: "d2 = agg F s m d1" using rd(4-7) dist by (cases b) (auto simp: d2_def rt_of_def)
    have tu: "trep (nodes s) (Some a) (Nd ul m cm ur) (Some m)" using cr(1) Nd by (auto split: if_splits)
    have du: "distinct (inord (Nd ul m cm ur))" "m \<notin> set (inord ?t)" using dist Nd by auto
    have fu: "fits F d1 ul" "fits F d1 ur" using u1 Nd by (simp_all add: fits_below_def)
    note m = agg_fits [OF tu du(1) fu, folded d2m Nd]
    have "fits F d2 ?t = fits F d1 ?t" by (rule fits_cong, rule m(2)) (use du(2) in auto)
    moreover have "\<forall>x. x \<notin> set (inord ?t @ inord u) \<longrightarrow> d2 x = d1 x" using m(2) Nd by auto
    ultimately show ?thesis using n(1) m(1) by blast
  qed
  have out: "d2 x = d x" if "x \<notin> set (inord ?t @ inord u)" for x using that d2 n(2) by auto
  let ?l = "if b then ?t else u" and ?r = "if b then u else ?t"
  have J: "rep s ctx (Nd ?l a k ?r)" "plug (st # ctx) ?t = plug ctx (Nd ?l a k ?r)" using Cons.prems(1) st by (auto simp: rep_move)
  have "\<forall>(b, a, k, v)\<in>set ctx. fits_below F d2 v"
  proof (clarify)
    fix b' a' k' v assume v: "(b', a', k', v) \<in> set ctx"
    then have "set (inord v) \<subseteq> set (ctx_nodes ctx)" by (induction ctx rule: ctx_nodes.induct) auto
    then have "set (inord v) \<inter> set (inord ?t @ inord u) = {}" using dist by auto
    then have "d2 x = d x" if "x \<in> set (inord v)" for x by (intro out) (use that in blast)
    from fits_below_cong [of v d2 d F, OF this] show "fits_below F d2 v" using Cons.prems(4) v by auto
  qed
  moreover have "fits F d2 ?l" "fits F d2 ?r" using d2 by simp_all
  ultimately obtain d' where d': "rb_augment_path (agg F s) a s d2 = Some d'" "fits F d' (plug ctx (Nd ?l a k ?r))"
    "\<forall>x. x \<notin> set (inord (plug ctx (Nd ?l a k ?r))) \<longrightarrow> d' x = d2 x"
    using Cons.IH [OF J(1), of d2] by blast
  have "rb_augment_path (agg F s) n s d = Some d'"
    using d'(1) [unfolded d2_def d1_def] rd(1) by (subst rb_augment_path.simps) (simp add: Let_def)
  moreover have "d2 x = d x" if "x \<notin> set (inord (plug ctx (Nd ?l a k ?r)))" for x
    by (rule out) (use that in \<open>auto simp: inord_plug split: if_splits\<close>)
  ultimately show ?case using d'(2,3) J(2) by auto
qed


section \<open>Properties\<close>

lemma augment_insert_ok:
  assumes rep: "rep s ctx (Nd l n c r)" and fit: "fits_below F d l" "fits_below F d r" and up: "\<forall>(b, a, k, u)\<in>set ctx. fits_below F d u"
  shows "\<exists>d'. rb_augment_insert (agg F s) n s d = Some d' \<and> fits F d' (plug ctx (Nd l n c r)) \<and>
     (\<forall>x. x \<notin> set (inord (plug ctx (Nd l n c r))) \<longrightarrow> d' x = d x)"
proof (cases l)
  case (Nd ll m cm lr)
  then have "rep s ((True, n, c, r) # ctx) (Nd ll m cm lr)" using rep by (simp add: rep_move)
  moreover have "rb_left (nodes s n) = Some m" using rep_node(3) [OF rep] Nd by simp
  ultimately show ?thesis using augment_path_ok [of s "(True, n, c, r) # ctx" ll m cm lr F d] fit up Nd
    by (simp add: rb_augment_insert_def fits_below_def)
next
  case Lf
  then have l: "rb_left (nodes s n) = None" using rep_node(3) [OF rep] by simp
  show ?thesis
  proof (cases r)
    case (Nd rl m cm rr)
    then have "rep s ((False, n, c, l) # ctx) (Nd rl m cm rr)" using rep by (simp add: rep_move)
    moreover have "rb_right (nodes s n) = Some m" using rep_node(4) [OF rep] Nd by simp
    ultimately show ?thesis using augment_path_ok [of s "(False, n, c, l) # ctx" rl m cm rr F d] fit up Nd l
      by (simp add: rb_augment_insert_def fits_below_def)
  next
    case leaf: Lf
    then have "rb_right (nodes s n) = None" using rep_node(4) [OF rep] by simp
    then show ?thesis using augment_path_ok [OF rep, of F d] up l Lf leaf by (simp add: rb_augment_insert_def)
  qed
qed

lemma trep_links:
  assumes "trep h par t q" and "m \<in> set (inord t)"
  shows "rb_left (h m) = Some x \<Longrightarrow> x \<in> set (inord t)" and "rb_right (h m) = Some x \<Longrightarrow> x \<in> set (inord t)"
    and "rb_par (h m) = par \<or> (\<exists>p\<in>set (inord t). rb_par (h m) = Some p)"
  using assms
proof (induction t arbitrary: par q)
  case (Nd l a c r)
  have child: "y \<in> set (inord u)" if "trep h b u (Some y)" for b u y using that by (cases u) auto
  { case 1
    then show ?case using Nd.IH(1,4) child by auto
  next
    case 2
    then show ?case using Nd.IH(2,5) child by auto
  next
    case 3
    then show ?case using Nd.IH(3,6) by auto }
qed auto

lemma par_of_in:
  assumes "par_of ctx = Some x"
  shows "x \<in> set (before ctx @ after ctx)"
proof (cases ctx)
  case (Cons st ctx')
  obtain d a k u where st: "st = (d, a, k, u)" by (metis surj_pair)
  have "x = a" using assms unfolding Cons st par_of_def by simp
  then show ?thesis unfolding Cons st by (cases d) simp_all
qed (use assms in \<open>simp add: par_of_def\<close>)

text \<open>
  \<^verbatim>\<open>rb_augment_erase_begin\<close> returns without a fault and yields a node that will still be in the tree
  when the node has been removed; NULL exactly when the node is the only one.
\<close>

theorem rb_augment_erase_begin_stays:
  assumes "rep s [] t" and "n \<in> set (inord t)"
  shows "\<exists>q. rb_augment_erase_begin n s = Inr q \<and> (q = None \<longleftrightarrow> inord t = [n]) \<and> (\<forall>x. q = Some x \<longrightarrow> x \<in> set (inord t) - {n})"
proof -
  obtain ctx l c r where t: "t = plug ctx (Nd l n c r)" using focus [OF assms(2)] by blast
  then have rep: "rep s ctx (Nd l n c r)" using assms(1) by (simp add: rep_focus)
  have ord: "inord t = before ctx @ inord l @ n # inord r @ after ctx" using t by (simp add: inord_plug)
  have dist: "n \<notin> set (before ctx @ inord l @ inord r @ after ctx)" using rep_inord [OF rep] by auto
  have only: "inord t = [n] \<longleftrightarrow> before ctx @ inord l @ inord r @ after ctx = []"
  proof
    assume "inord t = [n]"
    then have "length (inord t) = 1" by simp
    then show "before ctx @ inord l @ inord r @ after ctx = []" unfolding ord by simp
  qed (simp add: ord)
  have nodes: "set (inord t) = insert n (set (before ctx @ inord l @ inord r @ after ctx))" unfolding ord by auto
  note nd = rep_node [OF rep]
  have up: "rb_par (nodes s n) = None \<longleftrightarrow> ctx = []" "\<And>x. rb_par (nodes s n) = Some x \<Longrightarrow> x \<in> set (before ctx @ after ctx)"
    using nd(1) par_of_in [of ctx] by (auto simp: par_of_def split: list.splits)
  consider (leaf) "l = Lf" "r = Lf" | (left) a b k d where "l = Nd a b k d" "r = Lf" | (right) a b k d where "l = Lf" "r = Nd a b k d"
    | (both) a b k d a' b' k' d' where "l = Nd a b k d" "r = Nd a' b' k' d'" using tree.exhaust by metis
  then show ?thesis
  proof cases
    case leaf
    have "ctx = [] \<longleftrightarrow> before ctx @ after ctx = []" by (cases ctx rule: ctx_nodes.cases) auto
    then have "rb_par (nodes s n) = None \<longleftrightarrow> inord t = [n]" unfolding only up(1) using leaf by simp
    moreover have "x \<in> set (inord t) - {n}" if "rb_par (nodes s n) = Some x" for x using up(2) [OF that] dist unfolding nodes by auto
    moreover have "rb_augment_erase_begin n s = Inr (rb_par (nodes s n))" using leaf nd(3,4) by (simp add: rb_augment_erase_begin_def)
    ultimately show ?thesis by (intro exI [of _ "rb_par (nodes s n)"]) simp
  next
    case left
    then have "rb_augment_erase_begin n s = Inr (Some b)" using nd(3,4) by (simp add: rb_augment_erase_begin_def)
    then show ?thesis using dist left unfolding only nodes by simp
  next
    case right
    then have "rb_augment_erase_begin n s = Inr (Some b)" using nd(3,4) by (simp add: rb_augment_erase_begin_def)
    then show ?thesis using dist right unfolding only nodes by simp
  next
    case both
    define m where "m = hd (inord r)"
    have "inord r \<noteq> []" using both by simp
    then have m: "rb_next n s = Some (Some m)" "m \<in> set (inord r)" using rb_next_ok [OF rep] by (simp_all add: m_def)
    define q where "q = (case rb_right (nodes s m) of Some x \<Rightarrow> Some x
      | None \<Rightarrow> if rb_par (nodes s m) \<noteq> Some n then rb_par (nodes s m) else Some m)"
    have q: "q \<noteq> None" "\<And>x. q = Some x \<Longrightarrow> x \<in> set (inord r)"
      using trep_links(2,3) [OF nd(4) m(2)] m(2) by (auto simp: q_def split: option.splits if_splits)
    have "rb_left (nodes s n) \<noteq> None" "rb_right (nodes s n) \<noteq> None" using nd(3,4) both by auto
    then have "rb_augment_erase_begin n s = Inr q" using m(1) by (auto simp: rb_augment_erase_begin_def q_def)
    moreover have "x \<in> set (inord t) - {n}" if "q = Some x" for x using q(2) [OF that] dist unfolding nodes by auto
    ultimately show ?thesis using q(1) both only by auto
  qed
qed

text \<open>
  C26: data that every node computes from its children is right again after \<^verbatim>\<open>rb_augment_insert\<close>, when it
  can be wrong only in the node, its children, its ancestors and their other children: the walk to
  the root ends, afterwards every node of the tree has the data its children give, and nothing
  outside the tree has changed.
\<close>

theorem rb_augment_insert_restores:
  assumes "rep s ctx (Nd l n c r)" and "fits_below F d l" and "fits_below F d r" and "\<forall>(b, a, k, u)\<in>set ctx. fits_below F d u"
  shows "\<exists>d'. rb_augment_insert (agg F s) n s d = Some d' \<and> fits F d' (plug ctx (Nd l n c r)) \<and>
     (\<forall>x. x \<notin> set (inord (plug ctx (Nd l n c r))) \<longrightarrow> d' x = d x)"
  using assms by (rule augment_insert_ok)

text \<open>Number of nodes below a node: node 2 of the tree 1, 2 is new, and 1 does not know it yet.\<close>

theorem rb_augment_insert_restores_witness:
  "\<exists>d'. rb_augment_insert (agg (\<lambda>a x y. 1 + (case x of None \<Rightarrow> 0 | Some v \<Rightarrow> v) + (case y of None \<Rightarrow> 0 | Some v \<Rightarrow> v)) demo_rbt) 2 demo_rbt (\<lambda>_. 1 :: nat) = Some d' \<and>
     d' 1 = 2 \<and> d' 2 = 1"
proof -
  let ?F = "\<lambda>(a :: nat) x y. 1 + (case x of None \<Rightarrow> 0 | Some v \<Rightarrow> v) + (case y of None \<Rightarrow> 0 | Some v \<Rightarrow> v) :: nat"
  have r: "rep demo_rbt [(False, 1, True, Lf)] (Nd Lf 2 False Lf)" using demo_rep by (simp add: rep_move demo_tree_def)
  obtain d' where "rb_augment_insert (agg ?F demo_rbt) 2 demo_rbt (\<lambda>_. 1) = Some d'" "fits ?F d' (Nd Lf 1 True (Nd Lf 2 False Lf))"
    using rb_augment_insert_restores [OF r, of ?F "\<lambda>_. 1"] by (auto simp: fits_below_def)
  then show ?thesis by (auto simp: top_val_def)
qed

theorem rb_augment_erase_begin_stays_witness:
  "\<exists>q. rb_augment_erase_begin 1 demo_rbt = Inr q \<and> q \<noteq> None \<and> (\<forall>x. q = Some x \<longrightarrow> x = 2)"
  using rb_augment_erase_begin_stays [OF demo_rep, of 1] by (auto simp: demo_tree_def)

end
