(* ===== verification/TaskLayer.thy ===== *)
theory TaskLayer
  imports ThreadLib
begin

unbundle bit_operations_syntax

text \<open>
  The portability layer of \<^verbatim>\<open>TASK/\<close>: the list of tasks, creation, deletion and events, in the
  variant on POSIX threads (\<^verbatim>\<open>tsk_lnx.c\<close>) and in the one on the library's own tasks
  (\<^verbatim>\<open>tsk_sched.c\<close>).  The results of \<^verbatim>\<open>calloc\<close>, \<^verbatim>\<open>pthread_create\<close>, \<^verbatim>\<open>gettid\<close> and
  \<^verbatim>\<open>times\<close> are arguments.  \<^verbatim>\<open>pthread_create\<close> makes a thread that runs \<open>tsk_wrap\<close> at some
  later time; mutexes and condition variables only make the bodies of \<^verbatim>\<open>evt_rx\<close> and
  \<^verbatim>\<open>evt_snd\<close> atomic.
\<close>

section \<open>Data\<close>

datatype TASK_STATE = TSK_NOT_CREATED | TSK_RUNNING | TSK_SLEEPING | TSK_SUSPENDED

record tmtask =
  tk_name :: string
  tk_id :: u32
  tk_strt_tk :: u32
  tk_attr :: attr
  tk_pid :: u32
  tk_state :: TASK_STATE
  tk_stksze :: int
  tk_prio :: int
  tk_schedalgo :: int
  curr_evt :: u32
  prev_evt :: u32
  start_routine :: nat
  exit_routine :: "nat option"
  tskarg :: nat

datatype tk_addr = TkHd | TkNode nat

text \<open>
  \<open>tk_threads\<close>: the threads that have been created and have not begun yet, with their argument;
  \<open>tk_calls\<close>: the exit routines called, the latest first; \<open>tk_cancelled\<close>: the threads cancelled.
\<close>

record tasks =
  tk_tasks :: "nat \<Rightarrow> tmtask option"
  tk_links :: "tk_addr lheap"
  g_tsks_crtd :: int
  tk_threads :: "(u32 \<times> nat) list"
  tk_calls :: "nat list"
  tk_cancelled :: "u32 list"

definition TK_MAX_TASK_NAME :: nat where "TK_MAX_TASK_NAME = 6"
definition NO_TASK_ID :: u32 where "NO_TASK_ID = 1"
definition MIN_THREAD_STACK_SIZE :: int where "MIN_THREAD_STACK_SIZE = 20000"
definition TSK_SUCCESS :: int where "TSK_SUCCESS = 1"
definition TSK_FAILURE :: int where "TSK_FAILURE = 0"

definition zero_attr :: attr where
  "zero_attr = \<lparr>attr_stksze = 0, attr_prio = 0, attr_schedalgo = 0\<rparr>"

definition zero_tmtask :: tmtask where
  "zero_tmtask = \<lparr>tk_name = [], tk_id = 0, tk_strt_tk = 0, tk_attr = zero_attr, tk_pid = 0, tk_state = TSK_NOT_CREATED,
     tk_stksze = 0, tk_prio = 0, tk_schedalgo = 0, curr_evt = 0, prev_evt = 0, start_routine = 0, exit_routine = None, tskarg = 0\<rparr>"

definition on_task :: "nat option \<Rightarrow> (tmtask \<Rightarrow> tmtask) \<Rightarrow> tasks \<Rightarrow> tasks res" where
  "on_task q g s = andThen (deref (tk_tasks s) q) (\<lambda>t. Inr (s\<lparr>tk_tasks := (tk_tasks s)(the q \<mapsto> g t)\<rparr>))"

section \<open>The list of tasks\<close>

definition tsk_alloc :: "nat option \<Rightarrow> tasks \<Rightarrow> tasks" where
  "tsk_alloc p s = (case p of None \<Rightarrow> s | Some a \<Rightarrow> s\<lparr>tk_tasks := (tk_tasks s)(a \<mapsto> zero_tmtask)\<rparr>)"

definition tsk_dealloc :: "nat option \<Rightarrow> tasks \<Rightarrow> tasks" where
  "tsk_dealloc p s = (case p of None \<Rightarrow> s | Some a \<Rightarrow> s\<lparr>tk_tasks := (tk_tasks s)(a := None)\<rparr>)"

definition tsk_node_add :: "nat \<Rightarrow> tasks \<Rightarrow> tasks" where
  "tsk_node_add p s = s\<lparr>tk_links := list_add (TkNode p) TkHd (tk_links s)\<rparr>"

definition tsk_node_del :: "nat \<Rightarrow> tasks \<Rightarrow> tasks" where
  "tsk_node_del p s = s\<lparr>tk_links := list_del (TkNode p) (tk_links s)\<rparr>"

text \<open>The first task on the list with a property.\<close>

fun search_tsk :: "(tmtask \<Rightarrow> bool) \<Rightarrow> tasks \<Rightarrow> tk_addr list \<Rightarrow> nat option res" where
  "search_tsk P s [] = Inr None"
| "search_tsk P s (TkHd # as) = Inl NullDeref"
| "search_tsk P s (TkNode p # as) =
     (case tk_tasks s p of None \<Rightarrow> Inl UseAfterFree
      | Some t \<Rightarrow> if P t then Inr (Some p) else search_tsk P s as)"

definition find_tsk :: "(tmtask \<Rightarrow> bool) \<Rightarrow> tasks \<Rightarrow> nat option res" where
  "find_tsk P s = (case list_for_each TkHd (tk_links s) of None \<Rightarrow> Inl NoReturn | Some as \<Rightarrow> search_tsk P s as)"

definition get_tsk_info :: "string \<Rightarrow> u32 \<Rightarrow> tasks \<Rightarrow> nat option res" where
  "get_tsk_info tskname tskid s = find_tsk (\<lambda>t. tk_name t = tskname \<and> tk_id t = tskid) s"

definition get_tsk_info_frm_id :: "u32 \<Rightarrow> tasks \<Rightarrow> nat option res" where
  "get_tsk_info_frm_id tskid s = find_tsk (\<lambda>t. tk_id t = tskid) s"

definition tsk_get_tskid :: "string \<Rightarrow> tasks \<Rightarrow> u32 res" where
  "tsk_get_tskid tskname s =
     andThen (find_tsk (\<lambda>t. tk_name t = tskname) s) (\<lambda>q.
     case q of None \<Rightarrow> Inr (- 1) | Some p \<Rightarrow> andThen (deref (tk_tasks s) q) (\<lambda>t. Inr (tk_id t)))"

definition get_tsk_name :: "u32 \<Rightarrow> tasks \<Rightarrow> string res" where
  "get_tsk_name tskid s =
     andThen (find_tsk (\<lambda>t. tk_id t = tskid) s) (\<lambda>q.
     case q of None \<Rightarrow> Inr ''INVALID_TASK_ID'' | Some p \<Rightarrow> andThen (deref (tk_tasks s) q) (\<lambda>t. Inr (tk_name t)))"

definition my_str_len :: "string option \<Rightarrow> int" where
  "my_str_len str = (case str of None \<Rightarrow> 0 | Some x \<Rightarrow> int (length x))"

definition str_len_validate :: "string option \<Rightarrow> int \<Rightarrow> int" where
  "str_len_validate tskname len = (let strln = my_str_len tskname in if strln > 0 \<and> strln \<le> len then 1 else 0)"

section \<open>Creating tasks\<close>

definition validate_tsk_params :: "int \<Rightarrow> int" where
  "validate_tsk_params stk_size = (if stk_size < MIN_THREAD_STACK_SIZE then TSK_FAILURE else TSK_SUCCESS)"

text \<open>
  \<^verbatim>\<open>memcpy\<close> of six characters: a name of less than five characters is read past its end; the
  seventh character of the field is the 0 that \<^verbatim>\<open>calloc\<close> left.
\<close>

definition fill_tsk_info ::
    "string \<Rightarrow> int \<Rightarrow> int \<Rightarrow> int \<Rightarrow> nat \<Rightarrow> nat option \<Rightarrow> nat \<Rightarrow> nat \<Rightarrow> tasks \<Rightarrow> tasks res" where
  "fill_tsk_info tskname tsk_prio sched_alg stk_size start exit_r arg p s =
     (if Suc (length tskname) < TK_MAX_TASK_NAME then Inl OutOfBounds
      else on_task (Some p) (\<lambda>t. t\<lparr>tk_name := take TK_MAX_TASK_NAME tskname, tk_state := TSK_NOT_CREATED, curr_evt := 0,
             prev_evt := 0, tk_prio := tsk_prio, tk_schedalgo := sched_alg, tk_stksze := stk_size, start_routine := start,
             exit_routine := exit_r, tk_id := NO_TASK_ID, tskarg := arg\<rparr>) s)"

text \<open>\<^verbatim>\<open>init_tsk_attr\<close> of both variants: on POSIX threads the priority is not set.\<close>

definition init_tsk_attr :: "bool \<Rightarrow> nat \<Rightarrow> tasks \<Rightarrow> tasks res" where
  "init_tsk_attr sfs p s =
     on_task (Some p) (\<lambda>t. t\<lparr>tk_attr := \<lparr>attr_stksze = tk_stksze t, attr_prio = (if sfs then tk_prio t else attr_prio zero_attr),
                           attr_schedalgo = tk_schedalgo t\<rparr>\<rparr>) s"

definition init_tsk :: "bool \<Rightarrow> nat \<Rightarrow> tasks \<Rightarrow> (int \<times> tasks) res" where
  "init_tsk sfs p s = andThen (init_tsk_attr sfs p s) (\<lambda>s. Inr (TSK_SUCCESS, s))"

text \<open>
  \<^verbatim>\<open>start_task\<close> of \<^verbatim>\<open>tsk_lnx.c\<close>: the thread is created (\<open>thrid\<close> its id), and then its id is
  stored; the new thread may run in between.
\<close>

definition thread_created :: "u32 \<Rightarrow> nat \<Rightarrow> tasks \<Rightarrow> tasks" where
  "thread_created thrid p s = s\<lparr>tk_threads := tk_threads s @ [(thrid, p)]\<rparr>"

definition set_task_id :: "u32 \<Rightarrow> nat \<Rightarrow> tasks \<Rightarrow> tasks res" where
  "set_task_id thrid p s = on_task (Some p) (\<lambda>t. t\<lparr>tk_id := thrid\<rparr>) s"

definition start_task :: "u32 option \<Rightarrow> nat \<Rightarrow> tasks \<Rightarrow> (int \<times> u32 option \<times> tasks) res" where
  "start_task thr p s =
     (case thr of None \<Rightarrow> Inr (TSK_FAILURE, None, s)
      | Some thrid \<Rightarrow> andThen (set_task_id thrid p (thread_created thrid p s)) (\<lambda>s. Inr (TSK_SUCCESS, Some thrid, s)))"

text \<open>The part of \<^verbatim>\<open>task_create\<close> before \<^verbatim>\<open>start_task\<close>: the new task when there is one.\<close>

definition prepare_task ::
    "bool \<Rightarrow> nat option \<Rightarrow> string \<Rightarrow> int \<Rightarrow> int \<Rightarrow> int \<Rightarrow> nat \<Rightarrow> nat option \<Rightarrow> nat \<Rightarrow> tasks \<Rightarrow> (nat option \<times> tasks) res" where
  "prepare_task sfs new tskname tsk_prio sched_alg stk_size start exit_r arg s =
     (if validate_tsk_params stk_size = TSK_FAILURE then Inr (None, s)
      else let s = tsk_alloc new s in
        case new of None \<Rightarrow> Inr (None, s)
        | Some p \<Rightarrow>
            andThen (fill_tsk_info tskname tsk_prio sched_alg stk_size start exit_r arg p s) (\<lambda>s.
            andThen (init_tsk sfs p s) (\<lambda>(_, s). Inr (Some p, s\<lparr>g_tsks_crtd := g_tsks_crtd s + 1\<rparr>))))"

definition task_create ::
    "nat option \<Rightarrow> u32 option \<Rightarrow> string \<Rightarrow> int \<Rightarrow> int \<Rightarrow> int \<Rightarrow> nat \<Rightarrow> nat option \<Rightarrow> nat \<Rightarrow> tasks \<Rightarrow>
     (int \<times> u32 option \<times> tasks) res" where
  "task_create new thr tskname tsk_prio sched_alg stk_size start exit_r arg s =
     andThen (prepare_task False new tskname tsk_prio sched_alg stk_size start exit_r arg s) (\<lambda>(q, s).
     case q of None \<Rightarrow> Inr (TSK_FAILURE, None, s) | Some p \<Rightarrow> start_task thr p s)"

text \<open>\<^verbatim>\<open>task_create\<close> with \<^verbatim>\<open>SFS_WANTED\<close>: a task of the library runs, the description is freed.\<close>

definition start_task_sfs :: "alloc_env \<Rightarrow> nat \<Rightarrow> tasks \<Rightarrow> sched \<Rightarrow> (int \<times> nat option \<times> tasks \<times> sched) res" where
  "start_task_sfs ae p s k =
     andThen (deref (tk_tasks s) (Some p)) (\<lambda>t.
     andThen (spawn_task ae (tk_name t) (tk_attr t) True k) (\<lambda>(q, k).
     case q of None \<Rightarrow> Inr (TSK_FAILURE, None, s, k)
     | Some i \<Rightarrow> Inr (TSK_SUCCESS, Some i, tsk_dealloc (Some p) s, k)))"

definition task_create_sfs ::
    "nat option \<Rightarrow> alloc_env \<Rightarrow> string \<Rightarrow> int \<Rightarrow> int \<Rightarrow> int \<Rightarrow> nat \<Rightarrow> nat option \<Rightarrow> nat \<Rightarrow> tasks \<Rightarrow> sched \<Rightarrow>
     (int \<times> nat option \<times> tasks \<times> sched) res" where
  "task_create_sfs new ae tskname tsk_prio sched_alg stk_size start exit_r arg s k =
     andThen (prepare_task True new tskname tsk_prio sched_alg stk_size start exit_r arg s) (\<lambda>(q, s).
     case q of None \<Rightarrow> Inr (TSK_FAILURE, None, s, k) | Some p \<Rightarrow> start_task_sfs ae p s k)"

text \<open>
  The beginning of a new thread; the result is the routine it goes on with and its argument.
\<close>

definition tsk_wrap :: "u32 \<Rightarrow> u32 \<Rightarrow> nat \<Rightarrow> tasks \<Rightarrow> (nat \<times> nat \<times> tasks) res" where
  "tsk_wrap pid now p s =
     andThen (on_task (Some p) (\<lambda>t. t\<lparr>tk_pid := pid, tk_strt_tk := now, tk_state := TSK_RUNNING\<rparr>) s) (\<lambda>s.
     let s = tsk_node_add p s in
     andThen (deref (tk_tasks s) (Some p)) (\<lambda>t. Inr (start_routine t, tskarg t, s)))"

section \<open>Deleting tasks\<close>

text \<open>\<open>self\<close> is the id of the caller.\<close>

definition task_delete :: "u32 \<Rightarrow> string \<Rightarrow> u32 \<Rightarrow> tasks \<Rightarrow> (int \<times> tasks) res" where
  "task_delete self tskname tskid s =
     andThen (get_tsk_info tskname tskid s) (\<lambda>q.
     if q = None then Inr (TSK_FAILURE, s)
     else andThen (deref (tk_tasks s) q) (\<lambda>t.
       if tk_id t = self then Inr (TSK_FAILURE, s)
       else let s = tsk_node_del (the q) s;
                s = s\<lparr>tk_calls := (case exit_routine t of None \<Rightarrow> tk_calls s | Some r \<Rightarrow> r # tk_calls s),
                      tk_cancelled := tk_id t # tk_cancelled s\<rparr>
            in Inr (TSK_SUCCESS, tsk_dealloc q s)))"

section \<open>Events\<close>

text \<open>
  One turn of the loop of \<^verbatim>\<open>evt_rx\<close>: it returns the events, or waits on the condition variable.
  The result \<^term>\<open>None\<close> is \<^verbatim>\<open>TSK_FAILURE\<close>.
\<close>

definition evt_rx :: "u32 \<Rightarrow> u32 \<Rightarrow> tasks \<Rightarrow> (u32 option call \<times> tasks) res" where
  "evt_rx tskid ev s =
     andThen (get_tsk_info_frm_id tskid s) (\<lambda>q.
     if q = None then Inr (Returned None, s)
     else andThen (deref (tk_tasks s) q) (\<lambda>t.
       if curr_evt t AND ev \<noteq> 0
       then andThen (on_task q (\<lambda>t. t\<lparr>curr_evt := 0\<rparr>) s) (\<lambda>s. Inr (Returned (Some (curr_evt t)), s))
       else Inr (Blocked, s)))"

text \<open>The task is not checked for NULL.\<close>

definition evt_snd :: "u32 \<Rightarrow> u32 \<Rightarrow> tasks \<Rightarrow> tasks res" where
  "evt_snd tskid ev s =
     andThen (get_tsk_info_frm_id tskid s) (\<lambda>q.
     on_task q (\<lambda>t. t\<lparr>prev_evt := curr_evt t, curr_evt := curr_evt t OR ev\<rparr>) s)"

end
