(* ===== verification/TaskProps.thy ===== *)
theory TaskProps
  imports TaskLayer
begin

unbundle bit_operations_syntax

text \<open>
  The list of tasks is well formed, tasks are found by what they are, and events add up until they
  are received.
\<close>

section \<open>The list of tasks\<close>

definition tk_inv :: "tasks \<Rightarrow> nat list \<Rightarrow> bool" where
  "tk_inv s ps \<longleftrightarrow> dlist (tk_links s) TkHd (map TkNode ps) \<and> (\<forall>p\<in>set ps. tk_tasks s p \<noteq> None)"

abbreviation tk_at :: "tasks \<Rightarrow> nat \<Rightarrow> tmtask" where
  "tk_at s p \<equiv> the (tk_tasks s p)"

lemma tk_invD:
  assumes "tk_inv s ps"
  shows "dlist (tk_links s) TkHd (map TkNode ps)" and "distinct ps" and "p \<in> set ps \<Longrightarrow> tk_tasks s p \<noteq> None"
  using assms by (auto simp: tk_inv_def dlist_def distinct_map)

lemma find_tsk_eq:
  assumes "tk_inv s ps"
  shows "find_tsk P s = Inr (find (\<lambda>p. P (tk_at s p)) ps)"
proof -
  have "search_tsk P s (map TkNode qs) = Inr (find (\<lambda>p. P (tk_at s p)) qs)" if "\<forall>p\<in>set qs. tk_tasks s p \<noteq> None" for qs
    using that by (induction qs) auto
  then show ?thesis using list_for_each_dlist [OF tk_invD(1) [OF assms]] tk_invD(3) [OF assms] by (simp add: find_tsk_def)
qed

lemma find_cong_on: "(\<And>x. x \<in> set xs \<Longrightarrow> P x = Q x) \<Longrightarrow> find P xs = find Q xs"
  by (induction xs) auto

lemma on_task_eq [simp]: "tk_tasks s p = Some t \<Longrightarrow> on_task (Some p) g s = Inr (s\<lparr>tk_tasks := (tk_tasks s)(p \<mapsto> g t)\<rparr>)"
  by (simp add: on_task_def)

text \<open>Changing a task that keeps its place on the list.\<close>

lemma tk_inv_upd: "tk_inv s ps \<Longrightarrow> tk_inv (s\<lparr>tk_tasks := (tk_tasks s)(p \<mapsto> t)\<rparr>) ps"
  by (simp add: tk_inv_def)

section \<open>Events\<close>

text \<open>Task \<open>p\<close> is the one its id stands for.\<close>

definition named :: "tasks \<Rightarrow> nat list \<Rightarrow> u32 \<Rightarrow> nat \<Rightarrow> bool" where
  "named s ps i p \<longleftrightarrow> tk_inv s ps \<and> find (\<lambda>p. tk_id (tk_at s p) = i) ps = Some p"

lemma namedD:
  assumes "named s ps i p"
  shows "get_tsk_info_frm_id i s = Inr (Some p)" and "\<exists>t. tk_tasks s p = Some t" and "tk_inv s ps"
proof -
  show "tk_inv s ps" using assms by (simp add: named_def)
  then show "get_tsk_info_frm_id i s = Inr (Some p)"
    using find_tsk_eq [of s ps] assms by (simp add: get_tsk_info_frm_id_def named_def)
  have "p \<in> set ps" using assms by (auto simp: named_def find_Some_iff)
  then show "\<exists>t. tk_tasks s p = Some t" using tk_invD(3) [OF \<open>tk_inv s ps\<close>] by auto
qed

lemma named_upd:
  assumes "named s ps i p" and "tk_tasks s q = Some t" and "tk_id t' = tk_id t"
  shows "named (s\<lparr>tk_tasks := (tk_tasks s)(q \<mapsto> t')\<rparr>) ps i p"
proof -
  have "tk_id (tk_at (s\<lparr>tk_tasks := (tk_tasks s)(q \<mapsto> t')\<rparr>) x) = tk_id (tk_at s x)" for x using assms(2,3) by simp
  then show ?thesis using assms(1) unfolding named_def by (simp add: tk_inv_upd)
qed

lemma evt_snd_ok:
  assumes "named s ps i p"
  shows "\<exists>s' t'. evt_snd i ev s = Inr s' \<and> named s' ps i p \<and> tk_tasks s' p = Some t' \<and> curr_evt t' = curr_evt (tk_at s p) OR ev \<and>
     prev_evt t' = curr_evt (tk_at s p) \<and> (\<forall>q. q \<noteq> p \<longrightarrow> tk_tasks s' q = tk_tasks s q)"
proof -
  obtain t where t: "tk_tasks s p = Some t" using namedD(2) [OF assms] by blast
  then show ?thesis using namedD(1) [OF assms] named_upd [OF assms t, of "t\<lparr>prev_evt := curr_evt t, curr_evt := curr_evt t OR ev\<rparr>"]
    by (simp add: evt_snd_def)
qed

fun snd_all :: "u32 \<Rightarrow> u32 list \<Rightarrow> tasks \<Rightarrow> tasks res" where
  "snd_all i [] s = Inr s"
| "snd_all i (ev # es) s = andThen (evt_snd i ev s) (snd_all i es)"

lemma snd_all_ok:
  assumes "named s ps i p"
  shows "\<exists>s'. snd_all i es s = Inr s' \<and> named s' ps i p \<and> curr_evt (tk_at s' p) = fold (OR) es (curr_evt (tk_at s p)) \<and>
     (\<forall>q. q \<noteq> p \<longrightarrow> tk_tasks s' q = tk_tasks s q)"
  using assms
proof (induction es arbitrary: s)
  case (Cons ev es)
  obtain s1 t1 where s1: "evt_snd i ev s = Inr s1" "named s1 ps i p" "tk_tasks s1 p = Some t1" "curr_evt t1 = curr_evt (tk_at s p) OR ev"
    "\<forall>q. q \<noteq> p \<longrightarrow> tk_tasks s1 q = tk_tasks s q" using evt_snd_ok [OF Cons.prems, of ev] by blast
  then show ?case using Cons.IH [OF s1(2)] by (simp add: or.commute)
qed simp

text \<open>
  C32: events sent to a task add up until they are received: after any number of \<^verbatim>\<open>evt_snd\<close> calls
  a receive whose mask has one of the events returns them all and clears them, so that a second
  receive waits; a receive whose mask has none of them waits and loses nothing.  Other tasks keep
  their events.
\<close>

theorem events_add_up:
  assumes "named s ps i p" and "all = fold (OR) es (curr_evt (tk_at s p))"
  shows "\<exists>s1. snd_all i es s = Inr s1 \<and>
     (all AND msk \<noteq> 0 \<longrightarrow> (\<exists>s2. evt_rx i msk s1 = Inr (Returned (Some all), s2) \<and> evt_rx i msk s2 = Inr (Blocked, s2) \<and>
        (\<forall>q. q \<noteq> p \<longrightarrow> tk_tasks s2 q = tk_tasks s q))) \<and>
     (all AND msk = 0 \<longrightarrow> evt_rx i msk s1 = Inr (Blocked, s1))"
proof -
  obtain s1 where s1: "snd_all i es s = Inr s1" "named s1 ps i p" "curr_evt (tk_at s1 p) = all" "\<forall>q. q \<noteq> p \<longrightarrow> tk_tasks s1 q = tk_tasks s q"
    using snd_all_ok [OF assms(1)] assms(2) by blast
  obtain t where t: "tk_tasks s1 p = Some t" using namedD(2) [OF s1(2)] by blast
  let ?s2 = "s1\<lparr>tk_tasks := (tk_tasks s1)(p \<mapsto> t\<lparr>curr_evt := 0\<rparr>)\<rparr>"
  have n2: "named ?s2 ps i p" by (rule named_upd [OF s1(2) t]) simp
  have "evt_rx i msk s1 = (if all AND msk \<noteq> 0 then Inr (Returned (Some all), ?s2) else Inr (Blocked, s1))"
    using namedD(1) [OF s1(2)] t s1(3) by (simp add: evt_rx_def)
  moreover have "evt_rx i msk ?s2 = Inr (Blocked, ?s2)" using namedD(1) [OF n2] by (simp add: evt_rx_def)
  ultimately show ?thesis using s1(1,4) by auto
qed


section \<open>Creating and deleting\<close>

definition new_task :: "string \<Rightarrow> int \<Rightarrow> int \<Rightarrow> int \<Rightarrow> nat \<Rightarrow> nat option \<Rightarrow> nat \<Rightarrow> tmtask" where
  "new_task name pr alg stk start exit_r arg =
     zero_tmtask\<lparr>tk_name := take TK_MAX_TASK_NAME name, tk_prio := pr, tk_schedalgo := alg, tk_stksze := stk, start_routine := start,
       exit_routine := exit_r, tk_id := NO_TASK_ID, tskarg := arg,
       tk_attr := \<lparr>attr_stksze = stk, attr_prio = 0, attr_schedalgo = alg\<rparr>\<rparr>"

lemma prepare_task_ok:
  assumes "MIN_THREAD_STACK_SIZE \<le> stk" and "5 \<le> length name"
  shows "prepare_task False (Some p) name pr alg stk start exit_r arg s =
     Inr (Some p, s\<lparr>tk_tasks := (tk_tasks s)(p \<mapsto> new_task name pr alg stk start exit_r arg), g_tsks_crtd := g_tsks_crtd s + 1\<rparr>)"
  using assms
  by (simp add: prepare_task_def validate_tsk_params_def TSK_SUCCESS_def TSK_FAILURE_def tsk_alloc_def fill_tsk_info_def
      TK_MAX_TASK_NAME_def init_tsk_def init_tsk_attr_def new_task_def zero_tmtask_def zero_attr_def Let_def)

text \<open>A task that has begun is at the front of the list.\<close>

lemma tsk_wrap_ok:
  assumes inv: "tk_inv s ps" and p: "p \<notin> set ps" "tk_tasks s p = Some t"
    and s': "s' = tsk_node_add p (s\<lparr>tk_tasks := (tk_tasks s)(p \<mapsto> t\<lparr>tk_pid := pid, tk_strt_tk := now, tk_state := TSK_RUNNING\<rparr>)\<rparr>)"
  shows "tsk_wrap pid now p s = Inr (start_routine t, tskarg t, s')" and "tk_inv s' (p # ps)"
proof -
  show "tsk_wrap pid now p s = Inr (start_routine t, tskarg t, s')" using p(2) by (simp add: tsk_wrap_def s' tsk_node_add_def)
  have "dlist (list_add (TkNode p) TkHd (tk_links s)) TkHd (TkNode p # map TkNode ps)"
    by (rule list_add_dlist [OF tk_invD(1) [OF inv]]) (use p(1) in auto)
  then show "tk_inv s' (p # ps)" using inv by (simp add: tk_inv_def s' tsk_node_add_def)
qed

lemma find_tsk_front: "tk_inv s (p # ps) \<Longrightarrow> P (tk_at s p) \<Longrightarrow> find_tsk P s = Inr (Some p)"
  using find_tsk_eq [of s "p # ps" P] by simp

text \<open>
  C33: \<^verbatim>\<open>task_create\<close> with a legal stack size and a name of at least five characters makes a task
  whose thread, once it has begun, is on the list and is found by its id and by the first six
  characters of its name, with the routine and argument it was created with.  The order in which
  the creator stores the id and the thread begins makes no difference to the state after both.
\<close>

theorem task_create_listed:
  assumes "tk_inv s ps" and "p \<notin> set ps" and "MIN_THREAD_STACK_SIZE \<le> stk" and "5 \<le> length name"
  shows "\<exists>s0 s1 s2. prepare_task False (Some p) name pr alg stk start exit_r arg s = Inr (Some p, s0) \<and>
     task_create (Some p) (Some i) name pr alg stk start exit_r arg s = Inr (TSK_SUCCESS, Some i, s1) \<and>
     tsk_wrap pid now p s1 = Inr (start, arg, s2) \<and>
     andThen (tsk_wrap pid now p (thread_created i p s0)) (\<lambda>(_, _, z). set_task_id i p z) = Inr s2 \<and>
     tk_inv s2 (p # ps) \<and> get_tsk_info_frm_id i s2 = Inr (Some p) \<and>
     get_tsk_info (take TK_MAX_TASK_NAME name) i s2 = Inr (Some p)"
proof -
  let ?t = "new_task name pr alg stk start exit_r arg"
  let ?s0 = "s\<lparr>tk_tasks := (tk_tasks s)(p \<mapsto> ?t), g_tsks_crtd := g_tsks_crtd s + 1\<rparr>"
  let ?s1 = "?s0\<lparr>tk_threads := tk_threads s @ [(i, p)], tk_tasks := (tk_tasks s)(p \<mapsto> ?t\<lparr>tk_id := i\<rparr>)\<rparr>"
  note pr = prepare_task_ok [OF assms(3,4), of p pr alg start exit_r arg s]
  have c: "task_create (Some p) (Some i) name pr alg stk start exit_r arg s = Inr (TSK_SUCCESS, Some i, ?s1)"
    by (simp add: task_create_def pr start_task_def set_task_id_def thread_created_def)
  have inv1: "tk_inv ?s1 ps" using assms(1) by (simp add: tk_inv_def)
  note w = tsk_wrap_ok [OF inv1 assms(2) _ refl, where t = "?t\<lparr>tk_id := i\<rparr>" and pid = pid and now = now]
  define s2 where "s2 = tsk_node_add p (?s1\<lparr>tk_tasks := (tk_tasks ?s1)(p \<mapsto> ?t\<lparr>tk_id := i, tk_pid := pid, tk_strt_tk := now, tk_state := TSK_RUNNING\<rparr>)\<rparr>)"
  have w2: "tsk_wrap pid now p ?s1 = Inr (start, arg, s2)" "tk_inv s2 (p # ps)"
    using w by (simp_all add: s2_def new_task_def zero_tmtask_def)
  have race: "andThen (tsk_wrap pid now p (thread_created i p ?s0)) (\<lambda>(_, _, z). set_task_id i p z) = Inr s2"
    by (cases s) (simp add: tsk_wrap_def thread_created_def set_task_id_def s2_def tsk_node_add_def new_task_def zero_tmtask_def)
  have "tk_id (tk_at s2 p) = i" "tk_name (tk_at s2 p) = take TK_MAX_TASK_NAME name"
    by (simp_all add: s2_def tsk_node_add_def new_task_def)
  then show ?thesis using pr c w2 race find_tsk_front [OF w2(2)]
    by (intro exI [of _ ?s0] exI [of _ ?s1] exI [of _ s2]) (simp add: get_tsk_info_frm_id_def get_tsk_info_def)
qed

text \<open>
  C35: a thread that begins before its creator has stored its id cannot be reached: until then it
  is on the list under the id 1, \<^verbatim>\<open>evt_rx\<close> on its own id fails, and \<^verbatim>\<open>evt_snd\<close> to it
  dereferences NULL.
\<close>

theorem task_id_race:
  assumes "tk_inv s ps" and "p \<notin> set ps" and "MIN_THREAD_STACK_SIZE \<le> stk" and "5 \<le> length name"
    and "i \<noteq> NO_TASK_ID" and "\<forall>q\<in>set ps. tk_id (tk_at s q) \<noteq> i"
  shows "\<exists>s0 z. prepare_task False (Some p) name pr alg stk start exit_r arg s = Inr (Some p, s0) \<and>
     tsk_wrap pid now p (thread_created i p s0) = Inr (start, arg, z) \<and>
     evt_rx i ev z = Inr (Returned None, z) \<and> evt_snd i ev z = Inl NullDeref"
proof -
  let ?t = "new_task name pr alg stk start exit_r arg"
  let ?s0 = "s\<lparr>tk_tasks := (tk_tasks s)(p \<mapsto> ?t), g_tsks_crtd := g_tsks_crtd s + 1\<rparr>"
  let ?s1 = "thread_created i p ?s0"
  have inv1: "tk_inv ?s1 ps" using assms(1) by (simp add: tk_inv_def thread_created_def)
  have "tk_tasks ?s1 p = Some ?t" by (simp add: thread_created_def)
  note w = tsk_wrap_ok [OF inv1 assms(2) this refl, where pid = pid and now = now]
  define z where "z = tsk_node_add p (?s1\<lparr>tk_tasks := (tk_tasks ?s1)(p \<mapsto> ?t\<lparr>tk_pid := pid, tk_strt_tk := now, tk_state := TSK_RUNNING\<rparr>)\<rparr>)"
  have "tk_id (tk_at z q) = (if q = p then NO_TASK_ID else tk_id (tk_at s q))" for q
    by (simp add: z_def tsk_node_add_def thread_created_def new_task_def)
  then have "find (\<lambda>q. tk_id (tk_at z q) = i) (p # ps) = None" using assms(5,6) by (auto simp: find_None_iff)
  moreover have "tk_inv z (p # ps)" using w(2) by (simp add: z_def)
  ultimately have "get_tsk_info_frm_id i z = Inr None" using find_tsk_eq [of z "p # ps"] by (simp add: get_tsk_info_frm_id_def)
  moreover have "tsk_wrap pid now p ?s1 = Inr (start, arg, z)" using w(1) by (simp add: z_def new_task_def zero_tmtask_def)
  ultimately show ?thesis using prepare_task_ok [OF assms(3,4), of p pr alg start exit_r arg s]
    by (intro exI [of _ ?s0] exI [of _ z]) (simp add: evt_rx_def evt_snd_def on_task_def)
qed

text \<open>
  \<^verbatim>\<open>task_delete\<close> of another task takes exactly that task off the list, calls its exit
  routine, cancels its thread and frees it; for a name and id that fit no task, and for the caller
  itself, it fails and changes nothing.
\<close>

theorem task_delete_removes:
  assumes "tk_inv s ps"
  shows "case find (\<lambda>p. tk_name (tk_at s p) = name \<and> tk_id (tk_at s p) = i) ps of
       None \<Rightarrow> task_delete self name i s = Inr (TSK_FAILURE, s)
     | Some p \<Rightarrow> if i = self then task_delete self name i s = Inr (TSK_FAILURE, s)
         else \<exists>s'. task_delete self name i s = Inr (TSK_SUCCESS, s') \<and> tk_inv s' (remove1 p ps) \<and>
           tk_tasks s' = (tk_tasks s)(p := None) \<and> tk_cancelled s' = i # tk_cancelled s \<and>
           tk_calls s' = (case exit_routine (tk_at s p) of None \<Rightarrow> [] | Some r \<Rightarrow> [r]) @ tk_calls s"
proof -
  let ?P = "\<lambda>p. tk_name (tk_at s p) = name \<and> tk_id (tk_at s p) = i"
  have g: "get_tsk_info name i s = Inr (find ?P ps)" using find_tsk_eq [OF assms] by (simp add: get_tsk_info_def)
  show ?thesis
  proof (cases "find ?P ps")
    case None
    then show ?thesis using g by (simp add: task_delete_def)
  next
    case (Some p)
    then have p: "p \<in> set ps" "?P p" by (auto simp: find_Some_iff)
    obtain t where t: "tk_tasks s p = Some t" using tk_invD(3) [OF assms p(1)] by auto
    have d: "dlist (list_del (TkNode p) (tk_links s)) TkHd (map TkNode (remove1 p ps))"
    proof -
      have "map TkNode (remove1 p ps) = remove1 (TkNode p) (map TkNode ps)" by (induction ps) auto
      then show ?thesis using list_del_dlist [OF tk_invD(1) [OF assms], of "TkNode p"] p(1) by simp
    qed
    have "\<forall>q\<in>set (remove1 p ps). q \<noteq> p \<and> tk_tasks s q \<noteq> None" using tk_invD(2,3) [OF assms] by auto
    then show ?thesis using g Some p(2) t d
      by (cases "i = self"; cases "exit_routine t") (auto simp: task_delete_def tsk_node_del_def tsk_dealloc_def tk_inv_def)
  qed
qed

text \<open>A list of one task, and a new one.\<close>

definition demo_tasks :: tasks where
  "demo_tasks = \<lparr>tk_tasks = [7 \<mapsto> zero_tmtask\<lparr>tk_name := ''TMRBHF'', tk_id := 70, exit_routine := Some 3\<rparr>],
     tk_links = list_add (TkNode 7) TkHd (INIT_LIST_HEAD TkHd \<lparr>lnext = id, lprev = id\<rparr>), g_tsks_crtd = 1, tk_threads = [],
     tk_calls = [], tk_cancelled = []\<rparr>"

lemma demo_tasks_inv: "tk_inv demo_tasks [7]"
  using list_add_dlist [OF INIT_LIST_HEAD_dlist [of TkHd "\<lparr>lnext = id, lprev = id\<rparr>"], of "TkNode 7"]
  by (simp add: tk_inv_def demo_tasks_def)

theorem events_add_up_witness:
  "\<exists>s1 s2. snd_all 70 [1, 4] demo_tasks = Inr s1 \<and> evt_rx 70 4 s1 = Inr (Returned (Some 5), s2) \<and> evt_rx 70 4 s2 = Inr (Blocked, s2)"
proof -
  have "named demo_tasks [7] 70 7" using demo_tasks_inv by (simp add: named_def demo_tasks_def)
  from events_add_up [OF this refl, of "[1, 4]" 4] show ?thesis by (auto simp: demo_tasks_def zero_tmtask_def)
qed

theorem task_create_listed_witness:
  "\<exists>s1 s2. task_create (Some 8) (Some 80) ''TMRTHF'' 99 2 32000 5 None 6 demo_tasks = Inr (TSK_SUCCESS, Some 80, s1) \<and>
     tsk_wrap 11 12 8 s1 = Inr (5, 6, s2) \<and> tk_inv s2 [8, 7] \<and> get_tsk_info ''TMRTHF'' 80 s2 = Inr (Some 8)"
  using task_create_listed [OF demo_tasks_inv, of 8 32000 "''TMRTHF''" 99 2 5 None 6 80 11 12]
  by (auto simp: MIN_THREAD_STACK_SIZE_def TK_MAX_TASK_NAME_def)

theorem task_id_race_witness:
  "\<exists>s0 z. prepare_task False (Some 8) ''TMRTHF'' 99 2 32000 5 None 6 demo_tasks = Inr (Some 8, s0) \<and>
     tsk_wrap 11 12 8 (thread_created 80 8 s0) = Inr (5, 6, z) \<and> evt_snd 80 1 z = Inl NullDeref"
  using task_id_race [OF demo_tasks_inv, of 8 32000 "''TMRTHF''" 80 99 2 5 None 6 11 12 1]
  by (auto simp: MIN_THREAD_STACK_SIZE_def NO_TASK_ID_def demo_tasks_def)

theorem task_delete_removes_witness:
  "\<exists>s'. task_delete 1 ''TMRBHF'' 70 demo_tasks = Inr (TSK_SUCCESS, s') \<and> tk_inv s' [] \<and> tk_calls s' = [3]"
  using task_delete_removes [OF demo_tasks_inv, where name = "''TMRBHF''" and i = 70 and self = 1] by (auto simp: demo_tasks_def)

end
