(* ===== verification/TimerThreads.thy ===== *)
theory TimerThreads
  imports TimerExpiry TaskProps Semaphore
begin

unbundle bit_operations_syntax

text \<open>
  The timers of the library built without \<^verbatim>\<open>SFS_WANTED\<close> (\<^verbatim>\<open>TIMERS/src/thr_spec.c\<close>): a task
  that counts the ticks and a task that runs the handlers of expired timers, on the layer of
  \<^verbatim>\<open>TASK/\<close>.  A tick that moves timers sends the event \<^verbatim>\<open>TMR_SERVE_TIMERS\<close> to the second task.

  The two tasks run at the same time.  Their steps are: one call of \<^verbatim>\<open>update_times\<close> by the clock, and
  for the service task the return of \<^verbatim>\<open>evt_rx\<close>, the tests before the loop over the expired timers, and
  one turn of that loop; \<open>svc_pc\<close> says where the service task is, with the two cursors of the loop.  The
  steps of the two follow each other in any order, each step as a whole: the code has no lock
  around the list of expired timers, to which the clock adds while the service task removes.
  The handlers belong to the application, whose state is \<open>app_state\<close>.
\<close>

section \<open>Data\<close>

datatype svc_pc = Rx | Got | At eaddr eaddr

record 'a thr = timers +
  tlayer :: tasks
  btmhlftask_id :: u32
  clktask_id :: u32          \<comment> \<open>the static \<open>task_id\<close>\<close>
  svc_evt :: u32             \<comment> \<open>the variable \<open>evt\<close> of \<open>tick_service\<close>\<close>
  svc_pc :: svc_pc
  tlocks :: "nat \<Rightarrow> sem_lock" \<comment> \<open>the locks of the trees\<close>
  app_state :: 'a

definition TMR_SERVE_TIMERS :: u32 where "TMR_SERVE_TIMERS = 1"
definition SUCCESS :: int where "SUCCESS = 0"
definition FAILURE :: int where "FAILURE = 1"
definition TSK_SCHED_RR :: int where "TSK_SCHED_RR = 2"

definition tick_service_fn :: nat where "tick_service_fn = 3"
definition tick_clock_fn :: nat where "tick_clock_fn = 4"

section \<open>The two tasks\<close>

text \<open>\<^verbatim>\<open>update_times\<close> with the event that \<^verbatim>\<open>service_timers\<close> sends.\<close>

definition tick_event :: "'a thr \<Rightarrow> 'a thr res" where
  "tick_event s =
     andThen (update_times False s) (\<lambda>(b, s).
       if b then andThen (evt_snd (btmhlftask_id s) TMR_SERVE_TIMERS (tlayer s)) (\<lambda>k. Inr (s\<lparr>tlayer := k\<rparr>)) else Inr s)"

fun tick_events :: "nat \<Rightarrow> 'a thr \<Rightarrow> 'a thr res" where
  "tick_events 0 s = Inr s"
| "tick_events (Suc k) s = andThen (tick_event s) (tick_events k)"

text \<open>The ticks of one turn of \<^verbatim>\<open>tick_clock\<close>, from the two readings of \<^verbatim>\<open>times\<close>.\<close>

definition clock_ticks :: "u32 \<Rightarrow> u32 \<Rightarrow> nat" where
  "clock_ticks strt stop = (let tick = sint (stop - strt) in if tick \<le> 0 then 1 else nat tick)"

definition tick_clock :: "u32 \<Rightarrow> u32 \<Rightarrow> 'a thr \<Rightarrow> 'a thr res" where
  "tick_clock strt stop s = tick_events (clock_ticks strt stop) s"

text \<open>
  A step of \<^verbatim>\<open>tick_service\<close> and of the \<^verbatim>\<open>btm_hlf\<close> it calls.  While \<^verbatim>\<open>evt_rx\<close> waits nothing changes;
  when it fails, \<open>evt\<close> keeps its value.
\<close>

definition tick_service ::
    "(nat \<Rightarrow> nat \<Rightarrow> 'a thr \<Rightarrow> 'a thr res) \<Rightarrow> ('a thr \<Rightarrow> nat option) \<Rightarrow> 'a thr \<Rightarrow> 'a thr res" where
  "tick_service hdl al s =
     (case svc_pc s of
        Rx \<Rightarrow>
          andThen (evt_rx (btmhlftask_id s) TMR_SERVE_TIMERS (tlayer s)) (\<lambda>(r, k).
          case r of Blocked \<Rightarrow> Inr s
          | Returned e \<Rightarrow> Inr (s\<lparr>tlayer := k, svc_evt := (case e of None \<Rightarrow> svc_evt s | Some v \<Rightarrow> v), svc_pc := Got\<rparr>))
      | Got \<Rightarrow>
          if svc_evt s AND TMR_SERVE_TIMERS \<noteq> 0 \<and> \<not> list_empty ExpdHd (expd s)
          then let p = lnext (expd s) ExpdHd in Inr (s\<lparr>svc_pc := At p (lnext (expd s) p)\<rparr>)
          else Inr (s\<lparr>svc_pc := Rx\<rparr>)
      | At pnode nxt \<Rightarrow>
          (case pnode of ExpdHd \<Rightarrow> Inr (s\<lparr>svc_pc := Rx\<rparr>)
           | Elist a \<Rightarrow> andThen (expire_one False hdl al a s) (\<lambda>s. Inr (s\<lparr>svc_pc := At nxt (lnext (expd s) nxt)\<rparr>))))"

text \<open>The loop that creates the locks of the trees; \<open>r\<close> are the results of \<^verbatim>\<open>sem_init\<close>.\<close>

fun create_tree_locks :: "(nat \<Rightarrow> int) \<Rightarrow> nat \<Rightarrow> (nat \<Rightarrow> sem_lock) \<Rightarrow> nat \<Rightarrow> sem_lock" where
  "create_tree_locks r 0 l = l"
| "create_tree_locks r (Suc i) l = create_tree_locks r i (l(i := the (snd (create_sync_lock_sem (r i) (Some (l i))))))"

text \<open>
  \<open>newb\<close>, \<open>thrb\<close> and \<open>newc\<close>, \<open>thrc\<close> are what the allocation and \<^verbatim>\<open>pthread_create\<close> return for
  the two tasks.  The locks are created when both have been started.
\<close>

definition init_timer_mgr_threads ::
    "(nat \<Rightarrow> int) \<Rightarrow> nat option \<Rightarrow> u32 option \<Rightarrow> nat option \<Rightarrow> u32 option \<Rightarrow> 'a thr \<Rightarrow> (int \<times> 'a thr) res" where
  "init_timer_mgr_threads sem newb thrb newc thrc s =
     (let s = timer_rq_init s in
      andThen (task_create newb thrb ''TMRBHF'' 99 TSK_SCHED_RR 32000 tick_service_fn None 0 (tlayer s)) (\<lambda>(r, i, k).
      let s = s\<lparr>tlayer := k, btmhlftask_id := (case i of None \<Rightarrow> btmhlftask_id s | Some v \<Rightarrow> v)\<rparr> in
      if r = TSK_FAILURE then Inr (FAILURE, s)
      else
        andThen (task_create newc thrc ''TMRTHF'' 99 TSK_SCHED_RR 32000 tick_clock_fn None 0 (tlayer s)) (\<lambda>(r, i, k).
        let s = s\<lparr>tlayer := k, clktask_id := (case i of None \<Rightarrow> clktask_id s | Some v \<Rightarrow> v)\<rparr> in
        if r = TSK_FAILURE then Inr (FAILURE, s)
        else Inr (SUCCESS, s\<lparr>tlocks := create_tree_locks sem TIMER_WHEEL (tlocks s)\<rparr>))))"

section \<open>A tick\<close>

text \<open>A tick that counts no timer has changed none.\<close>

lemma process_loop_count:
  assumes "process_loop w k n s = Some r"
  shows "\<forall>m s'. r = Inr (m, s') \<longrightarrow> n \<le> m \<and> (m = n \<longrightarrow> s' = s)"
proof (rule process_loop.raw_induct [OF _ assms])
  fix f :: "nat \<Rightarrow> u32 \<Rightarrow> int \<Rightarrow> 'a timers_scheme \<Rightarrow> (int \<times> 'a timers_scheme) res option" and w k n s y
  assume IH: "\<And>w k n s y. f w k n s = Some y \<Longrightarrow> \<forall>m s'. y = Inr (m, s') \<longrightarrow> n \<le> m \<and> (m = n \<longrightarrow> s' = s)"
    and step: "(case timer_tree_walk w k s of Inl e \<Rightarrow> Some (Inl e) | Inr None \<Rightarrow> Some (Inr (n, s))
      | Inr (Some a) \<Rightarrow> (case process_one w a s of Inl e \<Rightarrow> Some (Inl e) | Inr s \<Rightarrow> f w k (n + 1) s)) = Some y"
  show "\<forall>m s'. y = Inr (m, s') \<longrightarrow> n \<le> m \<and> (m = n \<longrightarrow> s' = s)"
    using step IH by (fastforce split: sum.splits option.splits)
qed

lemma process_timers_count: "process_timers w k s = Inr (m, s') \<Longrightarrow> 0 \<le> m \<and> (m = 0 \<longrightarrow> s' = s)"
  using process_loop_count [of w k 0 s] by (auto simp: process_timers_def returned_def split: option.splits)

lemma process_tick_count:
  assumes "tm_process_tick_and_update_timers sfs s = Inr (m, s')" and "m = 0"
  shows "s' = s"
proof -
  note c = process_timers_count
  from assms show ?thesis
    by (auto simp: tm_process_tick_and_update_timers_def andThen_eq_Inr split: if_splits dest!: c)
qed

section \<open>The invariant\<close>

text \<open>
  Where the service task can be while the expired timers \<open>es\<close> wait: \<open>ev\<close> says that its event is
  set, \<open>got\<close> that it has received it.  In the loop the first cursor is at the first of them; when the
  second one is at the end and there are others, they came after it was read, with their event.
\<close>

fun pc_ok :: "bool \<Rightarrow> bool \<Rightarrow> nat list \<Rightarrow> svc_pc \<Rightarrow> bool" where
  "pc_ok ev got es Rx \<longleftrightarrow> (es \<noteq> [] \<longrightarrow> ev)"
| "pc_ok ev got es Got \<longleftrightarrow> (es \<noteq> [] \<longrightarrow> ev \<or> got)"
| "pc_ok ev got es (At ExpdHd q) \<longleftrightarrow> (es \<noteq> [] \<longrightarrow> ev)"
| "pc_ok ev got es (At (Elist a) q) \<longleftrightarrow> (\<exists>r. es = a # r \<and> (case q of ExpdHd \<Rightarrow> r \<noteq> [] \<longrightarrow> ev | Elist b \<Rightarrow> \<exists>r'. r = b # r'))"

lemma pc_ok_more:
  assumes "pc_ok ev got es c" and "new \<noteq> [] \<Longrightarrow> ev'" and "ev \<Longrightarrow> ev'"
  shows "pc_ok ev' got (es @ new) c"
proof (cases c)
  case (At c q)
  then show ?thesis using assms by (cases c; cases q) auto
qed (use assms in auto)

text \<open>
  \<open>n\<close> ticks have passed, \<open>f\<close> are the timers on the wheels, \<open>es\<close> the expired ones that wait for
  their handlers, \<open>ps\<close> the tasks of the layer, \<open>p\<close> the service task.  All timers are one-shot timers.
\<close>

definition thr_ok :: "nat \<Rightarrow> 'a thr \<Rightarrow> (nat \<Rightarrow> nat list) \<Rightarrow> nat list \<Rightarrow> nat list \<Rightarrow> nat \<Rightarrow> bool" where
  "thr_ok n s f es ps p \<longleftrightarrow> timers_ok False n s f es \<and> named (tlayer s) ps (btmhlftask_id s) p \<and>
     pc_ok (curr_evt (tk_at (tlayer s) p) AND TMR_SERVE_TIMERS \<noteq> 0) (svc_evt s AND TMR_SERVE_TIMERS \<noteq> 0) es (svc_pc s) \<and>
     (\<forall>x d. (x, d) \<in> pending False s f \<or> x \<in> set es \<longrightarrow> (\<exists>c. once_timer s x c))"

text \<open>The call that the timer of an entry makes.\<close>

definition timeout_of :: "'z timers_scheme \<Rightarrow> nat \<Rightarrow> timeout" where
  "timeout_of s x = (let tm = the (ttms s (the (a_timer (the (tapps s x))))) in (t_handler tm, t_data tm))"

lemma timeout_of_once: "once_timer s x c \<Longrightarrow> timeout_of s x = c"
  by (auto simp: once_timer_def timeout_of_def Let_def)

lemma thr_more_fields:
  assumes "timers.more s' = timers.more (s :: 'a thr)"
  shows "tlayer s' = tlayer s" "btmhlftask_id s' = btmhlftask_id s" "app_state s' = app_state s"
    "svc_evt s' = svc_evt s" "svc_pc s' = svc_pc s"
  using assms by (cases s; cases s'; simp)+

lemma tick_event_ok:
  assumes ok: "thr_ok n s f es ps p" and bound: "n + 1025 < 2 ^ 32"
  shows "\<exists>s' f' new. tick_event s = Inr s' \<and> thr_ok (Suc n) s' f' (es @ new) ps p \<and>
     set new = {x. (x, Suc n) \<in> pending False s f} \<and> pending False s' f' = {(x, d) \<in> pending False s f. Suc n < d} \<and>
     app_state s' = app_state s \<and> (\<forall>x c. once_timer s x c \<longrightarrow> once_timer s' x c)"
proof -
  define s0 where "s0 = s\<lparr>clk := tick_clk False (clk s)\<rparr>"
  have t: "timers_ok False n s f es" and nm: "named (tlayer s) ps (btmhlftask_id s) p" and b: "Suc n < 2 ^ 32"
    using ok bound by (simp_all add: thr_ok_def)
  obtain c s1 where s1: "update_times False s = Inr (c, s1)" "ticked False (Suc n) s0 f es s1" "same_ids s0 s1" "\<not> c \<Longrightarrow> expd s1 = expd s"
    using tick_ok [OF timers_okD [OF t] bound] process_tick_count [of False s0 _] ids.ticked_view [of False s0]
    by (fastforce simp: update_times_def service_timers_def s0_def split: if_splits)
  obtain f' new where new: "timers_ok False (Suc n) s1 f' (es @ new)" "set new = {x. (x, Suc n) \<in> pending False s f}"
    "pending False s1 f' = {(x, d) \<in> pending False s f. Suc n < d}"
    using ticked_deadlines [OF t b] s1(2) unfolding s0_def by blast
  have more: "tlayer s1 = tlayer s" "btmhlftask_id s1 = btmhlftask_id s" "app_state s1 = app_state s"
    "svc_evt s1 = svc_evt s" "svc_pc s1 = svc_pc s"
    using thr_more_fields [of s1 s] s1(3) by (simp_all add: same_view_def s0_def)
  have once: "once_timer s1 x y" if "once_timer s x y" for x y
    using once_timer_ids [OF s1(3)] once_timer_cong [of s0 s] that by (simp add: s0_def)
  obtain k t' where k: "evt_snd (btmhlftask_id s) TMR_SERVE_TIMERS (tlayer s) = Inr k" "named k ps (btmhlftask_id s) p"
    "tk_tasks k p = Some t'" "curr_evt t' = curr_evt (tk_at (tlayer s) p) OR TMR_SERVE_TIMERS" using evt_snd_ok [OF nm] by blast
  define s' where "s' = (if c then s1\<lparr>tlayer := k\<rparr> else s1)"
  have same: "timers_ok False m s' f' xs = timers_ok False m s1 f' xs" "pending False s' f' = pending False s1 f'"
    "once_timer s' x y = once_timer s1 x y" for m xs x y
    using timers_ok_cong [of s' s1] once_timer_cong [of s' s1] by (simp_all add: s'_def)
  let ?ev = "\<lambda>s. curr_evt (tk_at (tlayer s) p) AND TMR_SERVE_TIMERS \<noteq> 0"
  have ev: "c \<Longrightarrow> ?ev s'"
    using k(3,4) by (simp add: s'_def TMR_SERVE_TIMERS_def bit_eq_iff exI [of _ 0] bit_simps)
  have "\<not> c \<Longrightarrow> new = []" using expired_list [OF t new(1)] s1(4) by simp
  moreover have "?ev s' = ?ev s" if "\<not> c" using that more by (simp add: s'_def)
  ultimately have pc: "pc_ok (?ev s') (svc_evt s' AND TMR_SERVE_TIMERS \<noteq> 0) (es @ new) (svc_pc s')"
    using pc_ok_more [of "?ev s" _ es _ new "?ev s'"] ok ev more by (cases c) (auto simp: thr_ok_def s'_def)
  have "\<exists>d. (x, d) \<in> pending False s f \<or> x \<in> set es" if "(x, d) \<in> pending False s' f' \<or> x \<in> set (es @ new)" for x d
    using that new(2,3) same(2) by auto
  then have ti: "\<exists>y. once_timer s' x y" if "(x, d) \<in> pending False s' f' \<or> x \<in> set (es @ new)" for x d
    using that ok once same(3) unfolding thr_ok_def by blast
  have "tick_event s = Inr s'" using s1(1) k(1) more by (simp add: tick_event_def s'_def)
  moreover have "thr_ok (Suc n) s' f' (es @ new) ps p"
    unfolding thr_ok_def using new(1) pc ti same(1) nm k(2) more by (auto simp: s'_def)
  ultimately show ?thesis using new(2,3) once same more(3) by (intro exI [of _ s'] exI [of _ f'] exI [of _ new]) (auto simp: s'_def)
qed


section \<open>The service task\<close>

text \<open>The handlers of the application change its state only.\<close>

definition app_handler :: "(nat \<Rightarrow> nat \<Rightarrow> 'a \<Rightarrow> 'a) \<Rightarrow> nat \<Rightarrow> nat \<Rightarrow> 'a thr \<Rightarrow> 'a thr res" where
  "app_handler g h d s = Inr (s\<lparr>app_state := g h d (app_state s)\<rparr>)"

definition app_call :: "(nat \<Rightarrow> nat \<Rightarrow> 'a \<Rightarrow> 'a) \<Rightarrow> timeout \<Rightarrow> 'a \<Rightarrow> 'a" where
  "app_call g c z = (case fst c of None \<Rightarrow> z | Some h \<Rightarrow> g h (snd c) z)"

definition app_did :: "(nat \<Rightarrow> nat \<Rightarrow> 'a \<Rightarrow> 'a) \<Rightarrow> timeout list \<Rightarrow> 'a thr \<Rightarrow> 'a thr \<Rightarrow> bool" where
  "app_did g cs s s' \<longleftrightarrow> app_state s' = fold (app_call g) cs (app_state s) \<and> tlayer s' = tlayer s \<and>
     btmhlftask_id s' = btmhlftask_id s \<and> svc_evt s' = svc_evt s \<and> svc_pc s' = svc_pc s"

interpretation app: timeout_handlers "app_handler g" "\<lambda>_. True" "\<lambda>_ _. True" "app_did g" for g
proof (unfold_locales, goal_cases)
  case (1 s c)
  then show ?case
    by (cases "fst c") (auto simp: call_handler_def app_handler_def app_did_def app_call_def same_timers_def)
next
  case (6 cs s s' t')
  then show ?case using thr_more_fields [OF 6(2)] by (simp add: app_did_def)
qed (auto simp: app_did_def)

text \<open>How far the service task is from having handled all expired timers.\<close>

fun rank :: "bool \<Rightarrow> nat list \<Rightarrow> svc_pc \<Rightarrow> nat" where
  "rank got es Rx = 5 * length es + 2"
| "rank got es Got = 5 * length es + (if got then 1 else 3)"
| "rank got es (At ExpdHd q) = 5 * length es + 3"
| "rank got es (At (Elist a) q) = 5 * length es"

abbreviation svc_rank :: "'a thr \<Rightarrow> nat list \<Rightarrow> nat" where
  "svc_rank s es \<equiv> rank (svc_evt s AND TMR_SERVE_TIMERS \<noteq> 0) es (svc_pc s)"

lemma rank_le: "rank got es c \<le> 5 * length es + 3"
  by (cases "(got, es, c)" rule: rank.cases) auto

text \<open>A step of the service task handles the expired timers \<open>dn\<close>, one or none, and comes closer to the end.\<close>

definition served ::
    "(nat \<Rightarrow> nat \<Rightarrow> 'a \<Rightarrow> 'a) \<Rightarrow> nat \<Rightarrow> 'a thr \<Rightarrow> (nat \<Rightarrow> nat list) \<Rightarrow> nat list \<Rightarrow> nat list \<Rightarrow> nat \<Rightarrow> nat list \<Rightarrow> 'a thr \<Rightarrow> nat list \<Rightarrow> bool" where
  "served g n s f es ps p dn s' es' \<longleftrightarrow> es = dn @ es' \<and> thr_ok n s' f es' ps p \<and> pending False s' f = pending False s f \<and>
     app_state s' = fold (app_call g) (map (timeout_of s) dn) (app_state s) \<and>
     (\<forall>x c. x \<notin> set dn \<longrightarrow> once_timer s x c \<longrightarrow> once_timer s' x c) \<and>
     (es = [] \<or> svc_rank s' es' < svc_rank s es)"

text \<open>Steps that change only the part of the state around the timers.\<close>

lemma served_aside:
  assumes ok: "thr_ok n s f es ps p" and same: "same_timers s s'" and "app_state s' = app_state s"
    and "named (tlayer s') ps (btmhlftask_id s') p"
    and "pc_ok (curr_evt (tk_at (tlayer s') p) AND TMR_SERVE_TIMERS \<noteq> 0) (svc_evt s' AND TMR_SERVE_TIMERS \<noteq> 0) es (svc_pc s')"
    and "es = [] \<or> svc_rank s' es < svc_rank s es"
  shows "served g n s f es ps p [] s' es"
proof -
  have "timers_ok False n s' f es = timers_ok False n s f es" "pending False s' f = pending False s f"
    "once_timer s' x c = once_timer s x c" for x c
    using same timers_ok_cong [of s' s] once_timer_cong [of s' s] by (simp_all add: same_timers_def)
  then show ?thesis using assms unfolding served_def thr_ok_def by simp
qed

lemma receive_ok:
  assumes ok: "thr_ok n s f es ps p" and pc: "svc_pc s = Rx"
  shows "\<exists>s'. tick_service (app_handler g) al s = Inr s' \<and> served g n s f es ps p [] s' es"
proof -
  have nm: "named (tlayer s) ps (btmhlftask_id s) p" using ok by (simp add: thr_ok_def)
  obtain tk where tk: "tk_tasks (tlayer s) p = Some tk" using namedD(2) [OF nm] by blast
  show ?thesis
  proof (cases "curr_evt tk AND TMR_SERVE_TIMERS = 0")
    case True
    then have "es = []" using ok pc tk by (auto simp: thr_ok_def)
    moreover have "tick_service (app_handler g) al s = Inr s"
      using namedD(1) [OF nm] tk True pc by (simp add: tick_service_def evt_rx_def)
    ultimately show ?thesis using ok unfolding served_def by (intro exI [of _ s]) simp
  next
    case False
    let ?k = "(tlayer s)\<lparr>tk_tasks := (tk_tasks (tlayer s))(p \<mapsto> tk\<lparr>curr_evt := 0\<rparr>)\<rparr>"
    let ?s = "s\<lparr>tlayer := ?k, svc_evt := curr_evt tk, svc_pc := Got\<rparr>"
    have "tick_service (app_handler g) al s = Inr ?s"
      using namedD(1) [OF nm] tk False pc by (simp add: tick_service_def evt_rx_def)
    moreover have "named ?k ps (btmhlftask_id s) p" by (rule named_upd [OF nm tk]) simp
    then have "served g n s f es ps p [] ?s es" using ok False pc by (intro served_aside) (simp_all add: same_timers_def)
    ultimately show ?thesis by blast
  qed
qed

lemma test_ok:
  assumes ok: "thr_ok n s f es ps p" and pc: "svc_pc s = Got"
  shows "\<exists>s'. tick_service (app_handler g) al s = Inr s' \<and> served g n s f es ps p [] s' es"
proof -
  have d: "dlist (expd s) ExpdHd (map Elist es)" using ok tmr_invD(5) [OF timers_okD(1)] unfolding thr_ok_def by blast
  then have e: "list_empty ExpdHd (expd s) \<longleftrightarrow> es = []" by (simp add: list_empty_dlist)
  show ?thesis
  proof (cases "svc_evt s AND TMR_SERVE_TIMERS \<noteq> 0 \<and> es \<noteq> []")
    case True
    then obtain a r where es: "es = a # r" by (cases es) auto
    let ?q = "case r of [] \<Rightarrow> ExpdHd | b # _ \<Rightarrow> Elist b"
    have "lnext (expd s) ExpdHd = Elist a" "lnext (expd s) (Elist a) = ?q" using d es by (cases r; simp add: dlist_def)+
    then have "tick_service (app_handler g) al s = Inr (s\<lparr>svc_pc := At (Elist a) ?q\<rparr>)"
      using pc True e by (simp add: tick_service_def Let_def)
    moreover have "served g n s f es ps p [] (s\<lparr>svc_pc := At (Elist a) ?q\<rparr>) es"
      using ok pc True es by (intro served_aside) (auto simp: same_timers_def thr_ok_def split: list.splits)
    ultimately show ?thesis by blast
  next
    case False
    then have "tick_service (app_handler g) al s = Inr (s\<lparr>svc_pc := Rx\<rparr>)" using pc e by (auto simp: tick_service_def)
    moreover have "served g n s f es ps p [] (s\<lparr>svc_pc := Rx\<rparr>) es"
      using ok pc False by (intro served_aside) (auto simp: same_timers_def thr_ok_def)
    ultimately show ?thesis by blast
  qed
qed

lemma handle_ok:
  assumes ok: "thr_ok n s f es ps p" and pc: "svc_pc s = At (Elist a) q"
  shows "\<exists>s' es'. tick_service (app_handler g) al s = Inr s' \<and> served g n s f es ps p [a] s' es'"
proof -
  let ?ev = "curr_evt (tk_at (tlayer s) p) AND TMR_SERVE_TIMERS \<noteq> 0"
  obtain r where r: "es = a # r" "case q of ExpdHd \<Rightarrow> r \<noteq> [] \<longrightarrow> ?ev | Elist b \<Rightarrow> \<exists>r'. r = b # r'"
    using ok pc by (auto simp: thr_ok_def)
  have t: "timers_ok False n s f (a # r)" and once: "once_timer s a (timeout_of s a)"
    using ok r(1) timeout_of_once unfolding thr_ok_def by (simp, metis list.set_intros(1))
  obtain s1 where s1: "expire_one False (app_handler g) al a s = Inr s1" "timers_ok False n s1 f r" "pending False s1 f = pending False s f"
    "app_did g [timeout_of s a] s s1" "\<forall>x c. x \<noteq> a \<longrightarrow> once_timer s x c \<longrightarrow> once_timer s1 x c"
    using app.expire_one_did [OF t once] by blast
  let ?q = "lnext (expd s1) q"
  let ?s = "s1\<lparr>svc_pc := At q ?q\<rparr>"
  have same: "timers_ok False n ?s f r = timers_ok False n s1 f r" "pending False ?s f = pending False s1 f"
    "once_timer ?s x c = once_timer s1 x c" for x c
    using timers_ok_cong [of ?s s1] once_timer_cong [of ?s s1] by simp_all
  have d: "dlist (expd s1) ExpdHd (map Elist r)" by (rule tmr_invD(5) [OF timers_okD(1) [OF s1(2)]])
  have m: "tlayer s1 = tlayer s" "btmhlftask_id s1 = btmhlftask_id s" "svc_evt s1 = svc_evt s"
    "app_state s1 = fold (app_call g) (map (timeout_of s) [a]) (app_state s)" using s1(4) by (simp_all add: app_did_def)
  have "pc_ok ?ev (svc_evt s AND TMR_SERVE_TIMERS \<noteq> 0) r (At q ?q)"
  proof (cases q)
    case ExpdHd
    then show ?thesis using r(2) by simp
  next
    case (Elist b)
    then obtain r' where r': "r = b # r'" using r(2) by auto
    then have "?q = (case r' of [] \<Rightarrow> ExpdHd | c # _ \<Rightarrow> Elist c)" using d Elist by (cases r') (auto simp: dlist_def)
    then show ?thesis using Elist r' by (auto split: list.splits)
  qed
  moreover have "a \<notin> set r" "\<And>x d. (x, d) \<in> pending False s f \<Longrightarrow> x \<noteq> a"
    using expired_distinct [OF t] tmr_invD(6) [OF timers_okD(1) [OF t]] by (auto simp: pending_def)
  then have "\<exists>c. once_timer s1 x c" if "(x, d) \<in> pending False s f \<or> x \<in> set r" for x d
    using that ok s1(5) r(1) unfolding thr_ok_def by (metis list.set_intros(2))
  ultimately have "thr_ok n ?s f r ps p" using ok s1(2,3) same m unfolding thr_ok_def by simp
  moreover have "svc_rank ?s r < svc_rank s es" using rank_le [of "svc_evt s1 AND TMR_SERVE_TIMERS \<noteq> 0" r "At q ?q"] pc r(1) by simp
  ultimately have "served g n s f es ps p [a] ?s r" using s1(3,5) same(2,3) m(4) r(1) unfolding served_def by simp
  moreover have "tick_service (app_handler g) al s = Inr ?s" using pc s1(1) by (simp add: tick_service_def)
  ultimately show ?thesis by blast
qed

lemma tick_service_ok:
  assumes ok: "thr_ok n s f es ps p"
  shows "\<exists>s' dn es'. tick_service (app_handler g) al s = Inr s' \<and> served g n s f es ps p dn s' es'"
proof (cases "svc_pc s")
  case Rx
  then show ?thesis using receive_ok [OF ok] by blast
next
  case Got
  then show ?thesis using test_ok [OF ok] by blast
next
  case (At c q)
  show ?thesis
  proof (cases c)
    case ExpdHd
    have "served g n s f es ps p [] (s\<lparr>svc_pc := Rx\<rparr>) es"
      using ok At ExpdHd by (intro served_aside) (auto simp: same_timers_def thr_ok_def)
    moreover have "tick_service (app_handler g) al s = Inr (s\<lparr>svc_pc := Rx\<rparr>)" using At ExpdHd by (simp add: tick_service_def)
    ultimately show ?thesis by blast
  next
    case (Elist a)
    then show ?thesis using handle_ok [OF ok] At by blast
  qed
qed


section \<open>Start-up\<close>

text \<open>A new thread begins.\<close>

definition begin_thread :: "u32 \<Rightarrow> u32 \<Rightarrow> nat \<Rightarrow> 'a thr \<Rightarrow> 'a thr res" where
  "begin_thread pid now p s = andThen (tsk_wrap pid now p (tlayer s)) (\<lambda>(_, _, k). Inr (s\<lparr>tlayer := k\<rparr>))"

lemma begin_thread_ok:
  assumes "tk_inv (tlayer s) ps" and "p \<notin> set ps" "tk_tasks (tlayer s) p = Some t"
  shows "\<exists>k. begin_thread pid now p s = Inr (s\<lparr>tlayer := k\<rparr>) \<and> tk_inv k (p # ps) \<and>
     tk_tasks k = (tk_tasks (tlayer s))(p \<mapsto> t\<lparr>tk_pid := pid, tk_strt_tk := now, tk_state := TSK_RUNNING\<rparr>)"
  using tsk_wrap_ok(1) [OF assms refl, where pid = pid and now = now] tsk_wrap_ok(2) [OF assms refl, where pid = pid and now = now]
  by (auto simp: begin_thread_def tsk_node_add_def intro!: exI)

lemma task_create_ok:
  assumes "MIN_THREAD_STACK_SIZE \<le> stk" and "5 \<le> length name"
  shows "task_create (Some p) (Some i) name pr alg stk start exit_r arg s =
     Inr (TSK_SUCCESS, Some i, s\<lparr>tk_tasks := (tk_tasks s)(p \<mapsto> (new_task name pr alg stk start exit_r arg)\<lparr>tk_id := i\<rparr>),
       g_tsks_crtd := g_tsks_crtd s + 1, tk_threads := tk_threads s @ [(i, p)]\<rparr>)"
  by (simp add: task_create_def prepare_task_ok [OF assms] start_task_def set_task_id_def thread_created_def)

lemma threads_begin:
  assumes "roots s = (\<lambda>_. None)" and "clk s = (\<lambda>_. 0)" and "svc_pc s = Rx" and "tk_inv (tlayer s) ps" and "p \<notin> set ps" "q \<notin> set ps" "p \<noteq> q"
    and "i \<noteq> j" and "order = [p, q] \<or> order = [q, p]"
  shows "\<exists>s1 s2. init_timer_mgr_threads sem (Some p) (Some i) (Some q) (Some j) s = Inr (SUCCESS, s1) \<and>
     andThen (begin_thread pid now (order ! 0) s1) (begin_thread pid' now' (order ! 1)) = Inr s2 \<and>
     thr_ok 0 s2 (\<lambda>_. []) [] (rev order @ ps) p \<and> ttms s2 = ttms s \<and> tapps s2 = tapps s \<and> tcount s2 = 0 \<and> indx s2 = indx s \<and>
     app_state s2 = app_state s"
proof -
  have stk: "MIN_THREAD_STACK_SIZE \<le> 32000" by (simp add: MIN_THREAD_STACK_SIZE_def)
  define t where "t = (new_task ''TMRBHF'' 99 TSK_SCHED_RR 32000 tick_service_fn None 0)\<lparr>tk_id := i\<rparr>"
  define u where "u = (new_task ''TMRTHF'' 99 TSK_SCHED_RR 32000 tick_clock_fn None 0)\<lparr>tk_id := j\<rparr>"
  define k where "k = (tlayer s)\<lparr>tk_tasks := (tk_tasks (tlayer s))(p \<mapsto> t, q \<mapsto> u),
    g_tsks_crtd := g_tsks_crtd (tlayer s) + 2, tk_threads := tk_threads (tlayer s) @ [(i, p), (j, q)]\<rparr>"
  have k: "init_timer_mgr_threads sem (Some p) (Some i) (Some q) (Some j) s =
      Inr (SUCCESS, (timer_rq_init s)\<lparr>tlayer := k, btmhlftask_id := i, clktask_id := j, tlocks := create_tree_locks sem TIMER_WHEEL (tlocks s)\<rparr>)"
    "tk_links k = tk_links (tlayer s)" "tk_tasks k = (tk_tasks (tlayer s))(p \<mapsto> t, q \<mapsto> u)" "tk_id t = i" "tk_id u = j"
    by (simp_all add: init_timer_mgr_threads_def task_create_ok [OF stk] TSK_SUCCESS_def TSK_FAILURE_def timer_rq_init_def
        k_def t_def u_def)
  let ?s1 = "(timer_rq_init s)\<lparr>tlayer := k, btmhlftask_id := i, clktask_id := j, tlocks := create_tree_locks sem TIMER_WHEEL (tlocks s)\<rparr>"
  have inv: "tk_inv k ps" using assms(4-6) k(2,3) by (auto simp: tk_inv_def)
  let ?a = "order ! 0" and ?b = "order ! 1"
  have ab: "?a \<noteq> ?b" "?a \<notin> set ps" "?b \<notin> set ps" "tk_tasks k ?a \<noteq> None" "tk_tasks k ?b \<noteq> None" "rev order = [?b, ?a]"
    using assms(5-7,9) k(3) by auto
  obtain k1 where k1: "begin_thread pid now ?a ?s1 = Inr (?s1\<lparr>tlayer := k1\<rparr>)" "tk_inv k1 (?a # ps)"
    "\<And>x. map_option tk_id (tk_tasks k1 x) = map_option tk_id (tk_tasks k x)"
    using begin_thread_ok [of ?s1 ps ?a] inv ab by force
  obtain k2 where k2: "begin_thread pid' now' ?b (?s1\<lparr>tlayer := k1\<rparr>) = Inr (?s1\<lparr>tlayer := k2\<rparr>)" "tk_inv k2 (?b # ?a # ps)"
    "\<And>x. map_option tk_id (tk_tasks k2 x) = map_option tk_id (tk_tasks k1 x)"
    using begin_thread_ok [of "?s1\<lparr>tlayer := k1\<rparr>" "?a # ps" ?b] k1(2) k1(3) [of ?b] ab by force
  let ?s2 = "?s1\<lparr>tlayer := k2\<rparr>"
  have id: "map_option tk_id (tk_tasks k2 p) = Some i" "map_option tk_id (tk_tasks k2 q) = Some j"
    using k1(3) k2(3) k(3-5) assms(7) by simp_all
  then have "named k2 (rev order @ ps) i p" using k2(2) assms(7-9) ab(6) by (auto simp: named_def)
  moreover have "timers_ok False 0 ?s2 (\<lambda>_. []) []"
    by (rule no_deadlines) (use assms(1,2) INIT_LIST_HEAD_dlist in \<open>simp_all add: timer_rq_init_def\<close>)
  moreover have "svc_pc ?s2 = Rx" using assms(3) by (simp add: timer_rq_init_def)
  ultimately have "thr_ok 0 ?s2 (\<lambda>_. []) [] (rev order @ ps) p" by (simp add: thr_ok_def no_timers_pending)
  then show ?thesis using k(1) k1(1) k2(1)
    by (intro exI [of _ ?s1] exI [of _ ?s2]) (simp add: timer_rq_init_def)
qed

text \<open>
  \<^verbatim>\<open>init_timer_mgr\<close> with memory and threads for its two tasks returns \<^verbatim>\<open>SUCCESS\<close>, also when a
  lock of a tree could not be created; when the threads
  have begun, in either order, the invariant holds: no timer runs and the service task can be sent
  events.
\<close>

theorem timer_threads_start:
  assumes "roots s = (\<lambda>_. None)" and "clk s = (\<lambda>_. 0)" and "svc_pc s = Rx" and "tk_inv (tlayer s) ps" and "p \<notin> set ps" "q \<notin> set ps" "p \<noteq> q"
    and "i \<noteq> j" and "order = [p, q] \<or> order = [q, p]"
  shows "\<exists>s1 s2. init_timer_mgr_threads sem (Some p) (Some i) (Some q) (Some j) s = Inr (SUCCESS, s1) \<and>
     andThen (begin_thread pid now (order ! 0) s1) (begin_thread pid' now' (order ! 1)) = Inr s2 \<and>
     thr_ok 0 s2 (\<lambda>_. []) [] (rev order @ ps) p \<and> ttms s2 = ttms s \<and> tapps s2 = tapps s \<and> tcount s2 = 0 \<and> indx s2 = indx s \<and>
     app_state s2 = app_state s"
  using assms by (rule threads_begin)

section \<open>Both tasks, in any order\<close>

datatype thr_act = Tick | Serve

fun act_ticks :: "thr_act \<Rightarrow> nat" where
  "act_ticks Tick = 1"
| "act_ticks Serve = 0"

fun run_act :: "(nat \<Rightarrow> nat \<Rightarrow> 'a \<Rightarrow> 'a) \<Rightarrow> ('a thr \<Rightarrow> nat option) \<Rightarrow> thr_act \<Rightarrow> 'a thr \<Rightarrow> 'a thr res" where
  "run_act g al Tick s = tick_event s"
| "run_act g al Serve s = tick_service (app_handler g) al s"

fun run_acts :: "(nat \<Rightarrow> nat \<Rightarrow> 'a \<Rightarrow> 'a) \<Rightarrow> ('a thr \<Rightarrow> nat option) \<Rightarrow> thr_act list \<Rightarrow> 'a thr \<Rightarrow> 'a thr res" where
  "run_acts g al [] s = Inr s"
| "run_acts g al (a # as) s = andThen (run_act g al a s) (run_acts g al as)"

text \<open>A turn of the clock task is so many ticks.\<close>

lemma tick_clock_acts: "tick_clock strt stop s = run_acts g al (replicate (clock_ticks strt stop) Tick) s"
proof -
  have "tick_events k s = run_acts g al (replicate k Tick) s" for k
    by (induction k arbitrary: s) (simp_all add: andThen_def split: sum.splits)
  then show ?thesis by (simp add: tick_clock_def)
qed

text \<open>
  From \<open>s\<close> to \<open>s'\<close>, up to time \<open>m\<close>: the timers \<open>dn\<close> have been handled, \<open>es'\<close> still wait.
\<close>

definition progress ::
    "(nat \<Rightarrow> nat \<Rightarrow> 'a \<Rightarrow> 'a) \<Rightarrow> nat \<Rightarrow> 'a thr \<Rightarrow> (nat \<Rightarrow> nat list) \<Rightarrow> nat list \<Rightarrow> nat list \<Rightarrow> 'a thr \<Rightarrow> (nat \<Rightarrow> nat list) \<Rightarrow> nat list \<Rightarrow> bool" where
  "progress g m s f es dn s' f' es' \<longleftrightarrow>
     (\<exists>new. expired_by (pending False s f) m new \<and> es @ new = dn @ es') \<and>
     pending False s' f' = {(x, d) \<in> pending False s f. m < d} \<and>
     app_state s' = fold (app_call g) (map (timeout_of s) dn) (app_state s) \<and>
     (\<forall>x. x \<in> set es' \<or> (\<exists>d. (x, d) \<in> pending False s' f') \<longrightarrow> timeout_of s' x = timeout_of s x)"

lemma progress_trans:
  assumes a: "progress g m s f es dn s1 f1 es1" and b: "progress g m' s1 f1 es1 dn' s' f' es'" and "m \<le> m'"
    and ok: "thr_ok n s f es ps p"
  shows "progress g m' s f es (dn @ dn') s' f' es'"
proof -
  obtain new where new: "expired_by (pending False s f) m new" "es @ new = dn @ es1" using a by (auto simp: progress_def)
  obtain new' where new': "expired_by (pending False s1 f1) m' new'" "es1 @ new' = dn' @ es'" using b by (auto simp: progress_def)
  have sv: "single_valued (pending False s f)" using ok pending_single unfolding thr_ok_def by blast
  have P: "pending False s1 f1 = {(x, d) \<in> pending False s f. m < d}" using a by (simp add: progress_def)
  have "expired_by (pending False s f) m' (new @ new')" by (rule expired_by_append [OF new(1) new'(1) [unfolded P] assms(3) sv])
  moreover have "es @ new @ new' = (dn @ dn') @ es'" using new(2) new'(2) by (metis append.assoc)
  moreover have "x \<in> set es1 \<or> (\<exists>d. (x, d) \<in> pending False s1 f1)" if "x \<in> set dn' \<or> x \<in> set es' \<or> (\<exists>d. (x, d) \<in> pending False s' f')" for x
  proof -
    have "x \<in> set (es1 @ new') \<or> (\<exists>d. (x, d) \<in> pending False s1 f1)" using that b new'(2) by (auto simp: progress_def)
    then show ?thesis using new'(1) by (auto simp: expired_by_def)
  qed
  then have "timeout_of s1 x = timeout_of s x" if "x \<in> set dn' \<or> x \<in> set es' \<or> (\<exists>d. (x, d) \<in> pending False s' f')" for x
    using that a unfolding progress_def by blast
  then have dn': "map (timeout_of s1) dn' = map (timeout_of s) dn'"
    and "\<forall>x. x \<in> set es' \<or> (\<exists>d. (x, d) \<in> pending False s' f') \<longrightarrow> timeout_of s' x = timeout_of s x"
    using b by (auto simp: progress_def)
  moreover have "pending False s' f' = {(x, d) \<in> pending False s f. m' < d}" using b P assms(3) by (auto simp: progress_def)
  moreover have "app_state s' = fold (app_call g) (map (timeout_of s) dn') (fold (app_call g) (map (timeout_of s) dn) (app_state s))"
    using a b unfolding progress_def dn' by simp
  ultimately show ?thesis unfolding progress_def by (intro conjI exI [of _ "new @ new'"]) simp_all
qed

lemma progress_refl:
  assumes "thr_ok n s f es ps p"
  shows "progress g n s f es [] s f es"
proof -
  have "timers_ok False n s f es" using assms by (simp add: thr_ok_def)
  from pending_later [OF this] have "n < d" if "(x, d) \<in> pending False s f" for x d using that .
  then show ?thesis unfolding progress_def by (auto intro!: exI [of _ "[]"] expired_by_none)
qed

lemma tick_progress:
  assumes "thr_ok n s f es ps p" and "n + 1025 < 2 ^ 32"
  shows "\<exists>s' f' es'. tick_event s = Inr s' \<and> thr_ok (Suc n) s' f' es' ps p \<and> progress g (Suc n) s f es [] s' f' es'"
proof -
  obtain s1 f1 new where t: "tick_event s = Inr s1" "thr_ok (Suc n) s1 f1 (es @ new) ps p" "set new = {x. (x, Suc n) \<in> pending False s f}"
    "pending False s1 f1 = {(x, d) \<in> pending False s f. Suc n < d}" "app_state s1 = app_state s"
    "\<And>x c. once_timer s x c \<Longrightarrow> once_timer s1 x c"
    using tick_event_ok [OF assms] by auto
  have ok: "timers_ok False n s f es" using assms(1) by (simp add: thr_ok_def)
  have "timers_ok False (Suc n) s1 f1 (es @ new)" using t(2) by (simp add: thr_ok_def)
  from expired_distinct [OF this] have "expired_by (pending False s f) (Suc n) new"
    by (intro expired_by_tick [OF pending_later [OF ok] t(3)]) simp_all
  moreover have "timeout_of s1 x = timeout_of s x" if "x \<in> set (es @ new) \<or> (\<exists>d. (x, d) \<in> pending False s1 f1)" for x
  proof -
    have "x \<in> set es \<or> (\<exists>d. (x, d) \<in> pending False s f)" using that t(3,4) by auto
    then show ?thesis using assms(1) t(6) timeout_of_once unfolding thr_ok_def by metis
  qed
  ultimately have "progress g (Suc n) s f es [] s1 f1 (es @ new)" using t(4,5) unfolding progress_def by simp
  with t(1,2) show ?thesis by blast
qed

lemma served_timeouts:
  assumes ok: "thr_ok n s f es ps p" and sv: "served g n s f es ps p dn s' es'" and x: "x \<in> set es' \<or> (\<exists>d. (x, d) \<in> pending False s f)"
  shows "timeout_of s' x = timeout_of s x"
proof -
  have t: "timers_ok False n s f es" and es: "es = dn @ es'" using ok sv by (simp_all add: thr_ok_def served_def)
  have "x \<notin> set dn" using x expired_distinct [OF t] es tmr_invD(6) [OF timers_okD(1) [OF t]] by (auto simp: pending_def)
  moreover obtain c where "once_timer s x c" using x ok es unfolding thr_ok_def by auto
  ultimately show ?thesis using sv timeout_of_once unfolding served_def by metis
qed

lemma serve_progress:
  assumes ok: "thr_ok n s f es ps p" and sv: "served g n s f es ps p dn s' es'"
  shows "progress g n s f es dn s' f es'"
proof -
  have t: "timers_ok False n s f es" using ok by (simp add: thr_ok_def)
  have "{(x, d) \<in> pending False s f. n < d} = pending False s f" using pending_later [OF t] by blast
  then show ?thesis
    using sv served_timeouts [OF ok sv] expired_by_none [OF pending_later [OF t]] unfolding progress_def served_def by auto
qed

lemma act_progress:
  assumes "thr_ok n s f es ps p" and "n + act_ticks a + 1024 < 2 ^ 32"
  shows "\<exists>s' f' es' dn. run_act g al a s = Inr s' \<and> thr_ok (n + act_ticks a) s' f' es' ps p \<and>
     progress g (n + act_ticks a) s f es dn s' f' es'"
proof (cases a)
  case Tick
  then show ?thesis using tick_progress [OF assms(1), of g] assms(2) by auto
next
  case Serve
  obtain s' dn es' where s': "tick_service (app_handler g) al s = Inr s'" "served g n s f es ps p dn s' es'"
    using tick_service_ok [OF assms(1)] by blast
  from serve_progress [OF assms(1) s'(2)] s' Serve show ?thesis by (auto simp: served_def)
qed

lemma acts_progress:
  assumes "thr_ok n s f es ps p" and "n + sum_list (map act_ticks as) + 1024 < 2 ^ 32"
  shows "\<exists>s' f' es' dn. run_acts g al as s = Inr s' \<and> thr_ok (n + sum_list (map act_ticks as)) s' f' es' ps p \<and>
     progress g (n + sum_list (map act_ticks as)) s f es dn s' f' es'"
  using assms
proof (induction as arbitrary: n s f es)
  case Nil
  then show ?case using progress_refl by fastforce
next
  case (Cons a as)
  let ?m = "n + act_ticks a" and ?k = "n + act_ticks a + sum_list (map act_ticks as)"
  have b: "?m + 1024 < 2 ^ 32" "?k + 1024 < 2 ^ 32" using Cons.prems(2) by simp_all
  obtain s1 f1 es1 dn where s1: "run_act g al a s = Inr s1" "thr_ok ?m s1 f1 es1 ps p" "progress g ?m s f es dn s1 f1 es1"
    using act_progress [OF Cons.prems(1) b(1), of g al] by blast
  obtain s' f' es' dn' where s': "run_acts g al as s1 = Inr s'" "thr_ok ?k s' f' es' ps p" "progress g ?k s1 f1 es1 dn' s' f' es'"
    using Cons.IH [OF s1(2) b(2)] by blast
  have "progress g ?k s f es (dn @ dn') s' f' es'" by (rule progress_trans [OF s1(3) s'(3) _ Cons.prems(1)]) simp
  then show ?case using s1(1) s'(1,2)
    by (intro exI [of _ s'] exI [of _ f'] exI [of _ es'] exI [of _ "dn @ dn'"]) (simp add: add.assoc)
qed

lemma run_acts_append: "run_acts g al (as @ bs) s = andThen (run_acts g al as s) (run_acts g al bs)"
  by (induction as arbitrary: s) (auto simp: andThen_def split: sum.splits)

text \<open>Left to itself, the service task handles all expired timers.\<close>

lemma serves_idle:
  assumes "thr_ok n s f [] ps p"
  shows "\<exists>s'. run_acts g al (replicate k Serve) s = Inr s' \<and> thr_ok n s' f [] ps p \<and> pending False s' f = pending False s f \<and>
     app_state s' = app_state s"
  using assms
proof (induction k arbitrary: s)
  case (Suc k)
  obtain s1 dn es1 where "tick_service (app_handler g) al s = Inr s1" "served g n s f [] ps p dn s1 es1"
    using tick_service_ok [OF Suc.prems] by blast
  then show ?case using Suc.IH [of s1] by (auto simp: served_def)
qed simp

lemma serves_drain:
  assumes "thr_ok n s f es ps p" and "5 * length es + 3 \<le> k"
  shows "\<exists>s'. run_acts g al (replicate k Serve) s = Inr s' \<and> thr_ok n s' f [] ps p \<and> pending False s' f = pending False s f \<and>
     app_state s' = fold (app_call g) (map (timeout_of s) es) (app_state s)"
proof -
  have "svc_rank s es \<le> k" using rank_le assms(2) order.trans by blast
  with assms(1) show ?thesis
  proof (induction k arbitrary: s es)
    case 0
    then have "es = []" by (cases "(svc_evt s AND TMR_SERVE_TIMERS \<noteq> 0, es, svc_pc s)" rule: rank.cases) auto
    then show ?case using 0(1) by simp
  next
    case (Suc k)
    obtain s1 dn es1 where s1: "tick_service (app_handler g) al s = Inr s1" "served g n s f es ps p dn s1 es1"
      using tick_service_ok [OF Suc.prems(1)] by blast
    then have ok: "thr_ok n s1 f es1 ps p" and es: "es = dn @ es1" by (simp_all add: served_def)
    have "\<exists>s'. run_acts g al (replicate k Serve) s1 = Inr s' \<and> thr_ok n s' f [] ps p \<and> pending False s' f = pending False s1 f \<and>
       app_state s' = fold (app_call g) (map (timeout_of s1) es1) (app_state s1)"
    proof (cases "es = []")
      case False
      then have "svc_rank s1 es1 < svc_rank s es" using s1(2) unfolding served_def by blast
      then have "svc_rank s1 es1 \<le> k" using Suc.prems(2) by linarith
      then show ?thesis by (rule Suc.IH [OF ok])
    next
      case True
      then show ?thesis using serves_idle [of n s1 f ps p] ok es by simp
    qed
    moreover have "map (timeout_of s1) es1 = map (timeout_of s) es1" using served_timeouts [OF Suc.prems(1) s1(2)] by auto
    ultimately show ?case using s1 es by (auto simp: served_def)
  qed
qed

text \<open>
  C11: the two tasks that drive the timers lose no timer.  However the steps of the clock task (one tick) and of
  the service task (receiving the event, testing, handling one expired timer) follow each other, no step
  faults, and at every moment the handlers that have been called are those of the first of the timers whose
  deadline has been reached, once each and in the order of the deadlines, after those that waited before;
  when the service task then makes enough steps of its own, all of them have been called and all other
  timers have kept their deadlines.  The timers are one-shot timers, their handlers change the state of the
  application only, no timer is started or stopped meanwhile, every step is atomic, and fewer than
  \<open>2 ^ 32 - 1024\<close> ticks have passed.
\<close>

theorem timer_threads_call_due:
  assumes "thr_ok n s f es ps p" and "m = n + sum_list (map act_ticks as)" and "m + 1024 < 2 ^ 32"
  shows "\<exists>new. distinct new \<and> set new = {x. \<exists>d. (x, d) \<in> pending False s f \<and> d \<le> m} \<and>
     sorted_wrt (\<lambda>x y. \<exists>d e. (x, d) \<in> pending False s f \<and> (y, e) \<in> pending False s f \<and> d \<le> e) new \<and>
     (\<exists>s1 f1 dn es1. run_acts g al as s = Inr s1 \<and> thr_ok m s1 f1 es1 ps p \<and> dn @ es1 = es @ new \<and>
        app_state s1 = fold (app_call g) (map (timeout_of s) dn) (app_state s)) \<and>
     (\<exists>k0. \<forall>k\<ge>k0. \<exists>s' f'. run_acts g al (as @ replicate k Serve) s = Inr s' \<and> thr_ok m s' f' [] ps p \<and>
        app_state s' = fold (app_call g) (map (timeout_of s) (es @ new)) (app_state s) \<and>
        pending False s' f' = {(x, d) \<in> pending False s f. m < d})"
proof -
  obtain s1 f1 es1 dn where s1: "run_acts g al as s = Inr s1" "thr_ok m s1 f1 es1 ps p" "progress g m s f es dn s1 f1 es1"
    using acts_progress [OF assms(1)] assms(2,3) by blast
  then obtain new where new: "expired_by (pending False s f) m new" "es @ new = dn @ es1" by (auto simp: progress_def)
  have pr: "pending False s1 f1 = {(x, d) \<in> pending False s f. m < d}"
    "app_state s1 = fold (app_call g) (map (timeout_of s) dn) (app_state s)" "map (timeout_of s1) es1 = map (timeout_of s) es1"
    using s1(3) by (auto simp: progress_def)
  have "\<exists>s' f'. run_acts g al (as @ replicate k Serve) s = Inr s' \<and> thr_ok m s' f' [] ps p \<and>
        app_state s' = fold (app_call g) (map (timeout_of s) (es @ new)) (app_state s) \<and>
        pending False s' f' = {(x, d) \<in> pending False s f. m < d}" if k: "5 * length es1 + 3 \<le> k" for k
  proof -
    obtain s' where s': "run_acts g al (replicate k Serve) s1 = Inr s'" "thr_ok m s' f1 [] ps p" "pending False s' f1 = pending False s1 f1"
      "app_state s' = fold (app_call g) (map (timeout_of s1) es1) (app_state s1)" using serves_drain [OF s1(2) k] by blast
    then show ?thesis using pr s1(1) unfolding new(2) by (intro exI [of _ s'] exI [of _ f1]) (simp add: run_acts_append)
  qed
  then have "\<exists>k0. \<forall>k\<ge>k0. \<exists>s' f'. run_acts g al (as @ replicate k Serve) s = Inr s' \<and> thr_ok m s' f' [] ps p \<and>
        app_state s' = fold (app_call g) (map (timeout_of s) (es @ new)) (app_state s) \<and>
        pending False s' f' = {(x, d) \<in> pending False s f. m < d}" by blast
  then show ?thesis using new s1(1,2) pr(2) unfolding expired_by_def by (intro exI [of _ new] conjI) auto
qed

section \<open>Witnesses\<close>

text \<open>The application keeps a list of the calls it got.\<close>

definition demo_thr :: "(nat \<times> nat) list thr" where
  "demo_thr = \<lparr>ttms = (\<lambda>_. None), tapps = (\<lambda>_. None),
     rnodes = (\<lambda>_. \<lparr>rb_par = None, rb_black = False, rb_left = None, rb_right = None\<rparr>), roots = (\<lambda>_. None),
     tcount = 0, clk = (\<lambda>_. 0), indx = 0, expd = \<lparr>lnext = id, lprev = id\<rparr>, tbytes = 0,
     tlayer = \<lparr>tk_tasks = (\<lambda>_. None), tk_links = INIT_LIST_HEAD TkHd \<lparr>lnext = id, lprev = id\<rparr>, g_tsks_crtd = 0,
       tk_threads = [], tk_calls = [], tk_cancelled = []\<rparr>,
     btmhlftask_id = 0, clktask_id = 0, svc_evt = 0, svc_pc = Rx, tlocks = (\<lambda>_. \<lparr>sem_value = 0\<rparr>), app_state = []\<rparr>"

lemma demo_thr_static: "roots demo_thr = (\<lambda>_. None)" "clk demo_thr = (\<lambda>_. 0)" "svc_pc demo_thr = Rx" "tk_inv (tlayer demo_thr) []"
  using INIT_LIST_HEAD_dlist by (simp_all add: demo_thr_def tk_inv_def)

theorem timer_threads_start_witness:
  "\<exists>s1 s2. init_timer_mgr_threads (\<lambda>_. 0) (Some 7) (Some 70) (Some 8) (Some 80) demo_thr = Inr (SUCCESS, s1) \<and>
     andThen (begin_thread 1 2 8 s1) (begin_thread 3 4 7) = Inr s2 \<and> thr_ok 0 s2 (\<lambda>_. []) [] [7, 8] 7"
  using timer_threads_start [OF demo_thr_static, of 7 8 70 80 "[8, 7]" "\<lambda>_. 0" 1 2 3 4] by auto

lemma demo_thr_started:
  obtains s :: "(nat \<times> nat) list thr" and f where "thr_ok 0 s f [] [7, 8] 7" and "pending False s f = {(0, 130)}" and "timeout_of s 0 = (Some 9, 5)"
    and "app_state s = []"
proof -
  obtain s2 where s2: "thr_ok 0 s2 (\<lambda>_. []) [] [7, 8] 7" "ttms s2 = ttms demo_thr" "tapps s2 = tapps demo_thr" "tcount s2 = 0"
    "indx s2 = indx demo_thr" "app_state s2 = app_state demo_thr"
    using threads_begin [OF demo_thr_static, of 7 8 70 80 "[8, 7]" "\<lambda>_. 0" 1 2 3 4] by auto
  have fresh: "tapps s2 0 = None" "ttms s2 0 = None" "tcount s2 \<le> MAX_TIMERS" "indx s2 \<noteq> - 1"
    using s2 by (simp_all add: demo_thr_def MAX_TIMERS_def)
  have t: "timers_ok False 0 s2 (\<lambda>_. []) []" using s2(1) by (simp add: thr_ok_def)
  obtain s f where s: "start_timer False (Some 0) (Some 0) 130 5 (Some 9) 0 s2 = Inr (Some 0, s)" "timers_ok False 0 s f []"
    "pending False s f = {(0, 130)}"
    using start_timer_ok [OF t fresh(1,2) _ _ fresh(3,4), of 130 5 "Some 9" 0]
    by (auto simp: started_def horizon_def new_deadline_def tm_get_ticks_per_second_def no_timers_pending)
  have once: "once_timer s 0 (Some 9, 5)" by (rule start_timer_once(1) [OF s(1) fresh(3,4,1,2)])
  note m = thr_more_fields [OF start_timer_more(1) [OF s(1) fresh(3,4)]]
  have "thr_ok 0 s f [] [7, 8] 7" using s2(1) s(2,3) m once by (auto simp: thr_ok_def)
  then show thesis using that s(3) timeout_of_once [OF once] m(3) s2(6) by (simp add: demo_thr_def)
qed

text \<open>A timer of 130 ticks, 150 ticks with steps of the service task in between, then the service task alone.\<close>

theorem timer_threads_call_due_witness:
  "\<exists>(s :: (nat \<times> nat) list thr) f k s' f'. thr_ok 0 s f [] [7, 8] 7 \<and> pending False s f = {(0, 130)} \<and>
     run_acts (\<lambda>h d z. z @ [(h, d)]) (\<lambda>_. None) ((replicate 130 Tick @ [Serve, Serve] @ replicate 20 Tick) @ replicate k Serve) s = Inr s' \<and>
     app_state s' = [(9, 5)] \<and> pending False s' f' = {}"
proof (rule demo_thr_started)
  fix s :: "(nat \<times> nat) list thr" and f
  assume s: "thr_ok 0 s f [] [7, 8] 7" "pending False s f = {(0, 130)}" "timeout_of s 0 = (Some 9, 5)" "app_state s = []"
  define as where "as = replicate 130 Tick @ [Serve, Serve] @ replicate 20 Tick"
  let ?g = "\<lambda>h d z. z @ [(h, d)]"
  have m: "150 = 0 + sum_list (map act_ticks as)" by (simp add: as_def sum_list_replicate)
  from timer_threads_call_due [OF s(1) m, of ?g "\<lambda>_. None"] obtain new where new: "distinct new" "set new = {x. \<exists>d. (x, d) \<in> pending False s f \<and> d \<le> 150}"
    "\<exists>k0. \<forall>k\<ge>k0. \<exists>s' f'. run_acts ?g (\<lambda>_. None) (as @ replicate k Serve) s = Inr s' \<and> thr_ok 150 s' f' [] [7, 8] 7 \<and>
        app_state s' = fold (app_call ?g) (map (timeout_of s) ([] @ new)) (app_state s) \<and>
        pending False s' f' = {(x, d) \<in> pending False s f. 150 < d}" by auto
  then obtain k s' f' where s': "run_acts ?g (\<lambda>_. None) (as @ replicate k Serve) s = Inr s'"
    "app_state s' = fold (app_call ?g) (map (timeout_of s) new) (app_state s)" "pending False s' f' = {(x, d) \<in> pending False s f. 150 < d}"
    by auto
  have "set new = {0}" using new(2) s(2) by simp
  with new(1) have "new = [0]" by (cases new rule: remdups_adj.cases) auto
  then have "app_state s' = [(9, 5)]" using s'(2) s(3,4) by (simp add: app_call_def)
  moreover have "pending False s' f' = {}" using s'(3) s(2) by auto
  ultimately show ?thesis using s(1,2) s'(1) unfolding as_def by blast
qed

end
