(* ===== verification/Hashlib.thy ===== *)
theory Hashlib
  imports Mempool
begin

text \<open>
  The hash tables of \<^verbatim>\<open>cmn/hashlib.c\<close>: an array of chains whose entries are blocks of a memory
  pool of their own.  The memory is a function from addresses to entries; an entry takes 12 bytes,
  and writing one destroys what overlaps it.  Keys are the bytes at the key pointer.  The callbacks
  a table is created with (comparison and choice of the bucket) are fields of the table.
\<close>

section \<open>Data\<close>

record hash_bucket =
  hb_next :: u32
  hb_key :: "u8 list"
  hb_data :: nat

record hash_table =
  bucket_array :: "u32 list"
  hmem_pool_id :: int
  key_len :: nat
  nbuckets :: int
  nentries :: int
  cmp_func :: "u8 list \<Rightarrow> u8 list \<Rightarrow> int"
  hash_index_gen :: "u8 list \<Rightarrow> int"

text \<open>
  \<open>hreleased\<close> is the data handed to \<^verbatim>\<open>free_data\<close> (or \<^verbatim>\<open>free\<close>), the latest first;
  \<open>hkeys\<close> counts the copies of keys that have been allocated and not freed.
\<close>

record hmem =
  hpools :: mempool
  hbkts :: "u32 \<Rightarrow> hash_bucket option"
  hreleased :: "nat list"
  hkeys :: int

definition DEFAULT_HASH_BUCKETS :: int where "DEFAULT_HASH_BUCKETS = 52"
definition MAX_NAME :: nat where "MAX_NAME = 8"
definition sizeof_hash_bucket_t :: nat where "sizeof_hash_bucket_t = 12"

definition overlaps :: "u32 \<Rightarrow> u32 \<Rightarrow> bool" where
  "overlaps a b \<longleftrightarrow> unat a < unat b + sizeof_hash_bucket_t \<and> unat b < unat a + sizeof_hash_bucket_t"

definition hb_at :: "u32 \<Rightarrow> hmem \<Rightarrow> hash_bucket res" where
  "hb_at a m = deref (hbkts m) (if a = 0 then None else Some a)"

definition put_hb :: "u32 \<Rightarrow> hash_bucket \<Rightarrow> hmem \<Rightarrow> hmem" where
  "put_hb a e m = m\<lparr>hbkts := (\<lambda>x. if x = a then Some e else if overlaps a x then None else hbkts m x)\<rparr>"

section \<open>Operations\<close>

text \<open>
  The results of the three allocations are arguments: \<open>ok\<close> for the table, \<open>me\<close> for the pool,
  \<open>arr\<close> for the array with the contents it happens to have (it is not initialised).  When the
  array cannot be allocated, the caller is handed the table that has just been freed.
\<close>

definition create_hash_table ::
    "bool \<Rightarrow> mem_env \<Rightarrow> (nat \<Rightarrow> u32) option \<Rightarrow> string \<Rightarrow> int \<Rightarrow> (u8 list \<Rightarrow> u8 list \<Rightarrow> int) \<Rightarrow> (u8 list \<Rightarrow> int) \<Rightarrow>
     nat \<Rightarrow> hmem \<Rightarrow> (hash_table option \<times> hmem) res" where
  "create_hash_table ok me arr hashname buckets cmp index_gen klen m =
     (let buckets = (if buckets = 0 then DEFAULT_HASH_BUCKETS else buckets);
          size = 4 * buckets
      in if \<not> ok then Inr (None, m)
         else if MAX_NAME \<le> length hashname then Inl OutOfBounds
         else let (pid, pls) = mem_pool_create me (word_of_int size) buckets (hpools m);
                  m = m\<lparr>hpools := pls\<rparr>
              in if pid < 0 then Inr (None, m)
                 else case arr of
                   None \<Rightarrow> andThen (mem_pool_delete pid (hpools m)) (\<lambda>_. Inl UseAfterFree)
                 | Some c \<Rightarrow>
                     Inr (Some \<lparr>bucket_array = map c [0..<nat buckets], hmem_pool_id = pid, key_len = klen, nbuckets = buckets,
                            nentries = 0, cmp_func = cmp, hash_index_gen = index_gen\<rparr>, m))"

definition bucket_at :: "int \<Rightarrow> hash_table \<Rightarrow> u32 res" where
  "bucket_at i h = (if i < 0 \<or> int (length (bucket_array h)) \<le> i then Inl OutOfBounds else Inr (bucket_array h ! nat i))"

partial_function (option) find_loop :: "hash_table \<Rightarrow> hmem \<Rightarrow> u8 list \<Rightarrow> u32 \<Rightarrow> u32 res option" where
  [code]: "find_loop h m key bkt =
     (if bkt = 0 then Some (Inr 0)
      else case hb_at bkt m of Inl e \<Rightarrow> Some (Inl e)
           | Inr e \<Rightarrow> if cmp_func h (hb_key e) key = 0 then Some (Inr bkt) else find_loop h m key (hb_next e))"

text \<open>An index above \<^verbatim>\<open>nbuckets\<close> is refused, the index \<^verbatim>\<open>nbuckets\<close> is not.\<close>

definition find_hash_entry :: "u8 list \<Rightarrow> hash_table option \<Rightarrow> hmem \<Rightarrow> u32 res" where
  "find_hash_entry key htbl m =
     (case htbl of None \<Rightarrow> Inr 0
      | Some h \<Rightarrow>
          let which_bucket = hash_index_gen h key in
          if which_bucket > nbuckets h then Inr 0
          else andThen (bucket_at which_bucket h) (\<lambda>b. returned (find_loop h m key b)))"

text \<open>The data of the entry, \<^term>\<open>None\<close> for NULL.\<close>

definition hash_tbl_lookup :: "u8 list \<Rightarrow> hash_table option \<Rightarrow> hmem \<Rightarrow> nat option res" where
  "hash_tbl_lookup key htbl m =
     andThen (find_hash_entry key htbl m) (\<lambda>pbkt.
     if pbkt = 0 then Inr None else andThen (hb_at pbkt m) (\<lambda>e. Inr (Some (hb_data e))))"

text \<open>
  The entry \<open>temp\<close> is taken out of bucket \<open>bk\<close>, where \<open>prev\<close> is the entry before it, and
  its block is freed; the copy of the key is not.
\<close>

definition unlink_entry :: "nat \<Rightarrow> hash_table \<Rightarrow> hmem \<Rightarrow> u32 \<Rightarrow> u32 \<Rightarrow> (int \<times> hash_table \<times> hmem) res" where
  "unlink_entry bk h m prev temp =
     andThen (hb_at temp m) (\<lambda>e.
     andThen (if prev \<noteq> 0
              then andThen (hb_at prev m) (\<lambda>p. Inr (h, put_hb prev (p\<lparr>hb_next := hb_next e\<rparr>) m))
              else Inr (h\<lparr>bucket_array := (bucket_array h)[bk := hb_next e]\<rparr>, m)) (\<lambda>(h, m).
     let h = h\<lparr>nentries := nentries h - 1\<rparr>;
         m = m\<lparr>hreleased := hb_data e # hreleased m\<rparr>
     in andThen (free_blk (hmem_pool_id h) temp (hpools m)) (\<lambda>(_, pls). Inr (0, h, m\<lparr>hpools := pls\<rparr>))))"

partial_function (option) delete_loop ::
    "nat \<Rightarrow> u8 list \<Rightarrow> hash_table \<Rightarrow> hmem \<Rightarrow> u32 \<Rightarrow> u32 \<Rightarrow> (int \<times> hash_table \<times> hmem) res option" where
  [code]: "delete_loop bk string h m prev temp =
     (if temp = 0 then Some (Inr (- 1, h, m))
      else case hb_at temp m of Inl e \<Rightarrow> Some (Inl e)
      | Inr e \<Rightarrow>
          if cmp_func h (hb_key e) string = 0 then Some (unlink_entry bk h m prev temp)
          else delete_loop bk string h m temp (hb_next e))"

definition hash_delete_entry :: "u8 list \<Rightarrow> hash_table option \<Rightarrow> hmem \<Rightarrow> (int \<times> hash_table option \<times> hmem) res" where
  "hash_delete_entry string htbl m =
     (case htbl of None \<Rightarrow> Inr (- 1, None, m)
      | Some h \<Rightarrow>
          let the_bucket = hash_index_gen h string in
          if the_bucket > nbuckets h then Inr (- 1, htbl, m)
          else andThen (bucket_at the_bucket h) (\<lambda>b.
               andThen (returned (delete_loop (nat the_bucket) string h m 0 b)) (\<lambda>(r, h, m). Inr (r, Some h, m))))"

text \<open>\<^verbatim>\<open>while (hentry && hentry->next)\<close>\<close>

partial_function (option) last_loop :: "hmem \<Rightarrow> u32 \<Rightarrow> u32 res option" where
  [code]: "last_loop m hentry =
     (if hentry = 0 then Some (Inr 0)
      else case hb_at hentry m of Inl e \<Rightarrow> Some (Inl e)
           | Inr e \<Rightarrow> if hb_next e = 0 then Some (Inr hentry) else last_loop m (hb_next e))"

text \<open>
  The end of \<^verbatim>\<open>hash_add_entry\<close>: the fields of the new entry are set.  \<open>kmem\<close> tells whether
  the memory for the key could be allocated, which the code does not check.
\<close>

definition fill_entry :: "bool \<Rightarrow> u8 list \<Rightarrow> nat \<Rightarrow> u32 \<Rightarrow> hash_table \<Rightarrow> hmem \<Rightarrow> (int \<times> hash_table option \<times> hmem) res" where
  "fill_entry kmem string data hentry h m =
     (if \<not> kmem \<and> 0 < key_len h then Inl NullDeref
      else if length string < key_len h then Inl OutOfBounds
      else Inr (0, Some (h\<lparr>nentries := nentries h + 1\<rparr>),
             (put_hb hentry \<lparr>hb_next = 0, hb_key = take (key_len h) string, hb_data = data\<rparr> m)\<lparr>hkeys := hkeys m + 1\<rparr>))"

definition hash_add_entry ::
    "bool \<Rightarrow> u8 list \<Rightarrow> hash_table option \<Rightarrow> nat \<Rightarrow> hmem \<Rightarrow> (int \<times> hash_table option \<times> hmem) res" where
  "hash_add_entry kmem string htbl data m =
     (case htbl of None \<Rightarrow> Inr (0, None, m)
      | Some h \<Rightarrow>
          andThen (find_hash_entry string htbl m) (\<lambda>hentry.
          if hentry \<noteq> 0 then Inr (0, htbl, m)
          else let bucket = hash_index_gen h string in
            if bucket > nbuckets h then Inr (- 1, htbl, m)
            else andThen (bucket_at bucket h) (\<lambda>b.
                 andThen (returned (last_loop m b)) (\<lambda>hentry.
                 andThen (alloc_block (hmem_pool_id h) (hpools m)) (\<lambda>(new, pls).
                 let m = m\<lparr>hpools := pls\<rparr> in
                 if hentry \<noteq> 0
                 then andThen (hb_at hentry m) (\<lambda>e.
                      let m = put_hb hentry (e\<lparr>hb_next := new\<rparr>) m in
                      if new = 0 then Inr (- 1, htbl, m) else fill_entry kmem string data new h m)
                 else let h = h\<lparr>bucket_array := (bucket_array h)[nat bucket := new]\<rparr> in
                      if new = 0 then Inr (- 1, Some h, m) else fill_entry kmem string data new h m)))))"

definition hash_tbl_add :: "bool \<Rightarrow> u8 list \<Rightarrow> hash_table option \<Rightarrow> nat \<Rightarrow> hmem \<Rightarrow> (int \<times> hash_table option \<times> hmem) res" where
  "hash_tbl_add kmem key htbl data m =
     andThen (hash_add_entry kmem key htbl data m) (\<lambda>(r, h, m). Inr (if r < 0 then - 1 else 0, h, m))"

definition hash_tbl_delete :: "u8 list \<Rightarrow> hash_table option \<Rightarrow> hmem \<Rightarrow> (int \<times> hash_table option \<times> hmem) res" where
  "hash_tbl_delete string htbl m =
     andThen (hash_delete_entry string htbl m) (\<lambda>(r, h, m). Inr (if r < 0 then - 1 else 0, h, m))"

text \<open>One chain of \<^verbatim>\<open>flush_hash_table\<close>.\<close>

partial_function (option) flush_chain :: "int \<Rightarrow> hmem \<Rightarrow> u32 \<Rightarrow> hmem res option" where
  [code]: "flush_chain pid m bucket =
     (if bucket = 0 then Some (Inr m)
      else case hb_at bucket m of Inl e \<Rightarrow> Some (Inl e)
      | Inr e \<Rightarrow>
          let m = m\<lparr>hreleased := hb_data e # hreleased m, hkeys := hkeys m - 1\<rparr> in
          (case free_blk pid bucket (hpools m) of Inl e \<Rightarrow> Some (Inl e)
           | Inr (_, pls) \<Rightarrow> flush_chain pid (m\<lparr>hpools := pls\<rparr>) (hb_next e)))"

function flush_from :: "nat \<Rightarrow> hash_table \<Rightarrow> hmem \<Rightarrow> (hash_table \<times> hmem) res" where
  "flush_from i h m =
     (if int i < nbuckets h
      then andThen (bucket_at (int i) h) (\<lambda>b.
           andThen (returned (flush_chain (hmem_pool_id h) m b)) (\<lambda>m.
             flush_from (Suc i) (h\<lparr>bucket_array := (bucket_array h)[i := 0]\<rparr>) m))
      else Inr (h, m))"
  by pat_completeness auto
termination
  by (relation "measure (\<lambda>(i, h, m). nat (nbuckets h - int i))") auto

declare flush_from.simps [simp del]

text \<open>\<^verbatim>\<open>nentries\<close> is not reset.\<close>

definition flush_hash_table :: "hash_table option \<Rightarrow> hmem \<Rightarrow> (hash_table option \<times> hmem) res" where
  "flush_hash_table htbl m =
     (case htbl of None \<Rightarrow> Inr (None, m)
      | Some h \<Rightarrow> andThen (flush_from 0 h m) (\<lambda>(h, m). Inr (Some h, m)))"

definition destroy_hash_table :: "hash_table option \<Rightarrow> hmem \<Rightarrow> (hash_table option \<times> hmem) res" where
  "destroy_hash_table htbl m =
     andThen (flush_hash_table htbl m) (\<lambda>(htbl, m).
     case htbl of None \<Rightarrow> Inl NullDeref
     | Some h \<Rightarrow> andThen (mem_pool_delete (hmem_pool_id h) (hpools m)) (\<lambda>(_, pls). Inr (htbl, m\<lparr>hpools := pls\<rparr>)))"

text \<open>\<^verbatim>\<open>hash_walk\<close>: the data passed to the callback, in order; the count is their number.\<close>

definition get_hash_bucket :: "nat \<Rightarrow> hash_table \<Rightarrow> u32 res" where
  "get_hash_bucket i h = (if int i < nbuckets h then bucket_at (int i) h else Inr 0)"

partial_function (option) walk_chain :: "hmem \<Rightarrow> u32 \<Rightarrow> nat list \<Rightarrow> nat list res option" where
  [code]: "walk_chain m bc acc =
     (if bc = 0 then Some (Inr acc)
      else case hb_at bc m of Inl e \<Rightarrow> Some (Inl e) | Inr e \<Rightarrow> walk_chain m (hb_next e) (acc @ [hb_data e]))"

function walk_from :: "nat \<Rightarrow> hash_table \<Rightarrow> hmem \<Rightarrow> nat list \<Rightarrow> nat list res" where
  "walk_from i h m acc =
     (if int i < nbuckets h
      then andThen (get_hash_bucket i h) (\<lambda>b. andThen (returned (walk_chain m b acc)) (walk_from (Suc i) h m))
      else Inr acc)"
  by pat_completeness auto
termination
  by (relation "measure (\<lambda>(i, h, m, acc). nat (nbuckets h - int i))") auto

declare walk_from.simps [simp del]

definition hash_walk :: "hash_table option \<Rightarrow> hmem \<Rightarrow> (int \<times> nat list) res" where
  "hash_walk htbl m =
     (case htbl of None \<Rightarrow> Inl NullDeref
      | Some h \<Rightarrow> andThen (walk_from 0 h m []) (\<lambda>ds. Inr (int (length ds), ds)))"

end
