(* ===== verification/HashProps.thy ===== *)
theory HashProps
  imports Hashlib
begin

text \<open>
  The hash table as a partial map from keys to data, with room for as many entries as it has
  buckets.
\<close>

section \<open>Chains\<close>

fun chain :: "hmem \<Rightarrow> u32 \<Rightarrow> u32 list \<Rightarrow> bool" where
  "chain m a [] \<longleftrightarrow> a = 0"
| "chain m a (x # xs) \<longleftrightarrow> a = x \<and> x \<noteq> 0 \<and> (\<exists>e. hbkts m x = Some e \<and> chain m (hb_next e) xs)"

abbreviation ent :: "hmem \<Rightarrow> u32 \<Rightarrow> hash_bucket" where
  "ent m x \<equiv> the (hbkts m x)"

definition assoc :: "hmem \<Rightarrow> u32 list \<Rightarrow> (u8 list \<times> nat) list" where
  "assoc m xs = map (\<lambda>x. (hb_key (ent m x), hb_data (ent m x))) xs"

lemma hb_at_Inr [simp]: "x \<noteq> 0 \<Longrightarrow> hbkts m x = Some e \<Longrightarrow> hb_at x m = Inr e"
  by (simp add: hb_at_def)

lemma chain_cong:
  assumes "\<And>x. x \<in> set xs \<Longrightarrow> hbkts m' x = hbkts m x"
  shows "chain m' a xs = chain m a xs"
  using assms by (induction xs arbitrary: a) auto

lemma assoc_cong:
  assumes "\<And>x. x \<in> set xs \<Longrightarrow> hbkts m' x = hbkts m x"
  shows "assoc m' xs = assoc m xs"
  using assms by (simp add: assoc_def)

lemma assoc_simps [simp]: "assoc m [] = []" "assoc m (x # xs) = (hb_key (ent m x), hb_data (ent m x)) # assoc m xs"
  "assoc m (xs @ ys) = assoc m xs @ assoc m ys"
  by (simp_all add: assoc_def)

lemma chain_mem: "chain m a xs \<Longrightarrow> x \<in> set xs \<Longrightarrow> x \<noteq> 0 \<and> hbkts m x \<noteq> None"
  by (induction xs arbitrary: a) auto

text \<open>The entry before a position, and the change of its link.\<close>

definition relink :: "u32 \<Rightarrow> u32 \<Rightarrow> hmem \<Rightarrow> hmem" where
  "relink x b m = put_hb x ((ent m x)\<lparr>hb_next := b\<rparr>) m"

definition apart :: "u32 set \<Rightarrow> bool" where
  "apart S \<longleftrightarrow> (\<forall>x\<in>S. \<forall>y\<in>S. x \<noteq> y \<longrightarrow> \<not> overlaps x y)"

lemma put_hb_same [simp]: "hbkts (put_hb a e m) a = Some e"
  by (simp add: put_hb_def)

lemma put_hb_other: "apart S \<Longrightarrow> a \<in> S \<Longrightarrow> x \<in> S \<Longrightarrow> x \<noteq> a \<Longrightarrow> hbkts (put_hb a e m) x = hbkts m x"
  by (auto simp: put_hb_def apart_def)

lemma put_hb_simps [simp]: "hpools (put_hb a e m) = hpools m" "hreleased (put_hb a e m) = hreleased m" "hkeys (put_hb a e m) = hkeys m"
  by (simp_all add: put_hb_def)

lemma chain_append:
  assumes "chain m a (xs @ x # ys)" and "apart S" and "set (xs @ [x]) \<subseteq> S" and "set zs \<subseteq> S - set (xs @ [x])"
    and "distinct (xs @ [x])" and "chain m b zs"
  shows "chain (relink x b m) a (xs @ x # zs)"
  using assms
proof (induction xs arbitrary: a)
  case Nil
  then have "chain (relink x b m) b zs"
    using put_hb_other [of S x] by (subst chain_cong [of zs "relink x b m" m]) (auto simp: relink_def)
  then show ?case using Nil by (auto simp: relink_def)
next
  case (Cons c xs)
  obtain e where e: "a = c" "c \<noteq> 0" "hbkts m c = Some e" "chain m (hb_next e) (xs @ x # ys)" using Cons.prems(1) by auto
  have "chain (relink x b m) (hb_next e) (xs @ x # zs)"
    using Cons.IH [OF e(4) Cons.prems(2)] Cons.prems by auto
  moreover have "hbkts (relink x b m) c = Some e"
    unfolding relink_def using Cons.prems e(3) by (subst put_hb_other [of S]) auto
  ultimately show ?case using e by simp
qed

lemma chain_suffix: "chain m a (xs @ x # ys) \<Longrightarrow> chain m (hb_next (ent m x)) ys"
  by (induction xs arbitrary: a) auto

lemma assoc_relink:
  assumes "apart S" and "x \<in> S" and "set xs \<subseteq> S" and "hbkts m x \<noteq> None"
  shows "assoc (relink x b m) xs = assoc m xs"
proof -
  have "hb_key (ent (relink x b m) y) = hb_key (ent m y) \<and> hb_data (ent (relink x b m) y) = hb_data (ent m y)" if "y \<in> S" for y
    using put_hb_other [OF assms(1,2) that] assms(4) by (cases "y = x") (auto simp: relink_def)
  then show ?thesis using assms(3) by (auto simp: assoc_def)
qed

section \<open>The loops on a chain\<close>

text \<open>The callbacks: the comparison tells equal keys, and the bucket depends on the key only.\<close>

definition callbacks_ok :: "hash_table \<Rightarrow> bool" where
  "callbacks_ok h \<longleftrightarrow>
     (\<forall>a b. cmp_func h a b = 0 \<longleftrightarrow> take (key_len h) a = take (key_len h) b) \<and>
     (\<forall>a. 0 \<le> hash_index_gen h a \<and> hash_index_gen h a < nbuckets h) \<and>
     (\<forall>a. hash_index_gen h (take (key_len h) a) = hash_index_gen h a)"

lemma find_loop_ok:
  assumes "callbacks_ok h" and "chain m a xs" and "\<forall>x\<in>set xs. length (hb_key (ent m x)) = key_len h"
  shows "find_loop h m k a =
     Some (Inr (case find (\<lambda>x. hb_key (ent m x) = take (key_len h) k) xs of None \<Rightarrow> 0 | Some x \<Rightarrow> x))"
  using assms(2,3)
proof (induction xs arbitrary: a)
  case Nil
  then show ?case by (subst find_loop.simps) simp
next
  case (Cons x xs)
  obtain e where e: "a = x" "x \<noteq> 0" "hbkts m x = Some e" "chain m (hb_next e) xs" using Cons.prems(1) by auto
  have "cmp_func h (hb_key e) k = 0 \<longleftrightarrow> hb_key e = take (key_len h) k"
    using assms(1) Cons.prems(2) e(3) by (auto simp: callbacks_ok_def)
  then show ?case using Cons e by (subst find_loop.simps) simp
qed

lemma find_assoc: "map_of (assoc m xs) k = map_option (\<lambda>x. hb_data (ent m x)) (find (\<lambda>x. hb_key (ent m x) = k) xs)"
  by (induction xs) auto

lemma last_loop_ok:
  assumes "chain m a xs"
  shows "last_loop m a = Some (Inr (if xs = [] then 0 else last xs))"
  using assms
proof (induction xs arbitrary: a)
  case Nil
  then show ?case by (subst last_loop.simps) simp
next
  case (Cons x xs)
  obtain e where e: "a = x" "x \<noteq> 0" "hbkts m x = Some e" "chain m (hb_next e) xs" using Cons.prems(1) by auto
  then have "hb_next e = 0 \<longleftrightarrow> xs = []" by (cases xs) auto
  then show ?case using Cons.IH [OF e(4)] e by (subst last_loop.simps) auto
qed


lemma delete_loop_ok:
  assumes "callbacks_ok h" and "chain m a xs" and "\<forall>x\<in>set xs. length (hb_key (ent m x)) = key_len h"
  shows "delete_loop bk k h m prev a = Some (
     case find (\<lambda>x. hb_key (ent m x) = take (key_len h) k) xs of None \<Rightarrow> Inr (- 1, h, m)
     | Some x \<Rightarrow> unlink_entry bk h m (last (prev # takeWhile (\<lambda>y. y \<noteq> x) xs)) x)"
  using assms(2,3)
proof (induction xs arbitrary: a prev)
  case Nil
  then show ?case by (subst delete_loop.simps) simp
next
  case (Cons x xs)
  let ?P = "\<lambda>x. hb_key (ent m x) = take (key_len h) k"
  obtain e where e: "a = x" "x \<noteq> 0" "hbkts m x = Some e" "chain m (hb_next e) xs" using Cons.prems(1) by auto
  have eq: "cmp_func h (hb_key e) k = 0 \<longleftrightarrow> ?P x"
    using assms(1) Cons.prems(2) e(3) by (auto simp: callbacks_ok_def)
  show ?case
  proof (cases "?P x")
    case True
    then show ?thesis using eq e by (subst delete_loop.simps) simp
  next
    case False
    have "x \<noteq> y" if "find ?P xs = Some y" for y using that False by (auto simp: find_Some_iff)
    then show ?thesis using Cons.IH [OF e(4), of x] Cons.prems(2) eq e False
      by (subst delete_loop.simps) (auto split: option.splits)
  qed
qed

section \<open>The pool of a table\<close>

definition hash_pool :: "hash_table \<Rightarrow> mempool \<Rightarrow> u32 set \<Rightarrow> bool" where
  "hash_pool h pls S \<longleftrightarrow> (\<exists>as a p. mcbs_ok pls as \<and> a \<in> set as \<and> mcbs pls a = Some p \<and> memid p = hmem_pool_id h \<and>
     ctl_ok p \<and> nblks p = nbuckets h \<and> sizeof_hash_bucket_t \<le> unat (msize p) \<and> ctl_handles p - ctl_free p = S)"

lemma handles_apart:
  assumes ok: "ctl_ok p" and z: "sizeof_hash_bucket_t \<le> unat (msize p)"
  shows "apart (ctl_handles p)"
proof -
  have a: "area_ok p" using ok by (simp add: ctl_ok_def pool_ok_def)
  have "\<not> overlaps (blk p i) (blk p j)" if ij: "i < nat (nblks p)" "j < nat (nblks p)" "i \<noteq> j" for i j
  proof -
    have "i * unat (msize p) + unat (msize p) \<le> j * unat (msize p) \<or> j * unat (msize p) + unat (msize p) \<le> i * unat (msize p)"
      using ij(3) mult_le_mono1 [of "Suc i" j "unat (msize p)"] mult_le_mono1 [of "Suc j" i "unat (msize p)"]
      by (cases i j rule: linorder_cases) auto
    then show ?thesis using blk_unat [OF a ij(1)] blk_unat [OF a ij(2)] z by (auto simp: overlaps_def)
  qed
  then show ?thesis unfolding apart_def ctl_handles_def by blast
qed

lemma hash_pool_apart: "hash_pool h pls S \<Longrightarrow> apart S"
  unfolding hash_pool_def apart_def using handles_apart unfolding apart_def by blast

lemma hash_pool_alloc:
  assumes "hash_pool h pls S"
  shows "\<exists>new pls'. alloc_block (hmem_pool_id h) pls = Inr (new, pls') \<and>
     (if card S < nat (nbuckets h) then new \<noteq> 0 \<and> new \<notin> S \<and> hash_pool h pls' (insert new S) else new = 0 \<and> pls' = pls)"
proof -
  obtain as a p where p: "mcbs_ok pls as" "a \<in> set as" "mcbs pls a = Some p" "memid p = hmem_pool_id h"
    "ctl_ok p" "nblks p = nbuckets h" "sizeof_hash_bucket_t \<le> unat (msize p)" "ctl_handles p - ctl_free p = S"
    using assms by (auto simp: hash_pool_def)
  note al = alloc_block_eq [OF p(1-3), unfolded p(4)]
  note fin = ctl.fin [OF p(5)]
  have fe: "fblks p = 0 \<longleftrightarrow> ctl_free p = {}" using pool_free_empty p(5) by (auto simp: ctl_ok_def ctl_free_def)
  show ?thesis
  proof (cases "fblks p = 0")
    case True
    then have "S = ctl_handles p" using fe p(8) by simp
    then have "\<not> card S < nat (nbuckets h)" using card_handles [OF p(5)] p(6) by simp
    moreover have "alloc_from p = Inr (0, p)" using True by (simp add: alloc_from_def)
    ultimately show ?thesis using al p(3) by (simp add: fun_upd_idem)
  next
    case False
    obtain b p' where b: "alloc_from p = Inr (b, p')" "b \<noteq> 0" "b \<in> ctl_free p" "ctl_ok p'" "ctl_handles p' = ctl_handles p"
      "ctl_free p' = ctl_free p - {b}" "memid p' = memid p" "nblks p' = nblks p" "msize p' = msize p"
      using alloc_from_ctl [OF p(5) False] by metis
    have "S \<subset> ctl_handles p" using p(8) fin b(3) by auto
    then have "card S < nat (nbuckets h)" using card_handles [OF p(5)] p(6) fin by (metis psubset_card_mono)
    moreover have "hash_pool h (pls\<lparr>mcbs := (mcbs pls)(a \<mapsto> p')\<rparr>) (insert b S)"
      unfolding hash_pool_def using mcbs_ok_update [OF p(1,3)] p b fin
      by (intro exI [of _ as] exI [of _ a] exI [of _ p']) auto
    moreover have "b \<notin> S" using b(3) p(8) by blast
    ultimately show ?thesis using al b(1,2) by auto
  qed
qed

lemma hash_pool_release:
  assumes "hash_pool h pls S" and "x \<in> S"
  shows "\<exists>pls'. free_blk (hmem_pool_id h) x pls = Inr (0, pls') \<and> hash_pool h pls' (S - {x})"
proof -
  obtain as a p where p: "mcbs_ok pls as" "a \<in> set as" "mcbs pls a = Some p" "memid p = hmem_pool_id h"
    "ctl_ok p" "nblks p = nbuckets h" "sizeof_hash_bucket_t \<le> unat (msize p)" "ctl_handles p - ctl_free p = S"
    using assms(1) by (auto simp: hash_pool_def)
  have "x \<in> ctl_handles p - ctl_free p" using assms(2) p(8) by simp
  then obtain p' where f: "free_to x p = Inr (0, p')" "ctl_ok p'" "ctl_handles p' = ctl_handles p" "ctl_free p' = insert x (ctl_free p)"
    "memid p' = memid p" "nblks p' = nblks p" "msize p' = msize p" using free_to_ctl [OF p(5)] by metis
  then have "hash_pool h (pls\<lparr>mcbs := (mcbs pls)(a \<mapsto> p')\<rparr>) (S - {x})"
    unfolding hash_pool_def using mcbs_ok_update [OF p(1,3)] p
    by (intro exI [of _ as] exI [of _ a] exI [of _ p']) auto
  then show ?thesis using free_blk_eq [OF p(1-3), unfolded p(4)] f(1) by auto
qed


section \<open>The invariant\<close>

definition bucket_ok :: "hash_table \<Rightarrow> hmem \<Rightarrow> nat \<Rightarrow> u32 list \<Rightarrow> bool" where
  "bucket_ok h m i xs \<longleftrightarrow> chain m (bucket_array h ! i) xs \<and> distinct xs \<and> distinct (map (\<lambda>x. hb_key (ent m x)) xs) \<and>
     (\<forall>x\<in>set xs. length (hb_key (ent m x)) = key_len h \<and> hash_index_gen h (hb_key (ent m x)) = int i)"

definition hash_inv :: "hash_table \<Rightarrow> hmem \<Rightarrow> (nat \<Rightarrow> u32 list) \<Rightarrow> bool" where
  "hash_inv h m f \<longleftrightarrow> callbacks_ok h \<and> length (bucket_array h) = nat (nbuckets h) \<and>
     (\<forall>i<nat (nbuckets h). bucket_ok h m i (f i)) \<and>
     (\<forall>i<nat (nbuckets h). \<forall>j<nat (nbuckets h). i \<noteq> j \<longrightarrow> set (f i) \<inter> set (f j) = {}) \<and>
     nentries h = int (\<Sum>i<nat (nbuckets h). length (f i)) \<and> hash_pool h (hpools m) (\<Union>i<nat (nbuckets h). set (f i))"

text \<open>The partial map a table stands for.\<close>

definition tbl :: "hash_table \<Rightarrow> hmem \<Rightarrow> (nat \<Rightarrow> u32 list) \<Rightarrow> u8 list \<rightharpoonup> nat" where
  "tbl h m f k = map_of (assoc m (f (nat (hash_index_gen h k)))) k"

lemma hash_invD:
  assumes "hash_inv h m f"
  shows "callbacks_ok h" and "length (bucket_array h) = nat (nbuckets h)"
    and "\<And>i. i < nat (nbuckets h) \<Longrightarrow> bucket_ok h m i (f i)"
    and "\<And>i j. i < nat (nbuckets h) \<Longrightarrow> j < nat (nbuckets h) \<Longrightarrow> i \<noteq> j \<Longrightarrow> set (f i) \<inter> set (f j) = {}"
    and "nentries h = int (\<Sum>i<nat (nbuckets h). length (f i))"
    and "hash_pool h (hpools m) (\<Union>i<nat (nbuckets h). set (f i))"
  using assms by (simp_all add: hash_inv_def)

lemma bucket_okD:
  assumes "bucket_ok h m i xs"
  shows "chain m (bucket_array h ! i) xs" and "distinct xs" and "distinct (map (\<lambda>x. hb_key (ent m x)) xs)"
    and "\<forall>x\<in>set xs. length (hb_key (ent m x)) = key_len h" and "x \<in> set xs \<Longrightarrow> hash_index_gen h (hb_key (ent m x)) = int i"
  using assms by (simp_all add: bucket_ok_def)

lemma hash_index:
  assumes "callbacks_ok h" and "length (bucket_array h) = nat (nbuckets h)"
  shows "nat (hash_index_gen h k) < nat (nbuckets h)" and "int (nat (hash_index_gen h k)) = hash_index_gen h k"
    and "\<not> nbuckets h < hash_index_gen h k" and "bucket_at (hash_index_gen h k) h = Inr (bucket_array h ! nat (hash_index_gen h k))"
    and "hash_index_gen h (take (key_len h) k) = hash_index_gen h k"
proof -
  have b: "0 \<le> hash_index_gen h k" "hash_index_gen h k < nbuckets h" using assms(1) by (auto simp: callbacks_ok_def)
  then show "nat (hash_index_gen h k) < nat (nbuckets h)" "int (nat (hash_index_gen h k)) = hash_index_gen h k"
    "\<not> nbuckets h < hash_index_gen h k" by simp_all
  show "bucket_at (hash_index_gen h k) h = Inr (bucket_array h ! nat (hash_index_gen h k))"
    using b assms(2) by (simp add: bucket_at_def)
  show "hash_index_gen h (take (key_len h) k) = hash_index_gen h k" using assms(1) by (simp add: callbacks_ok_def)
qed

text \<open>The entry of a key.\<close>

definition entry_of :: "hash_table \<Rightarrow> hmem \<Rightarrow> (nat \<Rightarrow> u32 list) \<Rightarrow> u8 list \<Rightarrow> u32 option" where
  "entry_of h m f k = find (\<lambda>x. hb_key (ent m x) = take (key_len h) k) (f (nat (hash_index_gen h k)))"

lemma find_hash_entry_ok:
  assumes "hash_inv h m f"
  shows "find_hash_entry k (Some h) m = Inr (case entry_of h m f k of None \<Rightarrow> 0 | Some x \<Rightarrow> x)"
    and "tbl h m f (take (key_len h) k) = map_option (\<lambda>x. hb_data (ent m x)) (entry_of h m f k)"
    and "entry_of h m f k = Some x \<Longrightarrow> x \<noteq> 0 \<and> hbkts m x \<noteq> None"
proof -
  note D = hash_invD [OF assms]
  note I = hash_index [OF D(1,2), of k] and B = bucket_okD [OF D(3) [OF hash_index(1) [OF D(1,2), of k]]]
  show "find_hash_entry k (Some h) m = Inr (case entry_of h m f k of None \<Rightarrow> 0 | Some x \<Rightarrow> x)"
    using I(3,4) find_loop_ok [OF D(1) B(1,4)] by (simp add: find_hash_entry_def entry_of_def returned_def)
  show "tbl h m f (take (key_len h) k) = map_option (\<lambda>x. hb_data (ent m x)) (entry_of h m f k)"
    unfolding tbl_def entry_of_def I(5) by (rule find_assoc)
  assume "entry_of h m f k = Some x"
  then have "x \<in> set (f (nat (hash_index_gen h k)))" by (auto simp: entry_of_def find_Some_iff)
  then show "x \<noteq> 0 \<and> hbkts m x \<noteq> None" using chain_mem [OF B(1)] by blast
qed

lemma hash_tbl_lookup_ok:
  assumes "hash_inv h m f"
  shows "hash_tbl_lookup k (Some h) m = Inr (tbl h m f (take (key_len h) k))"
  using find_hash_entry_ok [OF assms, of k]
  by (auto simp: hash_tbl_lookup_def split: option.splits)

section \<open>Changing one bucket\<close>

definition same_table :: "hash_table \<Rightarrow> hash_table \<Rightarrow> bool" where
  "same_table h h' \<longleftrightarrow> cmp_func h' = cmp_func h \<and> hash_index_gen h' = hash_index_gen h \<and> key_len h' = key_len h \<and>
     nbuckets h' = nbuckets h \<and> hmem_pool_id h' = hmem_pool_id h"

lemma hash_inv_upd:
  assumes inv: "hash_inv h m f" and j: "j < nat (nbuckets h)" and h': "same_table h h'"
    and arr: "length (bucket_array h') = length (bucket_array h)" "\<And>i. i \<noteq> j \<Longrightarrow> bucket_array h' ! i = bucket_array h ! i"
    and mem: "\<And>i x. i < nat (nbuckets h) \<Longrightarrow> i \<noteq> j \<Longrightarrow> x \<in> set (f i) \<Longrightarrow> hbkts m' x = hbkts m x"
    and new: "bucket_ok h' m' j ys" "\<And>i. i < nat (nbuckets h) \<Longrightarrow> i \<noteq> j \<Longrightarrow> set ys \<inter> set (f i) = {}"
    and cnt: "nentries h' + int (length (f j)) = nentries h + int (length ys)"
    and pool: "hash_pool h (hpools m') (\<Union>i<nat (nbuckets h). set ((f(j := ys)) i))"
  shows "hash_inv h' m' (f(j := ys))"
    and "tbl h' m' (f(j := ys)) k = (if nat (hash_index_gen h k) = j then map_of (assoc m' ys) k else tbl h m f k)"
proof -
  note D = hash_invD [OF inv]
  have fr: "cmp_func h' = cmp_func h" "hash_index_gen h' = hash_index_gen h" "key_len h' = key_len h" "nbuckets h' = nbuckets h"
    "hmem_pool_id h' = hmem_pool_id h" using h' by (simp_all add: same_table_def)
  have b: "bucket_ok h' m' i ((f(j := ys)) i)" if i: "i < nat (nbuckets h)" for i
  proof (cases "i = j")
    case False
    have same: "hbkts m' x = hbkts m x" if "x \<in> set (f i)" for x using mem [OF i False that] .
    then show ?thesis
      using D(3) [OF i] False chain_cong [OF same] arr(2) [OF False] fr by (simp add: bucket_ok_def cong: map_cong)
  qed (use new(1) in simp)
  have "(\<Sum>i<nat (nbuckets h). length ((f(j := ys)) i)) + length (f j) = (\<Sum>i<nat (nbuckets h). length (f i)) + length ys"
    by (rule sum_lengths_upd [OF j])
  then have "int (\<Sum>i<nat (nbuckets h). length ((f(j := ys)) i)) + int (length (f j)) = int (\<Sum>i<nat (nbuckets h). length (f i)) + int (length ys)"
    by linarith
  then have n: "nentries h' = int (\<Sum>i<nat (nbuckets h). length ((f(j := ys)) i))"
    using cnt D(5) by linarith
  have disj: "set ((f(j := ys)) i) \<inter> set ((f(j := ys)) l) = {}" if "i < nat (nbuckets h)" "l < nat (nbuckets h)" "i \<noteq> l" for i l
    using that new(2) [of i] new(2) [of l] D(4) by (cases "i = j"; cases "l = j") auto
  have "hash_pool h' (hpools m') (\<Union>i<nat (nbuckets h). set ((f(j := ys)) i))" using pool fr by (simp add: hash_pool_def)
  then show "hash_inv h' m' (f(j := ys))"
    unfolding hash_inv_def fr(4) using b n disj D(1,2) arr(1) fr by (simp add: callbacks_ok_def del: fun_upd_apply)
  have "assoc m' (f (nat (hash_index_gen h k))) = assoc m (f (nat (hash_index_gen h k)))" if "nat (hash_index_gen h k) \<noteq> j"
    using mem [OF hash_index(1) [OF D(1,2)] that] by (rule assoc_cong)
  then show "tbl h' m' (f(j := ys)) k = (if nat (hash_index_gen h k) = j then map_of (assoc m' ys) k else tbl h m f k)"
    by (simp add: tbl_def fr)
qed


text \<open>A new entry at the end of a chain.\<close>

lemma chain_snoc:
  assumes ch: "chain m a xs" and d: "distinct xs" and S: "apart S" "set xs \<subseteq> S" "new \<in> S" and new: "new \<notin> set xs" "new \<noteq> 0" "hb_next e = 0"
    and m': "m' = put_hb new e (if xs = [] then m else relink (last xs) new m)"
  shows "chain m' (if xs = [] then new else a) (xs @ [new])" and "x \<in> set xs \<Longrightarrow> hb_key (ent m' x) = hb_key (ent m x) \<and> hb_data (ent m' x) = hb_data (ent m x)"
    and "x \<in> S \<Longrightarrow> x \<notin> set (xs @ [new]) \<Longrightarrow> hbkts m' x = hbkts m x" and "hbkts m' new = Some e"
proof -
  show at: "hbkts m' new = Some e" by (simp add: m')
  have live: "hbkts m y \<noteq> None" if "y \<in> set xs" for y using chain_mem [OF ch that] by simp
  have other: "hbkts m' y = hbkts (if xs = [] then m else relink (last xs) new m) y" if "y \<in> S" "y \<noteq> new" for y
    unfolding m' using put_hb_other [OF S(1,3) that] .
  have last: "xs \<noteq> [] \<Longrightarrow> last xs \<in> S" using S(2) by auto
  show "hbkts m' x = hbkts m x" if "x \<in> S" "x \<notin> set (xs @ [new])"
  proof -
    have "xs \<noteq> [] \<Longrightarrow> x \<noteq> last xs" using that(2) by auto
    then show ?thesis
      using other [OF that(1)] that put_hb_other [OF S(1) last that(1)] by (cases "xs = []") (simp_all add: relink_def)
  qed
  show "hb_key (ent m' x) = hb_key (ent m x) \<and> hb_data (ent m' x) = hb_data (ent m x)" if "x \<in> set xs"
  proof -
    have "x \<in> S" "x \<noteq> new" "xs \<noteq> []" using that S(2) new(1) by auto
    then show ?thesis using other [of x] put_hb_other [OF S(1) last, of x] by (cases "x = last xs") (auto simp: relink_def)
  qed
  show "chain m' (if xs = [] then new else a) (xs @ [new])"
  proof (cases xs rule: rev_cases)
    case Nil
    then show ?thesis using at new by simp
  next
    case (snoc us l)
    let ?m0 = "put_hb new e m"
    have "\<not> overlaps l new" "\<not> overlaps new l" "l \<noteq> new" using S new(1) snoc by (auto simp: apart_def)
    then have comm: "m' = relink l new ?m0" using snoc by (simp add: m' relink_def put_hb_def fun_eq_iff)
    have same: "hbkts ?m0 y = hbkts m y" if "y \<in> set xs" for y using put_hb_other [OF S(1,3)] that S(2) new(1) by blast
    have c0: "chain ?m0 a (us @ l # [])" using ch same chain_cong [of xs ?m0 m] snoc by simp
    have c1: "chain ?m0 new [new]" using new by simp
    have "chain (relink l new ?m0) a (us @ l # [new])"
      by (rule chain_append [OF c0 S(1) _ _ _ c1]) (use snoc S d new in auto)
    then show ?thesis using comm snoc by simp
  qed
qed

lemma add_bucket_ok:
  assumes b: "bucket_ok h m i xs" and S: "apart S" "set xs \<subseteq> S" "new \<in> S" and new: "new \<notin> set xs" "new \<noteq> 0" "hb_next e = 0"
    and m': "m' = put_hb new e (if xs = [] then m else relink (last xs) new m)"
    and key: "length (hb_key e) = key_len h" "hash_index_gen h (hb_key e) = int i" "map_of (assoc m xs) (hb_key e) = None"
    and h': "same_table h h'" "bucket_array h' ! i = (if xs = [] then new else bucket_array h ! i)"
  shows "bucket_ok h' m' i (xs @ [new])" and "assoc m' (xs @ [new]) = assoc m xs @ [(hb_key e, hb_data e)]"
proof -
  note B = bucket_okD [OF b] and C = chain_snoc [OF bucket_okD(1,2) [OF b] S new m']
  have keys: "map (\<lambda>x. hb_key (ent m' x)) xs = map (\<lambda>x. hb_key (ent m x)) xs" using C(2) by simp
  have "hb_key e \<notin> set (map (\<lambda>x. hb_key (ent m x)) xs)" using key(3) by (force simp: map_of_eq_None_iff assoc_def)
  then have d: "distinct (map (\<lambda>x. hb_key (ent m' x)) (xs @ [new]))" using B(3) C(4) unfolding map_append keys by simp
  have ch: "chain m' (bucket_array h' ! i) (xs @ [new])" unfolding h'(2) by (rule C(1))
  have "\<forall>x\<in>set (xs @ [new]). length (hb_key (ent m' x)) = key_len h' \<and> hash_index_gen h' (hb_key (ent m' x)) = int i"
    using B(4,5) C(2,4) key(1,2) h'(1) by (auto simp: same_table_def)
  then show "bucket_ok h' m' i (xs @ [new])" using ch d B(2) new(1) by (simp add: bucket_ok_def)
  have "assoc m' xs = assoc m xs" using C(2) by (simp add: assoc_def)
  then show "assoc m' (xs @ [new]) = assoc m xs @ [(hb_key e, hb_data e)]" using C(4) by simp
qed


section \<open>Adding\<close>

lemma fill_entry_ok:
  assumes "kmem" and "key_len h \<le> length k"
  shows "fill_entry kmem k d new h m = Inr (0, Some (h\<lparr>nentries := nentries h + 1\<rparr>),
     (put_hb new \<lparr>hb_next = 0, hb_key = take (key_len h) k, hb_data = d\<rparr> m)\<lparr>hkeys := hkeys m + 1\<rparr>)"
  using assms by (simp add: fill_entry_def)

text \<open>What \<^verbatim>\<open>hash_add_entry\<close> does when the key is new.\<close>

lemma hash_add_entry_new:
  assumes inv: "hash_inv h m f" and none: "entry_of h m f k = None" and al: "alloc_block (hmem_pool_id h) (hpools m) = Inr (new, pls)"
    and ok: "kmem" "key_len h \<le> length k" and j: "j = nat (hash_index_gen h k)"
    and e: "e = \<lparr>hb_next = 0, hb_key = take (key_len h) k, hb_data = d\<rparr>"
  shows "new \<noteq> 0 \<Longrightarrow> \<exists>h' m'. hash_add_entry kmem k (Some h) d m = Inr (0, Some h', m') \<and> same_table h h' \<and>
       bucket_array h' = (if f j = [] then (bucket_array h)[j := new] else bucket_array h) \<and> nentries h' = nentries h + 1 \<and>
       hpools m' = pls \<and> hbkts m' = hbkts (put_hb new e (if f j = [] then m else relink (last (f j)) new m))"
    and "new = 0 \<Longrightarrow> pls = hpools m \<Longrightarrow> \<exists>h' m'. hash_add_entry kmem k (Some h) d m = Inr (- 1, Some h', m') \<and> same_table h h' \<and>
       bucket_array h' = (if f j = [] then (bucket_array h)[j := 0] else bucket_array h) \<and> nentries h' = nentries h \<and>
       hpools m' = hpools m \<and> hbkts m' = hbkts (if f j = [] then m else relink (last (f j)) 0 m)"
proof -
  note D = hash_invD [OF inv]
  note I = hash_index [OF D(1,2), of k]
  note B = bucket_okD [OF D(3) [OF I(1)], folded j]
  note F = find_hash_entry_ok [OF inv, of k]
  have last: "last_loop m (bucket_array h ! j) = Some (Inr (if f j = [] then 0 else last (f j)))" by (rule last_loop_ok [OF B(1)])
  have l: "last (f j) \<noteq> 0 \<and> hbkts m (last (f j)) \<noteq> None" if "f j \<noteq> []" using chain_mem [OF B(1)] that by simp
  note S = hash_add_entry_def F(1) none I(3) I(4) [folded j] last returned_def al Let_def hb_at_def
  show "\<exists>h' m'. hash_add_entry kmem k (Some h) d m = Inr (0, Some h', m') \<and> same_table h h' \<and>
       bucket_array h' = (if f j = [] then (bucket_array h)[j := new] else bucket_array h) \<and> nentries h' = nentries h + 1 \<and>
       hpools m' = pls \<and> hbkts m' = hbkts (put_hb new e (if f j = [] then m else relink (last (f j)) new m))" if "new \<noteq> 0"
  proof (cases "f j = []")
    case True
    then show ?thesis
      using that ok by (simp add: S fill_entry_ok same_table_def e put_hb_def fun_eq_iff flip: j)
  next
    case False
    then show ?thesis
      using that ok l by (auto simp: S fill_entry_ok same_table_def e put_hb_def relink_def fun_eq_iff)
  qed
  show "\<exists>h' m'. hash_add_entry kmem k (Some h) d m = Inr (- 1, Some h', m') \<and> same_table h h' \<and>
       bucket_array h' = (if f j = [] then (bucket_array h)[j := 0] else bucket_array h) \<and> nentries h' = nentries h \<and>
       hpools m' = hpools m \<and> hbkts m' = hbkts (if f j = [] then m else relink (last (f j)) 0 m)" if "new = 0" "pls = hpools m"
  proof (cases "f j = []")
    case True
    then show ?thesis using that by (simp add: S same_table_def flip: j)
  next
    case False
    then show ?thesis using that l by (auto simp: S same_table_def put_hb_def relink_def fun_eq_iff)
  qed
qed


lemma union_upd: "j < n \<Longrightarrow> (\<Union>i<n. set ((f(j := ys)) i)) = set ys \<union> (\<Union>i\<in>{..<n} - {j}. set (f i))"
  by (auto split: if_splits)

lemma entries_card:
  assumes "hash_inv h m f"
  shows "nentries h = int (card (\<Union>i<nat (nbuckets h). set (f i)))"
proof -
  note D = hash_invD [OF assms]
  have "card (\<Union>i<nat (nbuckets h). set (f i)) = (\<Sum>i<nat (nbuckets h). card (set (f i)))"
    by (rule card_UN_disjoint) (use D(4) in auto)
  also have "\<dots> = (\<Sum>i<nat (nbuckets h). length (f i))"
    by (rule sum.cong) (use bucket_okD(2) [OF D(3)] in \<open>auto simp: distinct_card\<close>)
  finally show ?thesis using D(5) by simp
qed

lemma dom_assoc: "dom (map_of (assoc m xs)) = (\<lambda>x. hb_key (ent m x)) ` set xs"
  by (simp add: dom_map_of_conv_image_fst assoc_def image_image)

lemma tbl_card:
  assumes "hash_inv h m f"
  shows "nentries h = int (card (dom (tbl h m f)))"
proof -
  note D = hash_invD [OF assms]
  let ?n = "nat (nbuckets h)" and ?k = "\<lambda>x. hb_key (ent m x)"
  have dom: "dom (tbl h m f) = (\<Union>i<?n. ?k ` set (f i))"
  proof (rule set_eqI)
    fix k
    have "k \<in> dom (tbl h m f) \<longleftrightarrow> k \<in> ?k ` set (f (nat (hash_index_gen h k)))"
      unfolding dom_assoc [symmetric] by (simp add: tbl_def dom_def)
    also have "\<dots> \<longleftrightarrow> k \<in> (\<Union>i<?n. ?k ` set (f i))"
      using hash_index(1) [OF D(1,2), of k] bucket_okD(5) [OF D(3)] by force
    finally show "k \<in> dom (tbl h m f) \<longleftrightarrow> k \<in> (\<Union>i<?n. ?k ` set (f i))" .
  qed
  have "card (\<Union>i<?n. ?k ` set (f i)) = (\<Sum>i<?n. card (?k ` set (f i)))"
  proof (rule card_UN_disjoint)
    have "?k ` set (f i) \<inter> ?k ` set (f j) = {}" if "i < ?n" "j < ?n" "i \<noteq> j" for i j
      using bucket_okD(5) [OF D(3) [OF that(1)]] bucket_okD(5) [OF D(3) [OF that(2)]] that(3) by force
    then show "\<forall>i\<in>{..<?n}. \<forall>j\<in>{..<?n}. i \<noteq> j \<longrightarrow> ?k ` set (f i) \<inter> ?k ` set (f j) = {}" by simp
  qed auto
  also have "\<dots> = (\<Sum>i<?n. length (f i))"
    using bucket_okD(2,3) [OF D(3)] by (intro sum.cong) (auto simp: distinct_map card_image distinct_card)
  finally show ?thesis using D(5) dom by simp
qed

text \<open>The specification: a map with a bounded number of keys; a key that is there keeps its data.\<close>

definition spec_add :: "nat \<Rightarrow> 'k \<Rightarrow> 'v \<Rightarrow> ('k \<rightharpoonup> 'v) \<Rightarrow> int \<times> ('k \<rightharpoonup> 'v)" where
  "spec_add c k d M = (if M k \<noteq> None then (0, M) else if card (dom M) < c then (0, M(k \<mapsto> d)) else (- 1, M))"

definition spec_delete :: "'k \<Rightarrow> ('k \<rightharpoonup> 'v) \<Rightarrow> int \<times> ('k \<rightharpoonup> 'v)" where
  "spec_delete k M = (if M k \<noteq> None then (0, M(k := None)) else (- 1, M))"

lemma add_room:
  assumes inv: "hash_inv h m f" and none: "entry_of h m f k = None" and room: "nentries h < nbuckets h"
    and ok: "kmem" "key_len h \<le> length k"
  shows "\<exists>h' m' f'. hash_add_entry kmem k (Some h) d m = Inr (0, Some h', m') \<and> hash_inv h' m' f' \<and> same_table h h' \<and>
     tbl h' m' f' = (tbl h m f)(take (key_len h) k \<mapsto> d)"
proof -
  note D = hash_invD [OF inv]
  note I = hash_index [OF D(1,2), of k]
  define j where "j = nat (hash_index_gen h k)"
  define e where "e = \<lparr>hb_next = 0, hb_key = take (key_len h) k, hb_data = d\<rparr>"
  let ?S = "\<Union>i<nat (nbuckets h). set (f i)" and ?K = "take (key_len h) k"
  have jn: "j < nat (nbuckets h)" using I(1) by (simp add: j_def)
  note B = D(3) [OF jn]
  have "card ?S < nat (nbuckets h)" using room entries_card [OF inv] by simp
  then obtain new pls where al: "alloc_block (hmem_pool_id h) (hpools m) = Inr (new, pls)" "new \<noteq> 0" "new \<notin> ?S"
    "hash_pool h pls (insert new ?S)" using hash_pool_alloc [OF D(6)] by auto
  obtain h' m' where r: "hash_add_entry kmem k (Some h) d m = Inr (0, Some h', m')" "same_table h h'"
    "bucket_array h' = (if f j = [] then (bucket_array h)[j := new] else bucket_array h)" "nentries h' = nentries h + 1"
    "hpools m' = pls" "hbkts m' = hbkts (put_hb new e (if f j = [] then m else relink (last (f j)) new m))"
    using hash_add_entry_new(1) [OF inv none al(1) ok j_def e_def al(2)] by blast
  let ?m = "put_hb new e (if f j = [] then m else relink (last (f j)) new m)"
  have S: "apart (insert new ?S)" "set (f j) \<subseteq> insert new ?S" "new \<in> insert new ?S" using hash_pool_apart [OF al(4)] jn by auto
  have out: "new \<notin> set (f i)" if "i < nat (nbuckets h)" for i using al(3) that by auto
  have e: "hb_next e = 0" "length (hb_key e) = key_len h" "hash_index_gen h (hb_key e) = int j" "hb_key e = ?K"
    using ok(2) I(2,5) by (simp_all add: e_def j_def)
  have noK: "map_of (assoc m (f j)) (hb_key e) = None"
    using find_hash_entry_ok(2) [OF inv, of k] none I(5) e(4) by (simp add: tbl_def j_def)
  have arr: "bucket_array h' ! j = (if f j = [] then new else bucket_array h ! j)" using r(3) jn D(2) by simp
  note A = add_bucket_ok [OF B S out [OF jn] al(2) e(1) refl e(2,3) noK r(2) arr]
  note C = chain_snoc(3) [OF bucket_okD(1,2) [OF B] S out [OF jn] al(2) e(1) refl]
  have m': "bucket_ok h' m' j (f j @ [new])" "assoc m' (f j @ [new]) = assoc m (f j) @ [(?K, d)]"
    using A r(6) chain_cong [of "f j @ [new]" m' ?m] by (simp_all add: bucket_ok_def assoc_def e_def)
  have mem: "hbkts m' x = hbkts m x" if "i < nat (nbuckets h)" "i \<noteq> j" "x \<in> set (f i)" for i x
    unfolding r(6) by (rule C) (use that D(4) [OF that(1) jn that(2)] out in auto)
  have "(\<Union>i<nat (nbuckets h). set ((f(j := f j @ [new])) i)) = insert new ?S" using jn by (auto split: if_splits)
  then have pool: "hash_pool h (hpools m') (\<Union>i<nat (nbuckets h). set ((f(j := f j @ [new])) i))" using al(4) r(5) by simp
  note U = hash_inv_upd [OF inv jn r(2) _ _ mem m'(1) _ _ pool]
  have "hash_inv h' m' (f(j := f j @ [new]))"
    by (rule U(1)) (use r(3,4) D(4) [OF _ jn] out in \<open>auto simp: nth_list_update\<close>)
  moreover have "tbl h' m' (f(j := f j @ [new])) = (tbl h m f)(?K \<mapsto> d)"
  proof
    fix q
    have "tbl h' m' (f(j := f j @ [new])) q = (if nat (hash_index_gen h q) = j then map_of (assoc m' (f j @ [new])) q else tbl h m f q)"
      by (rule U(2)) (use r(3,4) D(4) [OF _ jn] out in \<open>auto simp: nth_list_update\<close>)
    then show "tbl h' m' (f(j := f j @ [new])) q = ((tbl h m f)(?K \<mapsto> d)) q"
      using m'(2) I(5) noK e(4) by (auto simp: tbl_def j_def map_add_def split: option.splits)
  qed
  ultimately show ?thesis using r(1,2) by blast
qed


lemma last_next:
  assumes "chain m a xs" and "xs \<noteq> []"
  shows "hb_next (ent m (last xs)) = 0"
  using assms by (induction xs arbitrary: a) auto

lemma add_full:
  assumes inv: "hash_inv h m f" and none: "entry_of h m f k = None" and full: "\<not> nentries h < nbuckets h"
    and ok: "kmem" "key_len h \<le> length k"
  shows "\<exists>h' m' f'. hash_add_entry kmem k (Some h) d m = Inr (- 1, Some h', m') \<and> hash_inv h' m' f' \<and> same_table h h' \<and>
     tbl h' m' f' = tbl h m f"
proof -
  note D = hash_invD [OF inv]
  define j where "j = nat (hash_index_gen h k)"
  let ?S = "\<Union>i<nat (nbuckets h). set (f i)"
  have jn: "j < nat (nbuckets h)" using hash_index(1) [OF D(1,2), of k] by (simp add: j_def)
  note B = bucket_okD [OF D(3) [OF jn]]
  have "\<not> card ?S < nat (nbuckets h)" using full entries_card [OF inv] by simp
  then have al: "alloc_block (hmem_pool_id h) (hpools m) = Inr (0, hpools m)" using hash_pool_alloc [OF D(6)] by auto
  obtain h' m' where r: "hash_add_entry kmem k (Some h) d m = Inr (- 1, Some h', m')" "same_table h h'"
    "bucket_array h' = (if f j = [] then (bucket_array h)[j := 0] else bucket_array h)" "nentries h' = nentries h"
    "hpools m' = hpools m" "hbkts m' = hbkts (if f j = [] then m else relink (last (f j)) 0 m)"
    using hash_add_entry_new(2) [OF inv none al ok j_def refl refl refl] by blast
  have arr: "bucket_array h' = bucket_array h" using r(3) B(1) by (auto intro: list_update_same_conv [THEN iffD2] simp: D(2) jn)
  have mem: "hbkts m' x = hbkts m x" if "x \<in> ?S" for x
  proof (cases "f j = []")
    case False
    have l: "last (f j) \<in> ?S" using last_in_set [OF False] jn by blast
    have "hbkts m (last (f j)) \<noteq> None" using chain_mem [OF B(1)] False by simp
    then have "Some ((ent m (last (f j)))\<lparr>hb_next := 0\<rparr>) = hbkts m (last (f j))"
      using last_next [OF B(1) False] by auto
    then show ?thesis unfolding r(6) relink_def
      using False put_hb_other [OF hash_pool_apart [OF D(6)] l that] by (cases "x = last (f j)") auto
  qed (use r(6) in simp)
  have at: "x \<in> ?S" if "i < nat (nbuckets h)" "x \<in> set (f i)" for i x using that by blast
  have "bucket_ok h' m' j (f j)"
    using D(3) [OF jn] r(2) arr chain_cong [of "f j" m' m] mem at [OF jn] by (simp add: bucket_ok_def same_table_def cong: map_cong)
  note U = hash_inv_upd [OF inv jn r(2) _ _ mem [OF at] this D(4) [OF jn]]
  have "hash_inv h' m' (f(j := f j))" by (rule U(1)) (use arr r(4,5) D(6) in simp_all)
  moreover have "tbl h' m' (f(j := f j)) q = tbl h m f q" for q
  proof -
    have "tbl h' m' (f(j := f j)) q = (if nat (hash_index_gen h q) = j then map_of (assoc m' (f j)) q else tbl h m f q)"
      by (rule U(2)) (use arr r(4,5) D(6) in simp_all)
    moreover have "assoc m' (f j) = assoc m (f j)" using mem [OF at [OF jn]] by (rule assoc_cong)
    ultimately show ?thesis by (simp add: tbl_def)
  qed
  ultimately show ?thesis using r(1,2) by auto
qed

lemma hash_tbl_add_ok:
  assumes inv: "hash_inv h m f" and ok: "kmem" "key_len h \<le> length k"
  shows "\<exists>r h' m' f'. hash_tbl_add kmem k (Some h) d m = Inr (r, Some h', m') \<and> hash_inv h' m' f' \<and> same_table h h' \<and>
     (r, tbl h' m' f') = spec_add (nat (nbuckets h)) (take (key_len h) k) d (tbl h m f)"
proof (cases "entry_of h m f k")
  case (Some x)
  then have "hash_add_entry kmem k (Some h) d m = Inr (0, Some h, m)" "tbl h m f (take (key_len h) k) \<noteq> None"
    using find_hash_entry_ok [OF inv, of k] by (auto simp: hash_add_entry_def)
  then show ?thesis using inv
    by (intro exI [of _ 0] exI [of _ h] exI [of _ m] exI [of _ f]) (auto simp: hash_tbl_add_def same_table_def spec_add_def)
next
  case None
  have new: "tbl h m f (take (key_len h) k) = None" using find_hash_entry_ok(2) [OF inv, of k] None by simp
  have c: "nentries h < nbuckets h \<longleftrightarrow> card (dom (tbl h m f)) < nat (nbuckets h)" using tbl_card [OF inv] by auto
  show ?thesis
  proof (cases "nentries h < nbuckets h")
    case True
    obtain h' m' f' where "hash_add_entry kmem k (Some h) d m = Inr (0, Some h', m')" "hash_inv h' m' f'" "same_table h h'"
      "tbl h' m' f' = (tbl h m f)(take (key_len h) k \<mapsto> d)" using add_room [OF inv None True ok] by blast
    then show ?thesis using new c True
      by (intro exI [of _ 0] exI [of _ h'] exI [of _ m'] exI [of _ f']) (simp add: hash_tbl_add_def spec_add_def)
  next
    case False
    obtain h' m' f' where "hash_add_entry kmem k (Some h) d m = Inr (- 1, Some h', m')" "hash_inv h' m' f'" "same_table h h'"
      "tbl h' m' f' = tbl h m f" using add_full [OF inv None False ok] by blast
    then show ?thesis using new c False
      by (intro exI [of _ "- 1"] exI [of _ h'] exI [of _ m'] exI [of _ f']) (simp add: hash_tbl_add_def spec_add_def)
  qed
qed


section \<open>Deleting\<close>

lemma unlink_entry_ok:
  assumes inv: "hash_inv h m f" and j: "j < nat (nbuckets h)" and xs: "f j = us @ x # vs"
  shows "\<exists>h' m'. unlink_entry j h m (last (0 # us)) x = Inr (0, h', m') \<and> same_table h h' \<and> nentries h' = nentries h - 1 \<and>
     bucket_array h' = (if us = [] then (bucket_array h)[j := hb_next (ent m x)] else bucket_array h) \<and>
     hash_pool h (hpools m') ((\<Union>i<nat (nbuckets h). set (f i)) - {x}) \<and> hreleased m' = hb_data (ent m x) # hreleased m \<and>
     hbkts m' = hbkts (if us = [] then m else relink (last us) (hb_next (ent m x)) m)"
proof -
  note D = hash_invD [OF inv]
  note B = bucket_okD [OF D(3) [OF j], unfolded xs]
  have x: "x \<noteq> 0" "hbkts m x \<noteq> None" using chain_mem [OF B(1), of x] by auto
  have l: "last us \<noteq> 0 \<and> hbkts m (last us) \<noteq> None" if "us \<noteq> []" using chain_mem [OF B(1), of "last us"] that by simp
  have "x \<in> (\<Union>i<nat (nbuckets h). set (f i))" using j xs by force
  then obtain pls where pls: "free_blk (hmem_pool_id h) x (hpools m) = Inr (0, pls)"
    "hash_pool h pls ((\<Union>i<nat (nbuckets h). set (f i)) - {x})" using hash_pool_release [OF D(6)] by blast
  show ?thesis
  proof (cases "us = []")
    case True
    then show ?thesis using x pls by (auto simp: unlink_entry_def hb_at_def same_table_def)
  next
    case False
    then show ?thesis using x l pls by (auto simp: unlink_entry_def hb_at_def same_table_def relink_def put_hb_def fun_eq_iff)
  qed
qed

lemma cut_bucket_ok:
  assumes b: "bucket_ok h m i (us @ x # vs)" and S: "apart S" "set (us @ x # vs) \<subseteq> S" and h': "same_table h h'"
    and arr: "bucket_array h' ! i = (if us = [] then hb_next (ent m x) else bucket_array h ! i)"
    and m': "hbkts m' = hbkts (if us = [] then m else relink (last us) (hb_next (ent m x)) m)"
  shows "bucket_ok h' m' i (us @ vs)" and "assoc m' (us @ vs) = assoc m (us @ vs)"
    and "y \<in> S \<Longrightarrow> y \<notin> set us \<Longrightarrow> hbkts m' y = hbkts m y"
proof -
  note B = bucket_okD [OF b]
  let ?m = "if us = [] then m else relink (last us) (hb_next (ent m x)) m"
  have suf: "chain m (hb_next (ent m x)) vs" by (rule chain_suffix [OF B(1)])
  have l: "hbkts m (last us) \<noteq> None \<and> last us \<in> S" if "us \<noteq> []" using chain_mem [OF B(1), of "last us"] that S(2) by auto
  have "assoc ?m (us @ vs) = assoc m (us @ vs)" using assoc_relink [OF S(1), of "last us" "us @ vs" m] l S(2) by auto
  then show assoc: "assoc m' (us @ vs) = assoc m (us @ vs)" using m' by (simp add: assoc_def)
  show "hbkts m' y = hbkts m y" if "y \<in> S" "y \<notin> set us"
  proof (cases "us = []")
    case False
    then have "y \<noteq> last us" using that(2) by auto
    then show ?thesis using m' False l that(1) put_hb_other [OF S(1)] by (simp add: relink_def)
  qed (use m' in simp)
  have "chain ?m (bucket_array h' ! i) (us @ vs)"
  proof (cases us rule: rev_cases)
    case (snoc ws l)
    have "chain (relink l (hb_next (ent m x)) m) (bucket_array h ! i) (ws @ l # vs)"
      by (rule chain_append [OF _ S(1) _ _ _ suf, of _ ws l "x # vs"]) (use B(1,2) S(2) snoc in auto)
    then show ?thesis using snoc arr by simp
  qed (use suf arr in simp)
  then have ch: "chain m' (bucket_array h' ! i) (us @ vs)" using chain_cong [of "us @ vs" m' ?m] m' by simp
  have keys: "map (\<lambda>x. hb_key (ent m' x)) (us @ vs) = map (\<lambda>x. hb_key (ent m x)) (us @ vs)"
    using arg_cong [OF assoc, of "map fst"] by (simp add: assoc_def)
  have "\<forall>y\<in>set (us @ vs). hb_key (ent m' y) = hb_key (ent m y)" using keys by auto
  then show "bucket_ok h' m' i (us @ vs)"
    unfolding bucket_ok_def keys using ch B(2-5) h' by (auto simp: same_table_def)
qed

lemma find_split:
  assumes "find P xs = Some x"
  shows "\<exists>us vs. xs = us @ x # vs \<and> takeWhile (\<lambda>y. y \<noteq> x) xs = us \<and> P x"
  using assms
proof (induction xs)
  case (Cons y xs)
  show ?case
  proof (cases "P y")
    case False
    then have "find P xs = Some x" using Cons.prems by simp
    from Cons.IH [OF this] obtain us vs where "xs = us @ x # vs \<and> takeWhile (\<lambda>y. y \<noteq> x) xs = us \<and> P x" by blast
    then show ?thesis using False by (intro exI [of _ "y # us"] exI [of _ vs]) auto
  qed (use Cons.prems in simp)
qed simp

lemma map_of_remove:
  assumes "distinct (map fst (xs @ (k, d) # ys))"
  shows "map_of (xs @ ys) = (map_of (xs @ (k, d) # ys))(k := None)"
proof
  fix q
  have "map_of xs k = None" "map_of ys k = None" using assms by (auto simp: map_of_eq_None_iff)
  then show "map_of (xs @ ys) q = ((map_of (xs @ (k, d) # ys))(k := None)) q"
    by (simp add: map_add_def split: option.splits)
qed

lemma remove_entry:
  assumes inv: "hash_inv h m f" and jn: "j < nat (nbuckets h)" and x: "f j = us @ x # vs" "hb_key (ent m x) = K" "nat (hash_index_gen h K) = j"
  shows "\<exists>h' m' f'. unlink_entry j h m (last (0 # us)) x = Inr (0, h', m') \<and> hash_inv h' m' f' \<and> same_table h h' \<and>
     tbl h' m' f' = (tbl h m f)(K := None) \<and> hreleased m' = hb_data (ent m x) # hreleased m"
proof -
  note D = hash_invD [OF inv]
  note B = D(3) [OF jn]
  let ?S = "\<Union>i<nat (nbuckets h). set (f i)" and ?f = "f(j := us @ vs)"
  obtain h' m' where u: "unlink_entry j h m (last (0 # us)) x = Inr (0, h', m')" "same_table h h'" "nentries h' = nentries h - 1"
    "bucket_array h' = (if us = [] then (bucket_array h)[j := hb_next (ent m x)] else bucket_array h)"
    "hash_pool h (hpools m') (?S - {x})" "hreleased m' = hb_data (ent m x) # hreleased m"
    "hbkts m' = hbkts (if us = [] then m else relink (last us) (hb_next (ent m x)) m)"
    using unlink_entry_ok [OF inv jn x(1)] by blast
  have S: "apart ?S" "set (us @ x # vs) \<subseteq> ?S" using hash_pool_apart [OF D(6)] jn unfolding x(1) [symmetric] by blast+
  have arr: "bucket_array h' ! j = (if us = [] then hb_next (ent m x) else bucket_array h ! j)" using u(4) jn D(2) by simp
  note C = cut_bucket_ok [OF B [unfolded x(1)] S u(2) arr u(7)]
  have other: "y \<notin> set (us @ x # vs)" if "i < nat (nbuckets h)" "i \<noteq> j" "y \<in> set (f i)" for i y
    using D(4) [OF that(1) jn that(2)] that(3) x(1) by auto
  have mem: "hbkts m' y = hbkts m y" if "i < nat (nbuckets h)" "i \<noteq> j" "y \<in> set (f i)" for i y
    by (rule C(3)) (use that other [OF that] in auto)
  have "x \<notin> set (us @ vs)" using bucket_okD(2) [OF B] x(1) by auto
  moreover have "x \<notin> (\<Union>i\<in>{..<nat (nbuckets h)} - {j}. set (f i))" using other by auto
  moreover have "?S = set (f j) \<union> (\<Union>i\<in>{..<nat (nbuckets h)} - {j}. set (f i))" using jn by blast
  ultimately have "(\<Union>i<nat (nbuckets h). set (?f i)) = ?S - {x}" unfolding union_upd [OF jn] using x(1) by auto
  then have pool: "hash_pool h (hpools m') (\<Union>i<nat (nbuckets h). set (?f i))" using u(5) by simp
  have side: "length (bucket_array h') = length (bucket_array h)" "\<And>i. i \<noteq> j \<Longrightarrow> bucket_array h' ! i = bucket_array h ! i"
    "\<And>i. i < nat (nbuckets h) \<Longrightarrow> i \<noteq> j \<Longrightarrow> set (us @ vs) \<inter> set (f i) = {}"
    "nentries h' + int (length (f j)) = nentries h + int (length (us @ vs))"
    using u(3,4) x(1) other by (auto simp: nth_list_update)
  note U = hash_inv_upd [OF inv jn u(2) side(1,2) mem C(1) side(3,4) pool]
  have rm: "map_of (assoc m (us @ vs)) = (map_of (assoc m (f j)))(K := None)"
    unfolding x(1) using bucket_okD(3) [OF B] x(1,2) map_of_remove [of "assoc m us" K "hb_data (ent m x)" "assoc m vs"]
    by (simp add: assoc_def comp_def)
  have "tbl h' m' ?f q = (if nat (hash_index_gen h q) = j then map_of (assoc m' (us @ vs)) q else tbl h m f q)" for q
    by (rule U(2))
  then have "tbl h' m' ?f = (tbl h m f)(K := None)"
    using x(3) unfolding C(2) rm by (auto simp: fun_eq_iff tbl_def [of h m f])
  moreover have "hash_inv h' m' ?f" by (rule U(1))
  ultimately show ?thesis using u(1,2,6) by blast
qed

lemma hash_tbl_delete_ok:
  assumes inv: "hash_inv h m f"
  shows "\<exists>r h' m' f'. hash_tbl_delete k (Some h) m = Inr (r, Some h', m') \<and> hash_inv h' m' f' \<and> same_table h h' \<and>
     (r, tbl h' m' f') = spec_delete (take (key_len h) k) (tbl h m f) \<and>
     hreleased m' = (case tbl h m f (take (key_len h) k) of None \<Rightarrow> hreleased m | Some d \<Rightarrow> d # hreleased m)"
proof -
  note D = hash_invD [OF inv]
  note I = hash_index [OF D(1,2), of k]
  define j where "j = nat (hash_index_gen h k)"
  let ?K = "take (key_len h) k"
  have jn: "j < nat (nbuckets h)" using I(1) by (simp add: j_def)
  note B = D(3) [OF jn]
  have del: "hash_delete_entry k (Some h) m = andThen (case entry_of h m f k of None \<Rightarrow> Inr (- 1, h, m)
     | Some x \<Rightarrow> unlink_entry j h m (last (0 # takeWhile (\<lambda>y. y \<noteq> x) (f j))) x) (\<lambda>(r, h, m). Inr (r, Some h, m))"
    using I(3,4) delete_loop_ok [OF D(1) bucket_okD(1,4) [OF B], of j k 0]
    by (simp add: hash_delete_entry_def entry_of_def returned_def flip: j_def)
  show ?thesis
  proof (cases "entry_of h m f k")
    case None
    then have "tbl h m f ?K = None" using find_hash_entry_ok(2) [OF inv, of k] by simp
    then show ?thesis using del None inv
      by (intro exI [of _ "- 1"] exI [of _ h] exI [of _ m] exI [of _ f]) (simp add: hash_tbl_delete_def spec_delete_def same_table_def)
  next
    case (Some x)
    then have "find (\<lambda>x. hb_key (ent m x) = ?K) (f j) = Some x" by (simp add: entry_of_def j_def)
    from find_split [OF this] obtain us vs where x: "f j = us @ x # vs" "takeWhile (\<lambda>y. y \<noteq> x) (f j) = us" "hb_key (ent m x) = ?K"
      by blast
    have "nat (hash_index_gen h ?K) = j" using I(5) by (simp add: j_def)
    then obtain h' m' f' where u: "unlink_entry j h m (last (0 # us)) x = Inr (0, h', m')" "hash_inv h' m' f'" "same_table h h'"
      "tbl h' m' f' = (tbl h m f)(?K := None)" "hreleased m' = hb_data (ent m x) # hreleased m"
      using remove_entry [OF inv jn x(1,3)] by blast
    have "hash_tbl_delete k (Some h) m = Inr (0, Some h', m')" using del Some u(1) x(2) by (simp add: hash_tbl_delete_def)
    moreover have "tbl h m f ?K = Some (hb_data (ent m x))" using find_hash_entry_ok(2) [OF inv, of k] Some by simp
    ultimately show ?thesis using u(2-5)
      by (intro exI [of _ 0] exI [of _ h'] exI [of _ m'] exI [of _ f']) (simp add: spec_delete_def)
  qed
qed


section \<open>The interface\<close>

text \<open>
  A store of at most \<open>c\<close> keys: what a client may rely on, and what follows for every sequence
  of calls.  Adding a key that is there succeeds and changes nothing.
\<close>

datatype ('k, 'v) map_op = MAdd 'k 'v | MDelete 'k | MLookup 'k
datatype 'v map_res = Code int | Data "'v option"

fun spec_run :: "nat \<Rightarrow> ('k, 'v) map_op list \<Rightarrow> ('k \<rightharpoonup> 'v) \<Rightarrow> 'v map_res list" where
  "spec_run c [] M = []"
| "spec_run c (MAdd k d # ops) M = Code (fst (spec_add c k d M)) # spec_run c ops (snd (spec_add c k d M))"
| "spec_run c (MDelete k # ops) M = Code (fst (spec_delete k M)) # spec_run c ops (snd (spec_delete k M))"
| "spec_run c (MLookup k # ops) M = Data (M k) # spec_run c ops M"

fun run_map ::
    "('k \<Rightarrow> 'v \<Rightarrow> 's \<Rightarrow> (int \<times> 's) res) \<Rightarrow> ('k \<Rightarrow> 's \<Rightarrow> (int \<times> 's) res) \<Rightarrow> ('k \<Rightarrow> 's \<Rightarrow> 'v option res) \<Rightarrow>
     ('k, 'v) map_op list \<Rightarrow> 's \<Rightarrow> 'v map_res list res" where
  "run_map add del get [] s = Inr []"
| "run_map add del get (MAdd k d # ops) s =
     andThen (add k d s) (\<lambda>(r, s). andThen (run_map add del get ops s) (\<lambda>rs. Inr (Code r # rs)))"
| "run_map add del get (MDelete k # ops) s =
     andThen (del k s) (\<lambda>(r, s). andThen (run_map add del get ops s) (\<lambda>rs. Inr (Code r # rs)))"
| "run_map add del get (MLookup k # ops) s =
     andThen (get k s) (\<lambda>d. andThen (run_map add del get ops s) (\<lambda>rs. Inr (Data d # rs)))"

fun key_of :: "('k, 'v) map_op \<Rightarrow> 'k" where
  "key_of (MAdd k d) = k" | "key_of (MDelete k) = k" | "key_of (MLookup k) = k"

locale bounded_map =
  fixes rep :: "'s \<Rightarrow> ('k \<rightharpoonup> 'v) \<Rightarrow> bool" and c :: nat and valid :: "'k \<Rightarrow> bool"
    and add :: "'k \<Rightarrow> 'v \<Rightarrow> 's \<Rightarrow> (int \<times> 's) res" and del :: "'k \<Rightarrow> 's \<Rightarrow> (int \<times> 's) res" and get :: "'k \<Rightarrow> 's \<Rightarrow> 'v option res"
  assumes add_law: "rep s M \<Longrightarrow> valid k \<Longrightarrow> \<exists>s'. add k d s = Inr (fst (spec_add c k d M), s') \<and> rep s' (snd (spec_add c k d M))"
    and del_law: "rep s M \<Longrightarrow> valid k \<Longrightarrow> \<exists>s'. del k s = Inr (fst (spec_delete k M), s') \<and> rep s' (snd (spec_delete k M))"
    and get_law: "rep s M \<Longrightarrow> valid k \<Longrightarrow> get k s = Inr (M k)"
begin

lemma run_refines: "rep s M \<Longrightarrow> (\<forall>op\<in>set ops. valid (key_of op)) \<Longrightarrow> run_map add del get ops s = Inr (spec_run c ops M)"
proof (induction ops arbitrary: s M)
  case (Cons op ops)
  have v: "\<forall>op\<in>set ops. valid (key_of op)" using Cons.prems(2) by simp
  show ?case
  proof (cases op)
    case (MAdd k d)
    then show ?thesis using add_law [OF Cons.prems(1), of k d] Cons.prems(2) Cons.IH [OF _ v] by auto
  next
    case (MDelete k)
    then show ?thesis using del_law [OF Cons.prems(1), of k] Cons.prems(2) Cons.IH [OF _ v] by auto
  next
    case (MLookup k)
    then show ?thesis using get_law [OF Cons.prems(1), of k] Cons.prems(2) Cons.IH [OF Cons.prems(1) v] by auto
  qed
qed simp

text \<open>A key just added is found, a key just deleted is not.\<close>

lemma lookup_added:
  assumes "rep s M" and "valid k" and "M k = None" and "add k d s = Inr (0, s')"
  shows "get k s' = Inr (Some d)"
  using add_law [OF assms(1,2), of d] get_law [OF _ assms(2), of s'] assms(3,4) by (auto simp: spec_add_def split: if_splits)

lemma lookup_deleted:
  assumes "rep s M" and "valid k" and "del k s = Inr (r, s')"
  shows "get k s' = Inr None"
  using del_law [OF assms(1,2)] get_law [OF _ assms(2), of s'] assms(3) by (auto simp: spec_delete_def split: if_splits)

end

text \<open>The table provides it, for keys of the length it was created for.\<close>

definition hash_rep :: "nat \<Rightarrow> nat \<Rightarrow> hash_table option \<times> hmem \<Rightarrow> (u8 list \<rightharpoonup> nat) \<Rightarrow> bool" where
  "hash_rep n c = (\<lambda>(t, m) M. \<exists>h f. t = Some h \<and> hash_inv h m f \<and> key_len h = n \<and> nat (nbuckets h) = c \<and> M = tbl h m f)"

definition h_add :: "u8 list \<Rightarrow> nat \<Rightarrow> hash_table option \<times> hmem \<Rightarrow> (int \<times> hash_table option \<times> hmem) res" where
  "h_add k d = (\<lambda>(t, m). hash_tbl_add True k t d m)"

definition h_delete :: "u8 list \<Rightarrow> hash_table option \<times> hmem \<Rightarrow> (int \<times> hash_table option \<times> hmem) res" where
  "h_delete k = (\<lambda>(t, m). hash_tbl_delete k t m)"

definition h_lookup :: "u8 list \<Rightarrow> hash_table option \<times> hmem \<Rightarrow> nat option res" where
  "h_lookup k = (\<lambda>(t, m). hash_tbl_lookup k t m)"

interpretation htbl: bounded_map "hash_rep n c" c "\<lambda>k. length k = n" h_add h_delete h_lookup for n c
proof (unfold_locales, goal_cases)
  case (1 s M k d)
  then obtain h m f where s: "s = (Some h, m)" "hash_inv h m f" "key_len h = n" "nat (nbuckets h) = c" "M = tbl h m f"
    by (auto simp: hash_rep_def)
  obtain r h' m' f' where a: "hash_tbl_add True k (Some h) d m = Inr (r, Some h', m')" "hash_inv h' m' f'" "same_table h h'"
    "(r, tbl h' m' f') = spec_add (nat (nbuckets h)) (take (key_len h) k) d (tbl h m f)"
    using hash_tbl_add_ok [OF s(2), of True k d] 1(2) s(3) by auto
  then have "spec_add c k d M = (r, tbl h' m' f')" using s 1(2) by simp
  then show ?case using a(1-3) s by (auto simp: h_add_def hash_rep_def same_table_def)
next
  case (2 s M k)
  then obtain h m f where s: "s = (Some h, m)" "hash_inv h m f" "key_len h = n" "nat (nbuckets h) = c" "M = tbl h m f"
    by (auto simp: hash_rep_def)
  obtain r h' m' f' where a: "hash_tbl_delete k (Some h) m = Inr (r, Some h', m')" "hash_inv h' m' f'" "same_table h h'"
    "(r, tbl h' m' f') = spec_delete (take (key_len h) k) (tbl h m f)"
    using hash_tbl_delete_ok [OF s(2), of k] by auto
  then have "spec_delete k M = (r, tbl h' m' f')" using s 2(2) by simp
  then show ?case using a(1-3) s by (auto simp: h_delete_def hash_rep_def same_table_def)
next
  case (3 s M k)
  then show ?case by (auto simp: h_lookup_def hash_rep_def hash_tbl_lookup_ok)
qed

lemma create_hash_table_ok:
  assumes "mcbs_ok (hpools m) as" and "me_mcb me = Some a" and "a \<notin> set as" and "me_area me \<noteq> 0" and "me_blks me"
    and "3 \<le> b" and "unat (me_area me) + nat b * nat (4 * b) + 4 < 2 ^ 32" and "0 \<le> mcb_i (hpools m)" and "length name < MAX_NAME"
    and "callbacks_ok \<lparr>bucket_array = [], hmem_pool_id = 0, key_len = n, nbuckets = b, nentries = 0, cmp_func = cmp, hash_index_gen = gen\<rparr>"
  shows "\<exists>t m'. create_hash_table True me (Some (\<lambda>_. 0)) name b cmp gen n m = Inr (t, m') \<and> hash_rep n (nat b) (t, m') Map.empty"
proof -
  have four: "unat (word_of_int (4 * b) :: u32) = nat (4 * b)"
  proof -
    have "nat (4 * b) \<le> nat b * nat (4 * b)" using assms(6) by simp
    then have "nat (4 * b) < 2 ^ 32" using assms(7) by linarith
    then have "4 * b < 2 ^ 32" using assms(6) by simp
    then have "uint (word_of_int (4 * b) :: u32) = 4 * b"
      using assms(6) by (subst uint_word_of_int_eq) (simp add: take_bit_int_eq_self)
    then show ?thesis by (metis nat_uint_eq)
  qed
  have "(word_of_int (4 * b) :: u32) \<noteq> 0"
  proof
    assume "(word_of_int (4 * b) :: u32) = 0"
    then show False using four assms(6) by simp
  qed
  then obtain i m' p where c: "mem_pool_create me (word_of_int (4 * b)) b (hpools m) = (i, m')" "mcbs_ok m' (as @ [a])" "mcbs m' a = Some p"
    "memid p = i" "i = mcb_i (hpools m) + 1" "ctl_ok p" "ctl_free p = ctl_handles p" "nblks p = b" "msize p = word_of_int (4 * b)"
    using mem_pool_create_lemma [OF assms(1-5), of b "word_of_int (4 * b)"] assms(6,7) four by auto
  let ?h = "\<lparr>bucket_array = map (\<lambda>_. 0) [0..<nat b], hmem_pool_id = i, key_len = n, nbuckets = b, nentries = 0, cmp_func = cmp, hash_index_gen = gen\<rparr>"
  have "hash_pool ?h m' {}"
    unfolding hash_pool_def using c four assms(6) by (intro exI [of _ "as @ [a]"] exI [of _ a] exI [of _ p]) (simp add: sizeof_hash_bucket_t_def)
  then have "hash_inv ?h (m\<lparr>hpools := m'\<rparr>) (\<lambda>_. [])"
    using assms(10) by (simp add: hash_inv_def bucket_ok_def callbacks_ok_def)
  moreover have "tbl ?h (m\<lparr>hpools := m'\<rparr>) (\<lambda>_. []) = Map.empty" by (simp add: tbl_def fun_eq_iff)
  moreover have "create_hash_table True me (Some (\<lambda>_. 0)) name b cmp gen n m = Inr (Some ?h, m\<lparr>hpools := m'\<rparr>)"
    using c(1,5) assms(6,8,9) by (simp add: create_hash_table_def Let_def)
  ultimately show ?thesis by (force simp: hash_rep_def)
qed


section \<open>Walking and flushing\<close>

abbreviation datas :: "hmem \<Rightarrow> u32 list \<Rightarrow> nat list" where
  "datas m xs \<equiv> map (\<lambda>x. hb_data (ent m x)) xs"

lemma walk_chain_ok: "chain m a xs \<Longrightarrow> walk_chain m a acc = Some (Inr (acc @ datas m xs))"
proof (induction xs arbitrary: a acc)
  case Nil
  then show ?case by (subst walk_chain.simps) simp
next
  case (Cons x xs)
  then obtain e where "a = x" "x \<noteq> 0" "hbkts m x = Some e" "chain m (hb_next e) xs" by auto
  then show ?case using Cons.IH by (subst walk_chain.simps) simp
qed

lemma walk_from_ok:
  assumes len: "length (bucket_array h) = nat (nbuckets h)" and ch: "\<And>i. i < nat (nbuckets h) \<Longrightarrow> chain m (bucket_array h ! i) (f i)"
    and "i \<le> nat (nbuckets h)"
  shows "walk_from i h m acc = Inr (acc @ concat (map (\<lambda>i. datas m (f i)) [i..<nat (nbuckets h)]))"
  using assms(3)
proof (induction "nat (nbuckets h) - i" arbitrary: i acc)
  case 0
  then have "\<not> int i < nbuckets h" by simp
  then show ?case using 0 by (subst walk_from.simps) simp
next
  case (Suc k)
  then have i: "i < nat (nbuckets h)" "int i < nbuckets h" by simp_all
  have "walk_from (Suc i) h m (acc @ datas m (f i)) =
     Inr ((acc @ datas m (f i)) @ concat (map (\<lambda>i. datas m (f i)) [Suc i..<nat (nbuckets h)]))"
    by (rule Suc.hyps(1)) (use Suc.hyps(2) i in simp_all)
  moreover have "get_hash_bucket i h = Inr (bucket_array h ! i)" using i len by (simp add: get_hash_bucket_def bucket_at_def)
  ultimately show ?case
    using walk_chain_ok [OF ch [OF i(1)]] i by (subst walk_from.simps) (simp add: returned_def upt_conv_Cons)
qed

lemma flush_chain_ok:
  assumes "chain m a xs" and "hash_pool h (hpools m) S" and "set xs \<subseteq> S" and "distinct xs"
  shows "\<exists>m'. flush_chain (hmem_pool_id h) m a = Some (Inr m') \<and> hbkts m' = hbkts m \<and> hash_pool h (hpools m') (S - set xs) \<and>
     hreleased m' = rev (datas m xs) @ hreleased m"
  using assms
proof (induction xs arbitrary: m a S)
  case Nil
  then show ?case by (subst flush_chain.simps) simp
next
  case (Cons x xs)
  obtain e where e: "a = x" "x \<noteq> 0" "hbkts m x = Some e" "chain m (hb_next e) xs" using Cons.prems(1) by auto
  obtain pls where p: "free_blk (hmem_pool_id h) x (hpools m) = Inr (0, pls)" "hash_pool h pls (S - {x})"
    using hash_pool_release [OF Cons.prems(2), of x] Cons.prems(3) by auto
  let ?m = "m\<lparr>hreleased := hb_data e # hreleased m, hkeys := hkeys m - 1, hpools := pls\<rparr>"
  have "chain ?m (hb_next e) xs" using e(4) chain_cong [of xs ?m m] by simp
  then obtain m' where m': "flush_chain (hmem_pool_id h) ?m (hb_next e) = Some (Inr m')" "hbkts m' = hbkts ?m"
    "hash_pool h (hpools m') (S - {x} - set xs)" "hreleased m' = rev (datas ?m xs) @ hreleased ?m"
    using Cons.IH [of ?m "hb_next e" "S - {x}"] p(2) Cons.prems(3,4) by auto
  have "flush_chain (hmem_pool_id h) m a = flush_chain (hmem_pool_id h) ?m (hb_next e)"
    using e p(1) by (subst flush_chain.simps) (simp add: Let_def)
  moreover have "S - {x} - set xs = S - set (x # xs)" by auto
  ultimately show ?case using m' e(3) by auto
qed

lemma flush_from_ok:
  assumes "length (bucket_array h) = nat (nbuckets h)" and "i \<le> nat (nbuckets h)"
    and "\<And>j. i \<le> j \<Longrightarrow> j < nat (nbuckets h) \<Longrightarrow> chain m (bucket_array h ! j) (f j) \<and> distinct (f j)"
    and "\<And>j l. j < nat (nbuckets h) \<Longrightarrow> l < nat (nbuckets h) \<Longrightarrow> j \<noteq> l \<Longrightarrow> set (f j) \<inter> set (f l) = {}"
    and "hash_pool h (hpools m) (\<Union>j\<in>{i..<nat (nbuckets h)}. set (f j))"
  shows "\<exists>m'. flush_from i h m = Inr (h\<lparr>bucket_array := take i (bucket_array h) @ replicate (nat (nbuckets h) - i) 0\<rparr>, m') \<and>
     hash_pool h (hpools m') {} \<and> hreleased m' = rev (concat (map (\<lambda>j. datas m (f j)) [i..<nat (nbuckets h)])) @ hreleased m"
  using assms
proof (induction "nat (nbuckets h) - i" arbitrary: i h m)
  case 0
  then have "\<not> int i < nbuckets h" by simp
  then show ?case using 0 by (subst flush_from.simps) simp
next
  case (Suc k)
  let ?n = "nat (nbuckets h)"
  have i: "i < ?n" "int i < nbuckets h" "{i..<?n} = insert i {Suc i..<?n}" using Suc.hyps(2) by auto
  let ?S = "\<Union>j\<in>{i..<?n}. set (f j)" and ?h = "h\<lparr>bucket_array := (bucket_array h)[i := 0]\<rparr>"
  have sub: "set (f i) \<subseteq> ?S" using i(1) by auto
  obtain m1 where m1: "flush_chain (hmem_pool_id h) m (bucket_array h ! i) = Some (Inr m1)" "hbkts m1 = hbkts m"
    "hash_pool h (hpools m1) (?S - set (f i))" "hreleased m1 = rev (datas m (f i)) @ hreleased m"
    using flush_chain_ok [OF _ Suc.prems(5) sub] Suc.prems(3) [OF order.refl i(1)] by blast
  have "set (f j) \<inter> set (f i) = {}" if "j \<in> {Suc i..<?n}" for j using Suc.prems(4) [of j i] that i(1) by auto
  then have rest: "?S - set (f i) = (\<Union>j\<in>{Suc i..<?n}. set (f j))" unfolding i(3) by fastforce
  have same: "chain m1 a ys = chain m a ys" "datas m1 ys = datas m ys" for a ys using m1(2) chain_cong [of ys m1 m] by simp_all
  have "\<exists>m'. flush_from (Suc i) ?h m1 = Inr (?h\<lparr>bucket_array := take (Suc i) (bucket_array ?h) @ replicate (nat (nbuckets ?h) - Suc i) 0\<rparr>, m') \<and>
     hash_pool ?h (hpools m') {} \<and> hreleased m' = rev (concat (map (\<lambda>j. datas m1 (f j)) [Suc i..<nat (nbuckets ?h)])) @ hreleased m1"
    by (rule Suc.hyps(1)) (use Suc.hyps(2) Suc.prems m1(3) i(1) in \<open>simp_all add: rest same hash_pool_def\<close>)
  moreover have "take (Suc i) ((bucket_array h)[i := 0]) @ replicate (?n - Suc i) 0 = take i (bucket_array h) @ replicate (?n - i) (0 :: u32)"
    using i(1) Suc.prems(1) by (simp add: take_Suc_conv_app_nth Suc_diff_Suc [symmetric])
  moreover have "flush_from i h m = flush_from (Suc i) ?h m1"
    using i Suc.prems(1) m1(1) by (subst flush_from.simps) (simp add: bucket_at_def returned_def)
  ultimately show ?case using m1(4) i(1) by (auto simp: same hash_pool_def upt_conv_Cons)
qed


section \<open>Properties\<close>

text \<open>
  C13: a hash table that satisfies its invariant \<open>hash_inv\<close> is a map with room for as many keys as it has
  buckets: every sequence of \<^verbatim>\<open>hash_tbl_add\<close>, \<^verbatim>\<open>hash_tbl_delete\<close> and \<^verbatim>\<open>hash_tbl_lookup\<close>
  on keys of the length the table was created with runs without a fault and returns what the map returns,
  starting from the map the table stands for.  A key that is there keeps its data when it is added again, and
  adding to a full table fails.  The invariant includes that the comparison tells equal keys, that the index
  depends on the key only and lies below the number of buckets, that every bucket is a chain of entries, and
  that the blocks of the pool are large enough for an entry (which takes three buckets).
  \<^verbatim>\<open>create_hash_table\<close> establishes it only when the array of buckets happens to be cleared: the code
  leaves the array as \<^verbatim>\<open>malloc\<close> returns it.
\<close>

theorem hash_table_refines_map:
  assumes "hash_inv h m f" and "\<forall>op\<in>set ops. length (key_of op) = key_len h"
  shows "run_map h_add h_delete h_lookup ops (Some h, m) = Inr (spec_run (nat (nbuckets h)) ops (tbl h m f))"
proof -
  have "hash_rep (key_len h) (nat (nbuckets h)) (Some h, m) (tbl h m f)" using assms(1) by (auto simp: hash_rep_def)
  then show ?thesis using htbl.run_refines assms(2) by blast
qed

text \<open>
  C38: \<^verbatim>\<open>hash_walk\<close> calls back once for the data of every entry and returns their number, and
  \<^verbatim>\<open>flush_hash_table\<close> ends, hands the same data to \<^verbatim>\<open>free_data\<close> in the same order (the
  record has the latest first), gives all blocks back to the pool and empties every bucket.  The
  number of entries stays what it was.
\<close>

theorem hash_walk_flush_all:
  assumes "hash_inv h m f"
  shows "\<exists>ds h' m'. hash_walk (Some h) m = Inr (nentries h, ds) \<and> flush_hash_table (Some h) m = Inr (Some h', m') \<and>
     hreleased m' = rev ds @ hreleased m \<and> hash_pool h' (hpools m') {} \<and> bucket_array h' = replicate (nat (nbuckets h)) 0 \<and>
     nentries h' = nentries h \<and> set ds = ran (tbl h m f)"
proof -
  note D = hash_invD [OF assms]
  let ?n = "nat (nbuckets h)"
  let ?ds = "concat (map (\<lambda>i. datas m (f i)) [0..<?n])"
  have w: "walk_from 0 h m [] = Inr ?ds" using walk_from_ok [OF D(2), of m f 0 "[]"] bucket_okD(1) [OF D(3)] by simp
  have len: "nentries h = int (length ?ds)"
    using D(5) by (simp add: length_concat comp_def sum_list_distinct_conv_sum_set atLeast0LessThan)
  have "hash_pool h (hpools m) (\<Union>j\<in>{0..<?n}. set (f j))" using D(6) by (simp add: atLeast0LessThan)
  then obtain m' where fl: "flush_from 0 h m = Inr (h\<lparr>bucket_array := replicate ?n 0\<rparr>, m')" "hash_pool h (hpools m') {}"
    "hreleased m' = rev ?ds @ hreleased m"
    using flush_from_ok [OF D(2), of 0 m f] bucket_okD(1,2) [OF D(3)] D(4) by auto
  have "set ?ds = ran (tbl h m f)"
  proof -
    have "ran (map_of (assoc m (f i))) = set (datas m (f i))" if "i < ?n" for i
      using bucket_okD(3) [OF D(3) [OF that]] by (subst ran_distinct) (auto simp: assoc_def comp_def image_image)
    then have "set ?ds = (\<Union>i<?n. ran (map_of (assoc m (f i))))" by (auto simp: atLeast0LessThan)
    also have "\<dots> = ran (tbl h m f)"
    proof (intro set_eqI iffI)
      fix d assume "d \<in> (\<Union>i<?n. ran (map_of (assoc m (f i))))"
      then obtain i k where ik: "i < ?n" "map_of (assoc m (f i)) k = Some d" by (auto simp: ran_def)
      then have "k \<in> (\<lambda>x. hb_key (ent m x)) ` set (f i)" using dom_assoc [of m "f i"] by blast
      then have "nat (hash_index_gen h k) = i" using bucket_okD(5) [OF D(3) [OF ik(1)]] by auto
      then show "d \<in> ran (tbl h m f)" using ik(2) by (auto simp: ran_def tbl_def)
    next
      fix d assume "d \<in> ran (tbl h m f)"
      then show "d \<in> (\<Union>i<?n. ran (map_of (assoc m (f i))))" using hash_index(1) [OF D(1,2)] by (auto simp: ran_def tbl_def)
    qed
    finally show ?thesis .
  qed
  then show ?thesis using w len fl
    by (intro exI [of _ ?ds] exI [of _ "h\<lparr>bucket_array := replicate ?n 0\<rparr>"] exI [of _ m'])
      (simp add: hash_walk_def flush_hash_table_def hash_pool_def)
qed

text \<open>An index equal to the number of buckets passes the check and reads past the array.\<close>

theorem hash_last_index_out_of_bounds:
  assumes "hash_index_gen h k = nbuckets h" and "length (bucket_array h) = nat (nbuckets h)" and "0 \<le> nbuckets h"
  shows "hash_tbl_lookup k (Some h) m = Inl OutOfBounds"
  using assms by (simp add: hash_tbl_lookup_def find_hash_entry_def bucket_at_def)

section \<open>Witnesses\<close>

text \<open>A table of three buckets with keys of one byte.\<close>

definition demo_hmem :: hmem where
  "demo_hmem = \<lparr>hpools = mem_init \<lparr>mcbs = (\<lambda>_. None), mlinks = \<lparr>lnext = id, lprev = id\<rparr>, mcb_i = 0\<rparr>,
     hbkts = (\<lambda>_. None), hreleased = [], hkeys = 0\<rparr>"

definition demo_env :: mem_env where
  "demo_env = \<lparr>me_mcb = Some 0, me_area = 4096, me_blks = True\<rparr>"

definition demo_cmp :: "u8 list \<Rightarrow> u8 list \<Rightarrow> int" where
  "demo_cmp a b = (if take 1 a = take 1 b then 0 else 1)"

definition demo_index :: "u8 list \<Rightarrow> int" where
  "demo_index k = (case k of [] \<Rightarrow> 0 | x # _ \<Rightarrow> uint x mod 3)"

lemma demo_callbacks:
  "callbacks_ok \<lparr>bucket_array = bs, hmem_pool_id = i, key_len = 1, nbuckets = 3, nentries = j, cmp_func = demo_cmp, hash_index_gen = demo_index\<rparr>"
  by (auto simp: callbacks_ok_def demo_cmp_def demo_index_def take_Suc split: list.splits)

lemma demo_mcbs: "mcbs_ok (hpools demo_hmem) []"
  using INIT_LIST_HEAD_dlist [of McbHd] by (simp add: mcbs_ok_def demo_hmem_def mem_init_def)

theorem hash_table_refines_map_witness:
  "\<exists>s. create_hash_table True demo_env (Some (\<lambda>_. 0)) ''t'' 3 demo_cmp demo_index 1 demo_hmem = Inr s \<and>
     run_map h_add h_delete h_lookup [MAdd [1] 10, MAdd [4] 40, MAdd [1] 11, MLookup [1], MDelete [1], MLookup [1], MLookup [4]] s =
     Inr [Code 0, Code 0, Code 0, Data (Some 10), Code 0, Data None, Data (Some 40)]"
proof -
  let ?ops = "[MAdd [1] 10, MAdd [4] 40, MAdd [1] 11, MLookup [1], MDelete [1], MLookup [1], MLookup [4]] :: (u8 list, nat) map_op list"
  obtain t m0 where c: "create_hash_table True demo_env (Some (\<lambda>_. 0)) ''t'' 3 demo_cmp demo_index 1 demo_hmem = Inr (t, m0)"
      "hash_rep 1 (nat 3) (t, m0) Map.empty"
    using create_hash_table_ok [OF demo_mcbs, of demo_env 0 3 "''t''" 1 demo_cmp demo_index] demo_callbacks
    by (auto simp: demo_env_def demo_hmem_def mem_init_def MAX_NAME_def)
  then obtain h f where h: "t = Some h" "hash_inv h m0 f" "key_len h = 1" "nat (nbuckets h) = 3" "tbl h m0 f = Map.empty"
    by (auto simp: hash_rep_def)
  have "run_map h_add h_delete h_lookup ?ops (Some h, m0) = Inr (spec_run 3 ?ops Map.empty)"
    using hash_table_refines_map [OF h(2), of ?ops] h(3-5) by simp
  then show ?thesis using c(1) h(1) by (simp add: spec_add_def spec_delete_def)
qed

lemma demo_filled: "\<exists>h m f. hash_inv h m f \<and> tbl h m f = [[1] \<mapsto> 10]"
proof -
  obtain t m0 where "hash_rep 1 (nat 3) (t, m0) Map.empty"
    using create_hash_table_ok [OF demo_mcbs, of demo_env 0 3 "''t''" 1 demo_cmp demo_index] demo_callbacks
    by (auto simp: demo_env_def demo_hmem_def mem_init_def MAX_NAME_def)
  then obtain h f where h: "hash_inv h m0 f" "key_len h = 1" "nat (nbuckets h) = 3" "tbl h m0 f = Map.empty"
    by (auto simp: hash_rep_def)
  obtain h' m' f' where "hash_inv h' m' f'" "tbl h' m' f' = snd (spec_add 3 [1] 10 (tbl h m0 f))"
    using hash_tbl_add_ok [OF h(1), of True "[1]" 10] h(2,3) by (metis One_nat_def length_Cons list.size(3) order.refl snd_conv take_all)
  then show ?thesis using h(4) by (auto simp: spec_add_def)
qed

theorem hash_walk_flush_all_witness:
  "\<exists>h m f ds h' m'. hash_inv h m f \<and> hash_walk (Some h) m = Inr (1, ds) \<and> flush_hash_table (Some h) m = Inr (Some h', m') \<and>
     hreleased m' = rev ds @ hreleased m \<and> nentries h' = 1 \<and> set ds = {10}"
proof -
  obtain h m f where h: "hash_inv h m f" "tbl h m f = [[1] \<mapsto> 10]" using demo_filled by blast
  have "nentries h = 1" using tbl_card [OF h(1)] h(2) by simp
  moreover have "ran (tbl h m f) = {10}" using h(2) by simp
  ultimately show ?thesis using hash_walk_flush_all [OF h(1)] h(1) by metis
qed

end
