(* ===== verification/Jhash.thy ===== *)
theory Jhash
  imports Prelude
begin

unbundle bit_operations_syntax

text \<open>
  The Jenkins hash of \<^verbatim>\<open>cmn/jhash.h\<close>.  A key is the list of the bytes (or words) from the
  pointer on; reading past it is \<^term>\<open>OutOfBounds\<close>.
\<close>

type_synonym byte = "8 word"
type_synonym abc = "u32 \<times> u32 \<times> u32"

section \<open>The routines\<close>

text \<open>Three lines of \<^verbatim>\<open>__jhash_mix\<close>, with the amounts of the shifts.\<close>

definition mix_round :: "nat \<Rightarrow> nat \<Rightarrow> nat \<Rightarrow> abc \<Rightarrow> abc" where
  "mix_round i j k = (\<lambda>(a, b, c).
     let a = a - b; a = a - c; a = a XOR drop_bit i c;
         b = b - c; b = b - a; b = b XOR push_bit j a;
         c = c - a; c = c - b; c = c XOR drop_bit k b
     in (a, b, c))"

definition jhash_mix :: "abc \<Rightarrow> abc" where
  "jhash_mix x = mix_round 3 10 15 (mix_round 12 16 5 (mix_round 13 8 13 x))"

definition JHASH_GOLDEN_RATIO :: u32 where "JHASH_GOLDEN_RATIO = 0x9e3779b9"

text \<open>\<^verbatim>\<open>k[i] + (k[i+1] << 8) + (k[i+2] << 16) + (k[i+3] << 24)\<close>\<close>

definition word_at :: "byte list \<Rightarrow> nat \<Rightarrow> u32" where
  "word_at k i = ucast (k ! i) + push_bit 8 (ucast (k ! (i + 1))) + push_bit 16 (ucast (k ! (i + 2))) +
     push_bit 24 (ucast (k ! (i + 3)))"

function jhash_loop :: "byte list \<Rightarrow> u32 \<Rightarrow> abc \<Rightarrow> (byte list \<times> u32 \<times> abc) res" where
  "jhash_loop k len (a, b, c) =
     (if 12 \<le> len
      then if length k < 12 then Inl OutOfBounds
           else jhash_loop (drop 12 k) (len - 12) (jhash_mix (a + word_at k 0, b + word_at k 4, c + word_at k 8))
      else Inr (k, len, (a, b, c)))"
  by pat_completeness auto
termination
  by (relation "measure (\<lambda>(k, len, x). unat len)") (auto simp: word_le_nat_alt unat_sub)

text \<open>The \<^verbatim>\<open>switch\<close> on the remaining length, whose cases fall through.\<close>

definition jhash_switch :: "byte list \<Rightarrow> u32 \<Rightarrow> abc \<Rightarrow> abc" where
  "jhash_switch k len = (\<lambda>(a, b, c).
     let at = (\<lambda>i s. if of_nat (Suc i) \<le> len then push_bit s (ucast (k ! i)) else (0 :: u32));
         c = c + at 10 24 + at 9 16 + at 8 8;
         b = b + at 7 24 + at 6 16 + at 5 8 + at 4 0;
         a = a + at 3 24 + at 2 16 + at 1 8 + at 0 0
     in (a, b, c))"

definition jhash :: "byte list \<Rightarrow> u32 \<Rightarrow> u32 \<Rightarrow> u32 res" where
  "jhash key len initval =
     andThen (jhash_loop key len (JHASH_GOLDEN_RATIO, JHASH_GOLDEN_RATIO, initval)) (\<lambda>(k, l, (a, b, c)).
     if length k < unat l then Inl OutOfBounds
     else Inr (snd (snd (jhash_mix (jhash_switch k l (a, b, c + len))))))"

function jhash2_loop :: "u32 list \<Rightarrow> u32 \<Rightarrow> abc \<Rightarrow> (u32 list \<times> u32 \<times> abc) res" where
  "jhash2_loop k len (a, b, c) =
     (if 3 \<le> len
      then if length k < 3 then Inl OutOfBounds
           else jhash2_loop (drop 3 k) (len - 3) (jhash_mix (a + k ! 0, b + k ! 1, c + k ! 2))
      else Inr (k, len, (a, b, c)))"
  by pat_completeness auto
termination
  by (relation "measure (\<lambda>(k, len, x). unat len)") (auto simp: word_le_nat_alt unat_sub)

definition jhash2 :: "u32 list \<Rightarrow> u32 \<Rightarrow> u32 \<Rightarrow> u32 res" where
  "jhash2 key len initval =
     andThen (jhash2_loop key len (JHASH_GOLDEN_RATIO, JHASH_GOLDEN_RATIO, initval)) (\<lambda>(k, l, (a, b, c)).
     if length k < unat l then Inl OutOfBounds
     else let b = (if 2 \<le> l then b + k ! 1 else b); a = (if 1 \<le> l then a + k ! 0 else a)
          in Inr (snd (snd (jhash_mix (a, b, c + len * 4)))))"

definition jhash_3words :: "u32 \<Rightarrow> u32 \<Rightarrow> u32 \<Rightarrow> u32 \<Rightarrow> u32" where
  "jhash_3words a b c initval =
     snd (snd (jhash_mix (a + JHASH_GOLDEN_RATIO, b + JHASH_GOLDEN_RATIO, c + initval)))"

definition jhash_2words :: "u32 \<Rightarrow> u32 \<Rightarrow> u32 \<Rightarrow> u32" where
  "jhash_2words a b initval = jhash_3words a b 0 initval"

definition jhash_1word :: "u32 \<Rightarrow> u32 \<Rightarrow> u32" where
  "jhash_1word a initval = jhash_3words a 0 0 initval"

declare jhash_loop.simps [simp del] jhash2_loop.simps [simp del]

section \<open>Words as bytes\<close>

text \<open>The bytes of a word as a little endian machine stores them.\<close>

definition bytes_of :: "u32 \<Rightarrow> byte list" where
  "bytes_of w = map (\<lambda>i. ucast (drop_bit (8 * i) w)) [0..<4]"

lemma length_bytes_of [simp]: "length (bytes_of w) = 4"
  by (simp add: bytes_of_def)

lemma bytes_of_nth: "i < 4 \<Longrightarrow> bytes_of w ! i = ucast (drop_bit (8 * i) w)"
  by (simp add: bytes_of_def)

lemma digits256:
  fixes n :: nat
  assumes "n < 4294967296"
  shows "n = n mod 256 + 256 * (n div 256 mod 256) + 65536 * (n div 65536 mod 256) + 16777216 * (n div 16777216 mod 256)"
proof -
  have q: "n div 65536 = n div 256 div 256" "n div 16777216 = n div 65536 div 256" by (simp_all flip: div_mult2_eq)
  have "n = 256 * (n div 256) + n mod 256" by (rule mult_div_mod_eq [symmetric])
  moreover have "n div 256 = 256 * (n div 65536) + n div 256 mod 256" unfolding q(1) by (rule mult_div_mod_eq [symmetric])
  moreover have "n div 65536 = 256 * (n div 16777216) + n div 65536 mod 256" unfolding q(2) by (rule mult_div_mod_eq [symmetric])
  moreover have "n div 16777216 mod 256 = n div 16777216" using assms by simp
  ultimately show ?thesis by linarith
qed

lemma unat_ucast_byte: "unat (ucast (ucast (w :: u32) :: byte) :: u32) = unat w mod 256"
  by (simp add: unsigned_ucast_eq take_bit_eq_mod unat_mod)

lemma bytes_join:
  "ucast (bytes_of w ! 0) + push_bit 8 (ucast (bytes_of w ! 1)) + push_bit 16 (ucast (bytes_of w ! 2)) +
     push_bit 24 (ucast (bytes_of w ! 3)) = w"
proof -
  have "unat w < 2 ^ LENGTH(32)" by (rule unsigned_less)
  then have d: "unat w = unat w mod 256 + 256 * (unat w div 256 mod 256) + 65536 * (unat w div 65536 mod 256) +
     16777216 * (unat w div 16777216 mod 256)" using digits256 [of "unat w"] by simp
  let ?d = "\<lambda>i. (ucast (bytes_of w ! i) :: u32)"
  have u: "unat (?d 0) = unat w mod 256" "unat (?d 1) = unat w div 256 mod 256" "unat (?d 2) = unat w div 65536 mod 256"
    "unat (?d 3) = unat w div 16777216 mod 256"
    by (simp_all add: bytes_of_nth unat_ucast_byte drop_bit_eq_div unat_div)
  have "of_nat (unat (?d 0) + 256 * unat (?d 1) + 65536 * unat (?d 2) + 16777216 * unat (?d 3)) = w"
    unfolding u d [symmetric] by simp
  then show ?thesis by (simp add: push_bit_eq_mult mult.commute)
qed


text \<open>The bytes of an array of words.\<close>

definition flat :: "u32 list \<Rightarrow> byte list" where
  "flat ws = concat (map bytes_of ws)"

lemma length_flat [simp]: "length (flat ws) = 4 * length ws"
  by (induction ws) (simp_all add: flat_def)

lemma flat_nth: "i < length ws \<Longrightarrow> j < 4 \<Longrightarrow> flat ws ! (4 * i + j) = bytes_of (ws ! i) ! j"
proof (induction ws arbitrary: i)
  case (Cons w ws)
  then show ?case by (cases i) (simp_all add: flat_def nth_append)
qed simp

lemma flat_drop: "drop (4 * n) (flat ws) = flat (drop n ws)"
proof (induction ws arbitrary: n)
  case (Cons w ws)
  then show ?case by (cases n) (simp_all add: flat_def)
qed (simp add: flat_def)

lemma word_at_flat: "i < length ws \<Longrightarrow> word_at (flat ws) (4 * i) = ws ! i"
  using flat_nth [of i ws 0] flat_nth [of i ws 1] flat_nth [of i ws 2] flat_nth [of i ws 3] bytes_join [of "ws ! i"]
  by (simp add: word_at_def)

lemma unat_times4:
  fixes len :: u32
  assumes "unat len * 4 < 2 ^ 32"
  shows "unat (4 * len) = 4 * unat len"
  using assms by (simp add: unat_word_ariths)

lemma jhash_loop_flat:
  assumes "unat len * 4 < 2 ^ 32"
  shows "jhash_loop (flat ws) (4 * len) x = andThen (jhash2_loop ws len x) (\<lambda>(k, l, y). Inr (flat k, 4 * l, y))"
  using assms
proof (induction ws len x rule: jhash2_loop.induct)
  case (1 k len a b c)
  note u = unat_times4 [OF 1(2)]
  have cmp: "12 \<le> 4 * len \<longleftrightarrow> 3 \<le> len" using u by (simp add: word_le_nat_alt)
  show ?case
  proof (cases "3 \<le> len \<and> 3 \<le> length k")
    case True
    have w: "word_at (flat k) 0 = k ! 0" "word_at (flat k) 4 = k ! 1" "word_at (flat k) 8 = k ! 2"
      using word_at_flat [of 0 k] word_at_flat [of 1 k] word_at_flat [of 2 k] True by (auto simp flip: length_greater_0_conv)
    have d: "drop 12 (flat k) = flat (drop 3 k)" using flat_drop [of 3 k] by simp
    have l: "4 * len - 12 = 4 * (len - 3)" by (simp add: algebra_simps)
    have "unat (len - 3) \<le> unat len" using True by (simp add: word_le_nat_alt unat_sub)
    then have "unat (len - 3) * 4 < 2 ^ 32" using 1(2) by linarith
    then have "jhash_loop (flat (drop 3 k)) (4 * len - 12) (jhash_mix (a + k ! 0, b + k ! 1, c + k ! 2)) =
       andThen (jhash2_loop (drop 3 k) (len - 3) (jhash_mix (a + k ! 0, b + k ! 1, c + k ! 2))) (\<lambda>(k, l, y). Inr (flat k, 4 * l, y))"
      unfolding l using 1(1) True by (simp only: not_less)
    then show ?thesis
      using True cmp by (simp add: jhash_loop.simps [of "flat k"] jhash2_loop.simps [of k] w d)
  next
    case False
    then show ?thesis using cmp by (auto simp: not_le jhash_loop.simps [of "flat k"] jhash2_loop.simps [of k])
  qed
qed

lemma jhash2_loop_rest: "jhash2_loop ws len x = Inr (k, l, y) \<Longrightarrow> l < 3 \<and> unat l \<le> unat len"
proof (induction ws len x rule: jhash2_loop.induct)
  case (1 k len a b c)
  have "unat (len - 3) \<le> unat len" if "3 \<le> len" using that by (simp add: word_le_nat_alt unat_sub)
  then show ?case using 1 by (auto simp: jhash2_loop.simps [of k len] not_le split: if_splits intro: order.trans)
qed

lemma not_le_1 [simp]: "\<not> (2 :: u32) \<le> 1" "\<not> (3 :: u32) \<le> 1"
  by (simp_all add: word_le_nat_alt)

lemma below_3: "l < (3 :: u32) \<longleftrightarrow> l = 0 \<or> l = 1 \<or> l = 2"
proof -
  have "l < 3 \<longleftrightarrow> unat l = 0 \<or> unat l = 1 \<or> unat l = 2" by (auto simp: word_less_nat_alt)
  also have "\<dots> \<longleftrightarrow> l = 0 \<or> l = 1 \<or> l = 2" by (simp add: word_eq_iff_unsigned [where ?'a = nat])
  finally show ?thesis .
qed

lemma switch_flat:
  assumes "l < 3" and "unat l \<le> length k"
  shows "jhash_switch (flat k) (4 * l) (a, b, c) = (if 1 \<le> l then a + k ! 0 else a, if 2 \<le> l then b + k ! 1 else b, c)"
proof -
  have f: "flat k ! (4 * i) = bytes_of (k ! i) ! 0" "flat k ! (4 * i + 1) = bytes_of (k ! i) ! 1"
    "flat k ! (4 * i + 2) = bytes_of (k ! i) ! 2" "flat k ! (4 * i + 3) = bytes_of (k ! i) ! 3" if "i < length k" for i
    using flat_nth [OF that, of 0] flat_nth [OF that, of 1] flat_nth [OF that, of 2] flat_nth [OF that, of 3] by simp_all
  have f0: "flat k ! 0 = bytes_of (k ! 0) ! 0" "flat k ! 1 = bytes_of (k ! 0) ! 1" "flat k ! 2 = bytes_of (k ! 0) ! 2"
    "flat k ! 3 = bytes_of (k ! 0) ! 3" if "0 < length k" using f [OF that] by (simp_all add: numeral_2_eq_2)
  have f1: "flat k ! 4 = bytes_of (k ! 1) ! 0" "flat k ! 5 = bytes_of (k ! 1) ! 1" "flat k ! 6 = bytes_of (k ! 1) ! 2"
    "flat k ! 7 = bytes_of (k ! 1) ! 3" if "1 < length k" using f [OF that] by simp_all
  have j: "x + push_bit 24 (ucast (bytes_of w ! 3)) + push_bit 16 (ucast (bytes_of w ! 2)) + push_bit 8 (ucast (bytes_of w ! 1)) +
     ucast (bytes_of w ! 0) = x + w" for x w by (subst (5) bytes_join [of w, symmetric]) (simp only: ac_simps)
  consider "l = 0" | "l = 1" | "l = 2" using assms(1) unfolding below_3 by blast
  then show ?thesis
  proof cases
    case 1
    then show ?thesis by (simp add: jhash_switch_def)
  next
    case 2
    then have "0 < length k" using assms(2) by (cases k) simp_all
    then show ?thesis using 2 f0 j [of a "k ! 0"] by (simp add: jhash_switch_def)
  next
    case 3
    then have "1 < length k" using assms(2) by simp
    moreover from this have "0 < length k" by linarith
    ultimately show ?thesis unfolding 3 jhash_switch_def using j [of a "k ! 0"] j [of b "k ! 1"] by (simp add: f0 f1 del: One_nat_def)
  qed
qed

text \<open>
  C31: the optimised \<^verbatim>\<open>jhash2\<close> for arrays of words equals the generic \<^verbatim>\<open>jhash\<close> on the bytes
  of the words on a little endian machine, also in whether they read past the key, as long as the
  length in bytes fits a word.
\<close>

theorem jhash2_eq_jhash:
  assumes "unat len * 4 < 2 ^ 32"
  shows "jhash2 ws len initval = jhash (flat ws) (4 * len) initval"
proof -
  obtain r where r: "jhash2_loop ws len (JHASH_GOLDEN_RATIO, JHASH_GOLDEN_RATIO, initval) = r" by blast
  show ?thesis
  proof (cases r)
    case (Inl e)
    then show ?thesis using r jhash_loop_flat [OF assms] by (simp add: jhash_def jhash2_def)
  next
    case (Inr y)
    obtain k l a b c where y: "y = (k, l, (a, b, c))" by (cases y) auto
    have l: "l < 3" "unat l \<le> unat len" using jhash2_loop_rest r Inr y by blast+
    then have "unat (4 * l) = 4 * unat l" using assms by (intro unat_times4) linarith
    then show ?thesis
      using r Inr y jhash_loop_flat [OF assms] switch_flat [OF l(1), of k] by (simp add: jhash_def jhash2_def Let_def mult.commute)
  qed
qed

theorem jhash2_eq_jhash_witness:
  "jhash2 [1, 2, 3, 4] 4 7 = jhash (flat [1, 2, 3, 4]) 16 7 \<and> jhash2 [1, 2, 3, 4] 4 7 = Inr 65500781"
proof
  show "jhash2 [1, 2, 3, 4] 4 7 = jhash (flat [1, 2, 3, 4]) 16 7"
    using jhash2_eq_jhash [of 4 "[1, 2, 3, 4]" 7] by simp
  show "jhash2 [1, 2, 3, 4] 4 7 = Inr 65500781"
    by (simp add: jhash2_def jhash2_loop.simps jhash_mix_def mix_round_def JHASH_GOLDEN_RATIO_def)
qed

end
