(* ===== verification/TaskTable.thy ===== *)
theory TaskTable
  imports TaskProps
begin

unbundle bit_operations_syntax

text \<open>
  The rest of the layer of \<^verbatim>\<open>TASK/\<close>: the table of tasks (\<^verbatim>\<open>tsk_util.c\<close>), and the variant for
  systems without threads (\<^verbatim>\<open>tsk_stub.c\<close>, of which \<^verbatim>\<open>tsk_win.c\<close> is a copy).
\<close>

section \<open>The table of tasks\<close>

fun tk_state_name :: "TASK_STATE \<Rightarrow> string" where
  "tk_state_name TSK_NOT_CREATED = ''NOT_CREATED''"
| "tk_state_name TSK_RUNNING = ''TSK_RUNNING''"
| "tk_state_name TSK_SLEEPING = ''TSK_SLEEPING''"
| "tk_state_name TSK_SUSPENDED = ''TSK_SUSPENDED''"

text \<open>The array of names has three entries; the number is what the creator gave.\<close>

definition tk_sched_name :: "int \<Rightarrow> string res" where
  "tk_sched_name a =
     (if a = 0 then Inr ''OTHER'' else if a = 1 then Inr ''FIFO'' else if a = 2 then Inr ''Round Robin'' else Inl OutOfBounds)"

record tk_line =
  kl_name :: string
  kl_id :: u32
  kl_stksze :: int
  kl_state :: string
  kl_prio :: int
  kl_alg :: string
  kl_pid :: u32

fun tk_lines :: "tk_addr list \<Rightarrow> tasks \<Rightarrow> tk_line list res" where
  "tk_lines [] s = Inr []"
| "tk_lines (TkHd # as) s = Inl NullDeref"
| "tk_lines (TkNode p # as) s =
     andThen (deref (tk_tasks s) (Some p)) (\<lambda>t.
     andThen (tk_sched_name (tk_schedalgo t)) (\<lambda>alg.
     andThen (tk_lines as s) (\<lambda>ls.
       Inr (\<lparr>kl_name = tk_name t, kl_id = tk_id t, kl_stksze = tk_stksze t, kl_state = tk_state_name (tk_state t),
             kl_prio = tk_prio t, kl_alg = alg, kl_pid = tk_pid t\<rparr> # ls))))"

definition tk_dump_task_info :: "tasks \<Rightarrow> tk_line list res" where
  "tk_dump_task_info s = (case list_for_each TkHd (tk_links s) of None \<Rightarrow> Inl NoReturn | Some as \<Rightarrow> tk_lines as s)"

text \<open>The releasing calls: with threads they give resources back, with the library they do nothing.\<close>

definition deinit_tsk :: int where "deinit_tsk = TSK_SUCCESS"

definition tsk_cancel :: "u32 \<Rightarrow> tasks \<Rightarrow> tasks" where
  "tsk_cancel i s = s\<lparr>tk_cancelled := i # tk_cancelled s\<rparr>"

section \<open>Without threads\<close>

text \<open>\<^verbatim>\<open>start_task\<close> claims success and starts nothing.\<close>

definition stub_start_task :: "tasks \<Rightarrow> int \<times> tasks" where
  "stub_start_task s = (TSK_SUCCESS, s)"

definition stub_task_create ::
    "nat option \<Rightarrow> string \<Rightarrow> int \<Rightarrow> int \<Rightarrow> int \<Rightarrow> nat \<Rightarrow> nat option \<Rightarrow> nat \<Rightarrow> tasks \<Rightarrow> (int \<times> tasks) res" where
  "stub_task_create new tskname tsk_prio sched_alg stk_size start exit_r arg s =
     andThen (prepare_task False new tskname tsk_prio sched_alg stk_size start exit_r arg s) (\<lambda>(q, s).
     case q of None \<Rightarrow> Inr (TSK_FAILURE, s) | Some p \<Rightarrow> Inr (stub_start_task s))"

text \<open>
  \<^verbatim>\<open>while (secs--)\<close> with \<^verbatim>\<open>nsecs--\<close> in its body: the counters are 32 bit integers, and counting below
  the smallest one is an overflow (\<open>None\<close>).
\<close>

function stub_delay_loop :: "int \<Rightarrow> int \<Rightarrow> int option" where
  "stub_delay_loop secs nsecs =
     (if secs = 0 then Some nsecs
      else if secs \<le> - (2 ^ 31) \<or> nsecs \<le> - (2 ^ 31) then None
      else stub_delay_loop (secs - 1) (nsecs - 1))"
  by pat_completeness auto
termination
  by (relation "measure (\<lambda>(secs, nsecs). nat (secs + 2 ^ 31))") auto

function stub_sleep_loop :: "int \<Rightarrow> unit option" where
  "stub_sleep_loop secs = (if secs = 0 then Some () else if secs \<le> - (2 ^ 31) then None else stub_sleep_loop (secs - 1))"
  by pat_completeness auto
termination
  by (relation "measure (\<lambda>secs. nat (secs + 2 ^ 31))") auto

definition stub_tsk_delay :: "int \<Rightarrow> unit option" where
  "stub_tsk_delay msecs =
     (if msecs * 1000 < - (2 ^ 31) \<or> 2 ^ 31 \<le> msecs * 1000 then None else stub_sleep_loop (msecs * 1000))"

declare stub_delay_loop.simps [simp del] stub_sleep_loop.simps [simp del]

text \<open>One turn of the loop of \<^verbatim>\<open>evt_rx\<close>, which does not give up the processor.\<close>

definition stub_evt_rx :: "u32 \<Rightarrow> u32 \<Rightarrow> tasks \<Rightarrow> (u32 option call \<times> tasks) res" where
  "stub_evt_rx tskid ev s =
     andThen (get_tsk_info_frm_id tskid s) (\<lambda>q.
     if q = None then Inr (Returned None, s)
     else andThen (deref (tk_tasks s) q) (\<lambda>t.
       if curr_evt t AND ev \<noteq> 0
       then andThen (on_task q (\<lambda>t. t\<lparr>curr_evt := 0\<rparr>) s) (\<lambda>s. Inr (Returned (Some (curr_evt t)), s))
       else Inr (Blocked, s)))"

definition stub_evt_snd :: "u32 \<Rightarrow> u32 \<Rightarrow> tasks \<Rightarrow> tasks res" where
  "stub_evt_snd tskid ev s =
     andThen (get_tsk_info_frm_id tskid s) (\<lambda>q.
     on_task q (\<lambda>t. t\<lparr>prev_evt := curr_evt t, curr_evt := curr_evt t OR ev\<rparr>) s)"

section \<open>Properties\<close>

lemma tk_lines_ok:
  assumes "\<forall>p\<in>set ps. tk_tasks s p \<noteq> None"
  shows "if \<forall>p\<in>set ps. tk_schedalgo (tk_at s p) \<in> {0, 1, 2}
     then \<exists>ls. tk_lines (map TkNode ps) s = Inr ls \<and> map kl_id ls = map (\<lambda>p. tk_id (tk_at s p)) ps
     else tk_lines (map TkNode ps) s = Inl OutOfBounds"
  using assms
proof (induction ps)
  case (Cons p ps)
  obtain t where t: "tk_tasks s p = Some t" using Cons.prems by auto
  show ?case
  proof (cases "tk_schedalgo t \<in> {0, 1, 2}")
    case True
    then obtain n where "tk_sched_name (tk_schedalgo t) = Inr n" by (auto simp: tk_sched_name_def)
    then show ?thesis using Cons t True by (auto split: if_splits)
  next
    case False
    then have "tk_sched_name (tk_schedalgo t) = Inl OutOfBounds" by (simp add: tk_sched_name_def)
    then show ?thesis using t False by simp
  qed
qed simp

text \<open>
  the table of tasks has one line for every task on the list, in its order, when all scheduling
  algorithms are known; one task with another number, which \<^verbatim>\<open>task_create\<close> accepts, makes it read past
  the array of names.
\<close>

theorem tk_dump_lists_tasks:
  assumes "tk_inv s ps"
  shows "if \<forall>p\<in>set ps. tk_schedalgo (tk_at s p) \<in> {0, 1, 2}
     then \<exists>ls. tk_dump_task_info s = Inr ls \<and> map kl_id ls = map (\<lambda>p. tk_id (tk_at s p)) ps
     else tk_dump_task_info s = Inl OutOfBounds"
  using tk_lines_ok [of ps s] tk_invD(3) [OF assms] list_for_each_dlist [OF tk_invD(1) [OF assms]]
  by (simp add: tk_dump_task_info_def)

lemma stub_delay_negative: "secs < 0 \<Longrightarrow> stub_delay_loop secs nsecs = None"
proof (induction secs nsecs rule: stub_delay_loop.induct)
  case (1 secs nsecs)
  then show ?case by (subst stub_delay_loop.simps) auto
qed

lemma stub_sleep_ends: "stub_sleep_loop secs = (if 0 \<le> secs then Some () else None)"
proof (induction secs rule: stub_sleep_loop.induct)
  case (1 secs)
  then show ?case by (subst stub_sleep_loop.simps) auto
qed

text \<open>
  the delays of the variant without threads count down: from a number that is not negative they
  end, from a negative one they run into an overflow, and so does \<^verbatim>\<open>tsk_delay\<close> when a thousand times
  its argument is no integer.
\<close>

theorem stub_delay_ends:
  assumes "secs \<le> nsecs"
  shows "stub_delay_loop secs nsecs = (if 0 \<le> secs then Some (nsecs - secs) else None) \<and>
     (stub_tsk_delay msecs = Some () \<longleftrightarrow> 0 \<le> msecs \<and> msecs * 1000 < 2 ^ 31)"
proof -
  have "stub_delay_loop secs nsecs = (if 0 \<le> secs then Some (nsecs - secs) else None)"
  proof (cases "0 \<le> secs")
    case True
    then show ?thesis using assms
    proof (induction secs nsecs rule: stub_delay_loop.induct)
      case (1 secs nsecs)
      then show ?case by (subst stub_delay_loop.simps) auto
    qed
  qed (simp add: stub_delay_negative)
  then show ?thesis by (auto simp: stub_tsk_delay_def stub_sleep_ends)
qed

text \<open>
  in the variant without threads \<^verbatim>\<open>task_create\<close> reports success, but the task never comes on the
  list: it is not found, cannot receive events, and sending it one follows NULL.
\<close>

theorem stub_task_not_listed:
  assumes "tk_inv s ps" and "p \<notin> set ps" and "MIN_THREAD_STACK_SIZE \<le> stk" and "5 \<le> length name"
    and "\<forall>x\<in>set ps. tk_id (tk_at s x) \<noteq> i"
  shows "\<exists>s'. stub_task_create (Some p) name pr alg stk start exit_r arg s = Inr (TSK_SUCCESS, s') \<and> tk_inv s' ps \<and>
     stub_evt_rx i ev s' = Inr (Returned None, s') \<and> stub_evt_snd i ev s' = Inl NullDeref"
proof -
  let ?s = "s\<lparr>tk_tasks := (tk_tasks s)(p \<mapsto> new_task name pr alg stk start exit_r arg), g_tsks_crtd := g_tsks_crtd s + 1\<rparr>"
  have "tk_inv ?s ps" using assms(1) by (simp add: tk_inv_def)
  moreover have "find (\<lambda>x. tk_id (tk_at ?s x) = i) ps = None" using assms(2,5) by (auto simp: find_None_iff)
  ultimately have "get_tsk_info_frm_id i ?s = Inr None" using find_tsk_eq [of ?s ps] by (simp add: get_tsk_info_frm_id_def)
  then show ?thesis using \<open>tk_inv ?s ps\<close>
    by (intro exI [of _ ?s]) (simp add: stub_task_create_def prepare_task_ok [OF assms(3,4)] stub_start_task_def
        stub_evt_rx_def stub_evt_snd_def on_task_def)
qed

section \<open>Witnesses\<close>

theorem tk_dump_lists_tasks_witness:
  "\<exists>ls. tk_dump_task_info demo_tasks = Inr ls \<and> map kl_id ls = [70]"
  using tk_dump_lists_tasks [OF demo_tasks_inv] by (simp add: demo_tasks_def zero_tmtask_def)

theorem stub_delay_ends_witness: "stub_delay_loop 3 5 = Some 2 \<and> stub_delay_loop (- 1) 0 = None"
  using stub_delay_ends [of 3 5] stub_delay_ends [of "- 1" 0] by simp

theorem stub_task_not_listed_witness:
  "\<exists>s'. stub_task_create (Some 8) ''TMRTHF'' 99 2 32000 5 None 6 demo_tasks = Inr (TSK_SUCCESS, s') \<and>
     stub_evt_snd 80 1 s' = Inl NullDeref"
proof -
  have "\<forall>x\<in>set [7]. tk_id (tk_at demo_tasks x) \<noteq> 80" by (simp add: demo_tasks_def)
  from stub_task_not_listed [OF demo_tasks_inv _ _ _ this, of 8 32000 "''TMRTHF''" 99 2 5 None 6 1] show ?thesis
    by (auto simp: MIN_THREAD_STACK_SIZE_def)
qed

end
