(* ===== verification/TaskSched.thy ===== *)
theory TaskSched
  imports TaskProps ThreadProps OsSwitch
begin

text \<open>
  The layer of \<^verbatim>\<open>TASK/\<close> on the library's own tasks (\<^verbatim>\<open>tsk_sched.c\<close>): what a created task is for the
  scheduler, and what it is for the layer.
\<close>

section \<open>The calls that go to the library\<close>

definition tsk_selfid_sfs :: "sched \<Rightarrow> int res" where
  "tsk_selfid_sfs k = task_selfid k"

definition get_tsk_pid_sfs :: "sched \<Rightarrow> int res" where
  "get_tsk_pid_sfs k = tsk_selfid_sfs k"

text \<open>The id is an unsigned number for the layer and a signed one for the library.\<close>

definition tsk_cancel_sfs :: "u32 \<Rightarrow> sched \<Rightarrow> sched res" where
  "tsk_cancel_sfs task_id k = andThen (task_cancel (sint task_id) k) (\<lambda>(_, k). Inr k)"

section \<open>Creating a task\<close>

lemma prepare_task_sfs_ok:
  assumes "MIN_THREAD_STACK_SIZE \<le> stk" and "5 \<le> length name"
  shows "prepare_task True (Some p) name pr alg stk start exit_r arg s =
     Inr (Some p, s\<lparr>tk_tasks := (tk_tasks s)(p \<mapsto> (new_task name pr alg stk start exit_r arg)
       \<lparr>tk_attr := \<lparr>attr_stksze = stk, attr_prio = pr, attr_schedalgo = alg\<rparr>\<rparr>), g_tsks_crtd := g_tsks_crtd s + 1\<rparr>)"
  using assms
  by (simp add: prepare_task_def validate_tsk_params_def TSK_SUCCESS_def TSK_FAILURE_def tsk_alloc_def fill_tsk_info_def
      TK_MAX_TASK_NAME_def init_tsk_def init_tsk_attr_def new_task_def zero_tmtask_def zero_attr_def Let_def)

lemma task_create_sfs_ok:
  assumes tk: "tk_inv s ps" "p \<notin> set ps" and ok: "MIN_THREAD_STACK_SIZE \<le> stk" "5 \<le> length name" and inv: "sched_inv f u k"
    and ae: "a_new ae = Some i" "a_stk ae" "tsks k i = None" and pr: "0 \<le> pr" "pr < int MAX_PRIO" and c: "task_count k + 1 \<noteq> 0"
  shows "\<exists>s' k' t. task_create_sfs (Some p) ae name pr alg stk start exit_r arg s k = Inr (TSK_SUCCESS, Some i, s', k') \<and>
     tk_inv s' ps \<and> (\<forall>q\<in>set ps. tk_tasks s' q = tk_tasks s q) \<and> tk_tasks s' p = None \<and>
     sched_inv (f(RqHd (nat pr) := f (RqHd (nat pr)) @ [TskHd i])) u k' \<and>
     tsks k' = (tsks k)(i \<mapsto> t) \<and> tid t = taskid k + 1 \<and> prio t = pr \<and> taskname t = take TK_MAX_TASK_NAME name"
proof -
  let ?n = "(new_task name pr alg stk start exit_r arg)\<lparr>tk_attr := \<lparr>attr_stksze = stk, attr_prio = pr, attr_schedalgo = alg\<rparr>\<rparr>"
  have "8 \<le> stk" using ok(1) by (simp add: MIN_THREAD_STACK_SIZE_def)
  then obtain k' t where k': "spawn_task ae (tk_name ?n) (tk_attr ?n) True k = Inr (Some i, k')"
    "sched_inv (f(RqHd (nat pr) := f (RqHd (nat pr)) @ [TskHd i])) u k'" "tsks k' = (tsks k)(i \<mapsto> t)" "tid t = taskid k + 1" "prio t = pr"
    "taskname t = take MAX_TASK_NAME (tk_name ?n)"
    using spawn_task_inv [OF inv ae, of "tk_attr ?n" "tk_name ?n"] pr c by auto
  let ?s = "s\<lparr>tk_tasks := (tk_tasks s)(p := None), g_tsks_crtd := g_tsks_crtd s + 1\<rparr>"
  have "task_create_sfs (Some p) ae name pr alg stk start exit_r arg s k = Inr (TSK_SUCCESS, Some i, ?s, k')"
    using k'(1) by (simp add: task_create_sfs_def prepare_task_sfs_ok [OF ok] start_task_sfs_def tsk_dealloc_def)
  moreover have "tk_inv ?s ps" using tk by (auto simp: tk_inv_def)
  moreover have "taskname t = take TK_MAX_TASK_NAME name" using k'(6) by (simp add: new_task_def TK_MAX_TASK_NAME_def MAX_TASK_NAME_def)
  ultimately show ?thesis using k'(2-5) tk(2) by (intro exI [of _ ?s] exI [of _ k'] exI [of _ t]) auto
qed

text \<open>
  C34: \<^verbatim>\<open>task_create\<close> of the build on the library puts exactly one new task at the end of the run queue of
  its priority, with its name cut to six characters, and keeps the invariants of the scheduler and of the
  layer.  The record of the layer is freed at once: the list of the layer is what it was.
\<close>

theorem task_create_sfs_queues:
  assumes "tk_inv s ps" "p \<notin> set ps" and "MIN_THREAD_STACK_SIZE \<le> stk" "5 \<le> length name" and "sched_inv f u k"
    and "a_new ae = Some i" "a_stk ae" "tsks k i = None" and "0 \<le> pr" "pr < int MAX_PRIO" and "task_count k + 1 \<noteq> 0"
  shows "\<exists>s' k' t. task_create_sfs (Some p) ae name pr alg stk start exit_r arg s k = Inr (TSK_SUCCESS, Some i, s', k') \<and>
     tk_inv s' ps \<and> (\<forall>q\<in>set ps. tk_tasks s' q = tk_tasks s q) \<and> tk_tasks s' p = None \<and>
     sched_inv (f(RqHd (nat pr) := f (RqHd (nat pr)) @ [TskHd i])) u k' \<and>
     tsks k' = (tsks k)(i \<mapsto> t) \<and> tid t = taskid k + 1 \<and> prio t = pr \<and> taskname t = take TK_MAX_TASK_NAME name"
  by (rule task_create_sfs_ok [OF assms])

lemma no_such_tid:
  assumes "sched_inv f u k" and "\<And>q t. tsks k q = Some t \<Longrightarrow> tid t \<noteq> j"
  shows "task_cancel j k = Inr (0, k)"
proof -
  have "find_task j k = Inr None"
    using find_task_eq [OF assms(1), of j] tid_in_Some [of j k "concat (map f search_order)"] assms(2)
    by (cases "tid_in j k (concat (map f search_order))") auto
  then show ?thesis by (simp add: task_cancel_def kill_task_def)
qed

text \<open>
  a task that \<^verbatim>\<open>task_create\<close> of this build has made cannot be removed through the layer: it is not on
  the list, so \<^verbatim>\<open>task_delete\<close> fails for every name and id that was not there before, and the id that
  \<^verbatim>\<open>task_create\<close> returns is the address of the task, while \<^verbatim>\<open>tsk_cancel\<close> expects its number and does
  nothing.
\<close>

theorem task_create_sfs_not_removable:
  assumes "tk_inv s ps" "p \<notin> set ps" and "MIN_THREAD_STACK_SIZE \<le> stk" "5 \<le> length name" and "sched_inv f u k"
    and "a_new ae = Some i" "a_stk ae" "tsks k i = None" and "0 \<le> pr" "pr < int MAX_PRIO" and "task_count k + 1 \<noteq> 0"
    and unknown: "\<forall>q\<in>set ps. tk_name (tk_at s q) \<noteq> nm \<or> tk_id (tk_at s q) \<noteq> j"
    and numbers: "\<forall>q t. tsks k q = Some t \<longrightarrow> tid t \<noteq> sint (of_nat i :: u32)" "taskid k + 1 \<noteq> sint (of_nat i :: u32)"
  shows "\<exists>s' k'. task_create_sfs (Some p) ae name pr alg stk start exit_r arg s k = Inr (TSK_SUCCESS, Some i, s', k') \<and>
     task_delete self nm j s' = Inr (TSK_FAILURE, s') \<and> tsk_cancel_sfs (of_nat i) k' = Inr k'"
proof -
  obtain s' k' t where c: "task_create_sfs (Some p) ae name pr alg stk start exit_r arg s k = Inr (TSK_SUCCESS, Some i, s', k')"
    "tk_inv s' ps" "\<forall>q\<in>set ps. tk_tasks s' q = tk_tasks s q" "sched_inv (f(RqHd (nat pr) := f (RqHd (nat pr)) @ [TskHd i])) u k'"
    "tsks k' = (tsks k)(i \<mapsto> t)" "tid t = taskid k + 1"
    using task_create_sfs_ok [OF assms(1-11)] by blast
  have "find (\<lambda>q. tk_name (tk_at s' q) = nm \<and> tk_id (tk_at s' q) = j) ps = None" using unknown c(3) by (auto simp: find_None_iff)
  then have "get_tsk_info nm j s' = Inr None" using find_tsk_eq [OF c(2)] by (simp add: get_tsk_info_def)
  then have "task_delete self nm j s' = Inr (TSK_FAILURE, s')" by (simp add: task_delete_def)
  moreover have "task_cancel (sint (of_nat i :: u32)) k' = Inr (0, k')"
    using numbers c(5,6) by (intro no_such_tid [OF c(4)]) (auto split: if_splits)
  ultimately show ?thesis using c(1) by (auto simp: tsk_cancel_sfs_def)
qed

section \<open>Witnesses\<close>

theorem task_create_sfs_queues_witness:
  "\<exists>k s' k'. demo_boot = Inr (Some 2, k) \<and>
     task_create_sfs (Some 8) (demo_env 4096) ''worker-thread'' 7 0 32000 5 None 6 demo_tasks k = Inr (TSK_SUCCESS, Some 4096, s', k') \<and>
     sched_inv ((boot_queues 2)(RqHd 7 := [TskHd 4096])) (Some 0) k'"
proof (rule demo_state)
  fix k assume k: "demo_boot = Inr (Some 2, k)" "sched_inv (boot_queues 2) (Some 0) k" "tsks k = boot_tasks (demo_env 1) (demo_env 2) 0 0 1 2"
    "task_count k = 2"
  have "boot_queues 2 (RqHd 7) = []" by (simp add: boot_queues_def)
  with task_create_sfs_queues [OF demo_tasks_inv, of 8 32000 "''worker-thread''" "boot_queues 2" "Some 0" k "demo_env 4096" 4096 7 0 5 None 6] k
  show ?thesis by (auto simp: demo_env_def MAX_PRIO_def MIN_THREAD_STACK_SIZE_def boot_tasks_def)
qed

theorem task_create_sfs_not_removable_witness:
  "\<exists>k s' k'. demo_boot = Inr (Some 2, k) \<and>
     task_create_sfs (Some 8) (demo_env 4096) ''worker-thread'' 7 0 32000 5 None 6 demo_tasks k = Inr (TSK_SUCCESS, Some 4096, s', k') \<and>
     task_delete 70 ''worker'' 4096 s' = Inr (TSK_FAILURE, s') \<and> tsk_cancel_sfs (of_nat 4096) k' = Inr k'"
proof (rule demo_state)
  fix k assume k: "demo_boot = Inr (Some 2, k)" "sched_inv (boot_queues 2) (Some 0) k" "tsks k = boot_tasks (demo_env 1) (demo_env 2) 0 0 1 2"
    "task_count k = 2" "taskid k = 3"
  have i: "sint (of_nat 4096 :: u32) = 4096" by simp
  have n: "\<forall>q\<in>set [7]. tk_name (tk_at demo_tasks q) \<noteq> ''worker'' \<or> tk_id (tk_at demo_tasks q) \<noteq> 4096"
    by (simp add: demo_tasks_def)
  have "\<forall>q t. tsks k q = Some t \<longrightarrow> tid t \<noteq> sint (of_nat 4096 :: u32)" "taskid k + 1 \<noteq> sint (of_nat 4096 :: u32)"
    unfolding i using k(3,5) by (auto simp: boot_tasks_def new_tsk_def zero_tsk_def split: if_splits)
  from task_create_sfs_not_removable [OF demo_tasks_inv _ _ _ k(2) _ _ _ _ _ _ n this, of 8 32000 "''worker-thread''" "demo_env 4096" 7 0 5 None 6 70] k
  show ?thesis by (auto simp: demo_env_def MAX_PRIO_def MIN_THREAD_STACK_SIZE_def boot_tasks_def)
qed

end
