(* ===== verification/Spec2Isabelle.thy ===== *)
theory Spec2Isabelle
  imports Lock Semaphore MsgQueue KlistEntry SysReach KernelRun TimerLate OsProps IoProps RbAugment TimerThreads HashProps Jhash TaskTable TaskSched
begin

text \<open>
  A verification development for TmULThreads, a user-level thread library for Linux: tasks with
  their own stacks, scheduled by priority on one kernel thread, with events, locks, memory pools,
  message queues, blocking I/O and timers.

  \<^bold>\<open>The program.\<close>  \<^verbatim>\<open>core/sched.c\<close> keeps the running task, the run queues (one list per
  priority), the wait queue and a cached woken task; every blocking call and every tick ends in
  \<^verbatim>\<open>schedule\<close>, which picks the next task and switches to it.  \<^verbatim>\<open>core/thread_lib.c\<close> creates and
  removes tasks and builds events and signals on the queues, \<^verbatim>\<open>core/iostream.c\<close> keeps one wait
  queue per descriptor, \<^verbatim>\<open>core/lock.c\<close> one per lock, \<^verbatim>\<open>core/interrupt.c\<close> delivers signals and
  wakes the waiters of a descriptor.  All queues are the doubly linked lists of \<^verbatim>\<open>cmn/list.h\<close>.
  \<^verbatim>\<open>mem/mem_main.c\<close> hands out blocks of fixed size from pools, \<^verbatim>\<open>core/msg_queue.c\<close> keeps message
  queues in such pools, \<^verbatim>\<open>cmn/hashlib.c\<close> hash tables.  \<^verbatim>\<open>TIMERS/\<close> keeps running timers in
  the red-black trees of \<^verbatim>\<open>cmn/rbtree.c\<close>, one for ticks, seconds, minutes and hours each, and
  \<^verbatim>\<open>TASK/\<close> is a layer of named tasks with events over POSIX threads or over the library.
  The parts meet in the tick interrupt: it advances the clock of the timers and the time slice of
  the running task, and when timers are due it wakes the task of the soft interrupts
  (\<^verbatim>\<open>core/soft_irq.c\<close>), whose pass runs the bottom half of the timers, which wakes the tasks
  that sleep.

  \<^bold>\<open>Conventions.\<close>  A C fault is a value: every operation that can follow a NULL or freed pointer,
  divide by zero, index outside an array or raise a signal returns \<^typ>\<open>'a res\<close>, whose left side
  names the fault.  Pointers to tasks, control blocks and tree nodes are natural numbers, NULL is
  \<^term>\<open>None\<close>; unsigned counters and addresses are 32 bit words, signed counters that cannot
  overflow are integers.  What the operating system contributes (the time, the result of a system
  call, the result of an allocation, what a signal handler does) is an argument, in the records
  \<open>env\<close>, \<open>alloc_env\<close> and \<open>mem_env\<close>.  \<^verbatim>\<open>nsetjmp\<close> and \<^verbatim>\<open>nlongjmp\<close> are the change of
  the running task: a call that gives up the processor ends with \<open>Blocked\<close>, and its task goes on
  in a later step.  The machine has 32 bit words.  \<^verbatim>\<open>build/make.h\<close> chooses whether
  \<^verbatim>\<open>SFS_WANTED\<close> is defined (the library schedules the tasks itself): the scheduler is the code
  built with it; the timers, the locks, the message queues and the task layer have both variants, by
  an argument \<open>sfs\<close> or by definitions of their own.

  \<^bold>\<open>Theories.\<close>
  \<^item> Prelude: faults, sequencing, integer division, lemmas on lists and words.
  \<^item> Klist, KlistProps: \<^verbatim>\<open>cmn/list.h\<close> on a heap of links.  \<open>dlist h a xs\<close> says that the head
    \<open>a\<close> stands for the sequence \<open>xs\<close>; the locale \<open>list_queues\<close> is the interface the queues
    of the program rely on, interpreted on the routines.  KlistEntry: the traversals by structures,
    on machine addresses; the locale \<open>entry_walk\<close> is what the safe ones rely on, interpreted
    forwards and backwards.
  \<^item> SchedState, Sched: the task structure, the globals and the operations of the scheduler.
    SchedInv has the invariant \<open>sched_inv\<close> (the lists are well formed, a task is on one queue at
    most, on some run queue exactly when it is marked so, and the counters are the lengths),
    SchedOps and SchedRun its preservation, SchedProps what a pass and a sequence of passes run.
  \<^item> ThreadLib, ThreadInv, ThreadProps: tasks, start-up, events, signals and blocking I/O.
  \<^item> Kernel: the step relation of the whole kernel and its invariant.  KernelRun: executions from
    start-up on, with delivered signals and cancelled tasks; a cancellation leaves the counters one
    too high, so the invariant is stated up to that drift.
  \<^item> IoSetup, IoProps: how descriptors, signals and message queues are set up with the operating
    system, select, and the wrappers of \<^verbatim>\<open>core/common.c\<close>; what the code has told the operating
    system is the record \<open>osys\<close>.
  \<^item> Lock: locks, with the traces of lock and unlock calls of all tasks.  Semaphore: the locks of
    the build on threads, as a state machine of threads that run at the same time.
  \<^item> Mempool: memory pools; the locale \<open>block_pool\<close> is the contract of an allocator of blocks.
  \<^item> MsgQueue: message queues as a refinement of a bounded FIFO.
  \<^item> Rbtree: the routines of \<^verbatim>\<open>cmn/rbtree.c\<close> on a heap of nodes; RbInsert and RbErase relate the
    heap to trees and to trees with a hole (the position a loop is at) and show what the loops
    do; RbWalk has the properties, RbFrame which nodes the routines leave alone, RbAugment the
    variants that keep data of a node up to date with its children.
  \<^item> Timers: the operations of \<^verbatim>\<open>TIMERS/\<close>.  TimerFields reads the packed time as digits,
    TimerTree shows that the trees are search trees, TimerWheel has the invariant \<open>tmr_inv\<close> and
    the set \<open>pending\<close> of running timers with their deadlines, TimerTick and TimerClock what a tick
    does, TimerStart what starting and stopping does; TimerProps has the properties.
    TimerFrame says what of a timer the clock leaves alone (the locale \<open>timer_view\<close>).  TimerReuse
    has the timers that are armed again, the remaining time and the uptime, TimerLate what happens
    when the soft interrupt of a tick is served late.  TimerExpiry has the locale
    \<open>timeout_handlers\<close>: whatever the handlers of timers do, as long as they follow its laws, the
    bottom half calls those of the expired timers in order; it is interpreted on the tasks that
    sleep (SysTime) and on the handlers of an application (TimerThreads).
  \<^item> TimerThreads: the two tasks that drive the timers in the build on threads, on the task layer, as
    interleaved steps (a tick; receiving, testing, handling one expired timer).
  \<^item> SoftIrq: the state \<open>sys\<close> of the whole library, an extension of the state of the timers by
    the scheduler, the pools and the soft interrupts; the soft interrupts, the tick interrupt, the
    sleeping calls and \<^verbatim>\<open>tmlib_init\<close>.  SoftIrqProps has the passes over the soft interrupts,
    SysTime what the expiry of timers does to the scheduler, SysProps the invariant \<open>sys_ok\<close> of the
    library and what a tick, a sleep and the start-up do, SysReach the library as a state machine, in
    which every sleep ends at its deadline as long as the soft interrupt of a tick is served before the
    next tick (TimerLate shows what happens otherwise) and no task is cancelled.
  \<^item> OsSwitch, OsProps: the routines that go through all tasks (the table of tasks, the stack
    traces) and the switch to threads of the operating system and back.
  \<^item> Hashlib, HashProps: the hash tables as bounded maps; the locale \<open>bounded_map\<close> is their
    contract.  Jhash: the hash functions.
  \<^item> TaskLayer, TaskProps: the layer of \<^verbatim>\<open>TASK/\<close>.  TaskTable: its table of tasks, and the variant
    for systems without threads.  TaskSched: the layer on the library's own tasks.

  \<^bold>\<open>Loops.\<close>  Loops over the priorities and over arrays end by a measure.  Loops along
  pointers are \<^theory_text>\<open>partial_function (option)\<close>, where \<^term>\<open>None\<close> is not returning; for well
  formed structures the theorems state that they return.

  \<^bold>\<open>Not modelled.\<close>  The assembly of register save and restore; wrappers of a single call of the
  operating system; \<^verbatim>\<open>core/multi_core.c\<close>, which does not compile, \<^verbatim>\<open>core/idx.c\<close>, which no Makefile
  builds, and \<^verbatim>\<open>TASK/src/tsk_win.c\<close>, a copy of \<^verbatim>\<open>tsk_stub.c\<close>; the demonstration program
  \<^verbatim>\<open>t.c\<close> and test commands; \<^verbatim>\<open>seg_fault\<close>, which is not registered; and of the table of tasks the line with the time and the floating point hit rate.
  What is printed is the result of a definition.
\<close>

end
